(* ===== verification/Rift_Prelude.thy ===== *)
theory Rift_Prelude
  imports Main "HOL-Library.Word" "HOL-Library.List_Lexorder" "HOL-Library.Monad_Syntax"
begin

text \<open>
  Shared ground of the development: the machine types of the Go sources, big-endian
  encoding of unsigned integers (\<^verbatim>\<open>encoding/binary.BigEndian\<close>), byte-string comparison
  (\<^verbatim>\<open>bytes.Compare\<close>), binary search (\<^verbatim>\<open>sort.Search\<close>), and the generic list facts the
  components use.  The collection \<open>rift_codec\<close> gathers the decoding laws of every wire
  format, so that a round trip of a composite format is one \<open>simp\<close> call.
\<close>

unbundle bit_operations_syntax

named_theorems rift_codec \<open>decoding laws of the wire formats\<close>

type_synonym byte = "8 word"
type_synonym bytes = "byte list"
type_synonym u32 = "32 word"
type_synonym u64 = "64 word"

section \<open>Big-endian integers\<close>

fun be_bytes :: "nat \<Rightarrow> 'a::len word \<Rightarrow> bytes" where
  "be_bytes 0 w = []"
| "be_bytes (Suc n) w = ucast (drop_bit (8 * n) w) # be_bytes n w"

definition be_val :: "bytes \<Rightarrow> 'a::len word" where
  "be_val bs = foldl (\<lambda>acc b. push_bit 8 acc OR ucast b) 0 bs"

lemma length_be_bytes [simp]: "length (be_bytes n w) = n"
  by (induction n) auto

lemma foldl_be_bytes:
  "foldl (\<lambda>acc b. push_bit 8 acc OR ucast b) acc (be_bytes n (w::'a::len word)) =
     push_bit (8 * n) acc OR take_bit (8 * n) w"
proof (induction n arbitrary: acc)
  case 0
  show ?case by simp
next
  case (Suc n)
  have "push_bit (8 * n) (push_bit 8 acc OR ucast (ucast (drop_bit (8 * n) w) :: byte))
          OR take_bit (8 * n) w = push_bit (8 * Suc n) acc OR take_bit (8 * Suc n) w"
    by (rule bit_word_eqI) (auto simp: bit_simps add.commute)
  then show ?case by (simp add: Suc.IH)
qed

lemma be_val_be_bytes: "LENGTH('a) \<le> 8 * n \<Longrightarrow> be_val (be_bytes n (w::'a::len word)) = w"
  by (simp add: be_val_def foldl_be_bytes take_bit_word_eq_self)

text \<open>Comparing equally long big-endian encodings byte by byte compares the numbers.\<close>

fun be_nat :: "bytes \<Rightarrow> nat" where
  "be_nat [] = 0"
| "be_nat (b # bs) = unat b * 256 ^ length bs + be_nat bs"

lemma be_nat_less: "be_nat bs < 256 ^ length bs"
proof (induction bs)
  case Nil
  show ?case by simp
next
  case (Cons b bs)
  have "unat b + 1 \<le> 256"
    using unsigned_less [of b, where ?'a = nat] by simp
  then have "(unat b + 1) * 256 ^ length bs \<le> 256 * 256 ^ length bs"
    by (rule mult_right_mono) simp
  then have "unat b * 256 ^ length bs + 256 ^ length bs \<le> 256 * 256 ^ length bs"
    by (simp only: distrib_right mult_1)
  with Cons show ?case unfolding be_nat.simps list.size add_0_right add_Suc_right power_Suc
    by linarith
qed

lemma be_nat_less_iff: "length xs = length ys \<Longrightarrow> xs < ys \<longleftrightarrow> be_nat xs < be_nat ys"
proof (induction xs ys rule: list_induct2)
  case Nil
  show ?case by simp
next
  case (Cons x xs y ys)
  have lt: "be_nat (a # as) < be_nat (b # bs)"
    if "a < b" "length as = length bs" for a b :: byte and as bs
  proof -
    have "unat a + 1 \<le> unat b"
      using that(1) by (simp add: word_less_nat_alt)
    then have "(unat a + 1) * 256 ^ length as \<le> unat b * 256 ^ length as"
      by (rule mult_right_mono) simp
    moreover have "be_nat as < 256 ^ length as"
      by (rule be_nat_less)
    ultimately show ?thesis using that(2) by (simp add: algebra_simps)
  qed
  consider "x < y" | "x = y" | "y < x" by fastforce
  then show ?case
  proof cases
    case 1
    with Cons lt [of x y xs ys] show ?thesis by simp
  next
    case 2
    with Cons show ?thesis by simp
  next
    case 3
    with Cons lt [of y x ys xs] show ?thesis by (auto simp: not_less)
  qed
qed

lemma be_nat_be_bytes: "be_nat (be_bytes n (w::'a::len word)) = unat w mod 256 ^ n"
proof (induction n)
  case 0
  show ?case by simp
next
  case (Suc n)
  have "unat (ucast (drop_bit (8 * n) w) :: byte) = unat w div 2 ^ (8 * n) mod 256"
    by (simp add: unsigned_ucast_eq unat_drop_bit_eq flip: drop_bit_eq_div take_bit_eq_mod) (simp add: take_bit_eq_mod)
  also have "(2::nat) ^ (8 * n) = 256 ^ n"
    by (simp add: power_mult)
  finally show ?case
    by (simp add: Suc.IH) (metis mod_mult2_eq mult.commute)
qed

lemma be_bytes_less_iff:
  assumes "LENGTH('a) \<le> 8 * n"
  shows "be_bytes n (v::'a::len word) < be_bytes n w \<longleftrightarrow> v < w"
proof -
  have "unat x < 256 ^ n" for x :: "'a word"
  proof -
    have "unat x < 2 ^ LENGTH('a)" by (rule unsigned_less)
    also have "\<dots> \<le> 2 ^ (8 * n)" using assms by simp
    finally show ?thesis by (simp add: power_mult)
  qed
  then show ?thesis
    by (simp add: be_nat_less_iff be_nat_be_bytes word_less_nat_alt)
qed

lemma be_bytes_inject:
  assumes "LENGTH('a) \<le> 8 * n"
  shows "be_bytes n (v::'a::len word) = be_bytes n w \<longleftrightarrow> v = w"
  using be_val_be_bytes [OF assms] by metis

lemma be_val_be_nat: "be_val bs = of_nat (be_nat bs)"
proof -
  have f: "foldl (\<lambda>acc b. push_bit 8 acc OR ucast b) acc bs = push_bit (8 * length bs) acc + of_nat (be_nat bs)"
    for acc :: "'a::len word"
  proof (induction bs arbitrary: acc)
    case (Cons b bs)
    have "push_bit 8 acc OR ucast b = push_bit 8 acc + ucast b"
      by (rule disjunctive_add [symmetric]) (auto simp: bit_simps dest: bit_imp_le_length)
    moreover have "push_bit (8 * length bs) (push_bit 8 acc + ucast b) =
      push_bit (8 * length (b # bs)) acc + of_nat (unat b * 256 ^ length bs)"
    proof -
      have "(2 :: 'a word) ^ (8 * length bs) = 256 ^ length bs" by (simp only: power_mult) simp
      then show ?thesis by (simp add: push_bit_eq_mult distrib_right power_add of_nat_unat mult.assoc)
    qed
    ultimately show ?case by (simp add: Cons.IH)
  qed simp
  show ?thesis using f [of 0] by (simp add: be_val_def)
qed

lemma be_bytes_be_val:
  assumes "length bs = n" "8 * n = LENGTH('a)"
  shows "be_bytes n (be_val bs :: 'a::len word) = bs"
proof -
  have "be_nat bs < 2 ^ LENGTH('a)"
    using be_nat_less [of bs] assms by (simp flip: assms(2) add: power_mult)
  then have "be_nat (be_bytes n (be_val bs :: 'a word)) = be_nat bs"
    using be_nat_less [of bs] assms
    by (simp add: be_nat_be_bytes be_val_be_nat unat_of_nat take_bit_nat_eq_self flip: take_bit_eq_mod)
  then show ?thesis
    using be_nat_less_iff [of "be_bytes n (be_val bs :: 'a word)" bs] be_nat_less_iff [of bs "be_bytes n (be_val bs :: 'a word)"] assms
    by (metis length_be_bytes less_irrefl linorder_cases)
qed

lemma not_word_less_iff: "NOT v < NOT w \<longleftrightarrow> (w::'a::len word) < v"
proof -
  have "uint (NOT x) = mask LENGTH('a) - uint x" for x :: "'a word"
    by (simp add: unsigned_not_eq take_bit_not_eq_mask_diff take_bit_int_eq_self)
  then show ?thesis by (simp add: word_less_def)
qed

section \<open>Byte strings\<close>

text \<open>
  \<^verbatim>\<open>bytes.Compare\<close>: lexicographic, a proper prefix sorts first.  It agrees with the
  lexicographic order that the library puts on lists of linearly ordered elements.
\<close>

fun bytes_Compare :: "bytes \<Rightarrow> bytes \<Rightarrow> int" where
  "bytes_Compare [] [] = 0"
| "bytes_Compare [] (y # ys) = -1"
| "bytes_Compare (x # xs) [] = 1"
| "bytes_Compare (x # xs) (y # ys) =
     (if x < y then -1 else if y < x then 1 else bytes_Compare xs ys)"

lemma bytes_Compare_less [simp]: "bytes_Compare xs ys < 0 \<longleftrightarrow> xs < ys"
  by (induction xs ys rule: bytes_Compare.induct) auto

lemma bytes_Compare_ge [simp]: "0 \<le> bytes_Compare xs ys \<longleftrightarrow> ys \<le> xs"
  using bytes_Compare_less [of xs ys] by (meson linorder_not_less)

lemma list_append_less_iff [simp]: "(xs @ ys < xs @ zs) \<longleftrightarrow> (ys < (zs :: 'a::linorder list))"
  by (induction xs) auto

lemma list_append_le_iff [simp]: "(xs @ ys \<le> xs @ zs) \<longleftrightarrow> (ys \<le> (zs :: 'a::linorder list))"
  by (induction xs) auto

lemma list_append_less_same_length:
  assumes "length xs = length ys"
  shows "xs @ us < ys @ vs \<longleftrightarrow> xs < ys \<or> xs = ys \<and> us < (vs :: 'a::linorder list)"
  using assms by (induction xs ys rule: list_induct2) auto

lemma list_le_append [simp]: "xs \<le> xs @ (ys :: 'a::linorder list)"
  by (induction xs) auto

section \<open>Binary search\<close>

text \<open>
  \<^verbatim>\<open>sort.Search\<close> of the Go standard library, loop and all.  On a predicate that is monotone
  over \<open>[0, n)\<close> it returns the least index that satisfies it, or \<open>n\<close>.
\<close>

function search_loop :: "(nat \<Rightarrow> bool) \<Rightarrow> nat \<Rightarrow> nat \<Rightarrow> nat" where
  "search_loop f i j =
     (if i < j then
        (let h = (i + j) div 2
         in if \<not> f h then search_loop f (h + 1) j else search_loop f i h)
      else i)"
  by pat_completeness auto
termination
  by (relation "measure (\<lambda>(f, i, j). j - i)") auto

declare search_loop.simps [simp del]

definition sort_Search :: "nat \<Rightarrow> (nat \<Rightarrow> bool) \<Rightarrow> nat" where
  "sort_Search n f = search_loop f 0 n"

lemma search_loop_correct:
  assumes mono: "\<And>a b. a \<le> b \<Longrightarrow> b < n \<Longrightarrow> f a \<Longrightarrow> f b"
    and "i \<le> j" and "j \<le> n" and "\<forall>k < i. \<not> f k" and "j < n \<longrightarrow> f j"
  shows "search_loop f i j \<le> n \<and> (\<forall>k < search_loop f i j. \<not> f k)
         \<and> (search_loop f i j < n \<longrightarrow> f (search_loop f i j))"
  using assms(2-)
proof (induction "j - i" arbitrary: i j rule: less_induct)
  case less
  let ?h = "(i + j) div 2"
  show ?case
  proof (cases "i < j")
    case True
    then have h: "i \<le> ?h" "?h < j" by auto
    show ?thesis
    proof (cases "f ?h")
      case True
      with \<open>i < j\<close> have eq: "search_loop f i j = search_loop f i ?h"
        by (simp add: search_loop.simps [of f i j] Let_def)
      show ?thesis
        unfolding eq using h less.prems True by (intro less.hyps) auto
    next
      case False
      with \<open>i < j\<close> have eq: "search_loop f i j = search_loop f (?h + 1) j"
        by (simp add: search_loop.simps [of f i j] Let_def)
      have "?h < n"
        using h(2) less.prems(2) by (rule less_le_trans)
      then have "\<forall>k < ?h + 1. \<not> f k"
        using mono [of _ ?h] False by fastforce
      then show ?thesis
        unfolding eq using h less.prems by (intro less.hyps) auto
    qed
  next
    case False
    then have "search_loop f i j = i"
      by (simp add: search_loop.simps [of f i j])
    with False less.prems show ?thesis by auto
  qed
qed

lemma search_loop_cong:
  assumes "\<And>a. a < n \<Longrightarrow> f a = g a" and "j \<le> n"
  shows "search_loop f i j = search_loop g i j"
  using assms(2)
proof (induction "j - i" arbitrary: i j rule: less_induct)
  case less
  show ?case
  proof (cases "i < j")
    case True
    let ?h = "(i + j) div 2"
    have h: "i \<le> ?h" "?h < j" using True by auto
    then have "f ?h = g ?h" using less.prems by (intro assms(1)) linarith
    moreover have "search_loop f (?h + 1) j = search_loop g (?h + 1) j"
      "search_loop f i ?h = search_loop g i ?h"
      using h less.prems by (auto intro!: less.hyps)
    ultimately show ?thesis
      using True by (simp add: search_loop.simps [of _ i j] Let_def)
  qed (simp add: search_loop.simps [of _ i j])
qed

lemma sort_Search_cong:
  "(\<And>a. a < n \<Longrightarrow> f a = g a) \<Longrightarrow> sort_Search n f = sort_Search n g"
  unfolding sort_Search_def by (rule search_loop_cong [where n = n]) simp_all

text \<open>The form the storage engine uses: searching a sorted list of keys.\<close>

lemma sort_Search_sorted:
  fixes ks :: "'k::linorder list"
  assumes "sorted ks"
  shows "sort_Search (length ks) (\<lambda>i. k \<le> ks ! i) = length (takeWhile (\<lambda>x. x < k) ks)"
    (is "?s = ?t")
proof -
  have mono: "k \<le> ks ! b" if "a \<le> b" "b < length ks" "k \<le> ks ! a" for a b
    using that assms by (meson order_trans sorted_nth_mono)
  have s: "?s \<le> length ks" "\<forall>i < ?s. \<not> k \<le> ks ! i" "?s < length ks \<longrightarrow> k \<le> ks ! ?s"
    using search_loop_correct [of "length ks" "\<lambda>i. k \<le> ks ! i" 0 "length ks", OF mono]
    unfolding sort_Search_def by auto
  have "ks ! i < k" if "i < ?t" for i
    using that by (metis nth_mem set_takeWhileD takeWhile_nth)
  moreover have "k \<le> ks ! ?t" if "?t < length ks"
    using that nth_length_takeWhile [of "\<lambda>x. x < k" ks] by auto
  moreover have "?t \<le> length ks" by (rule length_takeWhile_le)
  ultimately show ?thesis
    using s by (meson linorder_neqE_nat not_less order_less_le_trans)
qed

end
