(* ===== verification/Raft_Conf.thy ===== *)
theory Raft_Conf
  imports Rift_Prelude "HOL-Library.Multiset"
begin

text \<open>
  Cluster membership of \<^verbatim>\<open>raft/raft.go\<close>: configuration changes, their wire form, and how one
  change turns a configuration into the next.  The \<^verbatim>\<open>uint8\<close> enums that travel on the wire are
  bytes with named values, because a decoded entry may hold any byte.
\<close>

section \<open>Identifiers and configuration changes\<close>

type_synonym NodeID = "64 word"

record ProposalID =
  pid_Node :: NodeID
  pid_Seq :: u64

definition pid_Zero :: "ProposalID \<Rightarrow> bool" where
  "pid_Zero p \<longleftrightarrow> pid_Node p = 0 \<and> pid_Seq p = 0"

definition ConfChangeAddVoter :: byte where "ConfChangeAddVoter = 1"
definition ConfChangeAddLearner :: byte where "ConfChangeAddLearner = 2"
definition ConfChangeRemoveNode :: byte where "ConfChangeRemoveNode = 3"
definition numConfChangeTypes :: byte where "numConfChangeTypes = 4"

lemmas conf_change_types =
  ConfChangeAddVoter_def ConfChangeAddLearner_def ConfChangeRemoveNode_def numConfChangeTypes_def

record ConfChangeSingle =
  ch_Type :: byte
  ch_Node :: NodeID

definition ConfChangeSimple :: byte where "ConfChangeSimple = 1"
definition ConfChangeJointImplicit :: byte where "ConfChangeJointImplicit = 2"
definition ConfChangeJointExplicit :: byte where "ConfChangeJointExplicit = 3"

record ConfChangeV2 =
  cc_Changes :: "ConfChangeSingle list"
  cc_Transition :: byte

definition encode_single :: "ConfChangeSingle \<Rightarrow> bytes" where
  "encode_single ch = ch_Type ch # be_bytes 8 (ch_Node ch)"

definition EncodeConfChange :: "ConfChangeV2 \<Rightarrow> bytes" where
  "EncodeConfChange cc =
     [cc_Transition cc, of_nat (length (cc_Changes cc))] @ concat (map encode_single (cc_Changes cc))"

fun decode_singles :: "nat \<Rightarrow> bytes \<Rightarrow> ConfChangeSingle list" where
  "decode_singles 0 b = []"
| "decode_singles (Suc n) b =
     \<lparr>ch_Type = b ! 0, ch_Node = be_val (take 8 (drop 1 b))\<rparr> # decode_singles n (drop 9 b)"

definition DecodeConfChange :: "bytes \<Rightarrow> ConfChangeV2 option" where
  "DecodeConfChange b =
     (if length b < 2 then None
      else (let n = unat (b ! 1); rest = drop 2 b
            in if length rest \<noteq> n * 9 then None
               else Some \<lparr>cc_Changes = decode_singles n rest, cc_Transition = b ! 0\<rparr>))"

section \<open>Configurations\<close>

record Configuration =
  Voters :: "NodeID list"
  Learners :: "NodeID list"

definition EncodeConfiguration :: "Configuration \<Rightarrow> bytes" where
  "EncodeConfiguration c =
     [of_nat (length (Voters c)), of_nat (length (Learners c))]
     @ concat (map (be_bytes 8) (Voters c @ Learners c))"

fun read_ids :: "nat \<Rightarrow> bytes \<Rightarrow> NodeID list \<times> bytes" where
  "read_ids 0 b = ([], b)"
| "read_ids (Suc n) b =
     (case read_ids n (drop 8 b) of (ns, rest) \<Rightarrow> (be_val (take 8 b) # ns, rest))"

definition DecodeConfiguration :: "bytes \<Rightarrow> Configuration option" where
  "DecodeConfiguration b =
     (if length b < 2 then None
      else (let nv = unat (b ! 0); nl = unat (b ! 1); rest = drop 2 b
            in if length rest \<noteq> (nv + nl) * 8 then None
               else (case read_ids nv rest of (vs, rest') \<Rightarrow>
                       Some \<lparr>Voters = vs, Learners = fst (read_ids nl rest')\<rparr>)))"

fun contains :: "NodeID list \<Rightarrow> NodeID \<Rightarrow> bool" where
  "contains [] n = False"
| "contains (x # xs) n = (if x = n then True else contains xs n)"

definition IsVoter :: "Configuration \<Rightarrow> NodeID \<Rightarrow> bool" where
  "IsVoter c n = contains (Voters c) n"

definition IsLearner :: "Configuration \<Rightarrow> NodeID \<Rightarrow> bool" where
  "IsLearner c n = contains (Learners c) n"

text \<open>The insertion sort, swap by swap: \<open>sift\<close> is the inner loop from position \<open>j\<close>.\<close>

fun sift :: "NodeID list \<Rightarrow> nat \<Rightarrow> NodeID list" where
  "sift xs 0 = xs"
| "sift xs (Suc j) =
     (if xs ! j > xs ! Suc j then sift (xs[j := xs ! Suc j, Suc j := xs ! j]) j else xs)"

definition sortIDs :: "NodeID list \<Rightarrow> NodeID list" where
  "sortIDs xs = foldl sift xs [1..<length xs]"

definition Members :: "Configuration \<Rightarrow> NodeID list" where
  "Members c = sortIDs (Voters c @ Learners c)"

definition conf_Equal :: "Configuration \<Rightarrow> Configuration \<Rightarrow> bool" where
  "conf_Equal c c' =
     (if length (Voters c) \<noteq> length (Voters c') \<or> length (Learners c) \<noteq> length (Learners c') then False
      else list_all2 (=) (Voters c) (Voters c') \<and> list_all2 (=) (Learners c) (Learners c'))"

definition insertID :: "NodeID list \<Rightarrow> NodeID \<Rightarrow> NodeID list" where
  "insertID xs n = (if contains xs n then xs else sortIDs (xs @ [n]))"

fun removeID :: "NodeID list \<Rightarrow> NodeID \<Rightarrow> NodeID list" where
  "removeID [] n = []"
| "removeID (x # xs) n = (if x \<noteq> n then x # removeID xs n else removeID xs n)"

datatype conf_error =
    ConfUndecodable
  | ConfNotSimple byte
  | ConfServers nat
  | VoterDemoted NodeID
  | UnknownChangeType byte
  | NoVotersLeft byte

definition conf_apply :: "Configuration \<Rightarrow> ConfChangeSingle \<Rightarrow> conf_error + Configuration" where
  "conf_apply c ch =
     (let n = ch_Node ch;
          check = (\<lambda>out. if length (Voters out) = 0 then Inl (NoVotersLeft (ch_Type ch)) else Inr out)
      in if ch_Type ch = ConfChangeAddVoter then
           check (c\<lparr>Learners := removeID (Learners c) n, Voters := insertID (Voters c) n\<rparr>)
         else if ch_Type ch = ConfChangeAddLearner then
           (if contains (Voters c) n then Inl (VoterDemoted n)
            else check (c\<lparr>Learners := insertID (Learners c) n\<rparr>))
         else if ch_Type ch = ConfChangeRemoveNode then
           check (c\<lparr>Voters := removeID (Voters c) n, Learners := removeID (Learners c) n\<rparr>)
         else if ch_Type ch = numConfChangeTypes then Inl (UnknownChangeType (ch_Type ch))
         else check c)"

definition ApplyConfChange :: "Configuration \<Rightarrow> ConfChangeSingle \<Rightarrow> conf_error + Configuration" where
  "ApplyConfChange c ch = conf_apply c ch"

definition ApplyConfEntry :: "Configuration \<Rightarrow> bytes \<Rightarrow> conf_error + Configuration" where
  "ApplyConfEntry c data =
     (case DecodeConfChange data of
        None \<Rightarrow> Inl ConfUndecodable
      | Some cc \<Rightarrow>
          if cc_Transition cc \<noteq> ConfChangeSimple then Inl (ConfNotSimple (cc_Transition cc))
          else if length (cc_Changes cc) \<noteq> 1 then Inl (ConfServers (length (cc_Changes cc)))
          else conf_apply c (cc_Changes cc ! 0))"

section \<open>The wire forms\<close>

lemma length_encode_single [simp]: "length (encode_single ch) = 9"
  by (simp add: encode_single_def)

lemma length_concat_singles: "length (concat (map encode_single chs)) = 9 * length chs"
  by (induction chs) auto

lemma decode_singles_encode:
  "decode_singles (length chs) (concat (map encode_single chs)) = chs"
  by (induction chs) (simp_all add: encode_single_def be_val_be_bytes)

lemma length_concat_ids: "length (concat (map (be_bytes 8) (ns :: NodeID list))) = 8 * length ns"
  by (induction ns) auto

lemma read_ids_encode:
  "read_ids (length ns) (concat (map (be_bytes 8) ns) @ rest) = (ns, rest)"
  by (induction ns) (simp_all add: be_val_be_bytes)

lemma unat_byte_of_nat: "unat (of_nat n :: byte) = n mod 256"
  by (simp add: unsigned_of_nat take_bit_eq_mod)

text \<open>A configuration change with at most 255 servers decodes to itself; with more, the count
  byte wraps and the decoder refuses the bytes, so no change is ever decoded as a different one.\<close>

theorem conf_change_roundtrip:
  "DecodeConfChange (EncodeConfChange cc) =
     (if length (cc_Changes cc) < 256 then Some cc else None)"
  by (auto simp: DecodeConfChange_def EncodeConfChange_def Let_def unat_byte_of_nat
      length_concat_singles decode_singles_encode)

lemma DecodeConfiguration_Encode [rift_codec]:
  "DecodeConfiguration (EncodeConfiguration c) =
     (if length (Voters c) < 256 \<and> length (Learners c) < 256 then Some c else None)"
proof -
  let ?b = "concat (map (be_bytes 8) (Voters c @ Learners c))"
  have len: "length ?b = 8 * (length (Voters c) + length (Learners c))"
    using length_concat_ids [of "Voters c @ Learners c"] by simp
  have eq: "(n mod 256 + m mod 256) * 8 = 8 * (n + m) \<longleftrightarrow> n < 256 \<and> m < 256" for n m :: nat
    using mod_less_eq_dividend [of n 256] mod_less_eq_dividend [of m 256] by auto
  have "read_ids (length (Voters c)) ?b = (Voters c, concat (map (be_bytes 8) (Learners c)))"
    using read_ids_encode [of "Voters c" "concat (map (be_bytes 8) (Learners c))"] by simp
  moreover have "fst (read_ids (length (Learners c)) (concat (map (be_bytes 8) (Learners c)))) = Learners c"
    using read_ids_encode [of "Learners c" "[]"] by simp
  ultimately show ?thesis
    using len eq [of "length (Voters c)" "length (Learners c)"]
    by (auto simp: DecodeConfiguration_def EncodeConfiguration_def Let_def unat_byte_of_nat)
qed

text \<open>A configuration with at most 255 voters and 255 learners decodes to itself, and a larger
  one is refused by the decoder.\<close>

theorem configuration_roundtrip:
  "DecodeConfiguration (EncodeConfiguration c) =
     (if length (Voters c) < 256 \<and> length (Learners c) < 256 then Some c else None)"
  by (rule DecodeConfiguration_Encode)

section \<open>Membership lists stay sorted sets\<close>

lemma contains_iff [simp]: "contains xs n \<longleftrightarrow> n \<in> set xs"
  by (induction xs) auto

lemma removeID_filter: "removeID xs n = filter (\<lambda>x. x \<noteq> n) xs"
  by (induction xs) auto

lemma conf_Equal_iff [simp]: "conf_Equal c c' \<longleftrightarrow> c = c'"
  by (cases c; cases c') (auto simp: conf_Equal_def list.rel_eq)

lemma insort_snoc_greater: "x < y \<Longrightarrow> insort x (xs @ [y]) = insort x xs @ [y]" for y :: "'a::linorder"
  by (induction xs) auto

lemma insort_snoc_le: "sorted (xs @ [y]) \<Longrightarrow> y \<le> x \<Longrightarrow> insort x (xs @ [y]) = xs @ [y, x]" for y :: "'a::linorder"
  using sorted_insort_is_snoc [of "xs @ [y]" x] by (fastforce simp: sorted_append)

lemma sort_snoc: "sort (xs @ [x]) = insort x (sort xs)" for x :: "'a::linorder"
  by (rule properties_for_sort) (simp_all add: sorted_insort)

lemma sift_insort: "sorted ys \<Longrightarrow> sift (ys @ x # zs) (length ys) = insort x ys @ zs"
proof (induction ys arbitrary: zs rule: rev_induct)
  case (snoc y ys)
  then have IH: "sift (ys @ x # y # zs) (length ys) = insort x ys @ y # zs"
    by (simp add: sorted_append)
  have "(ys @ y # x # zs) ! length ys = y" "(ys @ y # x # zs) ! Suc (length ys) = x"
    by (simp_all add: nth_append)
  moreover have "(ys @ y # x # zs)[length ys := x, Suc (length ys) := y] = ys @ x # y # zs"
    by (simp add: list_update_append)
  ultimately show ?case
    using snoc.prems IH by (auto simp: insort_snoc_greater insort_snoc_le not_less)
qed simp

lemma sift_fold:
  "k \<le> length xs \<Longrightarrow> foldl sift xs [1..<k] = sort (take k xs) @ drop k xs \<or> k = 0"
proof (induction k)
  case (Suc k)
  show ?case
  proof (cases k)
    case 0
    with Suc.prems show ?thesis by (cases xs) auto
  next
    case (Suc k')
    then have IH: "foldl sift xs [1..<k] = sort (take k xs) @ drop k xs"
      using Suc.IH Suc.prems by simp
    obtain x zs where x: "drop k xs = x # zs" "x = xs ! k" "zs = drop (Suc k) xs"
      using Suc.prems by (simp add: Cons_nth_drop_Suc [symmetric])
    have "foldl sift xs [1..<Suc k] = sift (sort (take k xs) @ x # zs) (length (sort (take k xs)))"
      using IH Suc Suc.prems x by simp
    also have "\<dots> = insort x (sort (take k xs)) @ zs"
      by (rule sift_insort) simp
    finally show ?thesis
      using Suc.prems x by (simp add: take_Suc_conv_app_nth sort_snoc)
  qed
qed simp

lemma sortIDs_sort: "sortIDs xs = sort xs"
  using sift_fold [of "length xs" xs] by (cases xs) (auto simp: sortIDs_def)

definition sorted_ids :: "NodeID list \<Rightarrow> bool" where
  "sorted_ids xs \<longleftrightarrow> sorted xs \<and> distinct xs"

definition conf_ok :: "Configuration \<Rightarrow> bool" where
  "conf_ok c \<longleftrightarrow> sorted_ids (Voters c) \<and> sorted_ids (Learners c)
     \<and> set (Voters c) \<inter> set (Learners c) = {} \<and> Voters c \<noteq> []"

lemma set_insertID [simp]: "set (insertID xs n) = insert n (set xs)"
  by (auto simp: insertID_def sortIDs_sort)

lemma set_removeID [simp]: "set (removeID xs n) = set xs - {n}"
  by (auto simp: removeID_filter)

lemma sorted_ids_insertID: "sorted_ids xs \<Longrightarrow> sorted_ids (insertID xs n)"
  by (auto simp: insertID_def sortIDs_sort sorted_ids_def)

lemma sorted_ids_removeID: "sorted_ids xs \<Longrightarrow> sorted_ids (removeID xs n)"
  by (auto simp: removeID_filter sorted_ids_def sorted_wrt_filter)

lemma conf_apply_ok: "conf_ok c \<Longrightarrow> conf_apply c ch = Inr c' \<Longrightarrow> conf_ok c'"
  by (auto simp: conf_apply_def Let_def conf_ok_def sorted_ids_insertID sorted_ids_removeID
      simp flip: set_empty split: if_splits)

lemma ApplyConfEntry_cases:
  assumes "ApplyConfEntry c data = Inr c'"
  obtains ch where "DecodeConfChange data = Some \<lparr>cc_Changes = [ch], cc_Transition = ConfChangeSimple\<rparr>"
    and "conf_apply c ch = Inr c'"
  using assms
  by (auto simp: ApplyConfEntry_def length_Suc_conv split: option.splits if_splits)
     (metis ConfChangeV2.surjective old.unit.exhaust nth_Cons_0)

lemma ApplyConfEntry_ok: "conf_ok c \<Longrightarrow> ApplyConfEntry c data = Inr c' \<Longrightarrow> conf_ok c'"
  by (metis ApplyConfEntry_cases conf_apply_ok)

text \<open>Whatever bytes a log entry holds, applying it to a configuration whose voters and
  learners are sorted, duplicate-free and disjoint, with at least one voter, is refused or gives
  another such configuration.\<close>

theorem conf_entry_keeps_invariant:
  assumes "conf_ok c" "ApplyConfEntry c data = Inr c'"
  shows "conf_ok c'"
  using assms by (rule ApplyConfEntry_ok)

theorem conf_entry_keeps_invariant_witness:
  "conf_ok \<lparr>Voters = [1, 2], Learners = [9]\<rparr>"
proof (rule conf_entry_keeps_invariant)
  let ?cc = "\<lparr>cc_Changes = [\<lparr>ch_Type = ConfChangeAddLearner, ch_Node = 9\<rparr>], cc_Transition = ConfChangeSimple\<rparr>"
  show "conf_ok \<lparr>Voters = [1, 2], Learners = []\<rparr>"
    by (simp add: conf_ok_def sorted_ids_def)
  show "ApplyConfEntry \<lparr>Voters = [1, 2], Learners = []\<rparr> (EncodeConfChange ?cc)
        = Inr \<lparr>Voters = [1, 2], Learners = [9]\<rparr>"
    by (simp add: ApplyConfEntry_def DecodeConfChange_def EncodeConfChange_def encode_single_def
        conf_change_types be_val_be_bytes conf_apply_def insertID_def sortIDs_sort)
qed

text \<open>
  A change type the enum does not name is refused only when it is the enum's bound; any other
  byte is accepted and changes nothing.
\<close>

lemma conf_apply_unnamed_type:
  "conf_ok c \<Longrightarrow> 4 < t \<Longrightarrow> conf_apply c \<lparr>ch_Type = t, ch_Node = n\<rparr> = Inr c"
  by (auto simp: conf_apply_def conf_change_types conf_ok_def Let_def)

section \<open>Quorums\<close>

definition conf_quorum :: "Configuration \<Rightarrow> nat" where
  "conf_quorum c = length (Voters c) div 2 + 1"

definition is_quorum :: "Configuration \<Rightarrow> NodeID set \<Rightarrow> bool" where
  "is_quorum c q \<longleftrightarrow> conf_quorum c \<le> length (filter (\<lambda>n. n \<in> q) (Voters c))"

text \<open>
  The overlapping-quorum contract consensus rests on: quorums of one configuration intersect, and
  so do quorums of a configuration and of one a single step away.
\<close>

locale quorum_system =
  fixes ok :: "'c \<Rightarrow> bool" and quorum :: "'c \<Rightarrow> 'n set \<Rightarrow> bool" and conf_step :: "'c \<Rightarrow> 'c \<Rightarrow> bool"
  assumes ok_step: "ok c \<Longrightarrow> conf_step c c' \<Longrightarrow> ok c'"
    and quorum_meet: "ok c \<Longrightarrow> quorum c q \<Longrightarrow> quorum c q' \<Longrightarrow> q \<inter> q' \<noteq> {}"
    and quorum_step: "ok c \<Longrightarrow> conf_step c c' \<Longrightarrow> quorum c q \<Longrightarrow> quorum c' q' \<Longrightarrow> q \<inter> q' \<noteq> {}"
begin

lemma one_choice:
  assumes "ok c" and "c' = c \<or> conf_step c c'" and "quorum c {n. f n = Some u}" and "quorum c' {n. f n = Some v}"
  shows "u = v"
proof -
  have "{n. f n = Some u} \<inter> {n. f n = Some v} \<noteq> {}"
    using assms quorum_meet quorum_step by metis
  then show ?thesis by auto
qed

end

lemma card_overlap:
  assumes "finite U" "X \<subseteq> U" "Y \<subseteq> U" "card U < card X + card Y"
  shows "X \<inter> Y \<noteq> {}"
proof
  assume "X \<inter> Y = {}"
  then have "card X + card Y = card (X \<union> Y)"
    using assms by (metis card_Un_disjoint finite_subset)
  also have "\<dots> \<le> card U" using assms by (simp add: card_mono)
  finally show False using assms(4) by simp
qed

lemma is_quorum_card:
  assumes "conf_ok c"
  shows "is_quorum c q \<longleftrightarrow> card (set (Voters c)) div 2 + 1 \<le> card (set (Voters c) \<inter> q)"
proof -
  have d: "distinct (Voters c)" using assms by (simp add: conf_ok_def sorted_ids_def)
  then have "length (filter (\<lambda>n. n \<in> q) (Voters c)) = card (set (Voters c) \<inter> q)"
    by (metis distinct_card distinct_filter set_filter Int_def mem_Collect_eq)
  with d show ?thesis by (simp add: is_quorum_def conf_quorum_def distinct_card)
qed

lemma conf_apply_voters:
  assumes "conf_apply c ch = Inr c'"
  shows "set (Voters c') \<in> {set (Voters c), insert (ch_Node ch) (set (Voters c)), set (Voters c) - {ch_Node ch}}"
  using assms by (auto simp: conf_apply_def Let_def split: if_splits)

lemma adjacent_card:
  assumes "finite V" "V' \<in> {V, insert n V, V - {n}}"
  shows "card (V \<union> V') \<le> card V div 2 + card V' div 2 + 1"
proof -
  consider "V' = V" | "V' = insert n V" "n \<notin> V" | "V = insert n V'" "n \<notin> V'"
    using assms(2) by (cases "n \<in> V") (auto simp: insert_absorb)
  then show ?thesis
  proof cases
    case 2
    with assms(1) have "card V' = Suc (card V)" "V \<union> V' = V'" by auto
    then show ?thesis by simp
  next
    case 3
    with assms(1) have "card V = Suc (card V')" "V \<union> V' = V" by auto
    then show ?thesis by simp
  qed simp
qed

lemma adjacent_quorums_meet:
  assumes "conf_ok c" "conf_ok c'" "conf_apply c ch = Inr c'" "is_quorum c q" "is_quorum c' q'"
  shows "q \<inter> q' \<noteq> {}"
proof -
  let ?V = "set (Voters c)" and ?V' = "set (Voters c')"
  have "card (?V \<union> ?V') \<le> card ?V div 2 + card ?V' div 2 + 1"
    using conf_apply_voters [OF assms(3)] by (intro adjacent_card) simp_all
  then have "card (?V \<union> ?V') < card (?V \<inter> q) + card (?V' \<inter> q')"
    using assms by (simp add: is_quorum_card)
  then have "(?V \<inter> q) \<inter> (?V' \<inter> q') \<noteq> {}"
    by (intro card_overlap [of "?V \<union> ?V'"]) auto
  then show ?thesis by blast
qed

lemma same_quorums_meet:
  assumes "conf_ok c" "is_quorum c q" "is_quorum c q'"
  shows "q \<inter> q' \<noteq> {}"
proof -
  have "card (set (Voters c)) < card (set (Voters c) \<inter> q) + card (set (Voters c) \<inter> q')"
    using assms by (simp add: is_quorum_card)
  then have "(set (Voters c) \<inter> q) \<inter> (set (Voters c) \<inter> q') \<noteq> {}"
    by (intro card_overlap [of "set (Voters c)"]) auto
  then show ?thesis by blast
qed

interpretation conf_quorums: quorum_system conf_ok is_quorum "\<lambda>c c'. \<exists>data. ApplyConfEntry c data = Inr c'"
proof
  fix c c' q q'
  assume c: "conf_ok c" and "\<exists>data. ApplyConfEntry c data = Inr c'"
  then obtain data where d: "ApplyConfEntry c data = Inr c'" by blast
  then show c': "conf_ok c'" using c by (metis ApplyConfEntry_ok)
  from d obtain ch where "conf_apply c ch = Inr c'" by (rule ApplyConfEntry_cases)
  then show "is_quorum c q \<Longrightarrow> is_quorum c' q' \<Longrightarrow> q \<inter> q' \<noteq> {}"
    using adjacent_quorums_meet c c' by blast
qed (rule same_quorums_meet)

text \<open>C32: When each node backs at most one value, two values each backed by a majority -- of the
  same configuration, or of two configurations one log entry apart -- are the same value.\<close>

theorem majorities_agree:
  assumes "conf_ok c" and "c' = c \<or> ApplyConfEntry c data = Inr c'"
    and "is_quorum c {n. backed n = Some u}" and "is_quorum c' {n. backed n = Some v}"
  shows "u = v"
  using assms conf_quorums.one_choice [of c c' backed u v] by blast

theorem majorities_agree_witness:
  "let c = \<lparr>Voters = [1, 2, 3], Learners = [4]\<rparr>; c' = \<lparr>Voters = [1, 2, 3, 4], Learners = []\<rparr>;
       backed = (\<lambda>n. if n \<in> {1, 2, 3} then Some (7 :: nat) else None)
   in \<exists>u v. is_quorum c {n. backed n = Some u} \<and> is_quorum c' {n. backed n = Some v} \<and> u = v"
proof -
  let ?c = "\<lparr>Voters = [1, 2, 3], Learners = [4]\<rparr>" and ?c' = "\<lparr>Voters = [1, 2, 3, 4], Learners = []\<rparr>"
  let ?f = "\<lambda>n :: NodeID. if n \<in> {1, 2, 3} then Some (7 :: nat) else None"
  let ?cc = "\<lparr>cc_Changes = [\<lparr>ch_Type = ConfChangeAddVoter, ch_Node = 4\<rparr>], cc_Transition = ConfChangeSimple\<rparr>"
  have ok: "conf_ok ?c" by (simp add: conf_ok_def sorted_ids_def)
  have step: "ApplyConfEntry ?c (EncodeConfChange ?cc) = Inr ?c'"
    by (simp add: ApplyConfEntry_def DecodeConfChange_def EncodeConfChange_def encode_single_def
        conf_change_types be_val_be_bytes conf_apply_def insertID_def sortIDs_sort)
  have q: "is_quorum ?c {n. ?f n = Some 7}" "is_quorum ?c' {n. ?f n = Some 7}"
    by (simp_all add: is_quorum_def conf_quorum_def)
  show ?thesis
    unfolding Let_def using majorities_agree [OF ok disjI2 [OF step] q] q by blast
qed

end
