(* ===== verification/Raft_State.thy ===== *)
theory Raft_State
  imports Raft_Conf "HOL-Library.Monad_Syntax"
begin

text \<open>
  The state of the Raft machine of \<^verbatim>\<open>raft/raft.go\<close> and the helpers its handlers share: the log
  and its positions, the membership derived from it, durability marks and the gated queue.

  An operation that can panic returns an option: \<open>None\<close> is the panic, an out-of-range slice
  access included.  Terms, indices and marks are natural numbers: each counts events of one run
  and stays far below \<open>2 ^ 64\<close>; the one subtraction that can go below zero is written with its
  wrap-around.
\<close>

section \<open>Messages and log entries\<close>

datatype Role = RoleFollower | RoleCandidate | RoleLeader

datatype MessageType =
    MsgVote | MsgVoteResp | MsgApp | MsgAppResp | MsgPreVote | MsgPreVoteResp | MsgSnap
  | MsgTimeoutNow | MsgReadIndex | MsgReadIndexResp | MsgUnknown byte

definition EntryNormal :: byte where "EntryNormal = 1"
definition EntryConfChange :: byte where "EntryConfChange = 2"

record Entry =
  e_Type :: byte
  e_Term :: nat
  e_Index :: nat
  e_ID :: ProposalID
  e_Data :: bytes

definition zeroPID :: ProposalID where
  "zeroPID = \<lparr>pid_Node = 0, pid_Seq = 0\<rparr>"

record Message =
  m_Type :: MessageType
  m_From :: NodeID
  m_To :: NodeID
  m_Term :: nat
  m_LastLogIndex :: nat
  m_LastLogTerm :: nat
  m_Granted :: bool
  m_Success :: bool
  m_PrevLogIndex :: nat
  m_PrevLogTerm :: nat
  m_Entries :: "Entry list"
  m_LeaderCommit :: nat
  m_MatchIndex :: nat
  m_Hint :: nat
  m_SnapIndex :: nat
  m_SnapTerm :: nat
  m_SnapData :: bytes
  m_SnapConf :: bytes
  m_ReadCtx :: bytes
  m_ReadIndex :: nat

text \<open>A message literal with the given header and every other field at its zero value.\<close>

definition new_msg :: "MessageType \<Rightarrow> NodeID \<Rightarrow> NodeID \<Rightarrow> nat \<Rightarrow> Message" where
  "new_msg t from dest tm =
     \<lparr>m_Type = t, m_From = from, m_To = dest, m_Term = tm, m_LastLogIndex = 0, m_LastLogTerm = 0,
      m_Granted = False, m_Success = False, m_PrevLogIndex = 0, m_PrevLogTerm = 0, m_Entries = [],
      m_LeaderCommit = 0, m_MatchIndex = 0, m_Hint = 0, m_SnapIndex = 0, m_SnapTerm = 0,
      m_SnapData = [], m_SnapConf = [], m_ReadCtx = [], m_ReadIndex = 0\<rparr>"

record ReadState =
  rs_Index :: nat
  rs_Ctx :: bytes

record readReq =
  q_index :: nat
  q_term :: nat
  q_ctx :: bytes
  q_from :: NodeID
  q_acks :: "NodeID list"

record HardState =
  hs_Term :: nat
  hs_Vote :: NodeID

record Snapshot =
  s_Index :: nat
  s_Term :: nat
  s_Data :: bytes
  s_Conf :: Configuration

record Ready =
  rd_HardState :: "HardState option"
  rd_Entries :: "Entry list"
  rd_SnapshotTo :: "NodeID list"
  rd_Snapshot :: "Snapshot option"
  rd_Mark :: nat
  rd_ReadStates :: "ReadState list"
  rd_SnapMark :: nat
  rd_Messages :: "Message list"
  rd_Committed :: "Entry list"

definition Ready_Empty :: "Ready \<Rightarrow> bool" where
  "Ready_Empty rd \<longleftrightarrow> rd_HardState rd = None \<and> rd_Entries rd = [] \<and> rd_Committed rd = []
     \<and> rd_Messages rd = []"

record Config =
  cfg_ID :: NodeID
  cfg_Peers :: "NodeID list"
  cfg_ElectionTimeout :: int
  cfg_HeartbeatTimeout :: int
  cfg_Learners :: "NodeID list"
  cfg_PromotionLag :: nat
  cfg_PreVote :: bool

record logTail =
  t_persisted :: nat
  t_handed :: nat

record gatedMessage =
  g_msg :: Message
  g_mark :: nat
  g_snapMark :: nat
  g_termMark :: nat

section \<open>The node\<close>

record Raft =
  r_id :: NodeID
  r_peers :: "NodeID list"
  r_conf :: Configuration
  r_baseConf :: Configuration
  r_promotionLag :: nat
  r_confRefusal :: "(nat \<times> conf_error) option"
  r_term :: nat
  r_vote :: NodeID
  r_log :: "Entry list"
  r_snapIndex :: nat
  r_snapTerm :: nat
  r_snapMark :: nat
  r_nextSnapMark :: nat
  r_persistedSnap :: nat
  r_pendingSnap :: "Snapshot option"
  r_role :: Role
  r_commitIndex :: nat
  r_appliedIdx :: nat
  r_leader :: NodeID
  r_nextIndex :: "nat list"
  r_matchIndex :: "nat list"
  r_votesGranted :: "bool list"
  r_votesDenied :: "bool list"
  r_termStart :: nat
  r_pendingReads :: "readReq list"
  r_readyReads :: "ReadState list"
  r_preVote :: bool
  r_preVoting :: bool
  r_preGranted :: "bool list"
  r_leadTransferee :: NodeID
  r_transferElapsed :: int
  r_snapTo :: "NodeID list"
  r_electionElapsed :: int
  r_heartbeatElapsed :: int
  r_electionTimeout :: int
  r_randomizedElectionTimeout :: int
  r_heartbeatTimeout :: int
  r_msgs :: "Message list"
  r_tail :: logTail
  r_markLastIdx :: nat
  r_lastHandedMark :: nat
  r_hardStateDirty :: bool
  r_nextMark :: nat
  r_persisted :: nat
  r_gated :: "gatedMessage list"
  r_dirtyMark :: nat
  r_hsMark :: nat
  r_markHandedOff :: bool

section \<open>Slice access\<close>

definition slice_get :: "'a list \<Rightarrow> nat \<Rightarrow> 'a option" where
  "slice_get xs i = (if i < length xs then Some (xs ! i) else None)"

definition slice_set :: "'a list \<Rightarrow> nat \<Rightarrow> 'a \<Rightarrow> 'a list option" where
  "slice_set xs i v = (if i < length xs then Some (xs[i := v]) else None)"

fun index_of :: "NodeID list \<Rightarrow> NodeID \<Rightarrow> nat option" where
  "index_of [] n = None"
| "index_of (p # ps) n = (if p = n then Some 0 else map_option Suc (index_of ps n))"

definition peerIdx :: "Raft \<Rightarrow> NodeID \<Rightarrow> nat option" where
  "peerIdx r n = index_of (r_peers r) n"

section \<open>The log\<close>

definition lastIndex :: "Raft \<Rightarrow> nat" where
  "lastIndex r = (if length (r_log r) = 0 then r_snapIndex r
                  else e_Index (r_log r ! (length (r_log r) - 1)))"

definition pos :: "Raft \<Rightarrow> nat \<Rightarrow> nat option" where
  "pos r i = (if i \<le> r_snapIndex r \<or> i > lastIndex r then None
              else Some (i - r_snapIndex r - 1))"

text \<open>\<^verbatim>\<open>at\<close> yields \<open>Some None\<close> where the log does not hold the index.\<close>

definition at_index :: "Raft \<Rightarrow> nat \<Rightarrow> Entry option option" where
  "at_index r i = (case pos r i of
       None \<Rightarrow> Some None
     | Some p \<Rightarrow> map_option Some (slice_get (r_log r) p))"

definition suffixFrom :: "Raft \<Rightarrow> nat \<Rightarrow> Entry list option" where
  "suffixFrom r i =
     (if i \<le> r_snapIndex r then None
      else (case pos r i of
              None \<Rightarrow> Some []
            | Some p \<Rightarrow> if length (r_log r) < p then None else Some (drop p (r_log r))))"

definition termAt :: "Raft \<Rightarrow> nat \<Rightarrow> nat option" where
  "termAt r i =
     (if i = 0 then Some 0
      else if i = r_snapIndex r then Some (r_snapTerm r)
      else map_option (\<lambda>e. case e of None \<Rightarrow> 0 | Some en \<Rightarrow> e_Term en) (at_index r i))"

definition lastTerm :: "Raft \<Rightarrow> nat option" where
  "lastTerm r = termAt r (lastIndex r)"

definition matches :: "Raft \<Rightarrow> nat \<Rightarrow> nat \<Rightarrow> bool option" where
  "matches r idx tm =
     (if idx = 0 then Some (r_snapIndex r = 0)
      else if idx > lastIndex r then Some False
      else if idx < r_snapIndex r then Some False
      else map_option (\<lambda>t. t = tm) (termAt r idx))"

definition logIsUpToDate :: "Raft \<Rightarrow> nat \<Rightarrow> nat \<Rightarrow> bool option" where
  "logIsUpToDate r idx tm =
     map_option (\<lambda>mine. if tm \<noteq> mine then tm > mine else idx \<ge> lastIndex r) (lastTerm r)"

fun last_conf_rev :: "Entry list \<Rightarrow> nat" where
  "last_conf_rev [] = 0"
| "last_conf_rev (e # es) = (if e_Type e = EntryConfChange then e_Index e else last_conf_rev es)"

definition lastConfIndex :: "Raft \<Rightarrow> nat" where
  "lastConfIndex r = last_conf_rev (rev (r_log r))"

section \<open>Quorums over the peer set\<close>

definition quorum :: "Raft \<Rightarrow> nat" where
  "quorum r = length (Voters (r_conf r)) div 2 + 1"

fun count_flags :: "Configuration \<Rightarrow> NodeID list \<Rightarrow> bool list \<Rightarrow> nat" where
  "count_flags c [] flags = 0"
| "count_flags c (p # ps) [] = 0"
| "count_flags c (p # ps) (b # bs) = (if b \<and> IsVoter c p then 1 else 0) + count_flags c ps bs"

definition countVoters :: "Raft \<Rightarrow> bool list \<Rightarrow> nat" where
  "countVoters r flags = count_flags (r_conf r) (r_peers r) flags"

fun count_matches :: "Configuration \<Rightarrow> nat \<Rightarrow> NodeID list \<Rightarrow> nat list \<Rightarrow> nat option" where
  "count_matches c n [] ms = Some 0"
| "count_matches c n (p # ps) ms =
     (if IsVoter c p
      then (case ms of [] \<Rightarrow> None
            | m # _ \<Rightarrow> map_option (\<lambda>k. (if n \<le> m then 1 else 0) + k) (count_matches c n ps (tl ms)))
      else count_matches c n ps (tl ms))"

section \<open>Membership derived from the log\<close>

text \<open>
  One pass of \<^verbatim>\<open>recomputeConf\<close> over the log: the configuration so far and the first refusal.
\<close>

fun conf_pass :: "Configuration \<Rightarrow> (nat \<times> conf_error) option \<Rightarrow> Entry list
    \<Rightarrow> Configuration \<times> (nat \<times> conf_error) option" where
  "conf_pass c ref [] = (c, ref)"
| "conf_pass c ref (e # es) =
     (if e_Type e \<noteq> EntryConfChange then conf_pass c ref es
      else (case ApplyConfEntry c (e_Data e) of
              Inl err \<Rightarrow> conf_pass c (if ref = None then Some (e_Index e, err) else ref) es
            | Inr c' \<Rightarrow> conf_pass c' ref es))"

text \<open>The progress of peer \<open>p\<close> before a membership change, or the zero value.\<close>

definition carried :: "NodeID list \<Rightarrow> 'a list \<Rightarrow> 'a \<Rightarrow> NodeID \<Rightarrow> 'a" where
  "carried oldPeers old zero p =
     (case index_of oldPeers p of None \<Rightarrow> zero | Some j \<Rightarrow> if j < length old then old ! j else zero)"

definition setConf :: "Configuration \<Rightarrow> Raft \<Rightarrow> Raft" where
  "setConf c r =
     (let ps = Members c;
          next_of = (\<lambda>p. let n = carried (r_peers r) (r_nextIndex r) 0 p
                         in if n = 0 then lastIndex r + 1 else n)
      in r\<lparr>r_conf := c, r_peers := ps,
           r_nextIndex := map next_of ps,
           r_matchIndex := map (carried (r_peers r) (r_matchIndex r) 0) ps,
           r_votesGranted := map (carried (r_peers r) (r_votesGranted r) False) ps,
           r_votesDenied := map (carried (r_peers r) (r_votesDenied r) False) ps,
           r_preGranted := map (carried (r_peers r) (r_preGranted r) False) ps\<rparr>)"

definition recomputeConf :: "Raft \<Rightarrow> Raft" where
  "recomputeConf r =
     (case conf_pass (r_baseConf r) (r_confRefusal r) (r_log r) of
        (c, ref) \<Rightarrow> setConf c (r\<lparr>r_confRefusal := ref\<rparr>))"

fun conf_through :: "Configuration \<Rightarrow> nat \<Rightarrow> Entry list \<Rightarrow> Configuration" where
  "conf_through c i [] = c"
| "conf_through c i (x # xs) =
     (if e_Index x > i then c
      else if e_Type x \<noteq> EntryConfChange then conf_through c i xs
      else (case ApplyConfEntry c (e_Data x) of
              Inr c' \<Rightarrow> conf_through c' i xs
            | Inl _ \<Rightarrow> conf_through c i xs))"

datatype raft_error =
    BadConfig nat
  | RecoveredGap nat nat
  | NeedsIdentifier
  | ErrNotLeader
  | ErrTransferInProgress
  | JointRefused byte
  | ServerCount nat
  | ErrConfChangeInFlight
  | ErrLearnerLagging nat
  | ConfRefused conf_error
  | WrongAddress NodeID
  | UnknownMessageType
  | CompactBeyondApplied
  | CompactBeyondDurable
  | NotInLog nat
  | CompactedAway nat
  | NeedsReadContext
  | AlreadyLeader
  | ConfDisagrees

definition ConfigurationAt :: "Raft \<Rightarrow> nat \<Rightarrow> (raft_error + Configuration) option" where
  "ConfigurationAt r i =
     (if i < r_snapIndex r then Some (Inl (CompactedAway i))
      else if i = r_snapIndex r then Some (Inr (r_baseConf r))
      else do {
        e \<leftarrow> at_index r i;
        Some (case e of None \<Rightarrow> Inl (NotInLog i)
              | Some _ \<Rightarrow> Inr (conf_through (r_baseConf r) i (r_log r)))
      })"

definition AssertConfConsistent :: "Raft \<Rightarrow> raft_error option" where
  "AssertConfConsistent r =
     (case r_confRefusal r of
        Some (i, err) \<Rightarrow> Some (ConfRefused err)
      | None \<Rightarrow> if conf_Equal (r_conf r) (fst (conf_pass (r_baseConf r) None (r_log r))) then None
                else Some ConfDisagrees)"

section \<open>Durability marks and the gated queue\<close>

definition dirty :: "Raft \<Rightarrow> Raft" where
  "dirty r =
     (if r_dirtyMark r = 0 \<or> r_markHandedOff r
      then r\<lparr>r_nextMark := r_nextMark r + 1, r_dirtyMark := r_nextMark r + 1, r_markHandedOff := False\<rparr>
      else r)"

definition setVote :: "NodeID \<Rightarrow> Raft \<Rightarrow> Raft" where
  "setVote v r =
     (if r_vote r \<noteq> v then dirty (r\<lparr>r_vote := v, r_hardStateDirty := True\<rparr>) else r)"

definition setTermAndVote :: "nat \<Rightarrow> NodeID \<Rightarrow> Raft \<Rightarrow> Raft" where
  "setTermAndVote t v r =
     (if r_term r \<noteq> t \<or> r_vote r \<noteq> v
      then dirty (r\<lparr>r_term := t, r_vote := v, r_hardStateDirty := True\<rparr>) else r)"

definition send :: "Message \<Rightarrow> Raft \<Rightarrow> Raft option" where
  "send m r =
     (if m_Type m \<in> {MsgPreVote, MsgPreVoteResp, MsgTimeoutNow}
      then Some (r\<lparr>r_msgs := r_msgs r @ [m]\<rparr>) else None)"

definition termMark :: "Raft \<Rightarrow> nat" where
  "termMark r = (if r_hardStateDirty r \<and> r_dirtyMark r > r_hsMark r then r_dirtyMark r else r_hsMark r)"

definition sendGatedOn :: "nat \<Rightarrow> nat \<Rightarrow> Message \<Rightarrow> Raft \<Rightarrow> Raft" where
  "sendGatedOn mark snapMark m r =
     (let tm = termMark r
      in if mark = 0 \<and> snapMark = 0 \<and> tm = 0 then r\<lparr>r_msgs := r_msgs r @ [m]\<rparr>
         else r\<lparr>r_gated := r_gated r @ [\<lparr>g_msg = m, g_mark = mark, g_snapMark = snapMark, g_termMark = tm\<rparr>]\<rparr>)"

definition sendGated :: "Message \<Rightarrow> Raft \<Rightarrow> Raft" where
  "sendGated m r = sendGatedOn 0 0 m r"

definition releasable :: "Raft \<Rightarrow> gatedMessage \<Rightarrow> bool" where
  "releasable r g \<longleftrightarrow> g_mark g \<le> r_persisted r \<and> g_termMark g \<le> r_persisted r
     \<and> g_snapMark g \<le> r_persistedSnap r"

definition release :: "Raft \<Rightarrow> Raft" where
  "release r = r\<lparr>r_msgs := r_msgs r @ map g_msg (filter (releasable r) (r_gated r)),
                 r_gated := filter (\<lambda>g. \<not> releasable r g) (r_gated r)\<rparr>"

definition raise_persisted :: "nat \<Rightarrow> Raft \<Rightarrow> Raft" where
  "raise_persisted m r = (if m > r_persisted r then r\<lparr>r_persisted := m\<rparr> else r)"

definition close_mark :: "nat \<Rightarrow> Raft \<Rightarrow> Raft" where
  "close_mark m r =
     (if r_dirtyMark r \<noteq> 0 \<and> r_dirtyMark r \<le> m then r\<lparr>r_dirtyMark := 0, r_markHandedOff := False\<rparr> else r)"

definition releaseThrough :: "nat \<Rightarrow> Raft \<Rightarrow> Raft" where
  "releaseThrough m r = release (close_mark m (raise_persisted m r))"

definition strike :: "nat \<Rightarrow> gatedMessage \<Rightarrow> gatedMessage" where
  "strike m g = g\<lparr>g_mark := (if g_mark g = m then 0 else g_mark g),
                  g_termMark := (if g_termMark g = m then 0 else g_termMark g)\<rparr>"

definition closeEmptyMark :: "nat \<Rightarrow> Raft \<Rightarrow> Raft" where
  "closeEmptyMark m r =
     (let r1 = (if r_dirtyMark r = m then r\<lparr>r_dirtyMark := 0, r_markHandedOff := False\<rparr> else r)
      in release (r1\<lparr>r_gated := map (strike m) (r_gated r1)\<rparr>))"

definition marksFor :: "Raft \<Rightarrow> nat \<Rightarrow> (nat \<times> nat) option" where
  "marksFor r idx =
     (if idx = 0 then Some (0, 0)
      else if idx \<le> r_snapIndex r then Some (0, r_snapMark r)
      else if idx \<le> t_persisted (r_tail r) then Some (0, 0)
      else if r_dirtyMark r = 0 then None
      else Some (r_dirtyMark r, 0))"

section \<open>Changing the log\<close>

fun append_loop :: "Entry list \<Rightarrow> Raft \<Rightarrow> Raft option" where
  "append_loop [] r = Some r"
| "append_loop (e # es) r =
     (if e_Index e \<noteq> lastIndex r + 1 then None
      else append_loop es (r\<lparr>r_log := r_log r @ [e]\<rparr>))"

definition appendEntries :: "Entry list \<Rightarrow> Raft \<Rightarrow> Raft option" where
  "appendEntries es r = do {
     r' \<leftarrow> append_loop es r;
     Some (dirty (if list_ex (\<lambda>e. e_Type e = EntryConfChange) es then recomputeConf r' else r'))
   }"

definition cut_back :: "nat \<Rightarrow> nat \<Rightarrow> nat" where
  "cut_back i n = (if n \<ge> i then i - 1 else n)"

definition truncateFrom :: "nat \<Rightarrow> Raft \<Rightarrow> Raft option" where
  "truncateFrom i r =
     (if i < 1 \<or> i > lastIndex r then Some r
      else if r_commitIndex r \<ge> i then None
      else if i \<le> r_snapIndex r then None
      else (case pos r i of
              None \<Rightarrow> None
            | Some p \<Rightarrow>
                if length (r_log r) < p then None
                else Some (recomputeConf (r\<lparr>
                  r_log := take p (r_log r),
                  r_tail := \<lparr>t_persisted = cut_back i (t_persisted (r_tail r)),
                             t_handed = cut_back i (t_handed (r_tail r))\<rparr>,
                  r_markLastIdx := cut_back i (r_markLastIdx r),
                  r_gated := filter (\<lambda>g. \<not> (m_Type (g_msg g) = MsgAppResp \<and> m_Success (g_msg g)
                                              \<and> m_MatchIndex (g_msg g) \<ge> i)) (r_gated r)\<rparr>))))"

end
