(* ===== verification/Raft_Ops.thy ===== *)
theory Raft_Ops
  imports Raft_State
begin

text \<open>
  Every handler and entry point of the Raft machine of \<^verbatim>\<open>raft/raft.go\<close>: elections, replication,
  snapshots, read index, leadership transfer, and the Ready/Ack interface to the driver.  An
  operation that returns a Go error yields the pair of its error, if any, and the new state.
\<close>

section \<open>Construction\<close>

fun peers_valid :: "NodeID list \<Rightarrow> bool" where
  "peers_valid [] = True"
| "peers_valid [p] = (p \<noteq> 0)"
| "peers_valid (p # q # ps) = (p \<noteq> 0 \<and> p < q \<and> peers_valid (q # ps))"

definition split_members :: "NodeID list \<Rightarrow> NodeID list \<Rightarrow> Configuration" where
  "split_members learners ps =
     foldl (\<lambda>c p. if contains learners p then c\<lparr>Learners := insertID (Learners c) p\<rparr>
                  else c\<lparr>Voters := insertID (Voters c) p\<rparr>)
       \<lparr>Voters = [], Learners = []\<rparr> ps"

definition defaultPromotionLag :: nat where "defaultPromotionLag = 8"

definition New :: "Config \<Rightarrow> raft_error + Raft" where
  "New cfg =
     (if cfg_ID cfg = 0 then Inl (BadConfig 1)
      else if length (cfg_Peers cfg) = 0 then Inl (BadConfig 2)
      else if \<not> peers_valid (cfg_Peers cfg) then Inl (BadConfig 3)
      else if cfg_ID cfg \<notin> set (cfg_Peers cfg) then Inl (BadConfig 4)
      else if cfg_ElectionTimeout cfg \<le> 0 \<or> cfg_HeartbeatTimeout cfg \<le> 0 then Inl (BadConfig 5)
      else if cfg_HeartbeatTimeout cfg \<ge> cfg_ElectionTimeout cfg then Inl (BadConfig 6)
      else (let c = split_members (cfg_Learners cfg) (cfg_Peers cfg); ps = Members c;
                n = length ps;
                lag = (if cfg_PromotionLag cfg = 0 then defaultPromotionLag else cfg_PromotionLag cfg)
        in if length (Voters c) = 0 then Inl (BadConfig 7)
           else Inr \<lparr>r_id = cfg_ID cfg, r_peers = ps, r_conf = c, r_baseConf = c,
             r_promotionLag = lag, r_confRefusal = None, r_term = 0, r_vote = 0, r_log = [],
             r_snapIndex = 0, r_snapTerm = 0, r_snapMark = 0, r_nextSnapMark = 0,
             r_persistedSnap = 0, r_pendingSnap = None, r_role = RoleFollower, r_commitIndex = 0,
             r_appliedIdx = 0, r_leader = 0, r_nextIndex = replicate n 0, r_matchIndex = replicate n 0,
             r_votesGranted = replicate n False, r_votesDenied = replicate n False, r_termStart = 0,
             r_pendingReads = [], r_readyReads = [], r_preVote = cfg_PreVote cfg, r_preVoting = False,
             r_preGranted = replicate n False, r_leadTransferee = 0, r_transferElapsed = 0,
             r_snapTo = [], r_electionElapsed = 0, r_heartbeatElapsed = 0,
             r_electionTimeout = cfg_ElectionTimeout cfg,
             r_randomizedElectionTimeout = cfg_ElectionTimeout cfg,
             r_heartbeatTimeout = cfg_HeartbeatTimeout cfg, r_msgs = [],
             r_tail = \<lparr>t_persisted = 0, t_handed = 0\<rparr>, r_markLastIdx = 0, r_lastHandedMark = 0,
             r_hardStateDirty = False, r_nextMark = 0, r_persisted = 0, r_gated = [],
             r_dirtyMark = 0, r_hsMark = 0, r_markHandedOff = False\<rparr>))"

record SnapshotMeta =
  sm_Index :: nat
  sm_Term :: nat
  sm_Conf :: Configuration

fun log_gap :: "nat \<Rightarrow> Entry list \<Rightarrow> (nat \<times> nat) option" where
  "log_gap base [] = None"
| "log_gap base (e # es) = (if e_Index e \<noteq> base + 1 then Some (base, e_Index e) else log_gap (base + 1) es)"

definition Restore :: "Config \<Rightarrow> HardState \<Rightarrow> SnapshotMeta \<Rightarrow> Entry list \<Rightarrow> raft_error + Raft" where
  "Restore cfg hs snap es =
     (case New cfg of
        Inl err \<Rightarrow> Inl err
      | Inr r0 \<Rightarrow>
          (let r1 = r0\<lparr>r_term := hs_Term hs, r_vote := hs_Vote hs,
                      r_snapIndex := sm_Index snap, r_snapTerm := sm_Term snap\<rparr>;
               r2 = (if length (Voters (sm_Conf snap)) > 0 then r1\<lparr>r_baseConf := sm_Conf snap\<rparr> else r1);
               r3 = r2\<lparr>r_log := r_log r2 @ es\<rparr>
           in case log_gap (sm_Index snap) (r_log r3) of
                Some (i, j) \<Rightarrow> Inl (RecoveredGap i j)
              | None \<Rightarrow>
                  (let r4 = recomputeConf (r3\<lparr>r_commitIndex := sm_Index snap, r_appliedIdx := sm_Index snap\<rparr>);
                       last = lastIndex r4
                   in Inr (r4\<lparr>r_tail := \<lparr>t_persisted = last, t_handed = last\<rparr>, r_markLastIdx := last\<rparr>))))"

definition SetElectionTimeout :: "int \<Rightarrow> Raft \<Rightarrow> Raft" where
  "SetElectionTimeout ticks r = (if ticks > 0 then r\<lparr>r_randomizedElectionTimeout := ticks\<rparr> else r)"

section \<open>Replication\<close>

definition sendSnapshot :: "NodeID \<Rightarrow> Raft \<Rightarrow> Raft option" where
  "sendSnapshot dest r =
     (if dest \<in> set (r_snapTo r) then Some r
      else (let r1 = r\<lparr>r_snapTo := r_snapTo r @ [dest]\<rparr>
            in case peerIdx r1 dest of
                 None \<Rightarrow> Some r1
               | Some i \<Rightarrow> do {
                   ns \<leftarrow> slice_set (r_nextIndex r1) i (r_snapIndex r1 + 1);
                   Some (r1\<lparr>r_nextIndex := ns\<rparr>)
                 }))"

definition sendAppend :: "NodeID \<Rightarrow> Raft \<Rightarrow> Raft option" where
  "sendAppend dest r =
     (case peerIdx r dest of
        None \<Rightarrow> Some r
      | Some i \<Rightarrow> do {
          n0 \<leftarrow> slice_get (r_nextIndex r) i;
          let nxt = (if n0 < 1 then 1 else n0);
          if nxt \<le> r_snapIndex r then sendSnapshot dest r
          else do {
            let prev = nxt - 1;
            ents \<leftarrow> (if nxt \<le> lastIndex r then suffixFrom r nxt else Some []);
            pt \<leftarrow> termAt r prev;
            Some (sendGated ((new_msg MsgApp (r_id r) dest (r_term r))\<lparr>
                    m_PrevLogIndex := prev, m_PrevLogTerm := pt,
                    m_Entries := ents, m_LeaderCommit := r_commitIndex r\<rparr>) r)
          }
        })"

fun broadcast_loop :: "NodeID list \<Rightarrow> Raft \<Rightarrow> Raft option" where
  "broadcast_loop [] r = Some r"
| "broadcast_loop (p # ps) r =
     (if p = r_id r then broadcast_loop ps r
      else do { r' \<leftarrow> sendAppend p r; broadcast_loop ps r' })"

definition broadcastAppend :: "Raft \<Rightarrow> Raft option" where
  "broadcastAppend r = broadcast_loop (r_peers r) r"

section \<open>Roles and elections\<close>

definition becomeFollower :: "nat \<Rightarrow> NodeID \<Rightarrow> Raft \<Rightarrow> Raft" where
  "becomeFollower t v r =
     (let r1 = (if t > r_term r then setTermAndVote t v r else r)
      in r1\<lparr>r_role := RoleFollower, r_heartbeatElapsed := 0, r_leadTransferee := 0\<rparr>)"

definition reset_progress :: "nat \<Rightarrow> nat \<Rightarrow> nat list \<Rightarrow> nat list option" where
  "reset_progress n v xs = (if length xs < n then None else Some (replicate n v @ drop n xs))"

definition becomeLeader :: "Raft \<Rightarrow> Raft option" where
  "becomeLeader r = do {
     let r1 = r\<lparr>r_role := RoleLeader, r_leader := r_id r, r_heartbeatElapsed := 0,
               r_leadTransferee := 0, r_preVoting := False\<rparr>;
     let n = length (r_peers r1);
     ns \<leftarrow> reset_progress n (lastIndex r1 + 1) (r_nextIndex r1);
     ms \<leftarrow> reset_progress n 0 (r_matchIndex r1);
     i \<leftarrow> peerIdx r1 (r_id r1);
     ms' \<leftarrow> slice_set ms i (t_persisted (r_tail r1));
     let r2 = r1\<lparr>r_nextIndex := ns, r_matchIndex := ms'\<rparr>;
     let noop = \<lparr>e_Type = EntryNormal, e_Term = r_term r2, e_Index = lastIndex r2 + 1,
                 e_ID = zeroPID, e_Data = []\<rparr>;
     r3 \<leftarrow> appendEntries [noop] r2;
     broadcastAppend (r3\<lparr>r_termStart := e_Index noop, r_pendingReads := [], r_readyReads := []\<rparr>)
   }"

fun vote_loop :: "NodeID list \<Rightarrow> Raft \<Rightarrow> Raft option" where
  "vote_loop [] r = Some r"
| "vote_loop (p # ps) r =
     (if p = r_id r then vote_loop ps r
      else do {
        lt \<leftarrow> lastTerm r;
        vote_loop ps (sendGated ((new_msg MsgVote (r_id r) p (r_term r))\<lparr>
          m_LastLogIndex := lastIndex r, m_LastLogTerm := lt\<rparr>) r)
      })"

definition forceCampaign :: "Raft \<Rightarrow> Raft option" where
  "forceCampaign r = do {
     let r1 = setTermAndVote (r_term r + 1) (r_id r) (r\<lparr>r_preVoting := False, r_role := RoleCandidate\<rparr>);
     let n = length (r_votesGranted r1);
     if length (r_votesDenied r1) < n then None
     else do {
       i \<leftarrow> peerIdx r1 (r_id r1);
       vg \<leftarrow> slice_set (replicate n False) i True;
       let r2 = r1\<lparr>r_leader := 0, r_electionElapsed := 0, r_votesGranted := vg,
                  r_votesDenied := replicate n False @ drop n (r_votesDenied r1)\<rparr>;
       if quorum r2 = 1 then becomeLeader r2 else vote_loop (r_peers r2) r2
     }
   }"

fun prevote_loop :: "NodeID list \<Rightarrow> Raft \<Rightarrow> Raft option" where
  "prevote_loop [] r = Some r"
| "prevote_loop (p # ps) r =
     (if p = r_id r then prevote_loop ps r
      else do {
        lt \<leftarrow> lastTerm r;
        r' \<leftarrow> send ((new_msg MsgPreVote (r_id r) p (r_term r + 1))\<lparr>
                m_LastLogIndex := lastIndex r, m_LastLogTerm := lt\<rparr>) r;
        prevote_loop ps r'
      })"

definition preCampaign :: "Raft \<Rightarrow> Raft option" where
  "preCampaign r = do {
     i \<leftarrow> peerIdx r (r_id r);
     pg \<leftarrow> slice_set (replicate (length (r_preGranted r)) False) i True;
     let r1 = r\<lparr>r_preVoting := True, r_leader := 0, r_electionElapsed := 0, r_preGranted := pg\<rparr>;
     if quorum r1 = 1 then forceCampaign (r1\<lparr>r_preVoting := False\<rparr>)
     else prevote_loop (r_peers r1) r1
   }"

definition campaign :: "Raft \<Rightarrow> Raft option" where
  "campaign r = (if r_preVote r then preCampaign r else forceCampaign r)"

section \<open>Commitment\<close>

definition stepDownIfRemoved :: "Raft \<Rightarrow> Raft" where
  "stepDownIfRemoved r =
     (if r_role r \<noteq> RoleLeader \<or> IsVoter (r_conf r) (r_id r) then r
      else if lastConfIndex r \<noteq> 0 \<and> lastConfIndex r > r_commitIndex r then r
      else (becomeFollower (r_term r) (r_vote r) r)\<lparr>r_leader := 0\<rparr>)"

fun commit_loop :: "nat \<Rightarrow> Raft \<Rightarrow> Raft option" where
  "commit_loop 0 r = Some r"
| "commit_loop (Suc k) r =
     (let n = Suc k
      in if n \<le> r_commitIndex r then Some r
         else do {
           t \<leftarrow> termAt r n;
           if t \<noteq> r_term r then commit_loop k r
           else do {
             cnt \<leftarrow> count_matches (r_conf r) n (r_peers r) (r_matchIndex r);
             if cnt \<ge> quorum r then Some (stepDownIfRemoved (r\<lparr>r_commitIndex := n\<rparr>))
             else commit_loop k r
           }
         })"

definition maybeCommit :: "Raft \<Rightarrow> Raft option" where
  "maybeCommit r = commit_loop (lastIndex r) r"

section \<open>Read index\<close>

definition readFloor :: "Raft \<Rightarrow> nat" where
  "readFloor r = (if r_termStart r > r_commitIndex r then r_termStart r else r_commitIndex r)"

fun confirm_loop :: "readReq list \<Rightarrow> readReq list \<Rightarrow> Raft \<Rightarrow> readReq list \<times> Raft" where
  "confirm_loop [] kept r = (kept, r)"
| "confirm_loop (q # qs) kept r =
     (if length (filter (IsVoter (r_conf r)) (q_acks q)) < quorum r then confirm_loop qs (kept @ [q]) r
      else if q_from q = 0
      then confirm_loop qs kept (r\<lparr>r_readyReads := r_readyReads r @ [\<lparr>rs_Index = q_index q, rs_Ctx = q_ctx q\<rparr>]\<rparr>)
      else confirm_loop qs kept
             (sendGated ((new_msg MsgReadIndexResp (r_id r) (q_from q) (r_term r))\<lparr>
                m_ReadCtx := q_ctx q, m_ReadIndex := q_index q\<rparr>) r))"

definition maybeConfirmReads :: "Raft \<Rightarrow> Raft" where
  "maybeConfirmReads r =
     (if length (r_pendingReads r) = 0 then r
      else (case confirm_loop (r_pendingReads r) [] r of (kept, r') \<Rightarrow> r'\<lparr>r_pendingReads := kept\<rparr>))"

definition recordRead :: "readReq \<Rightarrow> Raft \<Rightarrow> Raft" where
  "recordRead q r = maybeConfirmReads (r\<lparr>r_pendingReads := r_pendingReads r @ [q\<lparr>q_acks := [r_id r]\<rparr>]\<rparr>)"

definition confirmRead :: "NodeID \<Rightarrow> Raft \<Rightarrow> Raft" where
  "confirmRead from r =
     maybeConfirmReads (r\<lparr>r_pendingReads :=
       map (\<lambda>q. if contains (q_acks q) from then q else q\<lparr>q_acks := q_acks q @ [from]\<rparr>)
         (filter (\<lambda>q. q_term q = r_term r) (r_pendingReads r))\<rparr>)"

definition ReadIndex :: "bytes \<Rightarrow> Raft \<Rightarrow> (raft_error option \<times> Raft) option" where
  "ReadIndex ctx r =
     (if length ctx = 0 then Some (Some NeedsReadContext, r)
      else (case r_role r of
              RoleLeader \<Rightarrow> map_option (Pair None)
                (broadcastAppend (recordRead \<lparr>q_index = readFloor r, q_term = r_term r, q_ctx = ctx,
                                              q_from = 0, q_acks = []\<rparr> r))
            | RoleFollower \<Rightarrow>
                if r_leader r = 0 then Some (Some ErrNotLeader, r)
                else Some (None, sendGated ((new_msg MsgReadIndex (r_id r) (r_leader r) (r_term r))\<lparr>
                                              m_ReadCtx := ctx\<rparr>) r)
            | RoleCandidate \<Rightarrow> Some (Some ErrNotLeader, r)))"

section \<open>Message handlers\<close>

definition stepPreVote :: "Message \<Rightarrow> Raft \<Rightarrow> Raft option" where
  "stepPreVote m r = do {
     grant \<leftarrow> (if m_Term m \<le> r_term r then Some False
               else if r_leader r \<noteq> 0 \<and> r_electionElapsed r < r_randomizedElectionTimeout r then Some False
               else logIsUpToDate r (m_LastLogIndex m) (m_LastLogTerm m));
     send ((new_msg MsgPreVoteResp (r_id r) (m_From m) (m_Term m))\<lparr>m_Granted := grant\<rparr>) r
   }"

definition stepPreVoteResp :: "Message \<Rightarrow> Raft \<Rightarrow> Raft option" where
  "stepPreVoteResp m r =
     (if \<not> r_preVoting r then Some r
      else if m_Term m \<noteq> r_term r + 1 then Some r
      else (case peerIdx r (m_From m) of
              None \<Rightarrow> Some r
            | Some i \<Rightarrow>
                if \<not> m_Granted m then Some r
                else do {
                  pg \<leftarrow> slice_set (r_preGranted r) i True;
                  let r1 = r\<lparr>r_preGranted := pg\<rparr>;
                  if countVoters r1 pg \<ge> quorum r1 then forceCampaign (r1\<lparr>r_preVoting := False\<rparr>)
                  else Some r1
                }))"

definition stepTimeoutNow :: "Message \<Rightarrow> Raft \<Rightarrow> Raft option" where
  "stepTimeoutNow m r =
     (if m_Term m < r_term r \<or> r_role r = RoleLeader then Some r else forceCampaign r)"

definition vote_grant :: "Message \<Rightarrow> Raft \<Rightarrow> bool option" where
  "vote_grant m r =
     (if m_Term m < r_term r then Some False
      else if r_vote r \<noteq> 0 \<and> r_vote r \<noteq> m_From m then Some False
      else logIsUpToDate r (m_LastLogIndex m) (m_LastLogTerm m))"

definition cast_vote :: "bool \<Rightarrow> NodeID \<Rightarrow> Raft \<Rightarrow> Raft" where
  "cast_vote grant v r = (if grant then (setVote v r)\<lparr>r_electionElapsed := 0\<rparr> else r)"

definition stepVote :: "Message \<Rightarrow> Raft \<Rightarrow> Raft option" where
  "stepVote m r = do {
     grant \<leftarrow> vote_grant m r;
     let r1 = cast_vote grant (m_From m) r;
     Some (sendGated ((new_msg MsgVoteResp (r_id r1) (m_From m) (r_term r1))\<lparr>m_Granted := grant\<rparr>) r1)
   }"

definition record_vote :: "bool \<Rightarrow> nat \<Rightarrow> Raft \<Rightarrow> Raft option" where
  "record_vote granted i r =
     (if granted
      then map_option (\<lambda>vs. r\<lparr>r_votesGranted := vs\<rparr>) (slice_set (r_votesGranted r) i True)
      else map_option (\<lambda>vs. r\<lparr>r_votesDenied := vs\<rparr>) (slice_set (r_votesDenied r) i True))"

definition tally :: "Raft \<Rightarrow> Raft option" where
  "tally r =
     (if countVoters r (r_votesGranted r) \<ge> quorum r then becomeLeader r
      else if countVoters r (r_votesDenied r) \<ge> quorum r
      then Some (becomeFollower (r_term r) (r_vote r) r)
      else Some r)"

definition stepVoteResp :: "Message \<Rightarrow> Raft \<Rightarrow> Raft option" where
  "stepVoteResp m r =
     (if r_role r \<noteq> RoleCandidate \<or> m_Term m \<noteq> r_term r then Some r
      else (case peerIdx r (m_From m) of
              None \<Rightarrow> Some r
            | Some i \<Rightarrow> do { r1 \<leftarrow> record_vote (m_Granted m) i r; tally r1 }))"

definition appResp :: "Raft \<Rightarrow> Message \<Rightarrow> bool \<Rightarrow> Message" where
  "appResp r m ok = (new_msg MsgAppResp (r_id r) (m_From m) (r_term r))\<lparr>m_Success := ok\<rparr>"

definition follow_leader :: "Message \<Rightarrow> Raft \<Rightarrow> Raft" where
  "follow_leader m r =
     (becomeFollower (m_Term m) (r_vote r) r)\<lparr>r_leader := m_From m, r_electionElapsed := 0\<rparr>"

fun app_loop :: "Entry list \<Rightarrow> Raft \<Rightarrow> Raft option" where
  "app_loop [] r = Some r"
| "app_loop (e # es) r =
     (if e_Index e \<le> lastIndex r then do {
        t \<leftarrow> termAt r (e_Index e);
        if t = e_Term e then app_loop es r
        else do {
          r1 \<leftarrow> truncateFrom (e_Index e) r;
          r2 \<leftarrow> appendEntries [e] r1;
          app_loop es r2
        }
      }
      else do { r2 \<leftarrow> appendEntries [e] r; app_loop es r2 })"

definition advance_commit :: "nat \<Rightarrow> nat \<Rightarrow> Raft \<Rightarrow> Raft" where
  "advance_commit leaderCommit lst r =
     (if leaderCommit > r_commitIndex r then r\<lparr>r_commitIndex := min leaderCommit lst\<rparr> else r)"

definition stepApp :: "Message \<Rightarrow> Raft \<Rightarrow> Raft option" where
  "stepApp m r =
     (if m_Term m < r_term r then Some (sendGated (appResp r m False) r)
      else do {
        let r1 = follow_leader m r;
        mt \<leftarrow> matches r1 (m_PrevLogIndex m) (m_PrevLogTerm m);
        if \<not> mt then Some (sendGated ((appResp r1 m False)\<lparr>m_Hint := lastIndex r1\<rparr>) r1)
        else do {
          r2 \<leftarrow> app_loop (m_Entries m) r1;
          let last = m_PrevLogIndex m + length (m_Entries m);
          let r3 = advance_commit (m_LeaderCommit m) last r2;
          (lm, sm) \<leftarrow> marksFor r3 last;
          Some (sendGatedOn lm sm ((appResp r3 m True)\<lparr>m_MatchIndex := last\<rparr>) r3)
        }
      })"

definition back_up :: "nat \<Rightarrow> nat \<Rightarrow> Raft \<Rightarrow> Raft option" where
  "back_up i hint r = do {
     n0 \<leftarrow> slice_get (r_nextIndex r) i;
     let n1 = (if hint + 1 < n0 then hint + 1 else if n0 > 1 then n0 - 1 else n0);
     ns \<leftarrow> slice_set (r_nextIndex r) i (if n1 < 1 then 1 else n1);
     Some (r\<lparr>r_nextIndex := ns\<rparr>)
   }"

definition record_match :: "nat \<Rightarrow> nat \<Rightarrow> Raft \<Rightarrow> Raft option" where
  "record_match i k r = do {
     m0 \<leftarrow> slice_get (r_matchIndex r) i;
     let m1 = (if k > m0 then k else m0);
     ms \<leftarrow> slice_set (r_matchIndex r) i m1;
     n0 \<leftarrow> slice_get (r_nextIndex r) i;
     ns \<leftarrow> slice_set (r_nextIndex r) i (if m1 + 1 > n0 then m1 + 1 else n0);
     Some (r\<lparr>r_matchIndex := ms, r_nextIndex := ns\<rparr>)
   }"

definition stepAppResp :: "Message \<Rightarrow> Raft \<Rightarrow> Raft option" where
  "stepAppResp m r =
     (if r_role r \<noteq> RoleLeader \<or> m_Term m \<noteq> r_term r then Some r
      else (case peerIdx r (m_From m) of
              None \<Rightarrow> Some r
            | Some i \<Rightarrow>
                if \<not> m_Success m then do { r1 \<leftarrow> back_up i (m_Hint m) r; sendAppend (m_From m) r1 }
                else do {
                  r1 \<leftarrow> record_match i (m_MatchIndex m) r;
                  mi \<leftarrow> slice_get (r_matchIndex r1) i;
                  r2 \<leftarrow> (if r_leadTransferee r1 = m_From m \<and> mi \<ge> lastIndex r1
                         then send (new_msg MsgTimeoutNow (r_id r1) (m_From m) (r_term r1)) r1
                         else Some r1);
                  maybeCommit r2
                }))"

definition drop_accepts :: "Raft \<Rightarrow> Raft" where
  "drop_accepts r =
     r\<lparr>r_gated := filter (\<lambda>g. \<not> (m_Type (g_msg g) = MsgAppResp \<and> m_Success (g_msg g))) (r_gated r)\<rparr>"

definition install_snapshot :: "Message \<Rightarrow> Configuration \<Rightarrow> Raft \<Rightarrow> Raft" where
  "install_snapshot m c r =
     (let r3 = recomputeConf (r\<lparr>r_log := [], r_baseConf := c\<rparr>);
          r4 = dirty (r3\<lparr>r_snapIndex := m_SnapIndex m, r_snapTerm := m_SnapTerm m,
                 r_commitIndex := m_SnapIndex m, r_appliedIdx := m_SnapIndex m,
                 r_tail := \<lparr>t_persisted = m_SnapIndex m, t_handed = m_SnapIndex m\<rparr>,
                 r_markLastIdx := m_SnapIndex m\<rparr>);
          r5 = r4\<lparr>r_nextSnapMark := r_nextSnapMark r4 + 1, r_snapMark := r_nextSnapMark r4 + 1,
                 r_pendingSnap := Some \<lparr>s_Index = m_SnapIndex m, s_Term = m_SnapTerm m,
                                        s_Data = m_SnapData m, s_Conf = c\<rparr>\<rparr>
      in sendGatedOn (r_dirtyMark r5) (r_snapMark r5)
           ((appResp r5 m True)\<lparr>m_MatchIndex := m_SnapIndex m\<rparr>) r5)"

definition stepSnap :: "Message \<Rightarrow> Raft \<Rightarrow> Raft option" where
  "stepSnap m r =
     (if m_Term m < r_term r then Some (sendGated (appResp r m False) r)
      else (let r1 = follow_leader m r
        in if m_SnapIndex m \<le> r_commitIndex r1 then do {
             let last = lastIndex r1;
             (lm, sm) \<leftarrow> marksFor r1 last;
             Some (sendGatedOn lm sm ((appResp r1 m True)\<lparr>m_MatchIndex := last\<rparr>) r1)
           }
           else (let r2 = drop_accepts r1
             in case DecodeConfiguration (m_SnapConf m) of
                  None \<Rightarrow> Some (sendGated (appResp r2 m False) r2)
                | Some c \<Rightarrow> Some (install_snapshot m c r2))))"

definition stepReadIndex :: "Message \<Rightarrow> Raft \<Rightarrow> Raft option" where
  "stepReadIndex m r =
     (if r_role r = RoleLeader
      then broadcastAppend (recordRead \<lparr>q_index = readFloor r, q_term = r_term r, q_ctx = m_ReadCtx m,
                                        q_from = m_From m, q_acks = []\<rparr> r)
      else Some r)"

definition demote :: "Message \<Rightarrow> Raft \<Rightarrow> Raft" where
  "demote m r =
     (if m_Term m > r_term r \<and> m_Type m \<noteq> MsgPreVote \<and> m_Type m \<noteq> MsgPreVoteResp
      then becomeFollower (m_Term m) 0 r else r)"

fun step_type :: "MessageType \<Rightarrow> Message \<Rightarrow> Raft \<Rightarrow> Raft option" where
  "step_type MsgVote m r = stepVote m r"
| "step_type MsgVoteResp m r = stepVoteResp m r"
| "step_type MsgApp m r = stepApp m r"
| "step_type MsgAppResp m r = do {
     r' \<leftarrow> stepAppResp m r;
     Some (if r_role r' = RoleLeader \<and> m_Success m then confirmRead (m_From m) r' else r')
   }"
| "step_type MsgReadIndex m r = stepReadIndex m r"
| "step_type MsgReadIndexResp m r =
     Some (r\<lparr>r_readyReads := r_readyReads r @ [\<lparr>rs_Index = m_ReadIndex m, rs_Ctx = m_ReadCtx m\<rparr>]\<rparr>)"
| "step_type MsgPreVote m r = stepPreVote m r"
| "step_type MsgPreVoteResp m r = stepPreVoteResp m r"
| "step_type MsgSnap m r = stepSnap m r"
| "step_type MsgTimeoutNow m r = stepTimeoutNow m r"
| "step_type (MsgUnknown b) m r = Some r"

definition Step :: "Message \<Rightarrow> Raft \<Rightarrow> (raft_error option \<times> Raft) option" where
  "Step m r =
     (if m_To m \<noteq> r_id r then Some (Some (WrongAddress (m_To m)), r)
      else (case m_Type m of
              MsgUnknown _ \<Rightarrow> Some (Some UnknownMessageType, r)
            | t \<Rightarrow> map_option (Pair None) (step_type t m (demote m r))))"

section \<open>Driver entry points\<close>

definition tick_transfer :: "Raft \<Rightarrow> Raft" where
  "tick_transfer r =
     (if r_leadTransferee r \<noteq> 0
      then (let r' = r\<lparr>r_transferElapsed := r_transferElapsed r + 1\<rparr>
            in if r_transferElapsed r' \<ge> r_electionTimeout r' then r'\<lparr>r_leadTransferee := 0\<rparr> else r')
      else r)"

definition tick_leader :: "Raft \<Rightarrow> Raft option" where
  "tick_leader r =
     (let r1 = r\<lparr>r_heartbeatElapsed := r_heartbeatElapsed r + 1\<rparr>
      in if r_heartbeatElapsed r1 \<ge> r_heartbeatTimeout r1
         then broadcastAppend (r1\<lparr>r_heartbeatElapsed := 0\<rparr>) else Some r1)"

definition tick_follower :: "Raft \<Rightarrow> Raft option" where
  "tick_follower r =
     (let r1 = r\<lparr>r_electionElapsed := r_electionElapsed r + 1\<rparr>
      in if r_electionElapsed r1 \<ge> r_randomizedElectionTimeout r1 \<and> IsVoter (r_conf r1) (r_id r1)
         then campaign r1 else Some r1)"

definition Tick :: "Raft \<Rightarrow> Raft option" where
  "Tick r =
     (case r_role r of
        RoleFollower \<Rightarrow> tick_follower r
      | RoleCandidate \<Rightarrow> tick_follower r
      | RoleLeader \<Rightarrow> tick_leader (tick_transfer r))"

definition Propose :: "ProposalID \<Rightarrow> bytes \<Rightarrow> Raft \<Rightarrow> (raft_error option \<times> Raft) option" where
  "Propose pid data r =
     (if pid_Zero pid then Some (Some NeedsIdentifier, r)
      else if r_role r \<noteq> RoleLeader then Some (Some ErrNotLeader, r)
      else if r_leadTransferee r \<noteq> 0 then Some (Some ErrTransferInProgress, r)
      else do {
        r1 \<leftarrow> appendEntries [\<lparr>e_Type = EntryNormal, e_Term = r_term r, e_Index = lastIndex r + 1,
                             e_ID = pid, e_Data = data\<rparr>] r;
        map_option (Pair None) (broadcastAppend r1)
      })"

text \<open>The promotion guard's \<^verbatim>\<open>uint64\<close> subtraction, which wraps when the match index is ahead.\<close>

definition u64_gap :: "nat \<Rightarrow> nat \<Rightarrow> nat" where
  "u64_gap a b = (if b \<le> a then a - b else a + 2 ^ 64 - b)"

definition learner_lag :: "ConfChangeSingle \<Rightarrow> Raft \<Rightarrow> nat option option" where
  "learner_lag ch r =
     (if ch_Type ch = ConfChangeAddVoter \<and> IsLearner (r_conf r) (ch_Node ch)
      then (case peerIdx r (ch_Node ch) of
              None \<Rightarrow> Some None
            | Some i \<Rightarrow> map_option (\<lambda>mi. let gap = u64_gap (lastIndex r) mi
                                         in if gap > r_promotionLag r then Some gap else None)
                          (slice_get (r_matchIndex r) i))
      else Some None)"

definition ProposeConfChange :: "ProposalID \<Rightarrow> ConfChangeV2 \<Rightarrow> Raft \<Rightarrow> (raft_error option \<times> Raft) option" where
  "ProposeConfChange pid cc r =
     (if pid_Zero pid then Some (Some NeedsIdentifier, r)
      else if r_role r \<noteq> RoleLeader then Some (Some ErrNotLeader, r)
      else if r_leadTransferee r \<noteq> 0 then Some (Some ErrTransferInProgress, r)
      else if cc_Transition cc \<noteq> ConfChangeSimple then Some (Some (JointRefused (cc_Transition cc)), r)
      else if length (cc_Changes cc) \<noteq> 1 then Some (Some (ServerCount (length (cc_Changes cc))), r)
      else if lastConfIndex r > r_commitIndex r then Some (Some ErrConfChangeInFlight, r)
      else do {
        let ch = cc_Changes cc ! 0;
        lag \<leftarrow> learner_lag ch r;
        case lag of
          Some gap \<Rightarrow> Some (Some (ErrLearnerLagging gap), r)
        | None \<Rightarrow>
            (case conf_apply (r_conf r) ch of
               Inl err \<Rightarrow> Some (Some (ConfRefused err), r)
             | Inr _ \<Rightarrow> do {
                 r1 \<leftarrow> appendEntries [\<lparr>e_Type = EntryConfChange, e_Term = r_term r, e_Index = lastIndex r + 1,
                                      e_ID = pid, e_Data = EncodeConfChange cc\<rparr>] r;
                 map_option (Pair None) (broadcastAppend r1)
               })
      })"

definition TransferLeadership :: "NodeID \<Rightarrow> Raft \<Rightarrow> Raft option" where
  "TransferLeadership target r =
     (if target = r_id r then None
      else (case peerIdx r target of
              None \<Rightarrow> Some r
            | Some i \<Rightarrow>
                if \<not> IsVoter (r_conf r) target then Some r
                else if r_role r \<noteq> RoleLeader \<or> r_leadTransferee r \<noteq> 0 then Some r
                else do {
                  let r1 = r\<lparr>r_leadTransferee := target, r_transferElapsed := 0\<rparr>;
                  mi \<leftarrow> slice_get (r_matchIndex r1) i;
                  if mi \<ge> lastIndex r1
                  then send (new_msg MsgTimeoutNow (r_id r1) target (r_term r1)) r1
                  else sendAppend target r1
                }))"

definition Campaign :: "Raft \<Rightarrow> (raft_error option \<times> Raft) option" where
  "Campaign r =
     (if r_role r = RoleLeader then Some (Some AlreadyLeader, r)
      else map_option (Pair None) (campaign r))"

definition Compact :: "nat \<Rightarrow> Raft \<Rightarrow> ((raft_error + nat \<times> Configuration) \<times> Raft) option" where
  "Compact index r =
     (if index \<le> r_snapIndex r then Some (Inr (r_snapTerm r, r_baseConf r), r)
      else if index > r_appliedIdx r then Some (Inl CompactBeyondApplied, r)
      else if index > t_persisted (r_tail r) then Some (Inl CompactBeyondDurable, r)
      else do {
        me \<leftarrow> at_index r index;
        case me of
          None \<Rightarrow> Some (Inl (NotInLog index), r)
        | Some e \<Rightarrow> do {
            cr \<leftarrow> ConfigurationAt r index;
            case cr of
              Inl err \<Rightarrow> Some (Inl err, r)
            | Inr c \<Rightarrow> do {
                p \<leftarrow> pos r index;
                Some (Inr (e_Term e, c),
                      recomputeConf (r\<lparr>r_log := drop (p + 1) (r_log r), r_snapIndex := index,
                                       r_snapTerm := e_Term e, r_baseConf := c\<rparr>))
              }
          }
      })"

section \<open>Ready and acknowledgements\<close>

definition HasReady :: "Raft \<Rightarrow> bool" where
  "HasReady r \<longleftrightarrow> r_hardStateDirty r \<or> t_handed (r_tail r) < lastIndex r \<or> r_msgs r \<noteq> []
     \<or> r_appliedIdx r < r_commitIndex r \<or> r_pendingSnap r \<noteq> None \<or> r_snapTo r \<noteq> []"

fun committed_from :: "Raft \<Rightarrow> nat list \<Rightarrow> Entry list option" where
  "committed_from r [] = Some []"
| "committed_from r (i # is) = do {
     me \<leftarrow> at_index r i;
     e \<leftarrow> me;
     es \<leftarrow> committed_from r is;
     Some (e # es)
   }"

definition last_handed :: "Entry list \<Rightarrow> nat \<Rightarrow> nat" where
  "last_handed es old = (if es = [] then old else e_Index (es ! (length es - 1)))"

definition hand_over :: "Entry list \<Rightarrow> Raft \<Rightarrow> Raft" where
  "hand_over ents r =
     r\<lparr>r_markHandedOff := True, r_lastHandedMark := r_dirtyMark r,
       r_tail := (r_tail r)\<lparr>t_handed := last_handed ents (t_handed (r_tail r))\<rparr>,
       r_markLastIdx := last_handed ents (r_markLastIdx r)\<rparr>"

definition ready :: "Raft \<Rightarrow> (Ready \<times> Raft) option" where
  "ready r = do {
     ents \<leftarrow> (if t_handed (r_tail r) < lastIndex r then suffixFrom r (t_handed (r_tail r) + 1) else Some []);
     com \<leftarrow> committed_from r [r_appliedIdx r + 1..<Suc (min (r_commitIndex r) (lastIndex r))];
     let hs = (if r_hardStateDirty r then Some \<lparr>hs_Term = r_term r, hs_Vote = r_vote r\<rparr> else None);
     let handing = (hs \<noteq> None \<or> ents \<noteq> []);
     let rd = \<lparr>rd_HardState = hs, rd_Entries = ents, rd_SnapshotTo = r_snapTo r,
              rd_Snapshot = r_pendingSnap r, rd_Mark = (if handing then r_dirtyMark r else 0),
              rd_ReadStates = r_readyReads r,
              rd_SnapMark = (if r_pendingSnap r \<noteq> None then r_snapMark r else 0),
              rd_Messages = r_msgs r, rd_Committed = com\<rparr>;
     let r1 = r\<lparr>r_readyReads := [], r_pendingSnap := None, r_snapTo := [],
               r_hsMark := (if r_hardStateDirty r then r_dirtyMark r else r_hsMark r)\<rparr>;
     let r2 = (if handing then hand_over ents r1
               else if r_dirtyMark r \<noteq> 0 \<and> \<not> r_markHandedOff r1
               then closeEmptyMark (r_dirtyMark r) r1 else r1);
     Some (rd, r2\<lparr>r_msgs := [], r_hardStateDirty := False\<rparr>)
   }"

definition ack_hs :: "nat \<Rightarrow> Raft \<Rightarrow> Raft" where
  "ack_hs m r = (if r_hsMark r \<noteq> 0 \<and> r_hsMark r \<le> m then r\<lparr>r_hsMark := 0\<rparr> else r)"

definition ack_tail :: "nat \<Rightarrow> Raft \<Rightarrow> Raft" where
  "ack_tail m r =
     (if r_lastHandedMark r \<noteq> 0 \<and> m \<ge> r_lastHandedMark r \<and> r_markLastIdx r > t_persisted (r_tail r)
      then r\<lparr>r_tail := (r_tail r)\<lparr>t_persisted := r_markLastIdx r\<rparr>\<rparr> else r)"

definition count_own :: "Raft \<Rightarrow> Raft option" where
  "count_own r =
     (if r_role r = RoleLeader
      then (case peerIdx r (r_id r) of
              None \<Rightarrow> Some r
            | Some i \<Rightarrow> do {
                mi \<leftarrow> slice_get (r_matchIndex r) i;
                if t_persisted (r_tail r) > mi then do {
                  ms \<leftarrow> slice_set (r_matchIndex r) i (t_persisted (r_tail r));
                  maybeCommit (r\<lparr>r_matchIndex := ms\<rparr>)
                } else Some r
              })
      else Some r)"

definition AckPersisted :: "nat \<Rightarrow> Raft \<Rightarrow> Raft option" where
  "AckPersisted m r =
     (if m \<le> r_persisted r then Some r
      else count_own (releaseThrough m (ack_tail m (ack_hs m (r\<lparr>r_persisted := m\<rparr>)))))"

definition AckSnapshot :: "nat \<Rightarrow> Raft \<Rightarrow> Raft" where
  "AckSnapshot m r =
     (if m \<le> r_persistedSnap r then r
      else (let r1 = r\<lparr>r_persistedSnap := m\<rparr>
            in release (if r_snapMark r1 \<noteq> 0 \<and> r_snapMark r1 \<le> m then r1\<lparr>r_snapMark := 0\<rparr> else r1)))"

definition AckApplied :: "nat \<Rightarrow> Raft \<Rightarrow> Raft" where
  "AckApplied index r = (if index > r_appliedIdx r then r\<lparr>r_appliedIdx := index\<rparr> else r)"

definition PendingGated :: "Raft \<Rightarrow> nat" where
  "PendingGated r = length (r_gated r)"

definition AssertQuiescent :: "Raft \<Rightarrow> bool" where
  "AssertQuiescent r \<longleftrightarrow> length (r_gated r) = 0"

record Status =
  st_ID :: NodeID
  st_Term :: nat
  st_Vote :: NodeID
  st_Role :: Role
  st_Leader :: NodeID
  st_Commit :: nat
  st_Applied :: nat
  st_Snap :: nat
  st_Last :: nat
  st_Transferee :: NodeID

definition status :: "Raft \<Rightarrow> Status" where
  "status r = \<lparr>st_ID = r_id r, st_Term = r_term r, st_Vote = r_vote r, st_Role = r_role r,
     st_Leader = r_leader r, st_Commit = r_commitIndex r, st_Applied = r_appliedIdx r,
     st_Snap = r_snapIndex r, st_Last = lastIndex r, st_Transferee = r_leadTransferee r\<rparr>"

end
