(* ===== verification/Raft_Steps.thy ===== *)
theory Raft_Steps
  imports Raft_Ops
begin

text \<open>
  Every operation of the Raft machine decomposed into the few primitive changes it makes to the
  state that matters for safety: volatile bookkeeping, a term bump, a vote, a gated or an ungated
  message, an append, the replacement of a conflicting suffix, a commit, a snapshot install.
  Invariants are then proved once per primitive change.
\<close>

section \<open>Volatile bookkeeping\<close>

text \<open>Agreement on everything but roles, timers, replication progress, votes and reads.\<close>

definition same_core :: "Raft \<Rightarrow> Raft \<Rightarrow> bool" where
  "same_core r r' \<longleftrightarrow>
     r_id r' = r_id r \<and> r_peers r' = r_peers r \<and> r_conf r' = r_conf r \<and> r_baseConf r' = r_baseConf r \<and>
     r_confRefusal r' = r_confRefusal r \<and> r_term r' = r_term r \<and> r_vote r' = r_vote r \<and>
     r_log r' = r_log r \<and> r_snapIndex r' = r_snapIndex r \<and> r_snapTerm r' = r_snapTerm r \<and>
     r_snapMark r' = r_snapMark r \<and> r_nextSnapMark r' = r_nextSnapMark r \<and>
     r_persistedSnap r' = r_persistedSnap r \<and> r_pendingSnap r' = r_pendingSnap r \<and>
     r_commitIndex r' = r_commitIndex r \<and> r_appliedIdx r' = r_appliedIdx r \<and>
     r_msgs r' = r_msgs r \<and> r_tail r' = r_tail r \<and> r_markLastIdx r' = r_markLastIdx r \<and>
     r_lastHandedMark r' = r_lastHandedMark r \<and> r_hardStateDirty r' = r_hardStateDirty r \<and>
     r_nextMark r' = r_nextMark r \<and> r_persisted r' = r_persisted r \<and> r_gated r' = r_gated r \<and>
     r_dirtyMark r' = r_dirtyMark r \<and> r_hsMark r' = r_hsMark r \<and>
     r_markHandedOff r' = r_markHandedOff r \<and>
     length (r_nextIndex r') = length (r_nextIndex r) \<and>
     length (r_matchIndex r') = length (r_matchIndex r) \<and>
     length (r_votesGranted r') = length (r_votesGranted r) \<and>
     length (r_votesDenied r') = length (r_votesDenied r) \<and>
     length (r_preGranted r') = length (r_preGranted r)"

lemma same_core_refl [simp]: "same_core r r"
  by (simp add: same_core_def)

text \<open>
  What a message a node puts behind the gate says about that node, and the marks it waits on: the
  sender's term always; a granted vote; the sender's own vote on a vote request; that the log
  through the acknowledged index is held and covered by the marks; the log an append carries.
\<close>

definition attests :: "Raft \<Rightarrow> nat \<Rightarrow> nat \<Rightarrow> Message \<Rightarrow> bool" where
  "attests r lm sm m \<longleftrightarrow>
     m_From m = r_id r \<and> m_Term m = r_term r \<and>
     (m_Type m = MsgVoteResp \<and> m_Granted m \<longrightarrow> r_vote r = m_To m) \<and>
     (m_Type m = MsgVote \<longrightarrow> r_vote r = r_id r) \<and>
     (m_Type m = MsgAppResp \<and> m_Success m \<longrightarrow>
        marksFor r (m_MatchIndex m) = Some (lm, sm) \<and> m_MatchIndex m \<le> lastIndex r) \<and>
     (m_Type m = MsgApp \<longrightarrow>
        m_LeaderCommit m = r_commitIndex r \<and> r_snapIndex r \<le> m_PrevLogIndex m \<and>
        termAt r (m_PrevLogIndex m) = Some (m_PrevLogTerm m) \<and>
        (if m_PrevLogIndex m < lastIndex r then suffixFrom r (m_PrevLogIndex m + 1) = Some (m_Entries m)
         else m_Entries m = [])) \<and>
     m_Type m \<notin> {MsgPreVote, MsgPreVoteResp, MsgTimeoutNow}"

inductive micro :: "Raft \<Rightarrow> Raft \<Rightarrow> bool" where
  volatile: "same_core r r' \<Longrightarrow> micro r r'"
| bump: "r_term r < t \<Longrightarrow> micro r (setTermAndVote t v r)"
| vote: "r_vote r = 0 \<or> r_vote r = v \<Longrightarrow> micro r (setVote v r)"
| ungated: "m_Type m \<in> {MsgPreVote, MsgPreVoteResp, MsgTimeoutNow} \<Longrightarrow>
    micro r (r\<lparr>r_msgs := r_msgs r @ [m]\<rparr>)"
| gate: "attests r lm sm m \<Longrightarrow> micro r (sendGatedOn lm sm m r)"
| append: "appendEntries [e] r = Some r' \<Longrightarrow> micro r r'"
| replace: "truncateFrom (e_Index e) r = Some r1 \<Longrightarrow> appendEntries [e] r1 = Some r2 \<Longrightarrow> micro r r2"
| commit: "r_commitIndex r \<le> n \<Longrightarrow> n \<le> lastIndex r \<Longrightarrow> micro r (r\<lparr>r_commitIndex := n\<rparr>)"
| drop: "micro r (r\<lparr>r_gated := filter P (r_gated r)\<rparr>)"
| install: "DecodeConfiguration (m_SnapConf m) = Some c \<Longrightarrow> r_commitIndex r < m_SnapIndex m \<Longrightarrow>
    \<forall>g \<in> set (r_gated r). \<not> (m_Type (g_msg g) = MsgAppResp \<and> m_Success (g_msg g)) \<Longrightarrow>
    micro r (install_snapshot m c r)"

abbreviation reach :: "Raft \<Rightarrow> Raft \<Rightarrow> bool" where
  "reach \<equiv> micro\<^sup>*\<^sup>*"

lemma reach_volatile: "same_core r r' \<Longrightarrow> reach r r'"
  by (blast intro: micro.volatile)

lemma reach_micro: "micro r r' \<Longrightarrow> reach r r'"
  by blast

lemma reach_step: "micro r r1 \<Longrightarrow> reach r1 r2 \<Longrightarrow> reach r r2"
  by (rule converse_rtranclp_into_rtranclp)

section \<open>Slices keep their lengths\<close>

lemma slice_set_Some [simp]: "slice_set xs i v = Some ys \<longleftrightarrow> i < length xs \<and> ys = xs[i := v]"
  by (auto simp: slice_set_def)

lemma slice_get_Some [simp]: "slice_get xs i = Some x \<longleftrightarrow> i < length xs \<and> x = xs ! i"
  by (auto simp: slice_get_def)

lemma send_Some [simp]:
  "send m r = Some r' \<longleftrightarrow>
     m_Type m \<in> {MsgPreVote, MsgPreVoteResp, MsgTimeoutNow} \<and> r' = r\<lparr>r_msgs := r_msgs r @ [m]\<rparr>"
  by (auto simp: send_def)

lemma new_msg_sel [simp]:
  "m_Type (new_msg t f d n) = t" "m_From (new_msg t f d n) = f" "m_To (new_msg t f d n) = d"
  "m_Term (new_msg t f d n) = n" "m_Granted (new_msg t f d n) = False"
  "m_Success (new_msg t f d n) = False"
  by (simp_all add: new_msg_def)

lemma appResp_sel [simp]:
  "m_Type (appResp r m ok) = MsgAppResp" "m_From (appResp r m ok) = r_id r"
  "m_To (appResp r m ok) = m_From m" "m_Term (appResp r m ok) = r_term r"
  "m_Success (appResp r m ok) = ok"
  by (simp_all add: appResp_def)

section \<open>Decomposition of the helpers\<close>

lemma sendSnapshot_core: "sendSnapshot dest r = Some r' \<Longrightarrow> same_core r r'"
  by (auto simp: sendSnapshot_def same_core_def Let_def Option.bind_eq_Some_conv
      split: if_splits option.splits)

lemma sendAppend_reach:
  assumes "sendAppend dest r = Some r'"
  shows "reach r r'"
proof (cases "peerIdx r dest")
  case None
  with assms show ?thesis by (simp add: sendAppend_def)
next
  case (Some i)
  define nxt where "nxt = (if r_nextIndex r ! i < 1 then 1 else r_nextIndex r ! i)"
  show ?thesis
  proof (cases "nxt \<le> r_snapIndex r")
    case True
    then have "sendSnapshot dest r = Some r'"
      using assms Some by (auto simp: sendAppend_def nxt_def Option.bind_eq_Some_conv Let_def split: if_splits)
    then show ?thesis by (blast intro: reach_volatile sendSnapshot_core)
  next
    case False
    then obtain ents pt where e: "(if nxt \<le> lastIndex r then suffixFrom r nxt else Some []) = Some ents"
      and t: "termAt r (nxt - 1) = Some pt"
      and r': "r' = sendGated ((new_msg MsgApp (r_id r) dest (r_term r))\<lparr>m_PrevLogIndex := nxt - 1,
                 m_PrevLogTerm := pt, m_Entries := ents, m_LeaderCommit := r_commitIndex r\<rparr>) r"
      using assms Some by (auto simp: sendAppend_def nxt_def Option.bind_eq_Some_conv Let_def split: if_splits)
    have "1 \<le> nxt" by (simp add: nxt_def)
    then show ?thesis
      unfolding r' sendGated_def using e t False
      by (intro reach_micro micro.gate) (auto simp: attests_def split: if_splits)
  qed
qed

lemma broadcast_loop_reach: "broadcast_loop ps r = Some r' \<Longrightarrow> reach r r'"
proof (induction ps arbitrary: r)
  case (Cons p ps)
  then show ?case
    by (auto simp: Option.bind_eq_Some_conv split: if_splits dest!: sendAppend_reach
        intro: rtranclp_trans)
qed simp

lemma broadcastAppend_reach: "broadcastAppend r = Some r' \<Longrightarrow> reach r r'"
  unfolding broadcastAppend_def by (rule broadcast_loop_reach)

lemma becomeFollower_reach: "reach r (becomeFollower t v r)"
proof -
  define r1 where "r1 = (if t > r_term r then setTermAndVote t v r else r)"
  have "reach r r1" by (auto simp: r1_def intro: reach_micro micro.bump)
  also have "reach r1 (becomeFollower t v r)"
    by (rule reach_volatile) (simp add: becomeFollower_def r1_def [symmetric] same_core_def)
  finally show ?thesis .
qed

lemma sendGatedOn_sel [simp]:
  "r_id (sendGatedOn lm sm m r) = r_id r" "r_vote (sendGatedOn lm sm m r) = r_vote r"
  "r_term (sendGatedOn lm sm m r) = r_term r" "r_conf (sendGatedOn lm sm m r) = r_conf r"
  "r_role (sendGatedOn lm sm m r) = r_role r" "r_log (sendGatedOn lm sm m r) = r_log r"
  "r_peers (sendGatedOn lm sm m r) = r_peers r" "r_snapIndex (sendGatedOn lm sm m r) = r_snapIndex r"
  by (simp_all add: sendGatedOn_def Let_def)

lemma vote_loop_reach: "vote_loop ps r = Some r' \<Longrightarrow> r_vote r = r_id r \<Longrightarrow> reach r r'"
proof (induction ps arbitrary: r)
  case (Cons p ps)
  show ?case
  proof (cases "p = r_id r")
    case False
    then obtain lt where "vote_loop ps (sendGated ((new_msg MsgVote (r_id r) p (r_term r))\<lparr>
          m_LastLogIndex := lastIndex r, m_LastLogTerm := lt\<rparr>) r) = Some r'"
      using Cons.prems by (auto simp: Option.bind_eq_Some_conv)
    moreover have "micro r (sendGated ((new_msg MsgVote (r_id r) p (r_term r))\<lparr>
          m_LastLogIndex := lastIndex r, m_LastLogTerm := lt\<rparr>) r)"
      unfolding sendGated_def using Cons.prems by (intro micro.gate) (simp add: attests_def)
    ultimately show ?thesis
      using Cons by (metis converse_rtranclp_into_rtranclp sendGated_def sendGatedOn_sel(1,2))
  qed (use Cons in simp)
qed simp

lemma prevote_loop_reach: "prevote_loop ps r = Some r' \<Longrightarrow> reach r r'"
proof (induction ps arbitrary: r)
  case (Cons p ps)
  show ?case
  proof (cases "p = r_id r")
    case False
    then obtain lt where lt: "prevote_loop ps (r\<lparr>r_msgs := r_msgs r @ [(new_msg MsgPreVote (r_id r) p
        (r_term r + 1))\<lparr>m_LastLogIndex := lastIndex r, m_LastLogTerm := lt\<rparr>]\<rparr>) = Some r'"
      using Cons.prems by (auto simp: Option.bind_eq_Some_conv)
    show ?thesis
      by (rule reach_step [OF _ Cons.IH [OF lt]], rule micro.ungated) simp
  qed (use Cons in simp)
qed simp

lemma reset_progress_Some [simp]:
  "reset_progress n v xs = Some ys \<longleftrightarrow> n \<le> length xs \<and> ys = replicate n v @ drop n xs"
  by (auto simp: reset_progress_def)

lemma becomeLeader_cases:
  assumes "becomeLeader r = Some r'"
  obtains r2 r3 noop where "same_core r r2" "appendEntries [noop] r2 = Some r3"
    "broadcastAppend (r3\<lparr>r_termStart := e_Index noop, r_pendingReads := [], r_readyReads := []\<rparr>) = Some r'"
    "r_role r2 = RoleLeader" "e_Term noop = r_term r" "e_Type noop = EntryNormal"
proof -
  define r1 where "r1 = r\<lparr>r_role := RoleLeader, r_leader := r_id r, r_heartbeatElapsed := 0,
               r_leadTransferee := 0, r_preVoting := False\<rparr>"
  define noop where "noop = \<lparr>e_Type = EntryNormal, e_Term = r_term r, e_Index = lastIndex r + 1,
                 e_ID = zeroPID, e_Data = []\<rparr>"
  have sel: "r_peers r1 = r_peers r" "r_nextIndex r1 = r_nextIndex r" "r_matchIndex r1 = r_matchIndex r"
    "r_term r1 = r_term r" "lastIndex (r1\<lparr>r_nextIndex := a, r_matchIndex := b\<rparr>) = lastIndex r" for a b
    by (simp_all add: r1_def lastIndex_def)
  obtain i r3 where le: "length (r_peers r) \<le> length (r_nextIndex r)" "length (r_peers r) \<le> length (r_matchIndex r)"
    and r3: "appendEntries [noop] (r1\<lparr>
         r_nextIndex := replicate (length (r_peers r)) (lastIndex r1 + 1) @ drop (length (r_peers r)) (r_nextIndex r),
         r_matchIndex := (replicate (length (r_peers r)) 0 @ drop (length (r_peers r)) (r_matchIndex r))
           [i := t_persisted (r_tail r1)]\<rparr>) = Some r3"
    and r': "broadcastAppend (r3\<lparr>r_termStart := e_Index noop, r_pendingReads := [], r_readyReads := []\<rparr>) = Some r'"
    using assms unfolding becomeLeader_def Let_def r1_def [symmetric]
    by (auto simp: Option.bind_eq_Some_conv noop_def sel)
  show thesis
    by (rule that [OF _ r3 r']) (use le in \<open>auto simp: same_core_def r1_def noop_def\<close>)
qed

lemma becomeLeader_reach:
  assumes "becomeLeader r = Some r'"
  shows "reach r r'"
proof -
  obtain r2 r3 noop where r2: "same_core r r2" and r3: "appendEntries [noop] r2 = Some r3"
    and r': "broadcastAppend (r3\<lparr>r_termStart := e_Index noop, r_pendingReads := [], r_readyReads := []\<rparr>) = Some r'"
    using assms by (rule becomeLeader_cases)
  have "reach r r3" using r2 r3 by (meson micro.append reach_volatile rtranclp.rtrancl_into_rtrancl)
  also have "reach r3 (r3\<lparr>r_termStart := e_Index noop, r_pendingReads := [], r_readyReads := []\<rparr>)"
    by (rule reach_volatile) (simp add: same_core_def)
  also have "reach \<dots> r'" using r' by (rule broadcastAppend_reach)
  finally show ?thesis .
qed

lemma forceCampaign_reach:
  assumes "forceCampaign r = Some r'"
  shows "reach r r'"
proof -
  define r0 where "r0 = r\<lparr>r_preVoting := False, r_role := RoleCandidate\<rparr>"
  define r1 where "r1 = setTermAndVote (r_term r + 1) (r_id r) r0"
  have v: "r_vote r1 = r_id r1"
    by (auto simp: r1_def r0_def setTermAndVote_def dirty_def)
  define n where "n = length (r_votesGranted r1)"
  obtain i where n: "n \<le> length (r_votesDenied r1)"
    and r': "(let r2 = r1\<lparr>r_leader := 0, r_electionElapsed := 0, r_votesGranted := (replicate n False)[i := True],
                 r_votesDenied := replicate n False @ drop n (r_votesDenied r1)\<rparr>
              in if quorum r2 = 1 then becomeLeader r2 else vote_loop (r_peers r2) r2) = Some r'"
    using assms unfolding forceCampaign_def Let_def r0_def [symmetric] r1_def [symmetric] n_def [symmetric]
    by (cases "length (r_votesDenied r1) < n") (auto simp: Option.bind_eq_Some_conv)
  define r2 where "r2 = r1\<lparr>r_leader := 0, r_electionElapsed := 0, r_votesGranted := (replicate n False)[i := True],
                 r_votesDenied := replicate n False @ drop n (r_votesDenied r1)\<rparr>"
  have r2: "same_core r1 r2" using n by (simp add: same_core_def r2_def n_def)
  have "reach r r0" by (rule reach_volatile) (simp add: r0_def same_core_def)
  also have "reach r0 r1" unfolding r1_def by (intro reach_micro micro.bump) (simp add: r0_def)
  also have "reach r1 r2" using r2 by (rule reach_volatile)
  also have "reach r2 r'"
    using r' r2 v unfolding r2_def [symmetric] Let_def by (auto split: if_splits dest: becomeLeader_reach vote_loop_reach simp: same_core_def)
  finally show ?thesis .
qed

lemma preCampaign_reach:
  assumes "preCampaign r = Some r'"
  shows "reach r r'"
proof -
  obtain i where i: "i < length (r_preGranted r)"
    and r': "(let r1 = r\<lparr>r_preVoting := True, r_leader := 0, r_electionElapsed := 0,
                 r_preGranted := (replicate (length (r_preGranted r)) False)[i := True]\<rparr>
              in if quorum r1 = 1 then forceCampaign (r1\<lparr>r_preVoting := False\<rparr>)
                 else prevote_loop (r_peers r1) r1) = Some r'"
    using assms unfolding preCampaign_def Let_def by (auto simp: Option.bind_eq_Some_conv)
  define r1 where "r1 = r\<lparr>r_preVoting := True, r_leader := 0, r_electionElapsed := 0,
                 r_preGranted := (replicate (length (r_preGranted r)) False)[i := True]\<rparr>"
  have "same_core r r1" "same_core r (r1\<lparr>r_preVoting := False\<rparr>)" using i by (simp_all add: same_core_def r1_def)
  then show ?thesis
    using r' unfolding r1_def [symmetric] Let_def
    by (auto split: if_splits dest!: forceCampaign_reach prevote_loop_reach reach_volatile intro: rtranclp_trans)
qed

lemma campaign_reach: "campaign r = Some r' \<Longrightarrow> reach r r'"
  by (auto simp: campaign_def split: if_splits dest: preCampaign_reach forceCampaign_reach)

lemma stepDownIfRemoved_reach: "reach r (stepDownIfRemoved r)"
proof -
  have "reach (becomeFollower t v r) ((becomeFollower t v r)\<lparr>r_leader := 0\<rparr>)" for t v
    by (rule reach_volatile) (simp add: same_core_def)
  then have "reach r ((becomeFollower t v r)\<lparr>r_leader := 0\<rparr>)" for t v
    by (rule rtranclp_trans [OF becomeFollower_reach])
  then show ?thesis by (simp add: stepDownIfRemoved_def)
qed

lemma commit_loop_reach: "commit_loop n r = Some r' \<Longrightarrow> n \<le> lastIndex r \<Longrightarrow> reach r r'"
proof (induction n)
  case (Suc n)
  have "reach r (stepDownIfRemoved (r\<lparr>r_commitIndex := Suc n\<rparr>))" if "\<not> Suc n \<le> r_commitIndex r"
    using that Suc.prems by (intro reach_step [OF micro.commit stepDownIfRemoved_reach]) auto
  with Suc show ?case
    by (auto simp: Let_def Option.bind_eq_Some_conv split: if_splits)
qed simp

lemma maybeCommit_reach: "maybeCommit r = Some r' \<Longrightarrow> reach r r'"
  by (simp add: maybeCommit_def commit_loop_reach)

section \<open>Decomposition of the read-index path\<close>

lemma confirm_loop_reach: "confirm_loop qs kept r = (kept', r') \<Longrightarrow> reach r r'"
proof (induction qs arbitrary: kept r)
  case (Cons q qs)
  let ?ack = "r\<lparr>r_readyReads := r_readyReads r @ [\<lparr>rs_Index = q_index q, rs_Ctx = q_ctx q\<rparr>]\<rparr>"
  let ?m = "(new_msg MsgReadIndexResp (r_id r) (q_from q) (r_term r))\<lparr>m_ReadCtx := q_ctx q, m_ReadIndex := q_index q\<rparr>"
  have 1: "reach r ?ack" by (rule reach_volatile) (simp add: same_core_def)
  have 2: "reach r (sendGated ?m r)"
    unfolding sendGated_def by (intro reach_micro micro.gate) (simp add: attests_def)
  show ?case
    using Cons.prems Cons.IH [of _ r] rtranclp_trans [OF 1 Cons.IH] rtranclp_trans [OF 2 Cons.IH]
    by (auto split: if_splits)
qed simp

lemma maybeConfirmReads_reach: "reach r (maybeConfirmReads r)"
proof -
  obtain kept r' where c: "confirm_loop (r_pendingReads r) [] r = (kept, r')" by fastforce
  have "reach r' (r'\<lparr>r_pendingReads := kept\<rparr>)"
    by (rule reach_volatile) (simp add: same_core_def)
  then show ?thesis
    using confirm_loop_reach [OF c] c by (auto simp: maybeConfirmReads_def intro: rtranclp_trans)
qed

lemma pendingReads_core: "reach r (r\<lparr>r_pendingReads := qs\<rparr>)"
  by (rule reach_volatile) (simp add: same_core_def)

lemma recordRead_reach: "reach r (recordRead q r)"
  unfolding recordRead_def by (rule rtranclp_trans [OF pendingReads_core maybeConfirmReads_reach])

lemma confirmRead_reach: "reach r (confirmRead n r)"
  unfolding confirmRead_def by (rule rtranclp_trans [OF pendingReads_core maybeConfirmReads_reach])

lemma ReadIndex_reach:
  assumes "ReadIndex ctx r = Some (err, r')"
  shows "reach r r'"
proof -
  have "reach r (sendGated ((new_msg MsgReadIndex (r_id r) (r_leader r) (r_term r))\<lparr>m_ReadCtx := ctx\<rparr>) r)"
    unfolding sendGated_def by (intro reach_micro micro.gate) (simp add: attests_def)
  then show ?thesis
    using assms
    by (auto simp: ReadIndex_def split: if_splits Role.splits dest!: broadcastAppend_reach
        intro: rtranclp_trans [OF recordRead_reach])
qed

section \<open>Decomposition of the handlers\<close>

text \<open>Entries at consecutive indices, the first one after \<open>p\<close>.\<close>

fun contiguous :: "nat \<Rightarrow> Entry list \<Rightarrow> bool" where
  "contiguous p [] = True"
| "contiguous p (e # es) \<longleftrightarrow> e_Index e = p + 1 \<and> contiguous (p + 1) es"

text \<open>
  What every append of this code looks like on the wire: its entries are consecutive and it does
  not claim a commit index past them.
\<close>

definition msg_wf :: "Message \<Rightarrow> bool" where
  "msg_wf m \<longleftrightarrow> (m_Type m = MsgApp \<longrightarrow> contiguous (m_PrevLogIndex m) (m_Entries m) \<and>
     m_LeaderCommit m \<le> m_PrevLogIndex m + length (m_Entries m))"

lemma lastIndex_recomputeConf [simp]: "lastIndex (recomputeConf r) = lastIndex r"
  by (simp add: recomputeConf_def setConf_def lastIndex_def Let_def split: prod.splits)

lemma lastIndex_advance [simp]: "lastIndex (advance_commit c n r) = lastIndex r"
  by (simp add: advance_commit_def lastIndex_def)

lemma lastIndex_dirty [simp]: "lastIndex (dirty r) = lastIndex r"
  by (simp add: dirty_def lastIndex_def)

lemma appendEntries_last:
  "appendEntries [e] r = Some r' \<Longrightarrow> e_Index e = lastIndex r + 1 \<and> lastIndex r' = e_Index e"
  by (auto simp: appendEntries_def Option.bind_eq_Some_conv split: if_splits)
     (auto simp: lastIndex_def)

lemma app_loop_reach: "app_loop es r = Some r' \<Longrightarrow> reach r r'"
proof (induction es arbitrary: r)
  case (Cons e es)
  show ?case
  proof (cases "e_Index e \<le> lastIndex r")
    case True
    then consider "app_loop es r = Some r'"
      | r1 r2 where "truncateFrom (e_Index e) r = Some r1" "appendEntries [e] r1 = Some r2" "app_loop es r2 = Some r'"
      using Cons.prems by (auto simp: Option.bind_eq_Some_conv split: if_splits)
    then show ?thesis by cases (use Cons.IH micro.replace reach_step in blast)+
  next
    case False
    then show ?thesis
      using Cons by (auto simp: Option.bind_eq_Some_conv intro: reach_step micro.append)
  qed
qed simp

lemma app_loop_last:
  "app_loop es r = Some r' \<Longrightarrow> contiguous p es \<Longrightarrow> p \<le> lastIndex r \<Longrightarrow> p + length es \<le> lastIndex r'"
proof (induction es arbitrary: r p)
  case (Cons e es)
  then have p: "e_Index e = p + 1" "contiguous (p + 1) es" by auto
  obtain r2 where "app_loop es r2 = Some r'" "p + 1 \<le> lastIndex r2"
    using Cons.prems(1) p(1)
    by (auto simp: Option.bind_eq_Some_conv dest: appendEntries_last split: if_splits)
  with Cons.IH p(2) show ?case by fastforce
qed simp

lemma matches_last: "matches r idx t = Some True \<Longrightarrow> idx \<le> lastIndex r"
  by (auto simp: matches_def split: if_splits)

lemma follow_leader_reach: "reach r (follow_leader m r)"
proof -
  have "reach (becomeFollower t v r) ((becomeFollower t v r)\<lparr>r_leader := l, r_electionElapsed := 0\<rparr>)" for t v l
    by (rule reach_volatile) (simp add: same_core_def)
  then show ?thesis
    unfolding follow_leader_def by (rule rtranclp_trans [OF becomeFollower_reach])
qed

lemma appResp_reject: "reach r (sendGated ((appResp r m False)\<lparr>m_Hint := h\<rparr>) r)"
  unfolding sendGated_def by (intro reach_micro micro.gate) (simp add: attests_def)

lemma appResp_reject0: "reach r (sendGated (appResp r m False) r)"
  unfolding sendGated_def by (intro reach_micro micro.gate) (simp add: attests_def)

lemma appResp_accept:
  assumes "marksFor r k = Some (lm, sm)" "k \<le> lastIndex r"
  shows "reach r (sendGatedOn lm sm ((appResp r m True)\<lparr>m_MatchIndex := k\<rparr>) r)"
  using assms by (intro reach_micro micro.gate) (simp add: attests_def)

lemma stepApp_reach:
  assumes "stepApp m r = Some r'" "msg_wf m" "m_Type m = MsgApp"
  shows "reach r r'"
proof (cases "m_Term m < r_term r")
  case True
  then show ?thesis using assms by (auto simp: stepApp_def appResp_reject0)
next
  case False
  define r1 where "r1 = follow_leader m r"
  have 1: "reach r r1" unfolding r1_def by (rule follow_leader_reach)
  obtain mt where mt: "matches r1 (m_PrevLogIndex m) (m_PrevLogTerm m) = Some mt"
    using assms(1) False by (auto simp: stepApp_def Let_def r1_def Option.bind_eq_Some_conv)
  show ?thesis
  proof (cases mt)
    case False': False
    then have "r' = sendGated ((appResp r1 m False)\<lparr>m_Hint := lastIndex r1\<rparr>) r1"
      using assms(1) False mt by (auto simp: stepApp_def Let_def r1_def)
    then show ?thesis using rtranclp_trans [OF 1 appResp_reject] by simp
  next
    case True
    define last where "last = m_PrevLogIndex m + length (m_Entries m)"
    obtain r2 r3 lm sm where r2: "app_loop (m_Entries m) r1 = Some r2"
      and r3: "r3 = advance_commit (m_LeaderCommit m) last r2"
      and mk: "marksFor r3 last = Some (lm, sm)"
      and r': "r' = sendGatedOn lm sm ((appResp r3 m True)\<lparr>m_MatchIndex := last\<rparr>) r3"
      using assms(1) False mt True unfolding r1_def
      by (auto simp: stepApp_def Let_def last_def Option.bind_eq_Some_conv)
    have last: "last \<le> lastIndex r2"
      unfolding last_def using app_loop_last [OF r2] assms(2,3) matches_last mt True by (auto simp: msg_wf_def)
    then have last3: "last \<le> lastIndex r3" by (simp add: r3)
    have "micro r2 r3 \<or> r3 = r2"
      using assms(2,3) last by (auto simp: r3 advance_commit_def msg_wf_def last_def intro!: micro.commit)
    then have 3: "reach r2 r3" by blast
    have "reach r3 r'" unfolding r' using mk last3 by (rule appResp_accept)
    with 1 3 app_loop_reach [OF r2] show ?thesis by (meson rtranclp_trans)
  qed
qed

lemma vote_grant_True:
  "vote_grant m r = Some True \<Longrightarrow> r_term r \<le> m_Term m \<and> (r_vote r = 0 \<or> r_vote r = m_From m)"
  by (auto simp: vote_grant_def split: if_splits)

lemma cast_vote_sel:
  "r_id (cast_vote g v r) = r_id r" "r_term (cast_vote g v r) = r_term r" "g \<Longrightarrow> r_vote (cast_vote g v r) = v"
  by (auto simp: cast_vote_def setVote_def dirty_def)

lemma stepVote_reach:
  assumes "stepVote m r = Some r'"
  shows "reach r r'"
proof -
  obtain grant r1 where g: "vote_grant m r = Some grant" and r1: "r1 = cast_vote grant (m_From m) r"
    and r': "r' = sendGated ((new_msg MsgVoteResp (r_id r1) (m_From m) (r_term r1))\<lparr>m_Granted := grant\<rparr>) r1"
    using assms by (auto simp: stepVote_def Let_def Option.bind_eq_Some_conv)
  have "reach (setVote v r) ((setVote v r)\<lparr>r_electionElapsed := 0\<rparr>)" for v
    by (rule reach_volatile) (simp add: same_core_def)
  then have 1: "reach r r1"
    using g vote_grant_True [of m r] unfolding r1 cast_vote_def
    by (auto intro: reach_step [OF micro.vote])
  have "reach r1 r'"
    unfolding r' sendGated_def using cast_vote_sel(3)
    by (intro reach_micro micro.gate) (auto simp: attests_def r1)
  with 1 show ?thesis by (rule rtranclp_trans)
qed

lemma stepPreVote_reach: "stepPreVote m r = Some r' \<Longrightarrow> reach r r'"
  by (auto simp: stepPreVote_def Option.bind_eq_Some_conv split: if_splits
      intro!: reach_micro micro.ungated)

lemma stepPreVoteResp_reach:
  assumes "stepPreVoteResp m r = Some r'"
  shows "reach r r'"
proof -
  have c: "same_core r (r\<lparr>r_preGranted := (r_preGranted r)[i := True]\<rparr>)"
    "same_core r (r\<lparr>r_preGranted := (r_preGranted r)[i := True], r_preVoting := False\<rparr>)" for i
    by (simp_all add: same_core_def)
  show ?thesis
    using assms reach_volatile [OF c(1)] rtranclp_trans [OF reach_volatile [OF c(2)] forceCampaign_reach]
    by (auto simp: stepPreVoteResp_def Let_def Option.bind_eq_Some_conv split: if_splits option.splits)
qed

lemma stepTimeoutNow_reach: "stepTimeoutNow m r = Some r' \<Longrightarrow> reach r r'"
  by (auto simp: stepTimeoutNow_def split: if_splits dest: forceCampaign_reach)

lemma record_vote_core: "record_vote g i r = Some r' \<Longrightarrow> same_core r r'"
  by (auto simp: record_vote_def same_core_def split: if_splits)

lemma tally_reach: "tally r = Some r' \<Longrightarrow> reach r r'"
  by (auto simp: tally_def becomeFollower_reach split: if_splits dest: becomeLeader_reach)

lemma stepVoteResp_reach: "stepVoteResp m r = Some r' \<Longrightarrow> reach r r'"
  by (auto simp: stepVoteResp_def Option.bind_eq_Some_conv split: if_splits option.splits
      dest!: record_vote_core reach_volatile tally_reach intro: rtranclp_trans)

lemma stepSnap_reach:
  assumes "stepSnap m r = Some r'"
  shows "reach r r'"
proof (cases "m_Term m < r_term r")
  case True
  then show ?thesis using assms by (auto simp: stepSnap_def appResp_reject0)
next
  case False
  define r1 where "r1 = follow_leader m r"
  have 1: "reach r r1" unfolding r1_def by (rule follow_leader_reach)
  have 2: "reach r1 (drop_accepts r1)"
    unfolding drop_accepts_def by (rule reach_micro [OF micro.drop])
  have 3: "reach (drop_accepts r1) (install_snapshot m c (drop_accepts r1))"
    if "DecodeConfiguration (m_SnapConf m) = Some c" "\<not> m_SnapIndex m \<le> r_commitIndex r1" for c
    using that by (intro reach_micro micro.install) (auto simp: drop_accepts_def)
  have "reach r1 r'"
    using assms False rtranclp_trans [OF 2 3] rtranclp_trans [OF 2 appResp_reject0]
    by (auto simp: stepSnap_def Let_def r1_def [symmetric] Option.bind_eq_Some_conv
        intro: appResp_accept split: if_splits option.splits)
  with 1 show ?thesis by (rule rtranclp_trans)
qed

lemma back_up_core: "back_up i h r = Some r' \<Longrightarrow> same_core r r'"
  by (auto simp: back_up_def same_core_def Let_def Option.bind_eq_Some_conv)

lemma record_match_core: "record_match i k r = Some r' \<Longrightarrow> same_core r r'"
  by (auto simp: record_match_def same_core_def Let_def Option.bind_eq_Some_conv)

lemma send_reach: "send m r = Some r' \<Longrightarrow> reach r r'"
  by (auto intro: reach_micro micro.ungated)

lemma stepAppResp_reach: "stepAppResp m r = Some r' \<Longrightarrow> reach r r'"
  by (auto simp: stepAppResp_def Option.bind_eq_Some_conv simp del: send_Some
      split: if_splits option.splits
      dest!: back_up_core record_match_core reach_volatile sendAppend_reach maybeCommit_reach send_reach
      intro: rtranclp_trans)

lemma stepReadIndex_reach: "stepReadIndex m r = Some r' \<Longrightarrow> reach r r'"
  by (auto simp: stepReadIndex_def split: if_splits dest!: broadcastAppend_reach
      intro: rtranclp_trans [OF recordRead_reach])

lemma demote_reach: "reach r (demote m r)"
  by (simp add: demote_def becomeFollower_reach)

lemma readyReads_core: "reach r (r\<lparr>r_readyReads := x\<rparr>)"
  by (rule reach_volatile) (simp add: same_core_def)

lemma step_type_reach:
  assumes "step_type t m r = Some r'" "msg_wf m" "m_Type m = t"
  shows "reach r r'"
proof (cases t)
  case MsgAppResp
  then show ?thesis
    using assms by (auto simp: Option.bind_eq_Some_conv split: if_splits dest!: stepAppResp_reach
        intro: rtranclp_trans [OF _ confirmRead_reach])
qed (use assms in \<open>auto intro: stepVote_reach stepVoteResp_reach stepApp_reach stepReadIndex_reach
      stepPreVote_reach stepPreVoteResp_reach stepSnap_reach stepTimeoutNow_reach readyReads_core\<close>)

lemma Step_reach:
  assumes "Step m r = Some (err, r')" "msg_wf m"
  shows "reach r r'"
proof -
  have "r' = r \<or> step_type (m_Type m) m (demote m r) = Some r'"
    using assms(1) by (auto simp: Step_def split: if_splits MessageType.splits)
  then show ?thesis
    using step_type_reach [OF _ assms(2) refl] rtranclp_trans [OF demote_reach] by blast
qed

section \<open>Decomposition of the driver entry points\<close>

lemma tick_leader_reach:
  assumes "tick_leader r = Some r'"
  shows "reach r r'"
proof -
  have "reach r (r\<lparr>r_heartbeatElapsed := a\<rparr>)" for a
    by (rule reach_volatile) (simp add: same_core_def)
  then show ?thesis
    using assms by (auto simp: tick_leader_def Let_def split: if_splits dest!: broadcastAppend_reach
        intro: rtranclp_trans)
qed

lemma tick_follower_reach:
  assumes "tick_follower r = Some r'"
  shows "reach r r'"
proof -
  have "reach r (r\<lparr>r_electionElapsed := a\<rparr>)" for a
    by (rule reach_volatile) (simp add: same_core_def)
  then show ?thesis
    using assms by (auto simp: tick_follower_def Let_def split: if_splits dest!: campaign_reach
        intro: rtranclp_trans)
qed

lemma tick_transfer_reach: "reach r (tick_transfer r)"
  by (rule reach_volatile) (simp add: tick_transfer_def same_core_def Let_def)

lemma Tick_reach: "Tick r = Some r' \<Longrightarrow> reach r r'"
  by (auto simp: Tick_def split: Role.splits dest: tick_follower_reach tick_leader_reach
      intro: rtranclp_trans [OF tick_transfer_reach])

lemma appended_broadcast_reach:
  "appendEntries [e] r = Some r1 \<Longrightarrow> broadcastAppend r1 = Some r' \<Longrightarrow> reach r r'"
  by (meson broadcastAppend_reach micro.append reach_step)

lemma Propose_reach: "Propose pid data r = Some (err, r') \<Longrightarrow> reach r r'"
  by (auto simp: Propose_def Option.bind_eq_Some_conv split: if_splits intro: appended_broadcast_reach)

lemma ProposeConfChange_reach: "ProposeConfChange pid cc r = Some (err, r') \<Longrightarrow> reach r r'"
  by (auto simp: ProposeConfChange_def Let_def Option.bind_eq_Some_conv
      split: if_splits option.splits sum.splits intro: appended_broadcast_reach)

lemma TransferLeadership_reach:
  assumes "TransferLeadership n r = Some r'"
  shows "reach r r'"
proof -
  have "reach r (r\<lparr>r_leadTransferee := n, r_transferElapsed := 0\<rparr>)"
    by (rule reach_volatile) (simp add: same_core_def)
  then show ?thesis
    using assms
    by (auto simp: TransferLeadership_def Let_def Option.bind_eq_Some_conv simp del: send_Some
        split: if_splits option.splits dest!: send_reach sendAppend_reach intro: rtranclp_trans)
qed

lemma Campaign_reach: "Campaign r = Some (err, r') \<Longrightarrow> reach r r'"
  by (auto simp: Campaign_def split: if_splits dest: campaign_reach)

lemma SetElectionTimeout_reach: "reach r (SetElectionTimeout t r)"
  by (rule reach_volatile) (simp add: SetElectionTimeout_def same_core_def)

end
