(* ===== verification/Raft_Inv.thy ===== *)
theory Raft_Inv
  imports Raft_Steps
begin

text \<open>
  Invariants of the Raft machine: the log is gapless behind its snapshot, the membership is the
  function of the log it claims to be, the watermarks are ordered, every index that is not
  durable is covered by an open mark, and every append on its way out is well formed.  A count of
  flags that reaches the quorum is a majority of the membership.
\<close>

section \<open>What the helpers leave alone\<close>

lemma lastIndex_update [simp]:
  "lastIndex (r\<lparr>r_id := x0\<rparr>) = lastIndex r" "lastIndex (r\<lparr>r_peers := x1\<rparr>) = lastIndex r"
  "lastIndex (r\<lparr>r_conf := x2\<rparr>) = lastIndex r" "lastIndex (r\<lparr>r_baseConf := x3\<rparr>) = lastIndex r"
  "lastIndex (r\<lparr>r_promotionLag := x4\<rparr>) = lastIndex r" "lastIndex (r\<lparr>r_confRefusal := x5\<rparr>) = lastIndex r"
  "lastIndex (r\<lparr>r_term := x6\<rparr>) = lastIndex r" "lastIndex (r\<lparr>r_vote := x7\<rparr>) = lastIndex r"
  "lastIndex (r\<lparr>r_snapTerm := x8\<rparr>) = lastIndex r" "lastIndex (r\<lparr>r_snapMark := x9\<rparr>) = lastIndex r"
  "lastIndex (r\<lparr>r_nextSnapMark := x10\<rparr>) = lastIndex r" "lastIndex (r\<lparr>r_persistedSnap := x11\<rparr>) = lastIndex r"
  "lastIndex (r\<lparr>r_pendingSnap := x12\<rparr>) = lastIndex r" "lastIndex (r\<lparr>r_role := x13\<rparr>) = lastIndex r"
  "lastIndex (r\<lparr>r_commitIndex := x14\<rparr>) = lastIndex r" "lastIndex (r\<lparr>r_appliedIdx := x15\<rparr>) = lastIndex r"
  "lastIndex (r\<lparr>r_leader := x16\<rparr>) = lastIndex r" "lastIndex (r\<lparr>r_nextIndex := x17\<rparr>) = lastIndex r"
  "lastIndex (r\<lparr>r_matchIndex := x18\<rparr>) = lastIndex r" "lastIndex (r\<lparr>r_votesGranted := x19\<rparr>) = lastIndex r"
  "lastIndex (r\<lparr>r_votesDenied := x20\<rparr>) = lastIndex r" "lastIndex (r\<lparr>r_termStart := x21\<rparr>) = lastIndex r"
  "lastIndex (r\<lparr>r_pendingReads := x22\<rparr>) = lastIndex r" "lastIndex (r\<lparr>r_readyReads := x23\<rparr>) = lastIndex r"
  "lastIndex (r\<lparr>r_preVote := x24\<rparr>) = lastIndex r" "lastIndex (r\<lparr>r_preVoting := x25\<rparr>) = lastIndex r"
  "lastIndex (r\<lparr>r_preGranted := x26\<rparr>) = lastIndex r" "lastIndex (r\<lparr>r_leadTransferee := x27\<rparr>) = lastIndex r"
  "lastIndex (r\<lparr>r_transferElapsed := x28\<rparr>) = lastIndex r" "lastIndex (r\<lparr>r_snapTo := x29\<rparr>) = lastIndex r"
  "lastIndex (r\<lparr>r_electionElapsed := x30\<rparr>) = lastIndex r" "lastIndex (r\<lparr>r_heartbeatElapsed := x31\<rparr>) = lastIndex r"
  "lastIndex (r\<lparr>r_electionTimeout := x32\<rparr>) = lastIndex r" "lastIndex (r\<lparr>r_randomizedElectionTimeout := x33\<rparr>) = lastIndex r"
  "lastIndex (r\<lparr>r_heartbeatTimeout := x34\<rparr>) = lastIndex r" "lastIndex (r\<lparr>r_msgs := x35\<rparr>) = lastIndex r"
  "lastIndex (r\<lparr>r_tail := x36\<rparr>) = lastIndex r" "lastIndex (r\<lparr>r_markLastIdx := x37\<rparr>) = lastIndex r"
  "lastIndex (r\<lparr>r_lastHandedMark := x38\<rparr>) = lastIndex r" "lastIndex (r\<lparr>r_hardStateDirty := x39\<rparr>) = lastIndex r"
  "lastIndex (r\<lparr>r_nextMark := x40\<rparr>) = lastIndex r" "lastIndex (r\<lparr>r_persisted := x41\<rparr>) = lastIndex r"
  "lastIndex (r\<lparr>r_gated := x42\<rparr>) = lastIndex r" "lastIndex (r\<lparr>r_dirtyMark := x43\<rparr>) = lastIndex r"
  "lastIndex (r\<lparr>r_hsMark := x44\<rparr>) = lastIndex r" "lastIndex (r\<lparr>r_markHandedOff := x45\<rparr>) = lastIndex r"
  by (simp_all add: lastIndex_def)

lemma dirty_sel [simp]:
  "r_id (dirty r) = r_id r" "r_peers (dirty r) = r_peers r" "r_conf (dirty r) = r_conf r"
  "r_baseConf (dirty r) = r_baseConf r" "r_promotionLag (dirty r) = r_promotionLag r" "r_confRefusal (dirty r) = r_confRefusal r"
  "r_term (dirty r) = r_term r" "r_vote (dirty r) = r_vote r" "r_log (dirty r) = r_log r"
  "r_snapIndex (dirty r) = r_snapIndex r" "r_snapTerm (dirty r) = r_snapTerm r" "r_snapMark (dirty r) = r_snapMark r"
  "r_nextSnapMark (dirty r) = r_nextSnapMark r" "r_persistedSnap (dirty r) = r_persistedSnap r" "r_pendingSnap (dirty r) = r_pendingSnap r"
  "r_role (dirty r) = r_role r" "r_commitIndex (dirty r) = r_commitIndex r" "r_appliedIdx (dirty r) = r_appliedIdx r"
  "r_leader (dirty r) = r_leader r" "r_nextIndex (dirty r) = r_nextIndex r" "r_matchIndex (dirty r) = r_matchIndex r"
  "r_votesGranted (dirty r) = r_votesGranted r" "r_votesDenied (dirty r) = r_votesDenied r" "r_termStart (dirty r) = r_termStart r"
  "r_pendingReads (dirty r) = r_pendingReads r" "r_readyReads (dirty r) = r_readyReads r" "r_preVote (dirty r) = r_preVote r"
  "r_preVoting (dirty r) = r_preVoting r" "r_preGranted (dirty r) = r_preGranted r" "r_leadTransferee (dirty r) = r_leadTransferee r"
  "r_transferElapsed (dirty r) = r_transferElapsed r" "r_snapTo (dirty r) = r_snapTo r" "r_electionElapsed (dirty r) = r_electionElapsed r"
  "r_heartbeatElapsed (dirty r) = r_heartbeatElapsed r" "r_electionTimeout (dirty r) = r_electionTimeout r" "r_randomizedElectionTimeout (dirty r) = r_randomizedElectionTimeout r"
  "r_heartbeatTimeout (dirty r) = r_heartbeatTimeout r" "r_msgs (dirty r) = r_msgs r" "r_tail (dirty r) = r_tail r"
  "r_markLastIdx (dirty r) = r_markLastIdx r" "r_lastHandedMark (dirty r) = r_lastHandedMark r" "r_hardStateDirty (dirty r) = r_hardStateDirty r"
  "r_persisted (dirty r) = r_persisted r" "r_gated (dirty r) = r_gated r" "r_hsMark (dirty r) = r_hsMark r"
  by (simp_all add: dirty_def)

lemma setConf_sel [simp]:
  "r_id (setConf c r) = r_id r" "r_baseConf (setConf c r) = r_baseConf r" "r_promotionLag (setConf c r) = r_promotionLag r"
  "r_confRefusal (setConf c r) = r_confRefusal r" "r_term (setConf c r) = r_term r" "r_vote (setConf c r) = r_vote r"
  "r_log (setConf c r) = r_log r" "r_snapIndex (setConf c r) = r_snapIndex r" "r_snapTerm (setConf c r) = r_snapTerm r"
  "r_snapMark (setConf c r) = r_snapMark r" "r_nextSnapMark (setConf c r) = r_nextSnapMark r" "r_persistedSnap (setConf c r) = r_persistedSnap r"
  "r_pendingSnap (setConf c r) = r_pendingSnap r" "r_role (setConf c r) = r_role r" "r_commitIndex (setConf c r) = r_commitIndex r"
  "r_appliedIdx (setConf c r) = r_appliedIdx r" "r_leader (setConf c r) = r_leader r" "r_termStart (setConf c r) = r_termStart r"
  "r_pendingReads (setConf c r) = r_pendingReads r" "r_readyReads (setConf c r) = r_readyReads r" "r_preVote (setConf c r) = r_preVote r"
  "r_preVoting (setConf c r) = r_preVoting r" "r_leadTransferee (setConf c r) = r_leadTransferee r" "r_transferElapsed (setConf c r) = r_transferElapsed r"
  "r_snapTo (setConf c r) = r_snapTo r" "r_electionElapsed (setConf c r) = r_electionElapsed r" "r_heartbeatElapsed (setConf c r) = r_heartbeatElapsed r"
  "r_electionTimeout (setConf c r) = r_electionTimeout r" "r_randomizedElectionTimeout (setConf c r) = r_randomizedElectionTimeout r" "r_heartbeatTimeout (setConf c r) = r_heartbeatTimeout r"
  "r_msgs (setConf c r) = r_msgs r" "r_tail (setConf c r) = r_tail r" "r_markLastIdx (setConf c r) = r_markLastIdx r"
  "r_lastHandedMark (setConf c r) = r_lastHandedMark r" "r_hardStateDirty (setConf c r) = r_hardStateDirty r" "r_nextMark (setConf c r) = r_nextMark r"
  "r_persisted (setConf c r) = r_persisted r" "r_gated (setConf c r) = r_gated r" "r_dirtyMark (setConf c r) = r_dirtyMark r"
  "r_hsMark (setConf c r) = r_hsMark r" "r_markHandedOff (setConf c r) = r_markHandedOff r"
  "r_conf (setConf c r) = c" "r_peers (setConf c r) = Members c"
  "length (r_nextIndex (setConf c r)) = length (Members c)"
  "length (r_matchIndex (setConf c r)) = length (Members c)"
  "length (r_votesGranted (setConf c r)) = length (Members c)"
  "length (r_votesDenied (setConf c r)) = length (Members c)"
  "length (r_preGranted (setConf c r)) = length (Members c)"
  by (simp_all add: setConf_def Let_def)

lemma conf_pass_ref: "fst (conf_pass c ref es) = fst (conf_pass c None es)"
proof (induction es arbitrary: c ref)
  case (Cons e es)
  have "fst (conf_pass c ref1 es) = fst (conf_pass c ref2 es)" for c ref1 ref2
    using Cons.IH [of c ref1] Cons.IH [of c ref2] by simp
  then show ?case
    by (auto split: sum.splits)
qed simp

lemma recomputeConf_sel [simp]:
  "r_id (recomputeConf r) = r_id r" "r_baseConf (recomputeConf r) = r_baseConf r" "r_promotionLag (recomputeConf r) = r_promotionLag r"
  "r_term (recomputeConf r) = r_term r" "r_vote (recomputeConf r) = r_vote r" "r_log (recomputeConf r) = r_log r"
  "r_snapIndex (recomputeConf r) = r_snapIndex r" "r_snapTerm (recomputeConf r) = r_snapTerm r" "r_snapMark (recomputeConf r) = r_snapMark r"
  "r_nextSnapMark (recomputeConf r) = r_nextSnapMark r" "r_persistedSnap (recomputeConf r) = r_persistedSnap r" "r_pendingSnap (recomputeConf r) = r_pendingSnap r"
  "r_role (recomputeConf r) = r_role r" "r_commitIndex (recomputeConf r) = r_commitIndex r" "r_appliedIdx (recomputeConf r) = r_appliedIdx r"
  "r_leader (recomputeConf r) = r_leader r" "r_termStart (recomputeConf r) = r_termStart r" "r_pendingReads (recomputeConf r) = r_pendingReads r"
  "r_readyReads (recomputeConf r) = r_readyReads r" "r_preVote (recomputeConf r) = r_preVote r" "r_preVoting (recomputeConf r) = r_preVoting r"
  "r_leadTransferee (recomputeConf r) = r_leadTransferee r" "r_transferElapsed (recomputeConf r) = r_transferElapsed r" "r_snapTo (recomputeConf r) = r_snapTo r"
  "r_electionElapsed (recomputeConf r) = r_electionElapsed r" "r_heartbeatElapsed (recomputeConf r) = r_heartbeatElapsed r" "r_electionTimeout (recomputeConf r) = r_electionTimeout r"
  "r_randomizedElectionTimeout (recomputeConf r) = r_randomizedElectionTimeout r" "r_heartbeatTimeout (recomputeConf r) = r_heartbeatTimeout r" "r_msgs (recomputeConf r) = r_msgs r"
  "r_tail (recomputeConf r) = r_tail r" "r_markLastIdx (recomputeConf r) = r_markLastIdx r" "r_lastHandedMark (recomputeConf r) = r_lastHandedMark r"
  "r_hardStateDirty (recomputeConf r) = r_hardStateDirty r" "r_nextMark (recomputeConf r) = r_nextMark r" "r_persisted (recomputeConf r) = r_persisted r"
  "r_gated (recomputeConf r) = r_gated r" "r_dirtyMark (recomputeConf r) = r_dirtyMark r" "r_hsMark (recomputeConf r) = r_hsMark r"
  "r_markHandedOff (recomputeConf r) = r_markHandedOff r"
  "r_conf (recomputeConf r) = fst (conf_pass (r_baseConf r) None (r_log r))"
  "r_peers (recomputeConf r) = Members (r_conf (recomputeConf r))"
  "length (r_nextIndex (recomputeConf r)) = length (r_peers (recomputeConf r))"
  "length (r_matchIndex (recomputeConf r)) = length (r_peers (recomputeConf r))"
  "length (r_votesGranted (recomputeConf r)) = length (r_peers (recomputeConf r))"
  "length (r_votesDenied (recomputeConf r)) = length (r_peers (recomputeConf r))"
  "length (r_preGranted (recomputeConf r)) = length (r_peers (recomputeConf r))"
  by (simp_all add: recomputeConf_def case_prod_beta conf_pass_ref [of _ "r_confRefusal r"])

lemma release_sel [simp]:
  "r_id (release r) = r_id r" "r_peers (release r) = r_peers r" "r_conf (release r) = r_conf r"
  "r_baseConf (release r) = r_baseConf r" "r_promotionLag (release r) = r_promotionLag r" "r_confRefusal (release r) = r_confRefusal r"
  "r_term (release r) = r_term r" "r_vote (release r) = r_vote r" "r_log (release r) = r_log r"
  "r_snapIndex (release r) = r_snapIndex r" "r_snapTerm (release r) = r_snapTerm r" "r_snapMark (release r) = r_snapMark r"
  "r_nextSnapMark (release r) = r_nextSnapMark r" "r_persistedSnap (release r) = r_persistedSnap r" "r_pendingSnap (release r) = r_pendingSnap r"
  "r_role (release r) = r_role r" "r_commitIndex (release r) = r_commitIndex r" "r_appliedIdx (release r) = r_appliedIdx r"
  "r_leader (release r) = r_leader r" "r_nextIndex (release r) = r_nextIndex r" "r_matchIndex (release r) = r_matchIndex r"
  "r_votesGranted (release r) = r_votesGranted r" "r_votesDenied (release r) = r_votesDenied r" "r_termStart (release r) = r_termStart r"
  "r_pendingReads (release r) = r_pendingReads r" "r_readyReads (release r) = r_readyReads r" "r_preVote (release r) = r_preVote r"
  "r_preVoting (release r) = r_preVoting r" "r_preGranted (release r) = r_preGranted r" "r_leadTransferee (release r) = r_leadTransferee r"
  "r_transferElapsed (release r) = r_transferElapsed r" "r_snapTo (release r) = r_snapTo r" "r_electionElapsed (release r) = r_electionElapsed r"
  "r_heartbeatElapsed (release r) = r_heartbeatElapsed r" "r_electionTimeout (release r) = r_electionTimeout r" "r_randomizedElectionTimeout (release r) = r_randomizedElectionTimeout r"
  "r_heartbeatTimeout (release r) = r_heartbeatTimeout r" "r_tail (release r) = r_tail r" "r_markLastIdx (release r) = r_markLastIdx r"
  "r_lastHandedMark (release r) = r_lastHandedMark r" "r_hardStateDirty (release r) = r_hardStateDirty r" "r_nextMark (release r) = r_nextMark r"
  "r_persisted (release r) = r_persisted r" "r_dirtyMark (release r) = r_dirtyMark r" "r_hsMark (release r) = r_hsMark r"
  "r_markHandedOff (release r) = r_markHandedOff r" "lastIndex (release r) = lastIndex r"
  by (simp_all add: release_def)

lemma raise_persisted_sel [simp]:
  "r_id (raise_persisted m r) = r_id r" "r_peers (raise_persisted m r) = r_peers r" "r_conf (raise_persisted m r) = r_conf r"
  "r_baseConf (raise_persisted m r) = r_baseConf r" "r_promotionLag (raise_persisted m r) = r_promotionLag r" "r_confRefusal (raise_persisted m r) = r_confRefusal r"
  "r_term (raise_persisted m r) = r_term r" "r_vote (raise_persisted m r) = r_vote r" "r_log (raise_persisted m r) = r_log r"
  "r_snapIndex (raise_persisted m r) = r_snapIndex r" "r_snapTerm (raise_persisted m r) = r_snapTerm r" "r_snapMark (raise_persisted m r) = r_snapMark r"
  "r_nextSnapMark (raise_persisted m r) = r_nextSnapMark r" "r_persistedSnap (raise_persisted m r) = r_persistedSnap r" "r_pendingSnap (raise_persisted m r) = r_pendingSnap r"
  "r_role (raise_persisted m r) = r_role r" "r_commitIndex (raise_persisted m r) = r_commitIndex r" "r_appliedIdx (raise_persisted m r) = r_appliedIdx r"
  "r_leader (raise_persisted m r) = r_leader r" "r_nextIndex (raise_persisted m r) = r_nextIndex r" "r_matchIndex (raise_persisted m r) = r_matchIndex r"
  "r_votesGranted (raise_persisted m r) = r_votesGranted r" "r_votesDenied (raise_persisted m r) = r_votesDenied r" "r_termStart (raise_persisted m r) = r_termStart r"
  "r_pendingReads (raise_persisted m r) = r_pendingReads r" "r_readyReads (raise_persisted m r) = r_readyReads r" "r_preVote (raise_persisted m r) = r_preVote r"
  "r_preVoting (raise_persisted m r) = r_preVoting r" "r_preGranted (raise_persisted m r) = r_preGranted r" "r_leadTransferee (raise_persisted m r) = r_leadTransferee r"
  "r_transferElapsed (raise_persisted m r) = r_transferElapsed r" "r_snapTo (raise_persisted m r) = r_snapTo r" "r_electionElapsed (raise_persisted m r) = r_electionElapsed r"
  "r_heartbeatElapsed (raise_persisted m r) = r_heartbeatElapsed r" "r_electionTimeout (raise_persisted m r) = r_electionTimeout r" "r_randomizedElectionTimeout (raise_persisted m r) = r_randomizedElectionTimeout r"
  "r_heartbeatTimeout (raise_persisted m r) = r_heartbeatTimeout r" "r_msgs (raise_persisted m r) = r_msgs r" "r_tail (raise_persisted m r) = r_tail r"
  "r_markLastIdx (raise_persisted m r) = r_markLastIdx r" "r_lastHandedMark (raise_persisted m r) = r_lastHandedMark r" "r_hardStateDirty (raise_persisted m r) = r_hardStateDirty r"
  "r_nextMark (raise_persisted m r) = r_nextMark r" "r_gated (raise_persisted m r) = r_gated r" "r_dirtyMark (raise_persisted m r) = r_dirtyMark r"
  "r_hsMark (raise_persisted m r) = r_hsMark r" "r_markHandedOff (raise_persisted m r) = r_markHandedOff r" "lastIndex (raise_persisted m r) = lastIndex r"
  by (simp_all add: raise_persisted_def)

lemma close_mark_sel [simp]:
  "r_id (close_mark m r) = r_id r" "r_peers (close_mark m r) = r_peers r" "r_conf (close_mark m r) = r_conf r"
  "r_baseConf (close_mark m r) = r_baseConf r" "r_promotionLag (close_mark m r) = r_promotionLag r" "r_confRefusal (close_mark m r) = r_confRefusal r"
  "r_term (close_mark m r) = r_term r" "r_vote (close_mark m r) = r_vote r" "r_log (close_mark m r) = r_log r"
  "r_snapIndex (close_mark m r) = r_snapIndex r" "r_snapTerm (close_mark m r) = r_snapTerm r" "r_snapMark (close_mark m r) = r_snapMark r"
  "r_nextSnapMark (close_mark m r) = r_nextSnapMark r" "r_persistedSnap (close_mark m r) = r_persistedSnap r" "r_pendingSnap (close_mark m r) = r_pendingSnap r"
  "r_role (close_mark m r) = r_role r" "r_commitIndex (close_mark m r) = r_commitIndex r" "r_appliedIdx (close_mark m r) = r_appliedIdx r"
  "r_leader (close_mark m r) = r_leader r" "r_nextIndex (close_mark m r) = r_nextIndex r" "r_matchIndex (close_mark m r) = r_matchIndex r"
  "r_votesGranted (close_mark m r) = r_votesGranted r" "r_votesDenied (close_mark m r) = r_votesDenied r" "r_termStart (close_mark m r) = r_termStart r"
  "r_pendingReads (close_mark m r) = r_pendingReads r" "r_readyReads (close_mark m r) = r_readyReads r" "r_preVote (close_mark m r) = r_preVote r"
  "r_preVoting (close_mark m r) = r_preVoting r" "r_preGranted (close_mark m r) = r_preGranted r" "r_leadTransferee (close_mark m r) = r_leadTransferee r"
  "r_transferElapsed (close_mark m r) = r_transferElapsed r" "r_snapTo (close_mark m r) = r_snapTo r" "r_electionElapsed (close_mark m r) = r_electionElapsed r"
  "r_heartbeatElapsed (close_mark m r) = r_heartbeatElapsed r" "r_electionTimeout (close_mark m r) = r_electionTimeout r" "r_randomizedElectionTimeout (close_mark m r) = r_randomizedElectionTimeout r"
  "r_heartbeatTimeout (close_mark m r) = r_heartbeatTimeout r" "r_msgs (close_mark m r) = r_msgs r" "r_tail (close_mark m r) = r_tail r"
  "r_markLastIdx (close_mark m r) = r_markLastIdx r" "r_lastHandedMark (close_mark m r) = r_lastHandedMark r" "r_hardStateDirty (close_mark m r) = r_hardStateDirty r"
  "r_nextMark (close_mark m r) = r_nextMark r" "r_persisted (close_mark m r) = r_persisted r" "r_gated (close_mark m r) = r_gated r"
  "r_hsMark (close_mark m r) = r_hsMark r" "lastIndex (close_mark m r) = lastIndex r"
  by (simp_all add: close_mark_def)

lemma ack_hs_sel [simp]:
  "r_id (ack_hs m r) = r_id r" "r_peers (ack_hs m r) = r_peers r" "r_conf (ack_hs m r) = r_conf r"
  "r_baseConf (ack_hs m r) = r_baseConf r" "r_promotionLag (ack_hs m r) = r_promotionLag r" "r_confRefusal (ack_hs m r) = r_confRefusal r"
  "r_term (ack_hs m r) = r_term r" "r_vote (ack_hs m r) = r_vote r" "r_log (ack_hs m r) = r_log r"
  "r_snapIndex (ack_hs m r) = r_snapIndex r" "r_snapTerm (ack_hs m r) = r_snapTerm r" "r_snapMark (ack_hs m r) = r_snapMark r"
  "r_nextSnapMark (ack_hs m r) = r_nextSnapMark r" "r_persistedSnap (ack_hs m r) = r_persistedSnap r" "r_pendingSnap (ack_hs m r) = r_pendingSnap r"
  "r_role (ack_hs m r) = r_role r" "r_commitIndex (ack_hs m r) = r_commitIndex r" "r_appliedIdx (ack_hs m r) = r_appliedIdx r"
  "r_leader (ack_hs m r) = r_leader r" "r_nextIndex (ack_hs m r) = r_nextIndex r" "r_matchIndex (ack_hs m r) = r_matchIndex r"
  "r_votesGranted (ack_hs m r) = r_votesGranted r" "r_votesDenied (ack_hs m r) = r_votesDenied r" "r_termStart (ack_hs m r) = r_termStart r"
  "r_pendingReads (ack_hs m r) = r_pendingReads r" "r_readyReads (ack_hs m r) = r_readyReads r" "r_preVote (ack_hs m r) = r_preVote r"
  "r_preVoting (ack_hs m r) = r_preVoting r" "r_preGranted (ack_hs m r) = r_preGranted r" "r_leadTransferee (ack_hs m r) = r_leadTransferee r"
  "r_transferElapsed (ack_hs m r) = r_transferElapsed r" "r_snapTo (ack_hs m r) = r_snapTo r" "r_electionElapsed (ack_hs m r) = r_electionElapsed r"
  "r_heartbeatElapsed (ack_hs m r) = r_heartbeatElapsed r" "r_electionTimeout (ack_hs m r) = r_electionTimeout r" "r_randomizedElectionTimeout (ack_hs m r) = r_randomizedElectionTimeout r"
  "r_heartbeatTimeout (ack_hs m r) = r_heartbeatTimeout r" "r_msgs (ack_hs m r) = r_msgs r" "r_tail (ack_hs m r) = r_tail r"
  "r_markLastIdx (ack_hs m r) = r_markLastIdx r" "r_lastHandedMark (ack_hs m r) = r_lastHandedMark r" "r_hardStateDirty (ack_hs m r) = r_hardStateDirty r"
  "r_nextMark (ack_hs m r) = r_nextMark r" "r_persisted (ack_hs m r) = r_persisted r" "r_gated (ack_hs m r) = r_gated r"
  "r_dirtyMark (ack_hs m r) = r_dirtyMark r" "r_markHandedOff (ack_hs m r) = r_markHandedOff r" "lastIndex (ack_hs m r) = lastIndex r"
  by (simp_all add: ack_hs_def)

lemma ack_tail_sel [simp]:
  "r_id (ack_tail m r) = r_id r" "r_peers (ack_tail m r) = r_peers r" "r_conf (ack_tail m r) = r_conf r"
  "r_baseConf (ack_tail m r) = r_baseConf r" "r_promotionLag (ack_tail m r) = r_promotionLag r" "r_confRefusal (ack_tail m r) = r_confRefusal r"
  "r_term (ack_tail m r) = r_term r" "r_vote (ack_tail m r) = r_vote r" "r_log (ack_tail m r) = r_log r"
  "r_snapIndex (ack_tail m r) = r_snapIndex r" "r_snapTerm (ack_tail m r) = r_snapTerm r" "r_snapMark (ack_tail m r) = r_snapMark r"
  "r_nextSnapMark (ack_tail m r) = r_nextSnapMark r" "r_persistedSnap (ack_tail m r) = r_persistedSnap r" "r_pendingSnap (ack_tail m r) = r_pendingSnap r"
  "r_role (ack_tail m r) = r_role r" "r_commitIndex (ack_tail m r) = r_commitIndex r" "r_appliedIdx (ack_tail m r) = r_appliedIdx r"
  "r_leader (ack_tail m r) = r_leader r" "r_nextIndex (ack_tail m r) = r_nextIndex r" "r_matchIndex (ack_tail m r) = r_matchIndex r"
  "r_votesGranted (ack_tail m r) = r_votesGranted r" "r_votesDenied (ack_tail m r) = r_votesDenied r" "r_termStart (ack_tail m r) = r_termStart r"
  "r_pendingReads (ack_tail m r) = r_pendingReads r" "r_readyReads (ack_tail m r) = r_readyReads r" "r_preVote (ack_tail m r) = r_preVote r"
  "r_preVoting (ack_tail m r) = r_preVoting r" "r_preGranted (ack_tail m r) = r_preGranted r" "r_leadTransferee (ack_tail m r) = r_leadTransferee r"
  "r_transferElapsed (ack_tail m r) = r_transferElapsed r" "r_snapTo (ack_tail m r) = r_snapTo r" "r_electionElapsed (ack_tail m r) = r_electionElapsed r"
  "r_heartbeatElapsed (ack_tail m r) = r_heartbeatElapsed r" "r_electionTimeout (ack_tail m r) = r_electionTimeout r" "r_randomizedElectionTimeout (ack_tail m r) = r_randomizedElectionTimeout r"
  "r_heartbeatTimeout (ack_tail m r) = r_heartbeatTimeout r" "r_msgs (ack_tail m r) = r_msgs r" "r_markLastIdx (ack_tail m r) = r_markLastIdx r"
  "r_lastHandedMark (ack_tail m r) = r_lastHandedMark r" "r_hardStateDirty (ack_tail m r) = r_hardStateDirty r" "r_nextMark (ack_tail m r) = r_nextMark r"
  "r_persisted (ack_tail m r) = r_persisted r" "r_gated (ack_tail m r) = r_gated r" "r_dirtyMark (ack_tail m r) = r_dirtyMark r"
  "r_hsMark (ack_tail m r) = r_hsMark r" "r_markHandedOff (ack_tail m r) = r_markHandedOff r" "lastIndex (ack_tail m r) = lastIndex r"
  by (simp_all add: ack_tail_def)

lemma appendEntries_single:
  "appendEntries [e] r = Some r' \<longleftrightarrow> e_Index e = lastIndex r + 1 \<and>
     r' = dirty (if e_Type e = EntryConfChange then recomputeConf (r\<lparr>r_log := r_log r @ [e]\<rparr>)
                 else r\<lparr>r_log := r_log r @ [e]\<rparr>)"
  by (auto simp: appendEntries_def)

lemma contiguous_append:
  "contiguous p (xs @ ys) \<longleftrightarrow> contiguous p xs \<and> contiguous (p + length xs) ys"
  by (induction xs arbitrary: p) auto

lemma contiguous_nth: "contiguous p es \<Longrightarrow> i < length es \<Longrightarrow> e_Index (es ! i) = p + i + 1"
  by (induction es arbitrary: p i) (auto simp: nth_Cons split: nat.splits)

lemma contiguous_last: "contiguous (r_snapIndex r) (r_log r) \<Longrightarrow> lastIndex r = r_snapIndex r + length (r_log r)"
  by (simp add: lastIndex_def contiguous_nth)

lemma contiguous_take: "contiguous p es \<Longrightarrow> contiguous p (take n es)"
  by (metis append_take_drop_id contiguous_append)

lemma contiguous_drop: "contiguous p es \<Longrightarrow> n \<le> length es \<Longrightarrow> contiguous (p + n) (drop n es)"
  by (metis append_take_drop_id contiguous_append length_take min.absorb2)

section \<open>Structure: the log and what is derived from it\<close>

definition struct_ok :: "Raft \<Rightarrow> bool" where
  "struct_ok r \<longleftrightarrow>
     contiguous (r_snapIndex r) (r_log r) \<and>
     r_conf r = fst (conf_pass (r_baseConf r) None (r_log r)) \<and>
     r_peers r = Members (r_conf r) \<and>
     length (r_nextIndex r) = length (r_peers r) \<and>
     length (r_matchIndex r) = length (r_peers r) \<and>
     length (r_votesGranted r) = length (r_peers r) \<and>
     length (r_votesDenied r) = length (r_peers r) \<and>
     length (r_preGranted r) = length (r_peers r)"

lemma conf_pass_append_other:
  "e_Type e \<noteq> EntryConfChange \<Longrightarrow> conf_pass c ref (es @ [e]) = conf_pass c ref es"
  by (induction es arbitrary: c ref) (auto split: sum.splits)

lemma struct_append:
  assumes "struct_ok r" "appendEntries [e] r = Some r'"
  shows "struct_ok r'"
  using assms contiguous_last [of r]
  by (auto simp: struct_ok_def appendEntries_single contiguous_append conf_pass_append_other)

lemma truncateFrom_cases:
  assumes "truncateFrom i r = Some r'" "1 \<le> i" "i \<le> lastIndex r"
  obtains "r_commitIndex r < i" "r_snapIndex r < i" "i - r_snapIndex r - 1 \<le> length (r_log r)"
    "r' = recomputeConf (r\<lparr>
        r_log := take (i - r_snapIndex r - 1) (r_log r),
        r_tail := \<lparr>t_persisted = cut_back i (t_persisted (r_tail r)), t_handed = cut_back i (t_handed (r_tail r))\<rparr>,
        r_markLastIdx := cut_back i (r_markLastIdx r),
        r_gated := filter (\<lambda>g. \<not> (m_Type (g_msg g) = MsgAppResp \<and> m_Success (g_msg g)
                                    \<and> m_MatchIndex (g_msg g) \<ge> i)) (r_gated r)\<rparr>)"
  using assms by (auto simp: truncateFrom_def pos_def split: if_splits)

lemma struct_truncate:
  assumes "struct_ok r" "truncateFrom i r = Some r'"
  shows "struct_ok r'"
proof (cases "1 \<le> i \<and> i \<le> lastIndex r")
  case True
  then show ?thesis
    using assms(2) by (auto elim!: truncateFrom_cases simp: struct_ok_def contiguous_take assms(1)
        intro!: contiguous_take assms(1) [unfolded struct_ok_def, THEN conjunct1])
next
  case False
  then show ?thesis using assms by (auto simp: truncateFrom_def)
qed

lemma struct_same_core: "struct_ok r \<Longrightarrow> same_core r r' \<Longrightarrow> struct_ok r'"
  by (auto simp: struct_ok_def same_core_def)

lemma install_snapshot_sel:
  "r_log (install_snapshot m c r) = []" "r_snapIndex (install_snapshot m c r) = m_SnapIndex m"
  "r_baseConf (install_snapshot m c r) = c" "r_conf (install_snapshot m c r) = c"
  "r_peers (install_snapshot m c r) = Members c"
  "length (r_nextIndex (install_snapshot m c r)) = length (Members c)"
  "length (r_matchIndex (install_snapshot m c r)) = length (Members c)"
  "length (r_votesGranted (install_snapshot m c r)) = length (Members c)"
  "length (r_votesDenied (install_snapshot m c r)) = length (Members c)"
  "length (r_preGranted (install_snapshot m c r)) = length (Members c)"
  by (simp_all add: install_snapshot_def Let_def sendGatedOn_def)

lemma struct_micro: "micro r r' \<Longrightarrow> struct_ok r \<Longrightarrow> struct_ok r'"
proof (induction rule: micro.induct)
  case (replace e r r1 r2)
  then show ?case by (metis struct_append struct_truncate)
next
  case (append e r r')
  then show ?case by (rule struct_append [rotated])
next
  case (volatile r r')
  then show ?case by (rule struct_same_core [rotated])
qed (auto simp: struct_ok_def setTermAndVote_def setVote_def sendGatedOn_def Let_def install_snapshot_sel)

lemma struct_reach: "reach r r' \<Longrightarrow> struct_ok r \<Longrightarrow> struct_ok r'"
  by (induction rule: rtranclp_induct) (auto intro: struct_micro)

section \<open>Indices\<close>

definition idx_ok :: "Raft \<Rightarrow> bool" where
  "idx_ok r \<longleftrightarrow> r_snapIndex r \<le> r_appliedIdx r \<and> r_appliedIdx r \<le> r_commitIndex r \<and>
     r_commitIndex r \<le> lastIndex r"

lemma lastIndex_core: "same_core r r' \<Longrightarrow> lastIndex r' = lastIndex r"
  by (simp add: same_core_def lastIndex_def)

lemma truncate_last:
  assumes "struct_ok r" "truncateFrom i r = Some r'" "1 \<le> i" "i \<le> lastIndex r"
  shows "lastIndex r' = i - 1" "r_snapIndex r' = r_snapIndex r" "r_snapIndex r < i"
  using assms contiguous_last [of r] struct_truncate [OF assms(1,2)] contiguous_last [of r']
  by (auto elim!: truncateFrom_cases simp: struct_ok_def)

lemma install_snapshot_idx:
  "lastIndex (install_snapshot m c r) = m_SnapIndex m"
  "r_appliedIdx (install_snapshot m c r) = m_SnapIndex m"
  "r_commitIndex (install_snapshot m c r) = m_SnapIndex m"
  by (simp_all add: install_snapshot_def Let_def sendGatedOn_def lastIndex_def)

lemma appendEntries_sel:
  "appendEntries [e] r = Some r' \<Longrightarrow> r_snapIndex r' = r_snapIndex r \<and> r_appliedIdx r' = r_appliedIdx r
     \<and> r_commitIndex r' = r_commitIndex r"
  by (simp add: appendEntries_single)

lemma idx_append: "idx_ok r \<Longrightarrow> appendEntries [e] r = Some r' \<Longrightarrow> idx_ok r'"
  using appendEntries_last [of e r r'] appendEntries_sel [of e r r'] unfolding idx_ok_def by linarith

lemma idx_replace:
  assumes "struct_ok r" "idx_ok r" "truncateFrom (e_Index e) r = Some r1" "appendEntries [e] r1 = Some r2"
  shows "idx_ok r2"
proof -
  have "idx_ok r1"
  proof (cases "1 \<le> e_Index e \<and> e_Index e \<le> lastIndex r")
    case True
    then have "r_commitIndex r < e_Index e" "r_commitIndex r1 = r_commitIndex r" "r_appliedIdx r1 = r_appliedIdx r"
      using assms(3) by (auto elim!: truncateFrom_cases)
    then show ?thesis
      using truncate_last [OF assms(1,3)] True assms(2) by (auto simp: idx_ok_def)
  next
    case False
    then show ?thesis using assms(2,3) by (auto simp: truncateFrom_def)
  qed
  then show ?thesis using assms(4) by (rule idx_append)
qed

lemma idx_micro: "micro r r' \<Longrightarrow> struct_ok r \<Longrightarrow> idx_ok r \<Longrightarrow> idx_ok r'"
proof (induction rule: micro.induct)
  case (replace e r r1 r2)
  then show ?case by (blast intro: idx_replace)
next
  case (append e r r')
  then show ?case by (blast intro: idx_append)
next
  case (volatile r r')
  then show ?case by (simp add: idx_ok_def lastIndex_core) (simp add: same_core_def)
qed (auto simp: idx_ok_def setTermAndVote_def setVote_def sendGatedOn_def Let_def install_snapshot_sel
    install_snapshot_idx)

section \<open>Durability marks\<close>

text \<open>
  With no mark open the whole log is durable and the hard state is clean.  An open mark is the
  newest one; once it has been handed over, everything up to the end of the log has been, and
  before that it covers a dirty hard state, entries still to be handed over, or nothing at all.
\<close>

definition marks_ok :: "Raft \<Rightarrow> bool" where
  "marks_ok r \<longleftrightarrow>
     r_markLastIdx r = t_handed (r_tail r) \<and>
     r_snapIndex r \<le> t_persisted (r_tail r) \<and> t_persisted (r_tail r) \<le> t_handed (r_tail r) \<and>
     t_handed (r_tail r) \<le> lastIndex r \<and>
     r_persisted r \<le> r_lastHandedMark r \<and> r_lastHandedMark r \<le> r_nextMark r \<and>
     (if r_dirtyMark r = 0
      then t_persisted (r_tail r) = lastIndex r \<and> \<not> r_hardStateDirty r \<and> \<not> r_markHandedOff r
      else r_dirtyMark r = r_nextMark r \<and>
        (if r_markHandedOff r
         then r_lastHandedMark r = r_dirtyMark r \<and> t_handed (r_tail r) = lastIndex r \<and> \<not> r_hardStateDirty r
         else r_lastHandedMark r < r_dirtyMark r \<and>
           (r_hardStateDirty r \<or> t_handed (r_tail r) < lastIndex r \<or> t_persisted (r_tail r) = lastIndex r)))"

lemma marks_core: "same_core r r' \<Longrightarrow> marks_ok r \<Longrightarrow> marks_ok r'"
  using lastIndex_core [of r r'] by (simp add: marks_ok_def same_core_def)

text \<open>Opening a mark restores the invariant whenever the open mark will have something to cover.\<close>

definition premarks :: "Raft \<Rightarrow> bool" where
  "premarks r \<longleftrightarrow>
     r_markLastIdx r = t_handed (r_tail r) \<and>
     r_snapIndex r \<le> t_persisted (r_tail r) \<and> t_persisted (r_tail r) \<le> t_handed (r_tail r) \<and>
     t_handed (r_tail r) \<le> lastIndex r \<and>
     r_persisted r \<le> r_lastHandedMark r \<and> r_lastHandedMark r \<le> r_nextMark r \<and>
     (r_dirtyMark r \<noteq> 0 \<and> \<not> r_markHandedOff r \<longrightarrow>
        r_dirtyMark r = r_nextMark r \<and> r_lastHandedMark r < r_dirtyMark r) \<and>
     (r_hardStateDirty r \<or> t_handed (r_tail r) < lastIndex r \<or> t_persisted (r_tail r) = lastIndex r)"

lemma marks_dirty: "premarks r \<Longrightarrow> marks_ok (dirty r)"
  by (auto simp: premarks_def marks_ok_def dirty_def)

lemma marks_append:
  assumes "struct_ok r" "marks_ok r" "appendEntries [e] r = Some r'"
  shows "marks_ok r'"
proof -
  have last: "lastIndex (r\<lparr>r_log := r_log r @ [e]\<rparr>) = lastIndex r + 1"
    using assms(3) by (simp add: appendEntries_single lastIndex_def)
  then have "premarks (r\<lparr>r_log := r_log r @ [e]\<rparr>)" "premarks (recomputeConf (r\<lparr>r_log := r_log r @ [e]\<rparr>))"
    using assms(2) by (auto simp: premarks_def marks_ok_def split: if_splits)
  then show ?thesis
    using assms(3) by (auto simp: appendEntries_single intro: marks_dirty)
qed

lemma cut_back_simps: "1 \<le> i \<Longrightarrow> cut_back i n = min n (i - 1)"
  by (auto simp: cut_back_def)

lemma marks_replace:
  assumes "struct_ok r" "marks_ok r" "truncateFrom (e_Index e) r = Some r1" "appendEntries [e] r1 = Some r2"
  shows "marks_ok r2"
proof (cases "1 \<le> e_Index e \<and> e_Index e \<le> lastIndex r")
  case True
  then have t: "r_tail r1 = \<lparr>t_persisted = min (t_persisted (r_tail r)) (e_Index e - 1),
                   t_handed = min (t_handed (r_tail r)) (e_Index e - 1)\<rparr>"
      "r_markLastIdx r1 = min (r_markLastIdx r) (e_Index e - 1)"
      "r_persisted r1 = r_persisted r" "r_lastHandedMark r1 = r_lastHandedMark r"
      "r_nextMark r1 = r_nextMark r" "r_dirtyMark r1 = r_dirtyMark r" "r_markHandedOff r1 = r_markHandedOff r"
      "r_hardStateDirty r1 = r_hardStateDirty r"
    using assms(3) by (auto elim!: truncateFrom_cases simp: cut_back_simps)
  have l: "lastIndex r1 = e_Index e - 1" "r_snapIndex r1 = r_snapIndex r" "r_snapIndex r < e_Index e"
    using truncate_last [OF assms(1,3)] True by auto
  have "lastIndex (r1\<lparr>r_log := r_log r1 @ [e]\<rparr>) = e_Index e"
    by (simp add: lastIndex_def)
  then have "premarks (r1\<lparr>r_log := r_log r1 @ [e]\<rparr>)" "premarks (recomputeConf (r1\<lparr>r_log := r_log r1 @ [e]\<rparr>))"
    using assms(2) t l True by (auto simp: premarks_def marks_ok_def min_def split: if_splits)
  then show ?thesis
    using assms(4) by (auto simp: appendEntries_single intro: marks_dirty)
next
  case False
  then have "r1 = r" using assms(3) by (auto simp: truncateFrom_def)
  then show ?thesis using assms marks_append by blast
qed

lemma marks_install:
  assumes "marks_ok r"
  shows "marks_ok (install_snapshot m c r)"
proof -
  define r3 where "r3 = (recomputeConf (r\<lparr>r_log := [], r_baseConf := c\<rparr>))\<lparr>r_snapIndex := m_SnapIndex m,
      r_snapTerm := m_SnapTerm m, r_commitIndex := m_SnapIndex m, r_appliedIdx := m_SnapIndex m,
      r_tail := \<lparr>t_persisted = m_SnapIndex m, t_handed = m_SnapIndex m\<rparr>, r_markLastIdx := m_SnapIndex m\<rparr>"
  have "premarks r3"
    using assms by (auto simp: r3_def premarks_def marks_ok_def lastIndex_def split: if_splits)
  then have "marks_ok (dirty r3)" by (rule marks_dirty)
  then show ?thesis
    unfolding install_snapshot_def Let_def r3_def [symmetric] sendGatedOn_def
    by (auto simp: marks_ok_def split: if_splits)
qed

lemma marks_hs:
  assumes "marks_ok r"
  shows "marks_ok (dirty (r\<lparr>r_vote := v, r_hardStateDirty := True\<rparr>))"
    "marks_ok (dirty (r\<lparr>r_term := t, r_vote := v, r_hardStateDirty := True\<rparr>))"
proof -
  have "premarks (r\<lparr>r_vote := v, r_hardStateDirty := True\<rparr>)"
    "premarks (r\<lparr>r_term := t, r_vote := v, r_hardStateDirty := True\<rparr>)"
    using assms by (auto simp: premarks_def marks_ok_def split: if_splits)
  then show "marks_ok (dirty (r\<lparr>r_vote := v, r_hardStateDirty := True\<rparr>))"
    "marks_ok (dirty (r\<lparr>r_term := t, r_vote := v, r_hardStateDirty := True\<rparr>))"
    by (auto intro: marks_dirty)
qed

lemma marks_micro: "micro r r' \<Longrightarrow> struct_ok r \<Longrightarrow> marks_ok r \<Longrightarrow> marks_ok r'"
proof (induction rule: micro.induct)
  case (replace e r r1 r2)
  then show ?case by (blast intro: marks_replace)
next
  case (append e r r')
  then show ?case by (blast intro: marks_append)
next
  case (volatile r r')
  then show ?case by (blast intro: marks_core)
next
  case (install m c r)
  then show ?case by (blast intro: marks_install)
next
  case (bump r t v)
  then show ?case by (simp add: setTermAndVote_def marks_hs)
next
  case (vote r v)
  then show ?case by (simp add: setVote_def marks_hs)
qed (simp_all add: marks_ok_def sendGatedOn_def Let_def)

section \<open>Counting votes\<close>

lemma count_flags_card:
  assumes "distinct ps"
  shows "count_flags c ps bs = card {p. IsVoter c p \<and> (p, True) \<in> set (zip ps bs)}"
  using assms
proof (induction c ps bs rule: count_flags.induct)
  case (3 c p ps b bs)
  have "{q. IsVoter c q \<and> (q, True) \<in> set (zip (p # ps) (b # bs))} =
      (if b \<and> IsVoter c p then insert p else id) {q. IsVoter c q \<and> (q, True) \<in> set (zip ps bs)}" by auto
  moreover have "p \<notin> {q. IsVoter c q \<and> (q, True) \<in> set (zip ps bs)}" "finite {q. IsVoter c q \<and> (q, True) \<in> set (zip ps bs)}"
    using 3(2) by (auto dest: set_zip_leftD intro: finite_subset [of _ "set ps"])
  ultimately show ?case using 3 by simp
qed auto

text \<open>A count of flags that reaches the quorum is a majority of the configuration in use.\<close>

lemma counted_quorum:
  assumes "conf_ok (r_conf r)" "r_peers r = Members (r_conf r)"
  shows "quorum r \<le> countVoters r flags \<longleftrightarrow> is_quorum (r_conf r) {p. (p, True) \<in> set (zip (r_peers r) flags)}"
proof -
  have "distinct (r_peers r)" using assms by (auto simp: Members_def conf_ok_def sorted_ids_def sortIDs_sort)
  moreover have "distinct (Voters (r_conf r))" using assms(1) by (simp add: conf_ok_def sorted_ids_def)
  moreover have "{p. IsVoter (r_conf r) p \<and> (p, True) \<in> set (zip (r_peers r) flags)} =
      set (Voters (r_conf r)) \<inter> {p. (p, True) \<in> set (zip (r_peers r) flags)}" by (auto simp: IsVoter_def)
  ultimately show ?thesis
    unfolding is_quorum_card [OF assms(1)] by (simp add: quorum_def countVoters_def count_flags_card distinct_card)
qed

end
