(* ===== verification/Raft_Node.thy ===== *)
theory Raft_Node
  imports Raft_Inv
begin

text \<open>
  The Raft node as its driver sees it: the invariants hold of a fresh and of a recovered node and
  survive every entry point, every Ready and every acknowledgement, and the panics that guard the
  durability bookkeeping are unreachable.
\<close>

section \<open>Appends on their way out\<close>

definition sent_wf :: "Raft \<Rightarrow> bool" where
  "sent_wf r \<longleftrightarrow> (\<forall>m \<in> set (r_msgs r). msg_wf m) \<and> (\<forall>g \<in> set (r_gated r). msg_wf (g_msg g))"

lemma attests_wf:
  assumes "struct_ok r" "idx_ok r" "attests r lm sm m"
  shows "msg_wf m"
proof (cases "m_Type m = MsgApp \<and> m_PrevLogIndex m < lastIndex r")
  case True
  define p where "p = m_PrevLogIndex m - r_snapIndex r"
  have c: "contiguous (r_snapIndex r) (r_log r)" and last: "lastIndex r = r_snapIndex r + length (r_log r)"
    using assms(1) contiguous_last [of r] by (auto simp: struct_ok_def)
  have p: "m_PrevLogIndex m = r_snapIndex r + p" "p < length (r_log r)"
    using True assms(3) last by (auto simp: attests_def p_def)
  have "suffixFrom r (m_PrevLogIndex m + 1) = Some (m_Entries m)"
    using assms(3) True by (auto simp: attests_def)
  then have "m_Entries m = drop p (r_log r)"
    using p last by (auto simp: suffixFrom_def pos_def split: if_splits)
  moreover have "m_LeaderCommit m \<le> lastIndex r"
    using assms(2,3) True by (auto simp: attests_def idx_ok_def)
  ultimately show ?thesis
    using contiguous_drop [OF c, of p] p last by (auto simp: msg_wf_def)
next
  case False
  then show ?thesis
    using assms(2,3) by (auto simp: msg_wf_def attests_def idx_ok_def)
qed

lemma sent_append: "sent_wf r \<Longrightarrow> appendEntries [e] r = Some r' \<Longrightarrow> sent_wf r'"
  by (auto simp: sent_wf_def appendEntries_single)

lemma sent_truncate:
  assumes "sent_wf r" "truncateFrom i r = Some r'"
  shows "sent_wf r'"
proof (cases "1 \<le> i \<and> i \<le> lastIndex r")
  case True
  then show ?thesis using assms by (auto simp: sent_wf_def elim!: truncateFrom_cases)
next
  case False
  then show ?thesis using assms by (auto simp: truncateFrom_def)
qed

lemma sent_micro: "micro r r' \<Longrightarrow> struct_ok r \<Longrightarrow> idx_ok r \<Longrightarrow> sent_wf r \<Longrightarrow> sent_wf r'"
proof (induction rule: micro.induct)
  case (replace e r r1 r2)
  then show ?case by (blast intro: sent_append sent_truncate)
next
  case (append e r r')
  then show ?case by (blast intro: sent_append)
next
  case (volatile r r')
  then show ?case by (simp add: sent_wf_def same_core_def)
next
  case (gate r lm sm m)
  then show ?case using attests_wf [of r lm sm m] by (auto simp: sent_wf_def sendGatedOn_def Let_def)
next
  case (install m c r)
  then show ?case by (auto simp: sent_wf_def install_snapshot_def Let_def sendGatedOn_def msg_wf_def)
qed (auto simp: sent_wf_def setTermAndVote_def setVote_def msg_wf_def)

section \<open>The node invariant\<close>

definition node_inv :: "Raft \<Rightarrow> bool" where
  "node_inv r \<longleftrightarrow> struct_ok r \<and> idx_ok r \<and> marks_ok r \<and> sent_wf r"

lemma node_inv_micro: "micro r r' \<Longrightarrow> node_inv r \<Longrightarrow> node_inv r'"
  unfolding node_inv_def by (blast intro: struct_micro idx_micro marks_micro sent_micro)

lemma node_inv_reach: "reach r r' \<Longrightarrow> node_inv r \<Longrightarrow> node_inv r'"
  by (induction rule: rtranclp_induct) (auto intro: node_inv_micro)

section \<open>Ready\<close>

lemma at_index_held:
  assumes "struct_ok r" "r_snapIndex r < i" "i \<le> lastIndex r"
  shows "at_index r i = Some (Some (r_log r ! (i - r_snapIndex r - 1)))"
  using assms contiguous_last [of r]
  by (auto simp: struct_ok_def at_index_def pos_def slice_get_def)

lemma committed_from_held:
  assumes "struct_ok r" "\<forall>i \<in> set is. r_snapIndex r < i \<and> i \<le> lastIndex r"
  shows "committed_from r is = Some (map (\<lambda>i. r_log r ! (i - r_snapIndex r - 1)) is)"
  using assms(2) by (induction "is") (auto simp: at_index_held [OF assms(1)])

lemma suffixFrom_held:
  assumes "struct_ok r" "r_snapIndex r < i"
  shows "suffixFrom r i = Some (drop (i - r_snapIndex r - 1) (r_log r))"
  using assms contiguous_last [of r]
  by (auto simp: struct_ok_def suffixFrom_def pos_def)

text \<open>What a Ready hands over, and the state it leaves, when the invariant holds.\<close>

definition pending_entries :: "Raft \<Rightarrow> Entry list" where
  "pending_entries r = drop (t_handed (r_tail r) - r_snapIndex r) (r_log r)"

definition handing :: "Raft \<Rightarrow> bool" where
  "handing r \<longleftrightarrow> r_hardStateDirty r \<or> t_handed (r_tail r) < lastIndex r"

lemma pending_entries_last:
  assumes "node_inv r"
  shows "last_handed (pending_entries r) (t_handed (r_tail r)) = lastIndex r"
    "pending_entries r = [] \<longleftrightarrow> t_handed (r_tail r) = lastIndex r"
proof -
  let ?n = "t_handed (r_tail r) - r_snapIndex r"
  have last: "lastIndex r = r_snapIndex r + length (r_log r)"
    and le: "r_snapIndex r \<le> t_handed (r_tail r)" "t_handed (r_tail r) \<le> lastIndex r"
    and c: "contiguous (r_snapIndex r) (r_log r)"
    using assms contiguous_last [of r] by (auto simp: node_inv_def struct_ok_def marks_ok_def)
  show e: "pending_entries r = [] \<longleftrightarrow> t_handed (r_tail r) = lastIndex r"
    using last le by (auto simp: pending_entries_def)
  show "last_handed (pending_entries r) (t_handed (r_tail r)) = lastIndex r"
  proof (cases "pending_entries r = []")
    case False
    then have "pending_entries r ! (length (pending_entries r) - 1) = r_log r ! (length (r_log r) - 1)"
      using last le e by (auto simp: pending_entries_def)
    then show ?thesis
      using False e last le contiguous_nth [OF c, of "length (r_log r) - 1"]
      by (cases "r_log r") (auto simp: last_handed_def pending_entries_def)
  qed (use e in \<open>simp add: last_handed_def\<close>)
qed

definition after_handover :: "Raft \<Rightarrow> Raft" where
  "after_handover r =
     (let r1 = r\<lparr>r_readyReads := [], r_pendingSnap := None, r_snapTo := [],
                r_hsMark := (if r_hardStateDirty r then r_dirtyMark r else r_hsMark r)\<rparr>
      in (if handing r
          then r1\<lparr>r_markHandedOff := True, r_lastHandedMark := r_dirtyMark r,
                 r_tail := (r_tail r)\<lparr>t_handed := lastIndex r\<rparr>, r_markLastIdx := lastIndex r\<rparr>
          else if r_dirtyMark r \<noteq> 0 \<and> \<not> r_markHandedOff r then closeEmptyMark (r_dirtyMark r) r1
          else r1)\<lparr>r_msgs := [], r_hardStateDirty := False\<rparr>)"

definition handed_over :: "Raft \<Rightarrow> Ready" where
  "handed_over r =
     \<lparr>rd_HardState = (if r_hardStateDirty r then Some \<lparr>hs_Term = r_term r, hs_Vote = r_vote r\<rparr> else None),
      rd_Entries = pending_entries r, rd_SnapshotTo = r_snapTo r, rd_Snapshot = r_pendingSnap r,
      rd_Mark = (if handing r then r_dirtyMark r else 0), rd_ReadStates = r_readyReads r,
      rd_SnapMark = (if r_pendingSnap r \<noteq> None then r_snapMark r else 0), rd_Messages = r_msgs r,
      rd_Committed = map (\<lambda>i. r_log r ! (i - r_snapIndex r - 1)) [r_appliedIdx r + 1..<Suc (r_commitIndex r)]\<rparr>"

lemma ready_eq:
  assumes "node_inv r"
  shows "ready r = Some (handed_over r, after_handover r)"
proof -
  have st: "struct_ok r" and ix: "r_snapIndex r \<le> r_appliedIdx r" "r_commitIndex r \<le> lastIndex r"
    and mk: "r_markLastIdx r = t_handed (r_tail r)" "r_snapIndex r \<le> t_handed (r_tail r)" "t_handed (r_tail r) \<le> lastIndex r"
    using assms by (auto simp: node_inv_def idx_ok_def marks_ok_def)
  have ents: "(if t_handed (r_tail r) < lastIndex r then suffixFrom r (t_handed (r_tail r) + 1) else Some [])
              = Some (pending_entries r)"
    using suffixFrom_held [OF st, of "t_handed (r_tail r) + 1"] mk pending_entries_last(2) [OF assms]
    by (auto simp: pending_entries_def)
  have com: "committed_from r [r_appliedIdx r + 1..<Suc (min (r_commitIndex r) (lastIndex r))] =
             Some (rd_Committed (handed_over r))"
    using ix by (subst committed_from_held [OF st]) (auto simp: handed_over_def min_absorb1)
  have h: "(if r_hardStateDirty r then Some hs else None) \<noteq> None \<or> pending_entries r \<noteq> [] \<longleftrightarrow> handing r" for hs
    using pending_entries_last(2) [OF assms] mk by (auto simp: handing_def)
  show ?thesis
    unfolding ready_def ents com Let_def bind.bind_lunit h
    by (simp add: handed_over_def after_handover_def hand_over_def Let_def pending_entries_last [OF assms] mk(1))
qed

lemma sent_wf_release: "sent_wf r \<Longrightarrow> sent_wf (release r)"
  by (auto simp: sent_wf_def release_def)

lemma node_inv_after_handover:
  assumes "node_inv r"
  shows "node_inv (after_handover r)"
proof -
  have st: "struct_ok (after_handover r)"
    using assms by (auto simp: node_inv_def struct_ok_def after_handover_def Let_def closeEmptyMark_def)
  have ix: "idx_ok (after_handover r)"
    using assms by (auto simp: node_inv_def idx_ok_def after_handover_def Let_def closeEmptyMark_def)
  have "sent_wf (release x) \<Longrightarrow> sent_wf ((release x)\<lparr>r_msgs := [], r_hardStateDirty := False\<rparr>)" for x
    by (simp add: sent_wf_def)
  then have se: "sent_wf (after_handover r)"
    using assms by (auto simp: node_inv_def sent_wf_def after_handover_def Let_def closeEmptyMark_def strike_def release_def)
  have mk: "marks_ok r" using assms by (simp add: node_inv_def)
  have "marks_ok (after_handover r)"
  proof (cases "handing r")
    case True
    with mk show ?thesis
      by (auto simp: marks_ok_def after_handover_def handing_def Let_def split: if_splits)
  next
    case False
    with mk show ?thesis
      by (auto simp: marks_ok_def after_handover_def handing_def Let_def closeEmptyMark_def split: if_splits)
  qed
  with st ix se show ?thesis by (simp add: node_inv_def)
qed

section \<open>Acknowledgements\<close>

definition acked :: "nat \<Rightarrow> Raft \<Rightarrow> Raft" where
  "acked m r = close_mark m (ack_tail m (ack_hs m (r\<lparr>r_persisted := m\<rparr>)))"

lemma raise_persisted_same: "r_persisted r = m \<Longrightarrow> raise_persisted m r = r"
  by (simp add: raise_persisted_def)

lemma AckPersisted_acked:
  assumes "AckPersisted m r = Some r'" "r_persisted r < m"
  shows "reach (release (acked m r)) r'"
proof -
  have "reach x (x\<lparr>r_matchIndex := (r_matchIndex x)[i := k]\<rparr>)" for x i k
    by (rule reach_volatile) (simp add: same_core_def)
  then have "count_own x = Some r' \<Longrightarrow> reach x r'" for x
    by (auto simp: count_own_def Option.bind_eq_Some_conv split: if_splits option.splits
        dest!: maybeCommit_reach intro: rtranclp_trans)
  then show ?thesis
    using assms by (simp add: AckPersisted_def releaseThrough_def acked_def raise_persisted_same)
qed

lemma marks_acked:
  assumes "marks_ok r" "r_persisted r < m" "m \<le> r_lastHandedMark r"
  shows "marks_ok (acked m r)"
proof -
  have "marks_ok (r\<lparr>r_persisted := m\<rparr>)" using assms by (simp add: marks_ok_def)
  then have 1: "marks_ok (ack_tail m (ack_hs m (r\<lparr>r_persisted := m\<rparr>)))" (is "marks_ok ?r")
    by (auto simp: marks_ok_def ack_tail_def)
  have "t_persisted (r_tail ?r) = t_handed (r_tail ?r)" if "r_lastHandedMark r \<le> m"
    using that assms by (auto simp: ack_tail_def marks_ok_def)
  with 1 assms show ?thesis
    by (auto simp: acked_def close_mark_def marks_ok_def split: if_splits)
qed

lemma node_inv_acked:
  assumes "node_inv r" "r_persisted r < m" "m \<le> r_lastHandedMark r"
  shows "node_inv (acked m r)"
proof -
  have "struct_ok (acked m r) = struct_ok r" "idx_ok (acked m r) = idx_ok r" "sent_wf (acked m r) = sent_wf r"
    by (simp_all add: struct_ok_def idx_ok_def sent_wf_def acked_def)
  then show ?thesis
    using marks_acked [of r m] assms by (simp add: node_inv_def)
qed

lemma node_inv_release: "node_inv r \<Longrightarrow> node_inv (release r)"
  by (simp add: node_inv_def sent_wf_release struct_ok_def idx_ok_def marks_ok_def)

lemma node_inv_AckPersisted:
  assumes "node_inv r" "AckPersisted m r = Some r'" "m \<le> r_lastHandedMark r"
  shows "node_inv r'"
proof (cases "m \<le> r_persisted r")
  case True
  then show ?thesis using assms by (simp add: AckPersisted_def)
next
  case False
  then show ?thesis
    using AckPersisted_acked [OF assms(2)] node_inv_acked [OF assms(1) _ assms(3)] node_inv_reach node_inv_release
    by (meson not_le)
qed

lemma AckSnapshot_sel:
  "struct_ok (AckSnapshot m r) = struct_ok r" "idx_ok (AckSnapshot m r) = idx_ok r"
  "marks_ok (AckSnapshot m r) = marks_ok r"
  by (simp_all add: AckSnapshot_def Let_def struct_ok_def idx_ok_def marks_ok_def)

lemma node_inv_AckSnapshot:
  assumes "node_inv r"
  shows "node_inv (AckSnapshot m r)"
proof -
  have "sent_wf (AckSnapshot m r)"
    using assms by (auto simp: node_inv_def AckSnapshot_def Let_def sent_wf_def release_def)
  with assms show ?thesis by (simp add: node_inv_def AckSnapshot_sel)
qed

lemma node_inv_AckApplied:
  assumes "node_inv r" "i \<le> r_commitIndex r"
  shows "node_inv (AckApplied i r)"
proof -
  have "struct_ok (AckApplied i r) = struct_ok r" "marks_ok (AckApplied i r) = marks_ok r"
    "sent_wf (AckApplied i r) = sent_wf r"
    by (simp_all add: AckApplied_def struct_ok_def marks_ok_def sent_wf_def)
  moreover have "idx_ok (AckApplied i r)"
    using assms by (auto simp: node_inv_def idx_ok_def AckApplied_def)
  ultimately show ?thesis using assms by (simp add: node_inv_def)
qed

section \<open>Compaction\<close>

lemma conf_through_prefix:
  "contiguous p es \<Longrightarrow> i = p + n \<Longrightarrow> n \<le> length es \<Longrightarrow>
   conf_through c i es = fst (conf_pass c None (take n es))"
proof (induction es arbitrary: c p n)
  case (Cons e es)
  show ?case
  proof (cases n)
    case 0
    with Cons.prems show ?thesis by simp
  next
    case (Suc k)
    then have "conf_through c' i es = fst (conf_pass c' None (take k es))" for c'
      using Cons.prems Cons.IH [of "p + 1" k c'] by simp
    with Suc Cons.prems show ?thesis
      by (auto split: sum.splits simp: conf_pass_ref [of _ "Some _"])
  qed
qed simp

lemma conf_pass_append:
  "fst (conf_pass c ref (xs @ ys)) = fst (conf_pass (fst (conf_pass c None xs)) None ys)"
proof (induction xs arbitrary: c ref)
  case Nil
  show ?case using conf_pass_ref by simp
next
  case (Cons x xs)
  then show ?case
    by (auto split: sum.splits simp: conf_pass_ref [of _ "Some _" xs])
qed

lemma Compact_cases:
  assumes "struct_ok r" "Compact i r = Some (res, r')"
  shows "r' = r \<or> r_snapIndex r < i \<and> i \<le> r_appliedIdx r \<and> i \<le> t_persisted (r_tail r) \<and> i \<le> lastIndex r \<and>
    (\<exists>c t. c = fst (conf_pass (r_baseConf r) None (take (i - r_snapIndex r) (r_log r))) \<and> res = Inr (t, c) \<and>
      r' = recomputeConf (r\<lparr>r_log := drop (i - r_snapIndex r) (r_log r), r_snapIndex := i, r_snapTerm := t,
             r_baseConf := c\<rparr>))"
proof (cases "i \<le> r_snapIndex r \<or> i > r_appliedIdx r \<or> i > t_persisted (r_tail r) \<or> i > lastIndex r")
  case True
  then show ?thesis
    using assms(2) by (auto simp: Compact_def at_index_def pos_def split: if_splits)
next
  case False
  let ?n = "i - r_snapIndex r"
  have "lastIndex r = r_snapIndex r + length (r_log r)" "contiguous (r_snapIndex r) (r_log r)"
    using assms(1) contiguous_last by (auto simp: struct_ok_def)
  then have "conf_through (r_baseConf r) i (r_log r) = fst (conf_pass (r_baseConf r) None (take ?n (r_log r)))"
    using False by (intro conf_through_prefix [of "r_snapIndex r"]) auto
  moreover have "at_index r i = Some (Some (r_log r ! (i - r_snapIndex r - 1)))"
    using False assms(1) by (simp add: at_index_held)
  ultimately show ?thesis
    using assms(2) False
    by (auto simp: Compact_def ConfigurationAt_def pos_def Suc_diff_Suc split: if_splits)
qed

lemma Compact_conf:
  assumes "struct_ok r" "Compact i r = Some (res, r')"
  shows "r_conf r' = r_conf r"
  using Compact_cases [OF assms] assms(1)
    conf_pass_append [of "r_baseConf r" None "take (i - r_snapIndex r) (r_log r)" "drop (i - r_snapIndex r) (r_log r)"]
  by (auto simp: struct_ok_def)

lemma node_inv_Compact:
  assumes "node_inv r" "Compact i r = Some (res, r')"
  shows "node_inv r'"
proof -
  have st: "struct_ok r" and last: "lastIndex r = r_snapIndex r + length (r_log r)"
    and c: "contiguous (r_snapIndex r) (r_log r)"
    using assms(1) contiguous_last [of r] by (auto simp: node_inv_def struct_ok_def)
  consider "r' = r" | cf t where "r_snapIndex r < i" "i \<le> r_appliedIdx r" "i \<le> t_persisted (r_tail r)" "i \<le> lastIndex r"
      "r' = recomputeConf (r\<lparr>r_log := drop (i - r_snapIndex r) (r_log r), r_snapIndex := i, r_snapTerm := t,
             r_baseConf := cf\<rparr>)"
    using Compact_cases [OF st assms(2)] by auto
  then show ?thesis
  proof cases
    case 2
    have c': "contiguous i (drop (i - r_snapIndex r) (r_log r))"
      using contiguous_drop [OF c, of "i - r_snapIndex r"] 2 last by simp
    then have st': "struct_ok r'" using 2(5) by (simp add: struct_ok_def)
    have last': "lastIndex r' = lastIndex r"
      using contiguous_last [of r'] c' last 2 by simp
    have "idx_ok r'" "sent_wf r'"
      using assms(1) 2 last' by (auto simp: node_inv_def idx_ok_def sent_wf_def)
    moreover have "marks_ok r'"
      using assms(1) 2 last' by (simp add: node_inv_def marks_ok_def)
    ultimately show ?thesis using st' by (simp add: node_inv_def)
  qed (use assms(1) in simp)
qed

section \<open>Construction and recovery\<close>

lemma log_gap_contiguous: "log_gap p es = None \<longleftrightarrow> contiguous p es"
  by (induction es arbitrary: p) auto

lemma New_fresh:
  assumes "New cfg = Inr r"
  shows "r_log r = []" "r_msgs r = []" "r_gated r = []" "r_dirtyMark r = 0" "\<not> r_hardStateDirty r"
    "\<not> r_markHandedOff r" "r_persisted r = 0" "r_lastHandedMark r = 0" "r_snapIndex r = 0"
    "r_appliedIdx r = 0" "r_commitIndex r = 0" "r_tail r = \<lparr>t_persisted = 0, t_handed = 0\<rparr>" "r_markLastIdx r = 0"
    "r_baseConf r = r_conf r" "r_peers r = Members (r_conf r)"
    "length (r_nextIndex r) = length (r_peers r)" "length (r_matchIndex r) = length (r_peers r)"
    "length (r_votesGranted r) = length (r_peers r)" "length (r_votesDenied r) = length (r_peers r)"
    "length (r_preGranted r) = length (r_peers r)" "r_term r = 0" "r_vote r = 0" "r_hsMark r = 0"
    "r_nextMark r = 0" "r_id r = cfg_ID cfg" "r_id r \<noteq> 0"
  using assms by (simp_all add: New_def Let_def split: if_split_asm) (auto)

lemma node_inv_New: "New cfg = Inr r \<Longrightarrow> node_inv r"
  by (simp add: node_inv_def struct_ok_def idx_ok_def marks_ok_def sent_wf_def lastIndex_def New_fresh)

lemma node_inv_Restore:
  assumes "Restore cfg hs snap es = Inr r"
  shows "node_inv r"
proof -
  obtain r0 where r0: "New cfg = Inr r0"
    using assms by (auto simp: Restore_def split: sum.splits)
  define r1 where "r1 = r0\<lparr>r_term := hs_Term hs, r_vote := hs_Vote hs, r_snapIndex := sm_Index snap, r_snapTerm := sm_Term snap\<rparr>"
  define r2 where "r2 = (if length (Voters (sm_Conf snap)) > 0 then r1\<lparr>r_baseConf := sm_Conf snap\<rparr> else r1)"
  have z: "r_log r0 = []" "r_msgs r0 = []" "r_gated r0 = []" "r_dirtyMark r0 = 0" "\<not> r_hardStateDirty r0"
    "\<not> r_markHandedOff r0" "r_persisted r0 = 0" "r_lastHandedMark r0 = 0"
    using New_fresh [OF r0] by simp_all
  then have z2: "r_log r2 = []" "r_msgs r2 = []" "r_gated r2 = []" "r_dirtyMark r2 = 0" "\<not> r_hardStateDirty r2"
    "\<not> r_markHandedOff r2" "r_persisted r2 = 0" "r_lastHandedMark r2 = 0" "r_snapIndex r2 = sm_Index snap"
    by (simp_all add: r2_def r1_def)
  define r4 where "r4 = recomputeConf (r2\<lparr>r_log := r_log r2 @ es, r_commitIndex := sm_Index snap, r_appliedIdx := sm_Index snap\<rparr>)"
  have g: "contiguous (sm_Index snap) es"
    and r: "r = r4\<lparr>r_tail := \<lparr>t_persisted = lastIndex r4, t_handed = lastIndex r4\<rparr>, r_markLastIdx := lastIndex r4\<rparr>"
    using assms unfolding Restore_def r0 sum.case Let_def r1_def [symmetric] r2_def [symmetric] r4_def
    by (auto simp: z2 log_gap_contiguous split: option.splits)
  have st: "struct_ok r4" using g by (simp add: r4_def struct_ok_def z2)
  then have last: "lastIndex r4 = sm_Index snap + length es"
    using contiguous_last [of r4] by (simp add: struct_ok_def r4_def z2)
  have "idx_ok r" unfolding r idx_ok_def using last by (simp add: r4_def z2)
  moreover have "marks_ok r" unfolding r marks_ok_def using last by (simp add: r4_def z2)
  moreover have "sent_wf r" unfolding r sent_wf_def by (simp add: r4_def z2)
  moreover have "struct_ok r" unfolding r using st by (simp add: struct_ok_def)
  ultimately show ?thesis by (simp add: node_inv_def)
qed

section \<open>Runs of one node\<close>

datatype node_event =
    Ticked | Received Message | Proposed ProposalID bytes | ConfProposed ProposalID ConfChangeV2
  | ReadAsked bytes | Transferred NodeID | Campaigned | TimeoutSet int
  | Drained | Persisted nat | SnapPersisted nat | Applied nat | Compacted nat

fun node_step :: "node_event \<Rightarrow> Raft \<Rightarrow> Raft option" where
  "node_step Ticked r = Tick r"
| "node_step (Received m) r = map_option snd (Step m r)"
| "node_step (Proposed pid data) r = map_option snd (Propose pid data r)"
| "node_step (ConfProposed pid cc) r = map_option snd (ProposeConfChange pid cc r)"
| "node_step (ReadAsked ctx) r = map_option snd (ReadIndex ctx r)"
| "node_step (Transferred n) r = TransferLeadership n r"
| "node_step Campaigned r = map_option snd (Campaign r)"
| "node_step (TimeoutSet t) r = Some (SetElectionTimeout t r)"
| "node_step Drained r = map_option snd (ready r)"
| "node_step (Persisted m) r = AckPersisted m r"
| "node_step (SnapPersisted m) r = Some (AckSnapshot m r)"
| "node_step (Applied i) r = Some (AckApplied i r)"
| "node_step (Compacted i) r = map_option snd (Compact i r)"

text \<open>
  What the driver promises: it acknowledges only marks it was handed and indices it was told are
  committed, and the appends it delivers have the shape every node sends.
\<close>

fun driver_ok :: "node_event \<Rightarrow> Raft \<Rightarrow> bool" where
  "driver_ok (Received m) r = msg_wf m"
| "driver_ok (Persisted m) r = (m \<le> r_lastHandedMark r)"
| "driver_ok (Applied i) r = (i \<le> r_commitIndex r)"
| "driver_ok _ r = True"

fun entry_point :: "node_event \<Rightarrow> bool" where
  "entry_point Drained = False"
| "entry_point (Persisted m) = False"
| "entry_point (SnapPersisted m) = False"
| "entry_point (Applied i) = False"
| "entry_point (Compacted i) = False"
| "entry_point _ = True"

lemma entry_point_reach:
  "entry_point ev \<Longrightarrow> driver_ok ev r \<Longrightarrow> node_step ev r = Some r' \<Longrightarrow> reach r r'"
  by (cases ev) (auto intro: Tick_reach Step_reach Propose_reach ProposeConfChange_reach ReadIndex_reach
      TransferLeadership_reach Campaign_reach SetElectionTimeout_reach)

lemma node_inv_step:
  assumes "node_inv r" "driver_ok ev r" "node_step ev r = Some r'"
  shows "node_inv r'"
proof (cases "entry_point ev")
  case True
  then show ?thesis using assms entry_point_reach node_inv_reach by blast
next
  case False
  then show ?thesis
    using assms
    by (cases ev) (auto simp: ready_eq node_inv_after_handover node_inv_AckSnapshot node_inv_AckApplied
        intro: node_inv_AckPersisted node_inv_Compact)
qed

inductive live :: "Raft \<Rightarrow> bool" where
  fresh: "New cfg = Inr r \<Longrightarrow> live r"
| recovered: "Restore cfg hs snap es = Inr r \<Longrightarrow> live r"
| step: "live r \<Longrightarrow> driver_ok ev r \<Longrightarrow> node_step ev r = Some r' \<Longrightarrow> live r'"

lemma live_inv: "live r \<Longrightarrow> node_inv r"
  by (induction rule: live.induct) (auto intro: node_inv_New node_inv_Restore node_inv_step)

fun node_run :: "node_event list \<Rightarrow> Raft \<Rightarrow> Raft option" where
  "node_run [] r = Some r"
| "node_run (ev # evs) r =
     (if driver_ok ev r then case node_step ev r of None \<Rightarrow> None | Some r' \<Rightarrow> node_run evs r' else None)"

lemma live_run: "live r \<Longrightarrow> node_run evs r = Some r' \<Longrightarrow> live r'"
  by (induction evs arbitrary: r) (auto split: if_splits option.splits intro: live.step)

text \<open>The equations that run a handler on a concrete node.\<close>

lemmas raft_eval =
  Let_def sortIDs_sort Members_def insertID_def split_members_def New_def defaultPromotionLag_def
  peerIdx_def lastIndex_def pos_def at_index_def suffixFrom_def termAt_def lastTerm_def
  matches_def logIsUpToDate_def quorum_def slice_get_def slice_set_def carried_def setConf_def recomputeConf_def
  dirty_def setVote_def setTermAndVote_def send_def sendGated_def termMark_def sendGatedOn_def releasable_def
  release_def marksFor_def appendEntries_def truncateFrom_def new_msg_def zeroPID_def sendSnapshot_def sendAppend_def
  broadcastAppend_def becomeFollower_def reset_progress_def becomeLeader_def forceCampaign_def preCampaign_def
  campaign_def Campaign_def EntryNormal_def EntryConfChange_def
  readFloor_def maybeCommit_def count_own_def ack_hs_def ack_tail_def AckPersisted_def AckApplied_def Compact_def ConfigurationAt_def
  ready_def hand_over_def last_handed_def HasReady_def AckSnapshot_def closeEmptyMark_def
  raise_persisted_def releaseThrough_def close_mark_def stepDownIfRemoved_def strike_def maybeConfirmReads_def IsVoter_def

subsection \<open>A concrete run\<close>

text \<open>
  A group of one voter and one learner: node 1 campaigns, wins at once, appends the empty entry
  of its term, writes it, commits it and applies it.
\<close>

definition demo_cfg :: Config where
  "demo_cfg = \<lparr>cfg_ID = 1, cfg_Peers = [1, 2], cfg_ElectionTimeout = 10, cfg_HeartbeatTimeout = 2,
     cfg_Learners = [2], cfg_PromotionLag = 0, cfg_PreVote = False\<rparr>"

definition demo_node :: Raft where
  "demo_node = (case New demo_cfg of Inr r \<Rightarrow> r)"

lemma demo_new: "New demo_cfg = Inr demo_node"
  by (simp add: demo_node_def New_def demo_cfg_def split_members_def insertID_def Members_def sortIDs_sort Let_def)

lemmas demo_node_eq = demo_node_def [unfolded New_def demo_cfg_def split_members_def insertID_def
    Members_def sortIDs_sort Let_def, simplified]

lemma demo_node_live: "live demo_node"
  by (rule live.fresh [OF demo_new])

definition demo_noop :: Entry where
  "demo_noop = \<lparr>e_Type = EntryNormal, e_Term = 1, e_Index = 1, e_ID = zeroPID, e_Data = []\<rparr>"

definition demo_events :: "node_event list" where
  "demo_events = [Campaigned, Drained, Persisted 1, Applied 1]"

definition demo_append :: Message where
  "demo_append = (new_msg MsgApp 1 2 1)\<lparr>m_Entries := [demo_noop]\<rparr>"

definition demo_leader :: Raft where
  "demo_leader = demo_node\<lparr>r_term := 1, r_vote := 1, r_log := [demo_noop], r_role := RoleLeader,
     r_commitIndex := 1, r_appliedIdx := 1, r_leader := 1, r_nextIndex := [1, 1],
     r_matchIndex := [1, 0], r_votesGranted := [True, False], r_termStart := 1,
     r_msgs := [demo_append], r_tail := \<lparr>t_persisted = 1, t_handed = 1\<rparr>, r_markLastIdx := 1,
     r_lastHandedMark := 1, r_nextMark := 1, r_persisted := 1\<rparr>"

lemmas demo_leader_eq = demo_leader_def [unfolded demo_node_eq demo_append_def demo_noop_def new_msg_def, simplified]

lemma demo_run: "node_run demo_events demo_node = Some demo_leader"
  by (simp add: demo_events_def demo_node_eq demo_leader_eq raft_eval)

lemma demo_leader_live: "live demo_leader"
  by (rule live_run [OF demo_node_live demo_run])

text \<open>C24: In every state a node reaches from a fresh start or a recovery, under a driver that
  acknowledges only what it was handed, the log holds consecutive indices right after the
  snapshot, the applied, committed and last indices are ordered behind it, and the membership in
  use is the one its own log describes, so the consistency assertion never reports a disagreement.\<close>

theorem live_log_gapless:
  assumes "live r"
  shows "contiguous (r_snapIndex r) (r_log r) \<and>
    r_snapIndex r \<le> r_appliedIdx r \<and> r_appliedIdx r \<le> r_commitIndex r \<and> r_commitIndex r \<le> lastIndex r \<and>
    r_conf r = fst (conf_pass (r_baseConf r) None (r_log r)) \<and> AssertConfConsistent r \<noteq> Some ConfDisagrees"
  using live_inv [OF assms]
  by (auto simp: node_inv_def struct_ok_def idx_ok_def AssertConfConsistent_def split: option.splits)

theorem live_log_gapless_witness:
  "r_log demo_leader \<noteq> [] \<and> contiguous (r_snapIndex demo_leader) (r_log demo_leader) \<and>
   AssertConfConsistent demo_leader \<noteq> Some ConfDisagrees"
  using live_log_gapless [OF demo_leader_live] by (simp add: demo_leader_eq)

text \<open>C25: The durability bookkeeping never panics: in every live state a mark can be named for
  every index the log holds, it is open whenever that index is not yet durable, and a Ready can
  always be taken.\<close>

theorem live_marks_total:
  assumes "live r"
  shows "(\<forall>i \<le> lastIndex r. \<exists>lm sm. marksFor r i = Some (lm, sm) \<and>
            (t_persisted (r_tail r) < i \<longrightarrow> lm = r_dirtyMark r \<and> lm \<noteq> 0)) \<and>
         (\<exists>rd r'. ready r = Some (rd, r'))"
proof -
  have inv: "node_inv r" by (rule live_inv [OF assms])
  then have mk: "marks_ok r" by (simp add: node_inv_def)
  have "\<exists>lm sm. marksFor r i = Some (lm, sm) \<and> (t_persisted (r_tail r) < i \<longrightarrow> lm = r_dirtyMark r \<and> lm \<noteq> 0)"
    if "i \<le> lastIndex r" for i
    using that mk by (auto simp: marksFor_def marks_ok_def split: if_splits)
  with ready_eq [OF inv] show ?thesis by blast
qed

theorem live_marks_total_witness:
  "lastIndex demo_leader = 1 \<and> (\<exists>lm sm. marksFor demo_leader 1 = Some (lm, sm)) \<and>
   (\<exists>rd r'. ready demo_leader = Some (rd, r'))"
proof -
  have "lastIndex demo_leader = 1" by (simp add: demo_leader_eq lastIndex_def)
  with live_marks_total [OF demo_leader_live] show ?thesis by auto
qed

text \<open>C26: Every append a live node puts on the wire, released or still withheld, carries
  consecutive entries right after the index it extends and a commit index that does not exceed
  them, which is what its receiver relies on.\<close>

theorem live_appends_wf:
  assumes "live r" "m \<in> set (r_msgs r) \<union> g_msg ` set (r_gated r)"
  shows "msg_wf m"
  using live_inv [OF assms(1)] assms(2) by (auto simp: node_inv_def sent_wf_def)

theorem live_appends_wf_witness:
  "demo_append \<in> set (r_msgs demo_leader) \<and> m_Entries demo_append = [demo_noop] \<and> msg_wf demo_append"
  using live_appends_wf [OF demo_leader_live, of demo_append]
  by (simp add: demo_leader_def demo_append_def)

text \<open>Compaction does not change the membership: whatever prefix is discarded, the
  configuration stored with the snapshot plus what is left of the log give the same active
  configuration.\<close>

theorem compact_keeps_membership:
  assumes "live r" "Compact i r = Some (res, r')"
  shows "r_conf r' = r_conf r \<and> r_peers r' = r_peers r"
proof -
  have st: "struct_ok r" "struct_ok r'"
    using live_inv [OF assms(1)] node_inv_Compact [OF live_inv [OF assms(1)] assms(2)]
    by (simp_all add: node_inv_def)
  then have "r_peers r = Members (r_conf r)" "r_peers r' = Members (r_conf r')"
    unfolding struct_ok_def by blast+
  with Compact_conf [OF st(1) assms(2)] show ?thesis by simp
qed

theorem compact_keeps_membership_witness:
  "\<exists>res r'. Compact 1 demo_leader = Some (res, r') \<and> r_snapIndex r' = 1 \<and> r_log r' = [] \<and>
     r_conf r' = \<lparr>Voters = [1], Learners = [2]\<rparr> \<and> r_peers r' = [1, 2]"
proof -
  obtain res r' where c: "Compact 1 demo_leader = Some (res, r')" "r_snapIndex r' = 1" "r_log r' = []"
    by (simp add: demo_leader_eq raft_eval)
  from compact_keeps_membership [OF demo_leader_live c(1)] c show ?thesis
    by (auto simp: demo_leader_eq)
qed

end
