(* ===== verification/Raft_Safety.thy ===== *)
theory Raft_Safety
  imports Raft_Node
begin

text \<open>
  What one node never undoes, whatever it is sent: its term and the vote it cast in it, its commit
  index, and the committed part of its log.
\<close>

section \<open>Terms and votes\<close>

definition hs_le :: "nat \<times> NodeID \<Rightarrow> nat \<times> NodeID \<Rightarrow> bool" where
  "hs_le a b \<longleftrightarrow> fst a < fst b \<or> fst a = fst b \<and> (snd a = 0 \<or> snd b = snd a)"

definition hs :: "Raft \<Rightarrow> nat \<times> NodeID" where
  "hs r = (r_term r, r_vote r)"

lemma hs_le_refl [simp]: "hs_le a a"
  by (simp add: hs_le_def)

lemma hs_le_trans: "hs_le a b \<Longrightarrow> hs_le b c \<Longrightarrow> hs_le a c"
  by (auto simp: hs_le_def)

lemma truncate_hs: "truncateFrom i r = Some r' \<Longrightarrow> hs r' = hs r"
  by (auto simp: hs_def truncateFrom_def split: if_splits option.splits)

lemma append_hs: "appendEntries [e] r = Some r' \<Longrightarrow> hs r' = hs r"
  by (simp add: appendEntries_single hs_def)

lemma hs_micro: "micro r r' \<Longrightarrow> hs_le (hs r) (hs r')"
proof (induction rule: micro.induct)
  case (replace e r r1 r2)
  then show ?case using truncate_hs append_hs by fastforce
next
  case (append e r r')
  then show ?case by (simp add: append_hs)
qed (auto simp: hs_def hs_le_def same_core_def setTermAndVote_def setVote_def sendGatedOn_def Let_def
      install_snapshot_def)

lemma hs_reach: "reach r r' \<Longrightarrow> hs_le (hs r) (hs r')"
  by (induction rule: rtranclp_induct) (auto intro: hs_le_trans hs_micro)

lemma hs_handover: "hs (after_handover r) = hs r"
  by (simp add: hs_def after_handover_def Let_def closeEmptyMark_def)

lemma hs_AckPersisted: "AckPersisted m r = Some r' \<Longrightarrow> hs_le (hs r) (hs r')"
  using AckPersisted_acked [of m r r'] hs_reach [of "release (acked m r)" r']
  by (cases "m \<le> r_persisted r") (auto simp: AckPersisted_def hs_def acked_def)

lemma hs_Compact: "struct_ok r \<Longrightarrow> Compact i r = Some (res, r') \<Longrightarrow> hs r' = hs r"
  using Compact_cases [of r i res r'] by (auto simp: hs_def)

lemma hs_acks [simp]: "hs (AckSnapshot m r) = hs r" "hs (AckApplied i r) = hs r"
  by (simp_all add: hs_def AckSnapshot_def AckApplied_def Let_def)

lemma hs_step:
  assumes "node_inv r" "driver_ok ev r" "node_step ev r = Some r'"
  shows "hs_le (hs r) (hs r')"
proof (cases "entry_point ev")
  case True
  then show ?thesis using assms entry_point_reach hs_reach by blast
next
  case False
  have "struct_ok r" using assms(1) by (simp add: node_inv_def)
  with False show ?thesis
    using assms hs_Compact [of r]
    by (cases ev) (auto simp: ready_eq hs_handover dest: hs_AckPersisted)
qed

text \<open>C23: No event makes a live node lower its term, and within one term the vote it has cast
  stays what it is: a vote changes only from none, or with the term.\<close>

theorem live_vote_stable:
  assumes "live r" "driver_ok ev r" "node_step ev r = Some r'"
  shows "r_term r \<le> r_term r' \<and> (r_term r' = r_term r \<and> r_vote r \<noteq> 0 \<longrightarrow> r_vote r' = r_vote r)"
  using hs_step [OF live_inv [OF assms(1)] assms(2,3)] by (auto simp: hs_le_def hs_def)

theorem live_vote_stable_witness:
  "\<exists>r'. node_step Ticked demo_leader = Some r' \<and> r_vote demo_leader = 1 \<and> r_term demo_leader \<le> r_term r' \<and>
     (r_term r' = r_term demo_leader \<longrightarrow> r_vote r' = 1)"
proof -
  obtain r' where s: "node_step Ticked demo_leader = Some r'"
    by (simp add: demo_leader_eq Tick_def tick_leader_def tick_transfer_def raft_eval)
  have "r_vote demo_leader = 1" by (simp add: demo_leader_eq)
  with s live_vote_stable [OF demo_leader_live _ s] show ?thesis by simp
qed

section \<open>The committed prefix\<close>

definition entry_at :: "Raft \<Rightarrow> nat \<Rightarrow> Entry option" where
  "entry_at r i = (if r_snapIndex r < i \<and> i \<le> lastIndex r then Some (r_log r ! (i - r_snapIndex r - 1)) else None)"

definition prefix_kept :: "Raft \<Rightarrow> Raft \<Rightarrow> bool" where
  "prefix_kept r r' \<longleftrightarrow> r_commitIndex r \<le> r_commitIndex r' \<and> r_snapIndex r \<le> r_snapIndex r' \<and>
     (\<forall>i. r_snapIndex r' < i \<and> i \<le> r_commitIndex r \<longrightarrow> entry_at r' i = entry_at r i)"

lemma prefix_kept_refl [simp]: "prefix_kept r r"
  by (simp add: prefix_kept_def)

lemma prefix_kept_trans: "prefix_kept r r1 \<Longrightarrow> prefix_kept r1 r2 \<Longrightarrow> prefix_kept r r2"
  by (simp add: prefix_kept_def)

lemma prefix_kept_same:
  "r_log r' = r_log r \<Longrightarrow> r_snapIndex r' = r_snapIndex r \<Longrightarrow> r_commitIndex r \<le> r_commitIndex r' \<Longrightarrow> prefix_kept r r'"
  by (simp add: prefix_kept_def entry_at_def lastIndex_def)

lemma prefix_append:
  assumes "struct_ok r" "idx_ok r" "appendEntries [e] r = Some r'"
  shows "prefix_kept r r'"
proof -
  have l: "lastIndex r = r_snapIndex r + length (r_log r)"
    using assms(1) contiguous_last by (simp add: struct_ok_def)
  have r': "r_log r' = r_log r @ [e]" "r_snapIndex r' = r_snapIndex r" "r_commitIndex r' = r_commitIndex r"
    "lastIndex r' = lastIndex r + 1"
    using assms(3) appendEntries_last [OF assms(3)] by (auto simp: appendEntries_single)
  show ?thesis
    using assms(2) l by (auto simp: prefix_kept_def entry_at_def r' idx_ok_def nth_append)
qed

lemma prefix_truncate:
  assumes "struct_ok r" "truncateFrom i r = Some r'"
  shows "prefix_kept r r'"
proof (cases "1 \<le> i \<and> i \<le> lastIndex r")
  case True
  then have t: "r_commitIndex r < i" "r_snapIndex r < i" "r_log r' = take (i - r_snapIndex r - 1) (r_log r)"
    "r_commitIndex r' = r_commitIndex r"
    using assms(2) by (auto elim!: truncateFrom_cases)
  have l: "lastIndex r' = i - 1" "r_snapIndex r' = r_snapIndex r"
    using truncate_last [OF assms] True by auto
  show ?thesis using True t l by (auto simp: prefix_kept_def entry_at_def)
next
  case False
  then show ?thesis using assms(2) by (auto simp: truncateFrom_def)
qed

lemma prefix_micro: "micro r r' \<Longrightarrow> struct_ok r \<Longrightarrow> idx_ok r \<Longrightarrow> prefix_kept r r'"
proof (induction rule: micro.induct)
  case (replace e r r1 r2)
  have "struct_ok r1" using replace struct_truncate by blast
  moreover have "idx_ok r1"
  proof (cases "1 \<le> e_Index e \<and> e_Index e \<le> lastIndex r")
    case True
    then show ?thesis
      using replace.hyps(1) replace.prems truncate_last [OF replace.prems(1) replace.hyps(1)]
      by (auto elim!: truncateFrom_cases simp: idx_ok_def)
  next
    case False
    then show ?thesis using replace by (auto simp: truncateFrom_def)
  qed
  ultimately show ?case
    using replace prefix_truncate prefix_append prefix_kept_trans by blast
next
  case (append e r r')
  then show ?case by (blast intro: prefix_append)
next
  case (install m c r)
  then show ?case
    by (auto simp: prefix_kept_def install_snapshot_sel install_snapshot_idx idx_ok_def)
qed (auto intro!: prefix_kept_same simp: same_core_def setTermAndVote_def setVote_def sendGatedOn_def Let_def)

lemma prefix_reach: "reach r r' \<Longrightarrow> node_inv r \<Longrightarrow> prefix_kept r r'"
proof (induction rule: rtranclp_induct)
  case (step y z)
  then have "node_inv y" by (metis node_inv_reach)
  with step show ?case by (meson prefix_micro prefix_kept_trans node_inv_def)
qed simp

lemma prefix_Compact:
  assumes "struct_ok r" "Compact i r = Some (res, r')"
  shows "prefix_kept r r'"
proof -
  have l: "lastIndex r = r_snapIndex r + length (r_log r)" "contiguous (r_snapIndex r) (r_log r)"
    using assms(1) contiguous_last by (auto simp: struct_ok_def)
  consider "r' = r" | t c where "r_snapIndex r < i" "i \<le> lastIndex r"
    "r' = recomputeConf (r\<lparr>r_log := drop (i - r_snapIndex r) (r_log r), r_snapIndex := i, r_snapTerm := t, r_baseConf := c\<rparr>)"
    using Compact_cases [OF assms] by auto
  then show ?thesis
  proof cases
    case 2
    then have "lastIndex r' = lastIndex r"
      using contiguous_last [of r'] contiguous_drop [OF l(2), of "i - r_snapIndex r"] l by simp
    with 2 l show ?thesis
      by (auto simp: prefix_kept_def entry_at_def)
  qed simp
qed

lemma prefix_kept_driver [simp]:
  "prefix_kept r (after_handover r)" "prefix_kept r (AckSnapshot m r)" "prefix_kept r (AckApplied i r)"
  by (auto intro!: prefix_kept_same simp: after_handover_def closeEmptyMark_def AckSnapshot_def
      AckApplied_def Let_def)

lemma prefix_AckPersisted:
  assumes "node_inv r" "AckPersisted m r = Some r'" "m \<le> r_lastHandedMark r"
  shows "prefix_kept r r'"
proof (cases "m \<le> r_persisted r")
  case True
  then show ?thesis using assms(2) by (simp add: AckPersisted_def)
next
  case False
  have "prefix_kept r (release (acked m r))" by (rule prefix_kept_same) (simp_all add: acked_def)
  moreover have "prefix_kept (release (acked m r)) r'"
    using AckPersisted_acked [OF assms(2)] node_inv_release [OF node_inv_acked [OF assms(1) _ assms(3)]] False
    by (intro prefix_reach) auto
  ultimately show ?thesis by (rule prefix_kept_trans)
qed

lemma prefix_step:
  assumes "node_inv r" "driver_ok ev r" "node_step ev r = Some r'"
  shows "prefix_kept r r'"
proof (cases "entry_point ev")
  case True
  then show ?thesis using assms entry_point_reach prefix_reach by blast
next
  case False
  have st: "struct_ok r" using assms(1) by (simp add: node_inv_def)
  show ?thesis
    using assms False prefix_Compact [OF st] prefix_AckPersisted [OF assms(1)]
    by (cases ev) (auto simp: ready_eq)
qed



end
