(* ===== verification/Raft_Disk.thy ===== *)
theory Raft_Disk
  imports Raft_Safety
begin

text \<open>
  Persist before reply.  A node is run beside its disk: what a Ready hands over is written in
  order, acknowledged in order, and a crash loses everything that is not on disk.  No message
  outruns the state it attests to, so a vote survives every crash that follows its announcement.
\<close>

section \<open>What a message claims\<close>

text \<open>The candidate a message backs in its term: a granted vote, or a candidate asking for votes.\<close>

definition backs :: "Message \<Rightarrow> NodeID option" where
  "backs m = (if m_Type m = MsgVoteResp \<and> m_Granted m then Some (m_To m)
              else if m_Type m = MsgVote then Some (m_From m) else None)"

definition ungated_type :: "Message \<Rightarrow> bool" where
  "ungated_type m \<longleftrightarrow> m_Type m \<in> {MsgPreVote, MsgPreVoteResp, MsgTimeoutNow}"

definition claim :: "nat \<times> NodeID \<Rightarrow> Message \<Rightarrow> bool" where
  "claim h m \<longleftrightarrow> ungated_type m \<or> m_Term m < fst h \<or>
     m_Term m = fst h \<and> (\<forall>c. backs m = Some c \<and> c \<noteq> 0 \<longrightarrow> snd h = c)"

lemma claim_mono: "hs_le h h' \<Longrightarrow> claim h m \<Longrightarrow> claim h' m"
  by (auto simp: claim_def hs_le_def)

lemma attests_claim: "attests r lm sm m \<Longrightarrow> claim (hs r) m"
  by (auto simp: attests_def claim_def hs_def backs_def)

section \<open>Writes in flight\<close>

type_synonym handover = "nat \<times> (nat \<times> NodeID) option"

definition written :: "nat \<times> NodeID \<Rightarrow> handover \<Rightarrow> nat \<times> NodeID" where
  "written d w = (case snd w of None \<Rightarrow> d | Some h \<Rightarrow> h)"

text \<open>The hard state on disk once every write is done, and once those up to mark \<open>t\<close> are.\<close>

definition flushed :: "nat \<times> NodeID \<Rightarrow> handover list \<Rightarrow> nat \<times> NodeID" where
  "flushed d q = foldl written d q"

definition cover :: "nat \<Rightarrow> nat \<times> NodeID \<Rightarrow> handover list \<Rightarrow> nat \<times> NodeID" where
  "cover t d q = flushed d (filter (\<lambda>w. fst w \<le> t) q)"

fun chain :: "nat \<times> NodeID \<Rightarrow> handover list \<Rightarrow> nat \<times> NodeID \<Rightarrow> bool" where
  "chain d [] h = hs_le d h"
| "chain d (w # q) h \<longleftrightarrow> hs_le d (written d w) \<and> chain (written d w) q h"

lemma chain_mono: "chain d q h \<Longrightarrow> hs_le h h' \<Longrightarrow> chain d q h'"
  by (induction q arbitrary: d) (auto intro: hs_le_trans)

lemma chain_snoc: "chain d q h \<Longrightarrow> snd w = None \<or> snd w = Some h \<Longrightarrow> chain d (q @ [w]) h"
  by (induction q arbitrary: d) (auto simp: written_def)

lemma chain_flushed: "chain d q h \<Longrightarrow> hs_le d (flushed d q) \<and> hs_le (flushed d q) h"
proof (induction q arbitrary: d)
  case (Cons w q)
  have "hs_le (written d w) (flushed (written d w) q) \<and> hs_le (flushed (written d w) q) h"
    using Cons by simp
  then show ?case using Cons.prems hs_le_trans [of d "written d w"] by (simp add: flushed_def)
qed (simp add: flushed_def)

lemma flushed_snoc: "flushed d (q @ [w]) = written (flushed d q) w"
  by (simp add: flushed_def)

lemma flushed_no_hs: "\<forall>w \<in> set q. snd w = None \<Longrightarrow> flushed d q = d"
  by (induction q arbitrary: d) (auto simp: flushed_def written_def)

lemma cover_all: "\<forall>w \<in> set q. snd w \<noteq> None \<longrightarrow> fst w \<le> t \<Longrightarrow> cover t d q = flushed d q"
  by (induction q arbitrary: d) (auto simp: cover_def flushed_def written_def split: option.splits)

lemma cover_none: "\<forall>w \<in> set q. t < fst w \<Longrightarrow> cover t d q = d"
  by (induction q arbitrary: d) (auto simp: cover_def flushed_def)

lemma cover_snoc_new: "t < fst w \<Longrightarrow> cover t d (q @ [w]) = cover t d q"
  by (simp add: cover_def)

section \<open>The invariant of a node and its disk\<close>

definition gate_ok :: "nat \<times> NodeID \<Rightarrow> handover list \<Rightarrow> Raft \<Rightarrow> gatedMessage \<Rightarrow> bool" where
  "gate_ok d q r g \<longleftrightarrow>
     g_termMark g \<le> r_lastHandedMark r \<and> claim (cover (g_termMark g) d q) (g_msg g) \<or>
     r_hardStateDirty r \<and> g_termMark g = r_dirtyMark r \<and> claim (hs r) (g_msg g)"

definition all_msgs :: "Message list \<Rightarrow> Raft \<Rightarrow> Message set" where
  "all_msgs sent r = set sent \<union> set (r_msgs r) \<union> g_msg ` set (r_gated r)"

definition agree :: "Message set \<Rightarrow> bool" where
  "agree S \<longleftrightarrow> (\<forall>m \<in> S. \<forall>m' \<in> S. \<forall>c c'. m_Term m = m_Term m' \<and> backs m = Some c \<and> backs m' = Some c'
     \<and> c \<noteq> 0 \<and> c' \<noteq> 0 \<longrightarrow> c = c')"

definition disk_inv :: "nat \<times> NodeID \<Rightarrow> handover list \<Rightarrow> nat list \<Rightarrow> Message list \<Rightarrow> Raft \<Rightarrow> bool" where
  "disk_inv d q acks sent r \<longleftrightarrow>
     chain d q (hs r) \<and> (\<not> r_hardStateDirty r \<longrightarrow> flushed d q = hs r) \<and>
     sorted_wrt (<) (r_persisted r # acks @ map fst q) \<and>
     (\<forall>m \<in> set (acks @ map fst q). m \<le> r_lastHandedMark r) \<and>
     (\<forall>w \<in> set q. snd w \<noteq> None \<longrightarrow> fst w \<le> r_hsMark r) \<and> r_hsMark r \<le> r_lastHandedMark r \<and>
     (\<forall>g \<in> set (r_gated r). gate_ok d q r g) \<and>
     (\<forall>m \<in> set sent \<union> set (r_msgs r). claim d m) \<and>
     (\<forall>m \<in> all_msgs sent r. claim (hs r) m) \<and> agree (all_msgs sent r)"

lemma disk_invD:
  assumes "disk_inv d q acks sent r"
  shows "chain d q (hs r)" "\<not> r_hardStateDirty r \<Longrightarrow> flushed d q = hs r"
    "sorted_wrt (<) (r_persisted r # acks @ map fst q)"
    "m \<in> set acks \<Longrightarrow> m \<le> r_lastHandedMark r" "w \<in> set q \<Longrightarrow> fst w \<le> r_lastHandedMark r"
    "w \<in> set q \<Longrightarrow> snd w \<noteq> None \<Longrightarrow> fst w \<le> r_hsMark r" "r_hsMark r \<le> r_lastHandedMark r"
    "g \<in> set (r_gated r) \<Longrightarrow> gate_ok d q r g"
    "x \<in> set sent \<union> set (r_msgs r) \<Longrightarrow> claim d x"
    "x \<in> all_msgs sent r \<Longrightarrow> claim (hs r) x" "agree (all_msgs sent r)"
  using assms by (auto simp: disk_inv_def)

lemma agree_insert:
  assumes "agree S" "\<forall>m \<in> S. claim h m" "claim h m" "m_Term m = fst h"
  shows "agree (insert m S)"
proof -
  have "c = c'" if "m' \<in> S" "m_Term m' = m_Term m" "backs m = Some c" "backs m' = Some c'" "c \<noteq> 0" "c' \<noteq> 0" for m' c c'
  proof -
    have "\<not> ungated_type m" "\<not> ungated_type m'"
      using that by (auto simp: backs_def ungated_type_def split: if_splits)
    then show ?thesis
      using that assms(2-4) by (auto simp: claim_def)
  qed
  with assms(1) show ?thesis unfolding agree_def by (metis insert_iff option.inject)
qed

lemma agree_ungated:
  assumes "agree S" "ungated_type m"
  shows "agree (insert m S)"
proof -
  have "backs m = None" using assms(2) by (auto simp: backs_def ungated_type_def)
  with assms(1) show ?thesis unfolding agree_def by (metis insert_iff option.distinct(1))
qed

lemma agree_subset: "agree S \<Longrightarrow> T \<subseteq> S \<Longrightarrow> agree T"
  unfolding agree_def by blast

section \<open>Every primitive change keeps it\<close>

text \<open>Changes that leave the hard state, its marks and the messages alone.\<close>

lemma disk_inv_same:
  assumes "disk_inv d q acks sent r" "hs r' = hs r" "r_hardStateDirty r' = r_hardStateDirty r"
    "r_persisted r' = r_persisted r" "r_lastHandedMark r' = r_lastHandedMark r" "r_hsMark r' = r_hsMark r"
    "r_hardStateDirty r \<longrightarrow> r_dirtyMark r' = r_dirtyMark r"
    "set (r_gated r') \<subseteq> set (r_gated r)" "r_msgs r' = r_msgs r"
  shows "disk_inv d q acks sent r'"
proof -
  have "gate_ok d q r g \<Longrightarrow> gate_ok d q r' g" for g
    using assms(7) unfolding gate_ok_def assms(2,3,5) by auto
  then have "\<forall>g \<in> set (r_gated r'). gate_ok d q r' g"
    using assms(1) assms(8) by (auto simp: disk_inv_def)
  moreover have sub: "all_msgs sent r' \<subseteq> all_msgs sent r"
    using assms(8,9) by (auto simp: all_msgs_def)
  moreover have "agree (all_msgs sent r')"
    using assms(1) agree_subset [OF _ sub] by (simp add: disk_inv_def)
  moreover have "\<forall>m \<in> all_msgs sent r'. claim (hs r) m"
    using assms(1) sub by (auto simp: disk_inv_def)
  ultimately show ?thesis
    using assms(1) by (simp add: disk_inv_def assms(2-6,9))
qed

lemma marks_hs_dirty:
  "marks_ok r \<Longrightarrow> r_hardStateDirty r \<Longrightarrow>
   r_dirtyMark r \<noteq> 0 \<and> \<not> r_markHandedOff r \<and> r_lastHandedMark r < r_dirtyMark r"
  by (simp add: marks_ok_def split: if_splits)

lemma dirty_keeps_mark: "marks_ok r \<Longrightarrow> r_hardStateDirty r \<Longrightarrow> r_dirtyMark (dirty r) = r_dirtyMark r"
  using marks_hs_dirty by (simp add: dirty_def)

lemma disk_inv_raise:
  assumes "disk_inv d q acks sent r" "marks_ok r" "hs_le (hs r) (hs r')" "r_hardStateDirty r'"
    "r_persisted r' = r_persisted r" "r_lastHandedMark r' = r_lastHandedMark r" "r_hsMark r' = r_hsMark r"
    "r_hardStateDirty r \<longrightarrow> r_dirtyMark r' = r_dirtyMark r" "r_gated r' = r_gated r" "r_msgs r' = r_msgs r"
  shows "disk_inv d q acks sent r'"
proof -
  have "gate_ok d q r g \<Longrightarrow> gate_ok d q r' g" for g
    using assms(8) claim_mono [OF assms(3), of "g_msg g"] unfolding gate_ok_def assms(6) by (auto simp: assms(4))
  then have "\<forall>g \<in> set (r_gated r'). gate_ok d q r' g"
    using assms(1) by (simp add: disk_inv_def assms(9))
  moreover have "all_msgs sent r' = all_msgs sent r"
    using assms by (simp add: all_msgs_def)
  moreover have "\<forall>m \<in> all_msgs sent r. claim (hs r') m" "chain d q (hs r')"
    using assms(1) claim_mono [OF assms(3)] chain_mono [OF _ assms(3)] by (auto simp: disk_inv_def)
  ultimately show ?thesis
    using assms(1) by (simp add: disk_inv_def assms(4-7,10))
qed

lemma disk_clean:
  assumes "disk_inv d q acks sent r" "\<not> r_hardStateDirty r"
  shows "cover (r_hsMark r) d q = hs r"
  using assms cover_all [of q "r_hsMark r" d] by (simp add: disk_inv_def)

lemma disk_marks: "disk_inv d q acks sent r \<Longrightarrow> w \<in> set q \<Longrightarrow> r_persisted r < fst w"
  by (simp add: disk_inv_def)

lemma disk_inv_gate:
  assumes "disk_inv d q acks sent r" "marks_ok r" "claim (hs r) m" "m_Term m = r_term r"
  shows "disk_inv d q acks sent (sendGatedOn lm sm m r)"
proof -
  define tm where "tm = termMark r"
  have ag: "agree (insert m (all_msgs sent r))" "\<forall>m' \<in> insert m (all_msgs sent r). claim (hs r) m'"
    using assms agree_insert [of "all_msgs sent r" "hs r" m] by (auto simp: disk_inv_def hs_def)
  have tm: "tm \<le> r_lastHandedMark r \<and> claim (cover tm d q) m \<or> r_hardStateDirty r \<and> tm = r_dirtyMark r"
  proof (cases "r_hardStateDirty r")
    case True
    then have "r_hsMark r < r_dirtyMark r"
      using assms(1) marks_hs_dirty [OF assms(2)] by (auto simp: disk_inv_def)
    with True show ?thesis by (simp add: tm_def termMark_def)
  next
    case False
    then have "tm = r_hsMark r" by (simp add: tm_def termMark_def)
    with False show ?thesis
      using assms(1,3) disk_clean [OF assms(1)] by (simp add: disk_inv_def)
  qed
  show ?thesis
  proof (cases "lm = 0 \<and> sm = 0 \<and> tm = 0")
    case True
    have "r_dirtyMark r \<noteq> 0" if "r_hardStateDirty r"
      using that marks_hs_dirty [OF assms(2)] by simp
    then have nd: "\<not> r_hardStateDirty r" "r_hsMark r = 0"
      using True by (auto simp: tm_def termMark_def split: if_splits)
    have "\<forall>w \<in> set q. 0 < fst w"
      using disk_marks [OF assms(1)] by force
    then have "claim d m"
      using disk_clean [OF assms(1) nd(1)] cover_none [of q 0 d] nd(2) assms(3) by simp
    moreover have "sendGatedOn lm sm m r = r\<lparr>r_msgs := r_msgs r @ [m]\<rparr>"
      using True by (simp add: sendGatedOn_def tm_def)
    moreover have "all_msgs sent (r\<lparr>r_msgs := r_msgs r @ [m]\<rparr>) = insert m (all_msgs sent r)"
      by (auto simp: all_msgs_def)
    ultimately show ?thesis
      using assms(1) ag by (auto simp: disk_inv_def gate_ok_def hs_def)
  next
    case False
    let ?g = "\<lparr>g_msg = m, g_mark = lm, g_snapMark = sm, g_termMark = tm\<rparr>"
    have "sendGatedOn lm sm m r = r\<lparr>r_gated := r_gated r @ [?g]\<rparr>"
      using False by (auto simp: sendGatedOn_def tm_def)
    moreover have "all_msgs sent (r\<lparr>r_gated := r_gated r @ [?g]\<rparr>) = insert m (all_msgs sent r)"
      by (auto simp: all_msgs_def)
    moreover have "gate_ok d q r ?g"
      using tm assms(3) by (auto simp: gate_ok_def)
    ultimately show ?thesis
      using assms(1) ag by (auto simp: disk_inv_def gate_ok_def hs_def)
  qed
qed

lemma disk_inv_append:
  assumes "disk_inv d q acks sent r" "marks_ok r" "appendEntries [e] r = Some r'"
  shows "disk_inv d q acks sent r'"
proof -
  define r0 where "r0 = (if e_Type e = EntryConfChange then recomputeConf (r\<lparr>r_log := r_log r @ [e]\<rparr>)
                 else r\<lparr>r_log := r_log r @ [e]\<rparr>)"
  have r': "r' = dirty r0" using assms(3) by (simp add: appendEntries_single r0_def)
  have "r_hardStateDirty r \<longrightarrow> r_dirtyMark (dirty r0) = r_dirtyMark r"
    using marks_hs_dirty [OF assms(2)] by (auto simp: dirty_def r0_def)
  then show ?thesis
    unfolding r' by (intro disk_inv_same [OF assms(1)]) (simp_all add: r0_def hs_def)
qed

lemma disk_inv_truncate:
  assumes "disk_inv d q acks sent r" "truncateFrom i r = Some r'"
  shows "disk_inv d q acks sent r'"
proof (cases "1 \<le> i \<and> i \<le> lastIndex r")
  case True
  then show ?thesis
    using assms(2) by (auto elim!: truncateFrom_cases simp: hs_def intro!: disk_inv_same [OF assms(1)])
next
  case False
  then show ?thesis using assms by (auto simp: truncateFrom_def)
qed

lemma truncate_marks_hs:
  assumes "marks_ok r" "truncateFrom i r = Some r'"
  shows "r_hardStateDirty r' = r_hardStateDirty r" "r_dirtyMark r' = r_dirtyMark r"
    "r_markHandedOff r' = r_markHandedOff r"
  using assms(2) by (auto simp: truncateFrom_def split: if_splits option.splits)

lemma marks_snap_fields [simp]:
  "marks_ok (r\<lparr>r_nextSnapMark := a, r_snapMark := b, r_pendingSnap := p\<rparr>) = marks_ok r"
  by (simp add: marks_ok_def)

lemma disk_inv_install:
  assumes "disk_inv d q acks sent r" "marks_ok r"
  shows "disk_inv d q acks sent (install_snapshot m c r)"
proof -
  define r3 where "r3 = (recomputeConf (r\<lparr>r_log := [], r_baseConf := c\<rparr>))\<lparr>r_snapIndex := m_SnapIndex m,
      r_snapTerm := m_SnapTerm m, r_commitIndex := m_SnapIndex m, r_appliedIdx := m_SnapIndex m,
      r_tail := \<lparr>t_persisted = m_SnapIndex m, t_handed = m_SnapIndex m\<rparr>, r_markLastIdx := m_SnapIndex m\<rparr>"
  define r5 where "r5 = (dirty r3)\<lparr>r_nextSnapMark := r_nextSnapMark (dirty r3) + 1, r_snapMark := r_nextSnapMark (dirty r3) + 1,
      r_pendingSnap := Some \<lparr>s_Index = m_SnapIndex m, s_Term = m_SnapTerm m, s_Data = m_SnapData m, s_Conf = c\<rparr>\<rparr>"
  have "premarks r3"
    using assms(2) by (auto simp: r3_def premarks_def marks_ok_def lastIndex_def split: if_splits)
  then have mk: "marks_ok r5" by (simp add: r5_def marks_dirty)
  have dm: "r_hardStateDirty r \<longrightarrow> r_dirtyMark (dirty r3) = r_dirtyMark r"
    using marks_hs_dirty [OF assms(2)] by (auto simp: dirty_def r3_def)
  then have di: "disk_inv d q acks sent r5"
    by (intro disk_inv_same [OF assms(1)]) (simp_all add: r5_def r3_def hs_def)
  have "install_snapshot m c r = sendGatedOn (r_dirtyMark r5) (r_snapMark r5)
          ((appResp r5 m True)\<lparr>m_MatchIndex := m_SnapIndex m\<rparr>) r5"
    by (simp add: install_snapshot_def Let_def r5_def r3_def)
  moreover have "claim (hs r5) ((appResp r5 m True)\<lparr>m_MatchIndex := m_SnapIndex m\<rparr>)"
    by (simp add: claim_def hs_def backs_def)
  ultimately show ?thesis
    using disk_inv_gate [OF di mk] by simp
qed

lemma disk_inv_ungated:
  assumes "disk_inv d q acks sent r" "ungated_type m"
  shows "disk_inv d q acks sent (r\<lparr>r_msgs := r_msgs r @ [m]\<rparr>)"
proof -
  have "all_msgs sent (r\<lparr>r_msgs := r_msgs r @ [m]\<rparr>) = insert m (all_msgs sent r)"
    by (auto simp: all_msgs_def)
  moreover have "claim h m" for h using assms(2) by (simp add: claim_def)
  moreover have "agree (insert m (all_msgs sent r))"
    using assms by (simp add: agree_ungated disk_inv_def)
  moreover have "gate_ok d q (r\<lparr>r_msgs := x\<rparr>) = gate_ok d q r" for x
    by (simp add: gate_ok_def hs_def fun_eq_iff)
  ultimately show ?thesis
    using assms(1) by (simp add: disk_inv_def hs_def)
qed

lemma disk_inv_micro:
  "micro r r' \<Longrightarrow> marks_ok r \<Longrightarrow> disk_inv d q acks sent r \<Longrightarrow> disk_inv d q acks sent r'"
proof (induction rule: micro.induct)
  case (volatile r r')
  show ?case
    by (rule disk_inv_same [OF volatile.prems(2)]) (use volatile.hyps in \<open>simp_all add: same_core_def hs_def\<close>)
next
  case (bump r t v)
  have "r_hardStateDirty r \<longrightarrow> r_dirtyMark (dirty (r\<lparr>r_term := t, r_vote := v, r_hardStateDirty := True\<rparr>)) = r_dirtyMark r"
    using marks_hs_dirty [OF bump.prems(1)] by (auto simp: dirty_def)
  then show ?case
    using bump.hyps
    by (intro disk_inv_raise [OF bump.prems(2,1)]) (simp_all add: setTermAndVote_def hs_def hs_le_def)
next
  case (vote r v)
  have "r_hardStateDirty r \<longrightarrow> r_dirtyMark (dirty (r\<lparr>r_vote := v, r_hardStateDirty := True\<rparr>)) = r_dirtyMark r"
    using marks_hs_dirty [OF vote.prems(1)] by (auto simp: dirty_def)
  then have "disk_inv d q acks sent (dirty (r\<lparr>r_vote := v, r_hardStateDirty := True\<rparr>))" if "r_vote r \<noteq> v"
    using vote.hyps that by (intro disk_inv_raise [OF vote.prems(2,1)]) (auto simp: hs_def hs_le_def)
  with vote show ?case by (simp add: setVote_def)
next
  case (ungated m r)
  then show ?case by (simp add: disk_inv_ungated ungated_type_def)
next
  case (gate r lm sm m)
  have "m_Term m = r_term r" using gate.hyps by (simp add: attests_def)
  then show ?case by (rule disk_inv_gate [OF gate.prems(2,1) attests_claim [OF gate.hyps]])
next
  case (append e r r')
  then show ?case by (blast intro: disk_inv_append)
next
  case (replace e r r1 r2)
  then have d1: "disk_inv d q acks sent r1" by (blast intro: disk_inv_truncate)
  define r0 where "r0 = (if e_Type e = EntryConfChange then recomputeConf (r1\<lparr>r_log := r_log r1 @ [e]\<rparr>)
                 else r1\<lparr>r_log := r_log r1 @ [e]\<rparr>)"
  have r2: "r2 = dirty r0" using replace.hyps(2) by (simp add: appendEntries_single r0_def)
  have "r_hardStateDirty r1 \<longrightarrow> r_dirtyMark (dirty r0) = r_dirtyMark r1"
    using marks_hs_dirty [OF replace.prems(1)] truncate_marks_hs [OF replace.prems(1) replace.hyps(1)]
    by (auto simp: dirty_def r0_def)
  then show ?case
    unfolding r2 by (intro disk_inv_same [OF d1]) (simp_all add: r0_def hs_def)
next
  case (commit r n)
  show ?case by (rule disk_inv_same [OF commit.prems(2)]) (simp_all add: hs_def)
next
  case (drop r P)
  show ?case by (rule disk_inv_same [OF drop.prems(2)]) (auto simp: hs_def)
next
  case (install m c r)
  then show ?case by (blast intro: disk_inv_install)
qed


lemma disk_inv_reach:
  "reach r r' \<Longrightarrow> node_inv r \<Longrightarrow> disk_inv d q acks sent r \<Longrightarrow> disk_inv d q acks sent r'"
proof (induction rule: rtranclp_induct)
  case (step y z)
  then have "node_inv y" by (blast intro: node_inv_reach)
  with step show ?case by (simp add: disk_inv_micro node_inv_def)
qed

section \<open>The driver's side\<close>

text \<open>What a Ready puts in the write queue: its mark and, when it carries one, its hard state.\<close>

definition enqueue :: "Ready \<Rightarrow> handover list" where
  "enqueue rd = (if rd_Mark rd = 0 then []
     else [(rd_Mark rd, map_option (\<lambda>h. (hs_Term h, hs_Vote h)) (rd_HardState rd))])"

lemma enqueue_handed_over:
  assumes "marks_ok r"
  shows "enqueue (handed_over r) =
    (if handing r then [(r_dirtyMark r, if r_hardStateDirty r then Some (hs r) else None)] else [])"
proof -
  have "handing r \<Longrightarrow> r_dirtyMark r \<noteq> 0"
    using assms by (auto simp: handing_def marks_ok_def split: if_splits)
  then show ?thesis by (auto simp: enqueue_def handed_over_def hs_def)
qed

lemma handing_mark:
  "marks_ok r \<Longrightarrow> handing r \<Longrightarrow> r_dirtyMark r \<noteq> 0 \<and> r_lastHandedMark r < r_dirtyMark r"
  by (auto simp: handing_def marks_ok_def split: if_splits)

lemma disk_inv_handing:
  assumes di: "disk_inv d q acks sent r" and mk: "marks_ok r" and h: "handing r"
  shows "disk_inv d (q @ [(r_dirtyMark r, if r_hardStateDirty r then Some (hs r) else None)]) acks (sent @ r_msgs r)
    (after_handover r)"
proof -
  let ?w = "(r_dirtyMark r, if r_hardStateDirty r then Some (hs r) else None)"
  let ?r = "after_handover r"
  have lt: "r_lastHandedMark r < r_dirtyMark r" using handing_mark [OF mk h] by simp
  have pl: "r_persisted r \<le> r_lastHandedMark r" using mk by (simp add: marks_ok_def)
  have f: "hs ?r = hs r" "\<not> r_hardStateDirty ?r" "r_persisted ?r = r_persisted r"
    "r_lastHandedMark ?r = r_dirtyMark r" "r_gated ?r = r_gated r" "r_msgs ?r = []"
    "r_hsMark ?r = (if r_hardStateDirty r then r_dirtyMark r else r_hsMark r)"
    using h by (simp_all add: after_handover_def Let_def hs_def)
  have fl: "flushed d (q @ [?w]) = hs r"
    using di by (simp add: flushed_snoc written_def disk_inv_def)
  have all: "fst w \<le> r_dirtyMark r" if "w \<in> set q" for w
    using disk_invD(5) [OF di that] lt by simp
  have cov: "cover (r_dirtyMark r) d (q @ [?w]) = hs r"
    using cover_all [of "q @ [?w]" "r_dirtyMark r" d] all fl by auto
  have g: "gate_ok d (q @ [?w]) ?r g" if "g \<in> set (r_gated r)" for g
  proof -
    have "gate_ok d q r g" by (rule disk_invD(8) [OF di that])
    then show ?thesis
      using lt cov cover_snoc_new [of "g_termMark g" ?w d q] unfolding gate_ok_def f by auto
  qed
  have am: "all_msgs (sent @ r_msgs r) ?r = all_msgs sent r" by (auto simp: all_msgs_def f)
  have "sorted_wrt (<) (r_persisted r # acks @ map fst (q @ [?w]))"
    using disk_invD(3) [OF di] disk_invD(4,5) [OF di] lt pl by (fastforce simp: sorted_wrt_append)
  moreover have "chain d (q @ [?w]) (hs r)" using di chain_snoc [of d q "hs r" ?w] by (simp add: disk_inv_def)
  moreover have "\<forall>w \<in> set (q @ [?w]). snd w \<noteq> None \<longrightarrow> fst w \<le> r_hsMark ?r"
    using disk_invD(5,6) [OF di] lt unfolding f by fastforce
  moreover have "r_hsMark ?r \<le> r_dirtyMark r" using disk_invD(7) [OF di] lt unfolding f by auto
  moreover have "\<forall>m \<in> set (acks @ map fst (q @ [?w])). m \<le> r_dirtyMark r"
    using disk_invD(4,5) [OF di] lt by fastforce
  moreover have "\<forall>m \<in> set (sent @ r_msgs r) \<union> set []. claim d m" using disk_invD(9) [OF di] by auto
  ultimately show ?thesis
    unfolding disk_inv_def am f(1-6) using fl g disk_invD(10,11) [OF di] by blast
qed

lemma disk_inv_idle:
  assumes di: "disk_inv d q acks sent r" and mk: "marks_ok r" and h: "\<not> handing r"
  shows "disk_inv d q acks (sent @ r_msgs r) (after_handover r)"
proof -
  let ?r = "after_handover r"
  have nd: "\<not> r_hardStateDirty r" using h by (simp add: handing_def)
  have f: "hs ?r = hs r" "r_hardStateDirty ?r = False" "r_persisted ?r = r_persisted r"
    "r_lastHandedMark ?r = r_lastHandedMark r" "r_msgs ?r = []" "r_hsMark ?r = r_hsMark r"
    using h nd by (simp_all add: after_handover_def Let_def hs_def closeEmptyMark_def)
  have old: "\<exists>g' \<in> set (r_gated r). g_msg g = g_msg g' \<and> g_termMark g = g_termMark g'" if "g \<in> set (r_gated ?r)" for g
  proof (cases "r_dirtyMark r \<noteq> 0 \<and> \<not> r_markHandedOff r")
    case True
    then have lt: "r_lastHandedMark r < r_dirtyMark r" using mk by (simp add: marks_ok_def)
    have "g \<in> strike (r_dirtyMark r) ` set (r_gated r)"
      using that True h by (auto simp: after_handover_def Let_def closeEmptyMark_def release_def)
    then obtain g' where g': "g' \<in> set (r_gated r)" "g = strike (r_dirtyMark r) g'" by auto
    moreover have "g_termMark g' \<le> r_lastHandedMark r"
      using di g'(1) nd by (auto simp: disk_inv_def gate_ok_def)
    ultimately show ?thesis using lt by (auto simp: strike_def)
  next
    case False
    then show ?thesis using that h by (auto simp: after_handover_def Let_def)
  qed
  have g: "gate_ok d q ?r g" if "g \<in> set (r_gated ?r)" for g
  proof -
    from old [OF that]
    obtain g' where "g' \<in> set (r_gated r)" "g_msg g = g_msg g'" "g_termMark g = g_termMark g'" by blast
    then show ?thesis using disk_invD(8) [OF di, of g'] nd unfolding gate_ok_def f by simp
  qed
  have am: "all_msgs (sent @ r_msgs r) ?r \<subseteq> all_msgs sent r" using old by (fastforce simp: all_msgs_def f)
  have "agree (all_msgs (sent @ r_msgs r) ?r)" "\<forall>m \<in> all_msgs (sent @ r_msgs r) ?r. claim (hs r) m"
    using am agree_subset [OF disk_invD(11) [OF di] am] disk_invD(10) [OF di] by blast+
  moreover have "\<forall>m \<in> set (sent @ r_msgs r) \<union> set []. claim d m" using disk_invD(9) [OF di] by auto
  moreover have "\<forall>m \<in> set (acks @ map fst q). m \<le> r_lastHandedMark r" using disk_invD(4,5) [OF di] by auto
  ultimately show ?thesis
    unfolding disk_inv_def f using disk_invD(1-3,6,7) [OF di] g nd by blast
qed

lemma disk_inv_ready:
  assumes "disk_inv d q acks sent r" "node_inv r" "ready r = Some (rd, r')"
  shows "disk_inv d (q @ enqueue rd) acks (sent @ rd_Messages rd) r'"
proof -
  have mk: "marks_ok r" using assms(2) by (simp add: node_inv_def)
  have eq: "rd = handed_over r" "r' = after_handover r" using assms(3) ready_eq [OF assms(2)] by simp_all
  have "rd_Messages (handed_over r) = r_msgs r" by (simp add: handed_over_def)
  then show ?thesis
    using disk_inv_handing [OF assms(1) mk] disk_inv_idle [OF assms(1) mk]
    by (auto simp: eq enqueue_handed_over [OF mk])
qed

lemma disk_inv_write:
  assumes di: "disk_inv d (w # q) acks sent r"
  shows "disk_inv (written d w) q (acks @ [fst w]) sent r"
proof -
  have up: "hs_le d (written d w)" "chain (written d w) q (hs r)" using disk_invD(1) [OF di] by simp_all
  have srt: "\<forall>w' \<in> set q. fst w < fst w'" using disk_invD(3) [OF di] by (simp add: sorted_wrt_append)
  have cov: "claim (cover t (written d w) q) m" if "claim (cover t d (w # q)) m" for t m
  proof (cases "fst w \<le> t")
    case True
    then show ?thesis using that by (simp add: cover_def flushed_def)
  next
    case False
    then have "\<forall>w' \<in> set (w # q). t < fst w'" using srt by fastforce
    then have "cover t d (w # q) = d" "cover t (written d w) q = written d w"
      by (simp_all add: cover_none)
    with that show ?thesis using claim_mono [OF up(1)] by simp
  qed
  then have "\<forall>g \<in> set (r_gated r). gate_ok (written d w) q r g"
    using disk_invD(8) [OF di] by (fastforce simp: gate_ok_def)
  moreover have "\<forall>m \<in> set sent \<union> set (r_msgs r). claim (written d w) m"
    using disk_invD(9) [OF di] claim_mono [OF up(1)] by blast
  moreover have "\<not> r_hardStateDirty r \<longrightarrow> flushed (written d w) q = hs r"
    using disk_invD(2) [OF di] by (simp add: flushed_def)
  moreover have "sorted_wrt (<) (r_persisted r # (acks @ [fst w]) @ map fst q)"
    using disk_invD(3) [OF di] by simp
  moreover have "\<forall>m \<in> set ((acks @ [fst w]) @ map fst q). m \<le> r_lastHandedMark r"
    using disk_invD(4,5) [OF di] by auto
  moreover have "\<forall>w' \<in> set q. snd w' \<noteq> None \<longrightarrow> fst w' \<le> r_hsMark r"
    using disk_invD(6) [OF di] by simp
  ultimately show ?thesis
    unfolding disk_inv_def using up(2) disk_invD(7,10,11) [OF di] by blast
qed

text \<open>A message whose marks have landed attests only to what is on disk.\<close>

lemma disk_inv_release:
  assumes di: "disk_inv d q acks sent r" and mk: "marks_ok r"
  shows "disk_inv d q acks sent (release r)"
proof -
  have cl: "claim d (g_msg g)" if g: "g \<in> set (r_gated r)" "releasable r g" for g
  proof -
    have le: "g_termMark g \<le> r_persisted r" "r_persisted r \<le> r_lastHandedMark r"
      using g(2) mk by (simp_all add: releasable_def marks_ok_def)
    then have "g_termMark g \<noteq> r_dirtyMark r \<or> \<not> r_hardStateDirty r"
      using marks_hs_dirty [OF mk] by auto
    then have "claim (cover (g_termMark g) d q) (g_msg g)"
      using disk_invD(8) [OF di g(1)] by (auto simp: gate_ok_def)
    moreover have "cover (g_termMark g) d q = d"
      using disk_marks [OF di] le by (intro cover_none) fastforce
    ultimately show ?thesis by simp
  qed
  have "all_msgs sent (release r) = all_msgs sent r" by (auto simp: all_msgs_def release_def)
  moreover have "\<forall>m \<in> set sent \<union> set (r_msgs (release r)). claim d m"
    using disk_invD(9) [OF di] cl by (auto simp: release_def)
  moreover have "\<forall>g \<in> set (r_gated (release r)). gate_ok d q (release r) g"
    using disk_invD(8) [OF di] by (auto simp: gate_ok_def hs_def release_def)
  moreover have "hs (release r) = hs r" by (simp add: hs_def)
  ultimately show ?thesis
    using di by (simp add: disk_inv_def)
qed

lemma disk_inv_acked:
  assumes di: "disk_inv d q (pre @ m # acks) sent r" and mk: "marks_ok r"
  shows "disk_inv d q acks sent (acked m r)"
proof -
  let ?r = "acked m r"
  have m: "r_persisted r < m" "m \<le> r_lastHandedMark r" "\<forall>w \<in> set q. m < fst w"
    using disk_invD(3) [OF di] disk_invD(4) [OF di, of m] by (auto simp: sorted_wrt_append)
  have f: "hs ?r = hs r" "r_hardStateDirty ?r = r_hardStateDirty r" "r_persisted ?r = m"
    "r_lastHandedMark ?r = r_lastHandedMark r" "r_gated ?r = r_gated r" "r_msgs ?r = r_msgs r"
    by (simp_all add: acked_def hs_def)
  have hsm: "r_hsMark ?r = (if r_hsMark r \<noteq> 0 \<and> r_hsMark r \<le> m then 0 else r_hsMark r)"
    by (simp add: acked_def ack_hs_def)
  have dm: "r_dirtyMark ?r = r_dirtyMark r" if "r_hardStateDirty r"
    using marks_hs_dirty [OF mk that] m by (auto simp: acked_def close_mark_def ack_tail_def ack_hs_def)
  have am: "all_msgs sent ?r = all_msgs sent r" by (simp add: all_msgs_def f)
  have "gate_ok d q ?r g" if "g \<in> set (r_gated r)" for g
    using disk_invD(8) [OF di that] dm unfolding gate_ok_def f by auto
  moreover have "\<forall>w \<in> set q. snd w \<noteq> None \<longrightarrow> fst w \<le> r_hsMark ?r"
    using disk_invD(6) [OF di] m(3) unfolding hsm by fastforce
  moreover have "r_hsMark ?r \<le> r_lastHandedMark r" using disk_invD(7) [OF di] by (simp add: hsm)
  moreover have "sorted_wrt (<) (m # acks @ map fst q)"
    using disk_invD(3) [OF di] by (simp add: sorted_wrt_append)
  moreover have "\<forall>m \<in> set (acks @ map fst q). m \<le> r_lastHandedMark r"
    using disk_invD(4,5) [OF di] by auto
  ultimately show ?thesis
    unfolding disk_inv_def f am using disk_invD(1,2,9,10,11) [OF di] by blast
qed

lemma disk_inv_AckPersisted:
  assumes di: "disk_inv d q (pre @ m # acks) sent r" and inv: "node_inv r" and st: "AckPersisted m r = Some r'"
  shows "disk_inv d q acks sent r'"
proof -
  have m: "r_persisted r < m" "m \<le> r_lastHandedMark r"
    using disk_invD(3) [OF di] disk_invD(4) [OF di, of m] by (auto simp: sorted_wrt_append)
  have inv': "node_inv (acked m r)" using node_inv_acked [OF inv m] .
  have "marks_ok r" "marks_ok (acked m r)" using inv inv' by (simp_all add: node_inv_def)
  then have "disk_inv d q acks sent (release (acked m r))"
    using disk_inv_release disk_inv_acked [OF di] by blast
  then show ?thesis
    using disk_inv_reach [OF AckPersisted_acked [OF st m(1)] node_inv_release [OF inv']] by simp
qed

lemma disk_inv_AckSnapshot:
  assumes "disk_inv d q acks sent r" "node_inv r"
  shows "disk_inv d q acks sent (AckSnapshot m r)"
proof -
  have "disk_inv d q acks sent (r\<lparr>r_persistedSnap := m\<rparr>)" "disk_inv d q acks sent (r\<lparr>r_persistedSnap := m, r_snapMark := 0\<rparr>)"
    by (rule disk_inv_same [OF assms(1)]; simp add: hs_def)+
  moreover have "marks_ok (r\<lparr>r_persistedSnap := m\<rparr>)" "marks_ok (r\<lparr>r_persistedSnap := m, r_snapMark := 0\<rparr>)"
    using assms(2) by (simp_all add: node_inv_def marks_ok_def)
  ultimately show ?thesis
    using assms(1) disk_inv_release by (simp add: AckSnapshot_def Let_def)
qed

lemma disk_inv_Compact:
  assumes "disk_inv d q acks sent r" "node_inv r" "Compact i r = Some (res, r')"
  shows "disk_inv d q acks sent r'"
proof -
  have "struct_ok r" using assms(2) by (simp add: node_inv_def)
  from Compact_cases [OF this assms(3)] show ?thesis
    using assms(1) by (auto simp: hs_def intro!: disk_inv_same [OF assms(1)])
qed

end
