(* ===== verification/Raft_Machine.thy ===== *)
theory Raft_Machine
  imports Raft_Disk
begin

text \<open>
  A node, its disk and its driver as one machine, run through crashes and recoveries.
\<close>

section \<open>The machine\<close>

text \<open>
  \<open>mc_disk\<close> is the hard state a recovery would find, \<open>mc_queue\<close> the handovers whose write is in
  flight, \<open>mc_acks\<close> the marks that are durable and not yet acknowledged, \<open>mc_sent\<close> every message
  that ever left the node.  A crash keeps only the disk and what was sent.
\<close>

record machine =
  mc_node :: Raft
  mc_disk :: "nat \<times> NodeID"
  mc_queue :: "handover list"
  mc_acks :: "nat list"
  mc_sent :: "Message list"

datatype machine_event =
    Did node_event | Drains | WriteDone | Acks nat | Crashes Config SnapshotMeta "Entry list"

fun boot :: "Raft \<Rightarrow> machine" where
  "boot r = \<lparr>mc_node = r, mc_disk = (0, 0), mc_queue = [], mc_acks = [], mc_sent = []\<rparr>"

fun internal :: "node_event \<Rightarrow> bool" where
  "internal Drained = False"
| "internal (Persisted m) = False"
| "internal _ = True"

fun machine_step :: "machine_event \<Rightarrow> machine \<Rightarrow> machine option" where
  "machine_step (Did ev) M =
     (if internal ev \<and> driver_ok ev (mc_node M)
      then map_option (\<lambda>r. M\<lparr>mc_node := r\<rparr>) (node_step ev (mc_node M)) else None)"
| "machine_step Drains M =
     map_option (\<lambda>(rd, r). M\<lparr>mc_node := r, mc_queue := mc_queue M @ enqueue rd,
                             mc_sent := mc_sent M @ rd_Messages rd\<rparr>) (ready (mc_node M))"
| "machine_step WriteDone M =
     (case mc_queue M of [] \<Rightarrow> None
      | w # q \<Rightarrow> Some (M\<lparr>mc_disk := written (mc_disk M) w, mc_queue := q, mc_acks := mc_acks M @ [fst w]\<rparr>))"
| "machine_step (Acks k) M =
     (if k < length (mc_acks M)
      then map_option (\<lambda>r. M\<lparr>mc_node := r, mc_acks := drop (Suc k) (mc_acks M)\<rparr>)
             (AckPersisted (mc_acks M ! k) (mc_node M))
      else None)"
| "machine_step (Crashes cfg snap es) M =
     (case Restore cfg \<lparr>hs_Term = fst (mc_disk M), hs_Vote = snd (mc_disk M)\<rparr> snap es of
        Inl err \<Rightarrow> None
      | Inr r \<Rightarrow> Some (M\<lparr>mc_node := r, mc_queue := [], mc_acks := []\<rparr>))"

fun machine_run :: "machine_event list \<Rightarrow> machine \<Rightarrow> machine option" where
  "machine_run [] M = Some M"
| "machine_run (ev # evs) M = (case machine_step ev M of None \<Rightarrow> None | Some M' \<Rightarrow> machine_run evs M')"

definition machine_inv :: "machine \<Rightarrow> bool" where
  "machine_inv M \<longleftrightarrow> node_inv (mc_node M) \<and>
     disk_inv (mc_disk M) (mc_queue M) (mc_acks M) (mc_sent M) (mc_node M)"

section \<open>Its invariant\<close>

lemma disk_inv_start:
  assumes "\<not> r_hardStateDirty r" "r_persisted r = 0" "r_hsMark r = 0" "r_gated r = []" "r_msgs r = []"
    "\<forall>m \<in> set sent. claim (hs r) m" "agree (set sent)"
  shows "disk_inv (hs r) [] [] sent r"
  using assms by (simp add: disk_inv_def all_msgs_def flushed_def)

lemma machine_inv_boot:
  assumes "New cfg = Inr r"
  shows "machine_inv (boot r)"
proof -
  have "hs r = (0, 0)" using New_fresh [OF assms] by (simp add: hs_def)
  then have "disk_inv (0, 0) [] [] [] r"
    using disk_inv_start [of r "[]"] New_fresh [OF assms] by (simp add: agree_def)
  then show ?thesis using node_inv_New [OF assms] by (simp add: machine_inv_def)
qed

lemma Restore_fresh:
  assumes "Restore cfg h snap es = Inr r"
  shows "hs r = (hs_Term h, hs_Vote h)" "\<not> r_hardStateDirty r" "r_persisted r = 0" "r_hsMark r = 0"
    "r_gated r = []" "r_msgs r = []"
proof -
  obtain r0 where r0: "New cfg = Inr r0"
    using assms by (auto simp: Restore_def split: sum.splits)
  show "hs r = (hs_Term h, hs_Vote h)" "\<not> r_hardStateDirty r" "r_persisted r = 0" "r_hsMark r = 0"
    "r_gated r = []" "r_msgs r = []"
    using assms New_fresh [OF r0] by (auto simp: Restore_def r0 Let_def hs_def split: option.splits if_splits)
qed

lemma disk_inv_did:
  assumes "disk_inv d q acks sent r" "node_inv r" "internal ev" "driver_ok ev r" "node_step ev r = Some r'"
  shows "disk_inv d q acks sent r'"
proof (cases "entry_point ev")
  case True
  then show ?thesis using assms entry_point_reach disk_inv_reach by blast
next
  case False
  have "disk_inv d q acks sent (AckApplied i r)" for i
    by (rule disk_inv_same [OF assms(1)]) (simp_all add: AckApplied_def hs_def)
  with False show ?thesis
    using assms by (cases ev) (auto intro: disk_inv_AckSnapshot disk_inv_Compact)
qed

lemma machine_inv_step:
  assumes "machine_inv M" "machine_step ev M = Some M'"
  shows "machine_inv M'"
proof (cases ev)
  case (Did e)
  then show ?thesis
    using assms by (auto simp: machine_inv_def split: if_splits intro: node_inv_step disk_inv_did)
next
  case Drains
  then obtain rd r where "ready (mc_node M) = Some (rd, r)"
    "M' = M\<lparr>mc_node := r, mc_queue := mc_queue M @ enqueue rd, mc_sent := mc_sent M @ rd_Messages rd\<rparr>"
    using assms(2) by auto
  then show ?thesis
    using assms(1) disk_inv_ready [of "mc_disk M" "mc_queue M" "mc_acks M" "mc_sent M" "mc_node M" rd r]
      node_inv_step [of "mc_node M" Drained r] by (simp add: machine_inv_def)
next
  case WriteDone
  then obtain w q where q: "mc_queue M = w # q"
    "M' = M\<lparr>mc_disk := written (mc_disk M) w, mc_queue := q, mc_acks := mc_acks M @ [fst w]\<rparr>"
    using assms(2) by (auto split: list.splits)
  have "disk_inv (mc_disk M) (w # q) (mc_acks M) (mc_sent M) (mc_node M)" "node_inv (mc_node M)"
    using assms(1) by (simp_all add: machine_inv_def q(1))
  then show ?thesis
    using disk_inv_write by (simp add: machine_inv_def q(2))
next
  case (Acks k)
  then obtain r where k: "k < length (mc_acks M)" "AckPersisted (mc_acks M ! k) (mc_node M) = Some r"
    "M' = M\<lparr>mc_node := r, mc_acks := drop (Suc k) (mc_acks M)\<rparr>"
    using assms(2) by (auto split: if_splits)
  then have di: "disk_inv (mc_disk M) (mc_queue M) (take k (mc_acks M) @ mc_acks M ! k # drop (Suc k) (mc_acks M))
      (mc_sent M) (mc_node M)" and inv: "node_inv (mc_node M)"
    using assms(1) by (simp_all add: machine_inv_def id_take_nth_drop [symmetric])
  have "mc_acks M ! k \<le> r_lastHandedMark (mc_node M)" by (rule disk_invD(4) [OF di]) simp
  then show ?thesis
    using disk_inv_AckPersisted [OF di inv k(2)] node_inv_AckPersisted [OF inv k(2)]
    by (simp add: machine_inv_def k(3))
next
  case (Crashes cfg snap es)
  then obtain r where r: "Restore cfg \<lparr>hs_Term = fst (mc_disk M), hs_Vote = snd (mc_disk M)\<rparr> snap es = Inr r"
    "M' = M\<lparr>mc_node := r, mc_queue := [], mc_acks := []\<rparr>"
    using assms(2) by (auto split: sum.splits)
  have h: "hs r = mc_disk M" using Restore_fresh(1) [OF r(1)] by simp
  have di: "disk_inv (mc_disk M) (mc_queue M) (mc_acks M) (mc_sent M) (mc_node M)"
    using assms(1) by (simp add: machine_inv_def)
  have "agree (set (mc_sent M))"
    by (rule agree_subset [OF disk_invD(11) [OF di]]) (auto simp: all_msgs_def)
  then have "disk_inv (hs r) [] [] (mc_sent M) r"
    using disk_invD(9) [OF di] Restore_fresh(2-6) [OF r(1)] by (intro disk_inv_start) (auto simp: h)
  then show ?thesis using node_inv_Restore [OF r(1)] by (simp add: machine_inv_def r(2) h)
qed

lemma machine_inv_run: "machine_inv M \<Longrightarrow> machine_run evs M = Some M' \<Longrightarrow> machine_inv M'"
  by (induction evs arbitrary: M) (auto split: option.splits intro: machine_inv_step)

section \<open>What leaves the node is on its disk\<close>

text \<open>C1: Persist before reply.  Through any sequence of events, drains, completed writes,
  acknowledgements, crashes and recoveries, every message that has left the node (pre-vote
  traffic and the transfer nudge apart, which reveal nothing durable) carries a term that the
  disk has reached, and a vote or a candidacy it announces in the disk's term is the vote on
  disk.\<close>

theorem persist_before_reply:
  assumes "New cfg = Inr r" "machine_run evs (boot r) = Some M" "m \<in> set (mc_sent M)"
    "m_Type m \<notin> {MsgPreVote, MsgPreVoteResp, MsgTimeoutNow}"
  shows "m_Term m \<le> fst (mc_disk M) \<and>
    (m_Term m = fst (mc_disk M) \<longrightarrow> (\<forall>c. backs m = Some c \<and> c \<noteq> 0 \<longrightarrow> snd (mc_disk M) = c))"
proof -
  have "machine_inv M" by (rule machine_inv_run [OF machine_inv_boot [OF assms(1)] assms(2)])
  then have "claim (mc_disk M) m"
    using disk_invD(9) [of "mc_disk M"] assms(3) by (auto simp: machine_inv_def)
  then show ?thesis using assms(4) by (auto simp: claim_def ungated_type_def)
qed

text \<open>
  A group of three voters.  Node 1 campaigns, its hard state is written and acknowledged, its
  requests for votes leave, it crashes and recovers.
\<close>

definition trio_cfg :: Config where
  "trio_cfg = \<lparr>cfg_ID = 1, cfg_Peers = [1, 2, 3], cfg_ElectionTimeout = 10, cfg_HeartbeatTimeout = 2,
     cfg_Learners = [], cfg_PromotionLag = 0, cfg_PreVote = False\<rparr>"

definition trio_node :: Raft where
  "trio_node = (case New trio_cfg of Inr r \<Rightarrow> r)"

lemma trio_new: "New trio_cfg = Inr trio_node"
  by (simp add: trio_node_def New_def trio_cfg_def split_members_def insertID_def Members_def sortIDs_sort Let_def)

lemmas trio_node_eq = trio_node_def [unfolded New_def trio_cfg_def split_members_def insertID_def
    Members_def sortIDs_sort Let_def, simplified]

definition trio_events :: "machine_event list" where
  "trio_events = [Did Campaigned, Drains, WriteDone, Acks 0, Drains,
     Crashes trio_cfg \<lparr>sm_Index = 0, sm_Term = 0, sm_Conf = \<lparr>Voters = [], Learners = []\<rparr>\<rparr> []]"

definition ask_vote :: "NodeID \<Rightarrow> Message" where
  "ask_vote n = new_msg MsgVote 1 n 1"

lemma trio_run:
  "\<exists>M. machine_run trio_events (boot trio_node) = Some M \<and> mc_disk M = (1, 1) \<and> mc_sent M = [ask_vote 2, ask_vote 3]"
  by (simp add: trio_events_def trio_cfg_def trio_node_eq raft_eval enqueue_def written_def Restore_def ask_vote_def)

theorem persist_before_reply_witness:
  "\<exists>M. machine_run trio_events (boot trio_node) = Some M \<and> ask_vote 2 \<in> set (mc_sent M) \<and>
     m_Term (ask_vote 2) \<le> fst (mc_disk M) \<and> backs (ask_vote 2) = Some 1 \<and> snd (mc_disk M) = 1"
proof -
  obtain M where M: "machine_run trio_events (boot trio_node) = Some M" "mc_disk M = (1, 1)"
    "mc_sent M = [ask_vote 2, ask_vote 3]"
    using trio_run by blast
  have a: "ask_vote 2 \<in> set (mc_sent M)" using M(3) by simp
  have b: "backs (ask_vote 2) = Some 1" "m_Type (ask_vote 2) \<notin> {MsgPreVote, MsgPreVoteResp, MsgTimeoutNow}"
    by (simp_all add: ask_vote_def backs_def)
  from persist_before_reply [OF trio_new M(1) a b(2)] show ?thesis
    using M a b(1) by (auto simp: ask_vote_def)
qed

text \<open>C2: One vote per term, across crashes.  No two messages that leave a node in the course of
  its life, whatever it forgets when it crashes in between, back different candidates in the same
  term.\<close>

theorem one_vote_per_term:
  assumes "New cfg = Inr r" "machine_run evs (boot r) = Some M"
    "m \<in> set (mc_sent M)" "m' \<in> set (mc_sent M)" "m_Term m = m_Term m'"
    "backs m = Some c" "backs m' = Some c'" "c \<noteq> 0" "c' \<noteq> 0"
  shows "c = c'"
proof -
  have "machine_inv M" by (rule machine_inv_run [OF machine_inv_boot [OF assms(1)] assms(2)])
  then have "agree (all_msgs (mc_sent M) (mc_node M))"
    unfolding machine_inv_def by (blast dest: disk_invD(11))
  then show ?thesis
    using assms(3-9) unfolding agree_def all_msgs_def by blast
qed

theorem one_vote_per_term_witness:
  "\<exists>M. machine_run trio_events (boot trio_node) = Some M \<and> mc_sent M = [ask_vote 2, ask_vote 3] \<and>
     (\<exists>c. backs (ask_vote 2) = Some c \<and> backs (ask_vote 3) = Some c)"
proof -
  obtain M where M: "machine_run trio_events (boot trio_node) = Some M" "mc_sent M = [ask_vote 2, ask_vote 3]"
    using trio_run by blast
  obtain c c' where c: "backs (ask_vote 2) = Some c" "backs (ask_vote 3) = Some c'" "c \<noteq> 0" "c' \<noteq> 0"
    by (simp add: ask_vote_def backs_def)
  have "c = c'"
    by (rule one_vote_per_term [OF trio_new M(1), of "ask_vote 2" "ask_vote 3"])
      (use c in \<open>simp_all add: M(2) ask_vote_def\<close>)
  with M c show ?thesis by blast
qed

end
