(* ===== verification/Wire.thy ===== *)
theory Wire
  imports Rift_Prelude
begin

text \<open>
  The primitive wire formats of \<^verbatim>\<open>store/codec.go\<close>: fixed-width unsigned integers and
  length-prefixed byte strings, each an appending encoder and a decoder that hands back the
  unread rest.  The contract every format of the system satisfies is the locale
  \<open>wire_format\<close>: decoding what was encoded, with anything behind it, gives the value and that
  rest back.  From it follow injectivity, prefix-freeness and the law for repeated elements.
\<close>

section \<open>Primitive formats\<close>

definition putU64 :: "bytes \<Rightarrow> u64 \<Rightarrow> bytes" where
  "putU64 b v = b @ be_bytes 8 v"

definition takeU64 :: "bytes \<Rightarrow> (u64 \<times> bytes) option" where
  "takeU64 b = (if length b < 8 then None else Some (be_val (take 8 b), drop 8 b))"

definition appendU32 :: "bytes \<Rightarrow> u32 \<Rightarrow> bytes" where
  "appendU32 b v = b @ be_bytes 4 v"

definition putBytes :: "bytes \<Rightarrow> bytes \<Rightarrow> bytes" where
  "putBytes b v = appendU32 b (of_nat (length v)) @ v"

definition takeBytes :: "bytes \<Rightarrow> (bytes \<times> bytes) option" where
  "takeBytes b =
     (if length b < 4 then None
      else (let n = unat (be_val (take 4 b) :: u32); b' = drop 4 b
            in if length b' < n then None else Some (take n b', drop n b')))"

text \<open>
  A counted sequence: the decoding loops \<^verbatim>\<open>for range n { x, b, ok = take(b) ... }\<close> of
  \<^verbatim>\<open>decodeMessage\<close> and \<^verbatim>\<open>decodeMachine\<close>.
\<close>

fun take_many :: "(bytes \<Rightarrow> ('a \<times> bytes) option) \<Rightarrow> nat \<Rightarrow> bytes \<Rightarrow> ('a list \<times> bytes) option" where
  "take_many tk 0 b = Some ([], b)"
| "take_many tk (Suc n) b =
     (case tk b of None \<Rightarrow> None
      | Some (x, b') \<Rightarrow>
          (case take_many tk n b' of None \<Rightarrow> None | Some (xs, r) \<Rightarrow> Some (x # xs, r)))"

section \<open>The contract of a format\<close>

locale wire_format =
  fixes put :: "'a \<Rightarrow> bytes"
    and tk :: "bytes \<Rightarrow> ('a \<times> bytes) option"
    and ok :: "'a \<Rightarrow> bool"
  assumes tk_put: "ok x \<Longrightarrow> tk (put x @ rest) = Some (x, rest)"
begin

lemma prefix_free: "ok x \<Longrightarrow> ok y \<Longrightarrow> put x @ r = put y @ s \<Longrightarrow> x = y \<and> r = s"
  by (metis option.inject prod.inject tk_put)

lemma put_inject: "ok x \<Longrightarrow> ok y \<Longrightarrow> put x = put y \<longleftrightarrow> x = y"
  by (metis append_Nil2 prefix_free)

lemma tk_put_whole: "ok x \<Longrightarrow> tk (put x) = Some (x, [])"
  using tk_put [of x "[]"] by simp

lemma take_many_put:
  "list_all ok xs \<Longrightarrow> take_many tk (length xs) (concat (map put xs) @ rest) = Some (xs, rest)"
  by (induction xs) (simp_all add: tk_put)

end

section \<open>The primitive formats satisfy it\<close>

lemma takeU64_putU64 [rift_codec]: "takeU64 (be_bytes 8 v @ rest) = Some (v, rest)"
  by (simp add: takeU64_def be_val_be_bytes)

lemma takeBytes_putBytes [rift_codec]:
  assumes "length v < 2 ^ 32"
  shows "takeBytes (be_bytes 4 (of_nat (length v) :: u32) @ v @ rest) = Some (v, rest)"
  using assms by (simp add: takeBytes_def be_val_be_bytes unsigned_of_nat take_bit_nat_eq_self)

interpretation u64_wire: wire_format "putU64 []" takeU64 "\<lambda>_. True"
  by unfold_locales (simp add: putU64_def rift_codec)

interpretation bytes_wire: wire_format "putBytes []" takeBytes "\<lambda>v. length v < 2 ^ 32"
  by unfold_locales (simp add: putBytes_def appendU32_def rift_codec)

lemma takeU64_Some_length: "takeU64 b = Some (v, r) \<Longrightarrow> length b = 8 + length r"
  by (auto simp: takeU64_def split: if_splits)

lemma takeBytes_Some_length:
  assumes "takeBytes b = Some (v, r)"
  shows "length b = 4 + length v + length r"
proof -
  define n where "n = unat (be_val (take 4 b) :: u32)"
  have "4 \<le> length b" "n \<le> length b - 4" "v = take n (drop 4 b)" "r = drop n (drop 4 b)"
    using assms by (simp_all add: takeBytes_def Let_def n_def split: if_splits)
  then show ?thesis by simp
qed

end
