(* ===== verification/Hlc.thy ===== *)
theory Hlc
  imports Rift_Prelude
begin

text \<open>
  The hybrid logical clock, \<^verbatim>\<open>hlc/hlc.go\<close>, and the readings of \<^verbatim>\<open>clock/clock.go\<close> it
  wraps.  A wall reading is a signed 64-bit number of nanoseconds and the logical counter an
  unsigned 32-bit number whose low eight bits are the ordinal of the minting node; both are
  kept at their width, so wrap-around is in the model.  The physical clock is an interface of
  the source: what it reads is an argument of the operations that read it.
\<close>

section \<open>Timestamps\<close>

type_synonym wall = u64
type_synonym duration = u64

datatype timestamp = Timestamp (Wall: wall) (Logical: u32)

definition Wall_Sub :: "wall \<Rightarrow> wall \<Rightarrow> duration" where
  "Wall_Sub t u = t - u"

definition Wall_Add :: "wall \<Rightarrow> duration \<Rightarrow> wall" where
  "Wall_Add t d = t + d"

definition Wall_IsSet :: "wall \<Rightarrow> bool" where
  "Wall_IsSet t \<longleftrightarrow> t \<noteq> 0"

definition zeroTS :: timestamp where
  "zeroTS = Timestamp 0 0"

definition IsSet :: "timestamp \<Rightarrow> bool" where
  "IsSet t \<longleftrightarrow> Wall_IsSet (Wall t) \<or> Logical t \<noteq> 0"

definition Less :: "timestamp \<Rightarrow> timestamp \<Rightarrow> bool" where
  "Less t u =
     (if Wall t \<noteq> Wall u then sint (Wall t) < sint (Wall u) else Logical t < Logical u)"

definition LessEq :: "timestamp \<Rightarrow> timestamp \<Rightarrow> bool" where
  "LessEq t u \<longleftrightarrow> \<not> Less u t"

definition Next :: "timestamp \<Rightarrow> timestamp" where
  "Next t =
     (if Logical t = NOT 0 then Timestamp (Wall t + 1) 0
      else Timestamp (Wall t) (Logical t + 1))"

definition Max :: "timestamp \<Rightarrow> timestamp \<Rightarrow> timestamp" where
  "Max a b = (if Less a b then b else a)"

text \<open>The source's order makes timestamps a linear order, so the library's order lemmas apply.\<close>

instantiation timestamp :: linorder
begin

definition less_timestamp :: "timestamp \<Rightarrow> timestamp \<Rightarrow> bool" where
  "less_timestamp t u \<longleftrightarrow> Less t u"

definition less_eq_timestamp :: "timestamp \<Rightarrow> timestamp \<Rightarrow> bool" where
  "less_eq_timestamp t u \<longleftrightarrow> LessEq t u"

instance
proof
  fix x y z :: timestamp
  show "(x < y) = (x \<le> y \<and> \<not> y \<le> x)"
    by (cases x; cases y)
      (auto simp: less_timestamp_def less_eq_timestamp_def LessEq_def Less_def)
  show "x \<le> x"
    by (simp add: less_eq_timestamp_def LessEq_def Less_def)
  show "x \<le> z" if "x \<le> y" "y \<le> z"
    using that by (cases x; cases y; cases z)
      (auto simp: less_eq_timestamp_def LessEq_def Less_def dest: signed_word_eqI split: if_splits)
  show "x = y" if "x \<le> y" "y \<le> x"
    using that by (cases x; cases y)
      (auto simp: less_eq_timestamp_def LessEq_def Less_def dest: signed_word_eqI split: if_splits)
  show "x \<le> y \<or> y \<le> x"
    by (cases x; cases y)
      (auto simp: less_eq_timestamp_def LessEq_def Less_def split: if_splits)
qed

end

lemma Less_iff [simp]: "Less t u \<longleftrightarrow> t < u"
  by (simp add: less_timestamp_def)

lemma LessEq_iff [simp]: "LessEq t u \<longleftrightarrow> t \<le> u"
  by (simp add: less_eq_timestamp_def)

lemma Max_eq_max: "Max a b = max a b"
  by (auto simp: Max_def max_def)

lemma less_timestamp_iff:
  "t < u \<longleftrightarrow> sint (Wall t) < sint (Wall u) \<or> Wall t = Wall u \<and> Logical t < Logical u"
  unfolding less_timestamp_def Less_def by auto

lemma less_eq_timestamp_iff:
  "t \<le> u \<longleftrightarrow> sint (Wall t) < sint (Wall u) \<or> Wall t = Wall u \<and> Logical t \<le> Logical u"
  unfolding le_less less_timestamp_iff by (auto simp: timestamp.expand)

section \<open>The clock\<close>

definition IDBits :: nat where
  "IDBits = 8"

definition MaxNodeID :: u32 where
  "MaxNodeID = 255"

definition logicalStep :: u32 where
  "logicalStep = push_bit IDBits 1"

definition logicalMask :: u32 where
  "logicalMask = logicalStep - 1"

definition nextTagged :: "timestamp \<Rightarrow> u32 \<Rightarrow> timestamp" where
  "nextTagged after node =
     (let base = Logical after AND NOT logicalMask; cand = base OR node
      in if Logical after < cand then Timestamp (Wall after) cand
         else Timestamp (Wall after) (base + logicalStep + node))"

definition NodeOf :: "timestamp \<Rightarrow> u32" where
  "NodeOf t = Logical t AND logicalMask"

record Clock =
  c_last :: timestamp
  c_id :: u32
  updatesRefused :: nat
  physRegressions :: nat

datatype hlc_error = ErrNoPhysicalClock | ErrOrdinalTooLarge u32 | ErrUnsetSeed | ErrBeyondEnvelope

definition hlc_New :: "'c option \<Rightarrow> u32 \<Rightarrow> hlc_error + Clock" where
  "hlc_New phys node =
     (case phys of
        None \<Rightarrow> Inl ErrNoPhysicalClock
      | Some _ \<Rightarrow>
          if MaxNodeID < node then Inl (ErrOrdinalTooLarge node)
          else Inr \<lparr>c_last = zeroTS, c_id = node, updatesRefused = 0, physRegressions = 0\<rparr>)"

definition hlc_NewAt :: "'c option \<Rightarrow> u32 \<Rightarrow> timestamp \<Rightarrow> hlc_error + Clock" where
  "hlc_NewAt phys node seed =
     (case hlc_New phys node of
        Inl e \<Rightarrow> Inl e
      | Inr c \<Rightarrow>
          if \<not> IsSet seed then Inl ErrUnsetSeed
          else Inr (c\<lparr>c_last := nextTagged seed (c_id c)\<rparr>))"

definition clk_Now :: "wall \<Rightarrow> Clock \<Rightarrow> timestamp \<times> Clock" where
  "clk_Now phys c =
     (if sint (Wall (c_last c)) < sint phys
      then (let t = Timestamp phys (c_id c) in (t, c\<lparr>c_last := t\<rparr>))
      else (let t = nextTagged (c_last c) (c_id c)
            in (t, c\<lparr>c_last := t, physRegressions := physRegressions c + 1\<rparr>)))"

definition clk_Update :: "wall \<Rightarrow> duration \<Rightarrow> timestamp \<Rightarrow> Clock \<Rightarrow> hlc_error option \<times> Clock" where
  "clk_Update phys maxOffset m c =
     (if sint maxOffset < sint (Wall_Sub (Wall m) phys)
      then (Some ErrBeyondEnvelope, c\<lparr>updatesRefused := updatesRefused c + 1\<rparr>)
      else (let lb = Max (c_last c) m
            in if sint (Wall lb) < sint phys
               then (None, c\<lparr>c_last := Timestamp phys (c_id c)\<rparr>)
               else (None, c\<lparr>c_last := nextTagged lb (c_id c)\<rparr>)))"

section \<open>The tag arithmetic\<close>

lemma logicalMask_eq: "logicalMask = mask 8"
  by (simp add: logicalMask_def logicalStep_def IDBits_def mask_eq_exp_minus_1)

lemma logicalStep_eq: "logicalStep = 256"
  by (simp add: logicalStep_def IDBits_def)

lemma base_eq: "(w :: u32) AND NOT logicalMask = push_bit 8 (drop_bit 8 w)"
  unfolding logicalMask_eq by (rule bit_word_eqI) (auto simp: bit_simps)

lemma unat_base: "unat ((w :: u32) AND NOT logicalMask) = 256 * (unat w div 256)"
proof -
  have "unat w < 2 ^ 32"
    using unsigned_less [of w, where ?'a = nat] by simp
  then have less: "256 * (unat w div 256) < 2 ^ 32"
    by (meson le_less_trans times_div_less_eq_dividend)
  have "unat (push_bit 8 (drop_bit 8 w)) = take_bit 32 (push_bit 8 (drop_bit 8 (unat w)))"
    by (simp only: unsigned_push_bit_eq unat_drop_bit_eq) simp
  also have "\<dots> = take_bit 32 (256 * (unat w div 256))"
    by (simp only: drop_bit_eq_div push_bit_eq_mult) (simp add: mult.commute)
  also have "\<dots> = 256 * (unat w div 256)"
    using less by (simp only: take_bit_nat_eq_self)
  finally show ?thesis by (simp only: base_eq)
qed

lemma take_bit_node:
  assumes "node \<le> (255 :: u32)"
  shows "take_bit 8 node = node"
proof (rule unsigned_word_eqI [where ?'a = nat])
  have "unat node < 256"
    using assms by (simp add: word_le_nat_alt)
  then show "unat (take_bit 8 node) = unat node"
    by (simp add: unsigned_take_bit_eq take_bit_nat_eq_self)
qed

lemma base_or_eq_add:
  assumes "node \<le> (255 :: u32)"
  shows "(w AND NOT logicalMask) OR node = (w AND NOT logicalMask) + node"
proof (rule disjunctive_add_eq_or [symmetric])
  have "\<not> bit node n" if "8 \<le> n" for n
    using that take_bit_node [OF assms] by (metis bit_take_bit_iff not_le)
  then show "(w AND NOT logicalMask) AND node = 0"
    unfolding logicalMask_eq by (intro bit_word_eqI) (auto simp: bit_simps not_less)
qed

lemma NodeOf_eq_mod: "unat (NodeOf t) = unat (Logical t) mod 256"
proof -
  have "NodeOf t = take_bit 8 (Logical t)"
    by (simp only: NodeOf_def logicalMask_eq take_bit_eq_mask)
  then have "unat (NodeOf t) = take_bit 8 (unat (Logical t))"
    by (simp only: unsigned_take_bit_eq)
  then show ?thesis by (simp add: take_bit_eq_mod)
qed

text \<open>The counter that \<^const>\<open>nextTagged\<close> produces, as a natural number with its wrap-around.\<close>

lemma unat_Logical_nextTagged:
  fixes t :: timestamp
  assumes "node \<le> 255"
  defines "q \<equiv> unat (Logical t) div 256" and "r \<equiv> unat (Logical t) mod 256"
  shows "unat (Logical (nextTagged t node)) =
           (if r < unat node then 256 * q + unat node
            else (256 * q + 256 + unat node) mod 2 ^ 32)"
proof -
  let ?base = "Logical t AND NOT logicalMask"
  have n: "unat node \<le> 255"
    using assms(1) by (simp add: word_le_nat_alt)
  have "unat (Logical t) < 2 ^ 32"
    using unsigned_less [of "Logical t", where ?'a = nat] by simp
  then have q: "q < 2 ^ 24"
    unfolding q_def by (intro less_mult_imp_div_less) simp
  have L: "unat (Logical t) = 256 * q + r"
    unfolding q_def r_def by simp
  have base: "unat ?base = 256 * q"
    by (simp only: unat_base q_def)
  have "256 * q + unat node < 2 ^ LENGTH(32)"
    using q n by simp
  then have cand: "unat (?base OR node) = 256 * q + unat node"
    unfolding base_or_eq_add [OF assms(1)] unat_word_ariths base by (rule mod_less)
  have lt: "Logical t < ?base OR node \<longleftrightarrow> r < unat node"
    unfolding word_less_nat_alt cand L by simp
  have stp: "unat (?base + logicalStep + node) = (256 * q + 256 + unat node) mod 2 ^ 32"
    unfolding unat_word_ariths base logicalStep_eq by (simp add: mod_simps)
  show ?thesis
    using lt cand stp by (simp add: nextTagged_def Let_def)
qed

lemma Wall_nextTagged [simp]: "Wall (nextTagged t node) = Wall t"
  by (simp add: nextTagged_def Let_def)

lemma NodeOf_nextTagged:
  assumes "node \<le> 255"
  shows "NodeOf (nextTagged t node) = node"
proof (rule unsigned_word_eqI [where ?'a = nat])
  have n: "unat node < 256"
    using assms by (simp add: word_le_nat_alt)
  have m: "(256 * q + 256 + k) mod 2 ^ 32 mod 256 = k mod 256" for q k :: nat
  proof -
    have "(256 * q + 256 + k) mod 2 ^ 32 mod 256 = (256 * q + 256 + k) mod 256"
      by (rule mod_mod_cancel) simp
    also have "\<dots> = (k + 256 * (q + 1)) mod 256" by (simp add: algebra_simps)
    also have "\<dots> = k mod 256" by (rule mod_mult_self2)
    finally show ?thesis .
  qed
  have "unat (NodeOf (nextTagged t node)) = unat node mod 256"
    unfolding NodeOf_eq_mod unat_Logical_nextTagged [OF assms] by (simp only: m split: if_split) simp
  with n show "unat (NodeOf (nextTagged t node)) = unat node"
    by simp
qed

text \<open>Below the topmost slot the tagged successor is strictly later.\<close>

lemma nextTagged_greater:
  assumes "node \<le> 255" and "unat (Logical t) < 2 ^ 32 - 256"
  shows "t < nextTagged t node"
proof -
  define q r where "q = unat (Logical t) div 256" and "r = unat (Logical t) mod 256"
  have L: "unat (Logical t) = 256 * q + r" and r: "r < 256"
    unfolding q_def r_def by simp_all
  have n: "unat node \<le> 255"
    using assms(1) by (simp add: word_le_nat_alt)
  have "q < 2 ^ 24 - 1"
    unfolding q_def using assms(2) by (intro less_mult_imp_div_less) simp
  then have "(256 * q + 256 + unat node) mod 2 ^ 32 = 256 * q + 256 + unat node"
    using n by (intro mod_less) simp
  then have "unat (Logical t) < unat (Logical (nextTagged t node))"
    using r unat_Logical_nextTagged [OF assms(1), of t] unfolding q_def [symmetric] r_def [symmetric]
    by (simp only: L split: if_splits) simp_all
  then show ?thesis
    by (simp add: less_timestamp_iff word_less_nat_alt)
qed

text \<open>It is the least timestamp of that node at that wall reading which is later.\<close>

lemma nextTagged_least:
  assumes "node \<le> 255" and "t < u" and "Wall u = Wall t" and "NodeOf u = node"
  shows "nextTagged t node \<le> u"
proof -
  define q r where "q = unat (Logical t) div 256" and "r = unat (Logical t) mod 256"
  define k where "k = unat (Logical u) div 256"
  have L: "unat (Logical t) = 256 * q + r"
    unfolding q_def r_def by simp
  have "unat (Logical u) mod 256 = unat node"
    using NodeOf_eq_mod [of u] assms(4) by simp
  then have U: "unat (Logical u) = 256 * k + unat node"
    unfolding k_def by (metis mult_div_mod_eq)
  have "unat (Logical t) < unat (Logical u)"
    using assms(2,3) by (simp add: less_timestamp_iff word_less_nat_alt)
  moreover have "unat node < 256"
    using assms(1) by (simp add: word_le_nat_alt)
  ultimately have less: "256 * q + r < 256 * k + unat node" and "unat node < 256"
    by (simp_all only: L U)
  have "unat (Logical (nextTagged t node)) \<le> 256 * k + unat node"
  proof (cases "r < unat node")
    case True
    then have "unat (Logical (nextTagged t node)) = 256 * q + unat node"
      using unat_Logical_nextTagged [OF assms(1), of t] unfolding q_def r_def by simp
    moreover have "q \<le> k"
      using less \<open>unat node < 256\<close> by linarith
    ultimately show ?thesis by simp
  next
    case False
    then have "q < k"
      using less by linarith
    have "unat (Logical (nextTagged t node)) = (256 * q + 256 + unat node) mod 2 ^ 32"
      using False unat_Logical_nextTagged [OF assms(1), of t] unfolding q_def r_def by simp
    also have "\<dots> \<le> 256 * q + 256 + unat node" by (rule mod_less_eq_dividend)
    also have "\<dots> \<le> 256 * k + unat node"
      using \<open>q < k\<close> by linarith
    finally show ?thesis .
  qed
  then have "Logical (nextTagged t node) \<le> Logical u"
    by (simp only: word_le_nat_alt U)
  then show ?thesis
    unfolding not_less [symmetric] less_timestamp_iff using assms(3) by auto
qed

section \<open>What a timestamp source promises\<close>

text \<open>
  \<^verbatim>\<open>hlc.Source\<close> as a contract: what it mints is later than everything it minted or folded in
  before, as long as the counter of the timestamp it starts from has room.  A run of a source
  is a sequence of mints and folds at given readings of its environment.
\<close>

datatype 'r src_op = Mint 'r | Fold 'r timestamp

fun src_run :: "('r \<Rightarrow> 'c \<Rightarrow> timestamp \<times> 'c) \<Rightarrow> ('r \<Rightarrow> timestamp \<Rightarrow> 'c \<Rightarrow> bool \<times> 'c)
    \<Rightarrow> 'r src_op list \<Rightarrow> 'c \<Rightarrow> timestamp list \<times> 'c" where
  "src_run now upd [] c = ([], c)"
| "src_run now upd (Mint r # ops) c =
     (case now r c of (t, c') \<Rightarrow> (case src_run now upd ops c' of (ts, c'') \<Rightarrow> (t # ts, c'')))"
| "src_run now upd (Fold r m # ops) c = src_run now upd ops (snd (upd r m c))"

text \<open>Every counter value a run starts a mint or a fold from has room.\<close>

fun src_roomy :: "('r \<Rightarrow> 'c \<Rightarrow> timestamp \<times> 'c) \<Rightarrow> ('r \<Rightarrow> timestamp \<Rightarrow> 'c \<Rightarrow> bool \<times> 'c)
    \<Rightarrow> ('c \<Rightarrow> timestamp) \<Rightarrow> (timestamp \<Rightarrow> bool) \<Rightarrow> 'r src_op list \<Rightarrow> 'c \<Rightarrow> bool" where
  "src_roomy now upd latest room [] c = True"
| "src_roomy now upd latest room (Mint r # ops) c =
     (room (latest c) \<and> src_roomy now upd latest room ops (snd (now r c)))"
| "src_roomy now upd latest room (Fold r m # ops) c =
     (room (max (latest c) m) \<and> src_roomy now upd latest room ops (snd (upd r m c)))"

locale timestamp_source =
  fixes now :: "'r \<Rightarrow> 'c \<Rightarrow> timestamp \<times> 'c"
    and upd :: "'r \<Rightarrow> timestamp \<Rightarrow> 'c \<Rightarrow> bool \<times> 'c"
    and latest :: "'c \<Rightarrow> timestamp"
    and room :: "timestamp \<Rightarrow> bool"
    and inv :: "'c \<Rightarrow> bool"
  assumes now_inv: "inv c \<Longrightarrow> inv (snd (now r c))"
    and upd_inv: "inv c \<Longrightarrow> inv (snd (upd r m c))"
    and now_latest: "latest (snd (now r c)) = fst (now r c)"
    and now_after: "inv c \<Longrightarrow> room (latest c) \<Longrightarrow> latest c < fst (now r c)"
    and upd_refused: "\<not> fst (upd r m c) \<Longrightarrow> latest (snd (upd r m c)) = latest c"
    and upd_after: "inv c \<Longrightarrow> room (max (latest c) m) \<Longrightarrow> fst (upd r m c) \<Longrightarrow>
                      max (latest c) m < latest (snd (upd r m c))"
begin

lemma upd_mono: "inv c \<Longrightarrow> room (max (latest c) m) \<Longrightarrow> latest c \<le> latest (snd (upd r m c))"
  using upd_after [of c m r] upd_refused [of r m c] by (cases "fst (upd r m c)") auto

lemma run_increasing:
  assumes "inv c" and "src_roomy now upd latest room ops c"
  shows "sorted_wrt (<) (latest c # fst (src_run now upd ops c))
         \<and> latest c \<le> latest (snd (src_run now upd ops c))"
  using assms
proof (induction ops arbitrary: c)
  case Nil
  then show ?case by simp
next
  case (Cons x ops)
  show ?case
  proof (cases x)
    case (Mint r)
    obtain t c' where now: "now r c = (t, c')" by fastforce
    have c': "inv c'" "latest c' = t" "latest c < t"
      using Cons.prems Mint now now_inv [of c r] now_latest [of r c] now_after [of c r] by auto
    have "sorted_wrt (<) (t # fst (src_run now upd ops c'))
          \<and> t \<le> latest (snd (src_run now upd ops c'))"
      using Cons.IH [of c'] Cons.prems Mint now c' by simp
    with c' Mint now show ?thesis
      by (auto split: prod.splits intro: less_trans)
  next
    case (Fold r m)
    let ?c = "snd (upd r m c)"
    have "inv ?c" "latest c \<le> latest ?c" "src_roomy now upd latest room ops ?c"
      using Cons.prems Fold upd_inv upd_mono by auto
    with Cons.IH [of ?c] Fold show ?thesis by auto
  qed
qed

end

section \<open>The clock is such a source\<close>

definition clock_ok :: "Clock \<Rightarrow> bool" where
  "clock_ok c \<longleftrightarrow> c_id c \<le> MaxNodeID"

definition has_room :: "timestamp \<Rightarrow> bool" where
  "has_room t \<longleftrightarrow> unat (Logical t) < 2 ^ 32 - 256"

text \<open>The clock's operations over one reading of its environment: a wall reading and the bound.\<close>

definition hlc_now :: "wall \<times> duration \<Rightarrow> Clock \<Rightarrow> timestamp \<times> Clock" where
  "hlc_now r = clk_Now (fst r)"

definition hlc_upd :: "wall \<times> duration \<Rightarrow> timestamp \<Rightarrow> Clock \<Rightarrow> bool \<times> Clock" where
  "hlc_upd r m c = (case clk_Update (fst r) (snd r) m c of (e, c') \<Rightarrow> (e = None, c'))"

lemma NodeOf_fresh: "c_id c \<le> 255 \<Longrightarrow> NodeOf (Timestamp w (c_id c)) = c_id c"
  by (simp add: NodeOf_def logicalMask_eq take_bit_node flip: take_bit_eq_mask)

lemma clk_Now_spec:
  assumes "clock_ok c" and "clk_Now phys c = (t, c')"
  shows "c_last c' = t" and "c_id c' = c_id c" and "NodeOf t = c_id c"
    and "sint phys \<le> sint (Wall t)" and "has_room (c_last c) \<Longrightarrow> c_last c < t"
proof -
  have node: "c_id c \<le> 255"
    using assms(1) by (simp add: clock_ok_def MaxNodeID_def)
  show "c_last c' = t" "c_id c' = c_id c"
    using assms(2) by (auto simp: clk_Now_def Let_def split: if_splits)
  show "NodeOf t = c_id c" "sint phys \<le> sint (Wall t)"
    using assms(2) node
    by (auto simp: clk_Now_def Let_def NodeOf_fresh NodeOf_nextTagged split: if_splits)
  show "c_last c < t" if "has_room (c_last c)"
    using assms(2) node that nextTagged_greater [of "c_id c" "c_last c"]
    by (auto simp: clk_Now_def Let_def has_room_def less_timestamp_iff split: if_splits)
qed

lemma clk_Update_id: "c_id (snd (clk_Update phys off m c)) = c_id c"
  by (simp add: clk_Update_def Let_def)

lemma clk_Update_spec:
  assumes "clock_ok c" and "clk_Update phys off m c = (None, c')"
  shows "NodeOf (c_last c') = c_id c" and "sint phys \<le> sint (Wall (c_last c'))"
    and "has_room (max (c_last c) m) \<Longrightarrow> max (c_last c) m < c_last c'"
proof -
  have node: "c_id c \<le> 255"
    using assms(1) by (simp add: clock_ok_def MaxNodeID_def)
  show "NodeOf (c_last c') = c_id c" "sint phys \<le> sint (Wall (c_last c'))"
    using assms(2) node
    by (auto simp: clk_Update_def Let_def NodeOf_fresh NodeOf_nextTagged split: if_splits)
  show "max (c_last c) m < c_last c'" if "has_room (max (c_last c) m)"
  proof -
    define lb where "lb = max (c_last c) m"
    have "lb < nextTagged lb (c_id c)"
      using that node nextTagged_greater unfolding lb_def [symmetric] has_room_def by blast
    moreover have "lb < Timestamp phys (c_id c)" if "sint (Wall lb) < sint phys"
      using that by (simp add: less_timestamp_iff)
    ultimately show ?thesis
      using assms(2) unfolding clk_Update_def Let_def Max_eq_max lb_def [symmetric]
      by (auto split: if_splits)
  qed
qed

interpretation hlc_source: timestamp_source hlc_now hlc_upd c_last has_room clock_ok
proof
  fix c :: Clock and r :: "wall \<times> duration" and m
  obtain t c' where now: "clk_Now (fst r) c = (t, c')" by fastforce
  show "clock_ok (snd (hlc_now r c))" if "clock_ok c"
    using clk_Now_spec(2) [OF that now] that now by (simp add: hlc_now_def clock_ok_def)
  show "c_last (snd (hlc_now r c)) = fst (hlc_now r c)"
    by (simp add: hlc_now_def clk_Now_def Let_def)
  show "c_last c < fst (hlc_now r c)" if "clock_ok c" "has_room (c_last c)"
    using clk_Now_spec(5) [OF that(1) now that(2)] now by (simp add: hlc_now_def)
  show "clock_ok (snd (hlc_upd r m c))" if "clock_ok c"
    using that by (simp add: hlc_upd_def clock_ok_def clk_Update_id case_prod_beta)
  show "c_last (snd (hlc_upd r m c)) = c_last c" if "\<not> fst (hlc_upd r m c)"
    using that by (auto simp: hlc_upd_def clk_Update_def Let_def split: if_splits)
  show "max (c_last c) m < c_last (snd (hlc_upd r m c))"
    if "clock_ok c" "has_room (max (c_last c) m)" "fst (hlc_upd r m c)"
    using clk_Update_spec(3) [OF that(1) _ that(2), of "fst r" "snd r"] that(3)
    by (auto simp: hlc_upd_def split: prod.splits)
qed

section \<open>Properties of the clock\<close>

lemma src_run_tagged:
  "clock_ok c \<Longrightarrow> t \<in> set (fst (src_run hlc_now hlc_upd ops c)) \<Longrightarrow> NodeOf t = c_id c"
proof (induction ops arbitrary: c)
  case Nil
  then show ?case by simp
next
  case (Cons x ops)
  show ?case
  proof (cases x)
    case (Mint r)
    obtain u c' where now: "clk_Now (fst r) c = (u, c')" by fastforce
    have "clock_ok c'" "c_id c' = c_id c" "NodeOf u = c_id c"
      using clk_Now_spec [OF Cons.prems(1) now] Cons.prems(1) by (simp_all add: clock_ok_def)
    with Cons.IH [of c'] Cons.prems(2) Mint now show ?thesis
      by (auto simp: hlc_now_def split: prod.splits)
  next
    case (Fold r m)
    let ?c = "snd (hlc_upd r m c)"
    have "c_id ?c = c_id c"
      by (simp add: hlc_upd_def clk_Update_id case_prod_beta)
    with Cons.IH [of ?c] Cons.prems Fold show ?thesis
      by (simp add: clock_ok_def)
  qed
qed

text \<open>What evaluates a concrete clock.\<close>

lemma logicalMask_255: "logicalMask = 255"
  by (simp add: logicalMask_eq mask_eq_exp_minus_1)

lemmas clock_eval = hlc_now_def hlc_upd_def clk_Now_def clk_Update_def Let_def Wall_Sub_def
  Max_eq_max max_def less_timestamp_iff less_eq_timestamp_iff nextTagged_def logicalMask_255
  logicalStep_eq has_room_def clock_ok_def MaxNodeID_def NodeOf_def

text \<open>The slot of a counter: what is left of it without the tag.  A call moves on by at most one slot.\<close>

definition slot :: "timestamp \<Rightarrow> nat" where
  "slot t = unat (Logical t) div 256"

lemma has_room_slot: "has_room t \<longleftrightarrow> Suc (slot t) < 2 ^ 24"
proof -
  have "unat (Logical t) < 256 * (2 ^ 24 - 1) \<longleftrightarrow> slot t < 2 ^ 24 - 1"
    unfolding slot_def by (simp add: div_less_iff_less_mult mult.commute)
  then show ?thesis by (simp add: has_room_def less_diff_conv)
qed

lemma slot_nextTagged:
  assumes "node \<le> 255" "Suc (slot t) < 2 ^ 24"
  shows "slot (nextTagged t node) \<le> Suc (slot t)"
proof -
  have n: "unat node \<le> 255" using assms(1) by (simp add: word_le_nat_alt)
  then have "256 * slot t + 256 + unat node < 2 ^ 32" using assms(2) by simp
  then have "unat (Logical (nextTagged t node)) \<le> 256 * Suc (slot t) + unat node"
    unfolding unat_Logical_nextTagged [OF assms(1)] slot_def [symmetric] by simp
  then show ?thesis unfolding slot_def [of "nextTagged t node"] using n by simp
qed

lemma slot_tag: "node \<le> 255 \<Longrightarrow> slot (Timestamp w node) = 0"
  by (simp add: slot_def word_le_nat_alt)

lemma enough_room:
  assumes "clock_ok c" "slot (c_last c) + length ops < 2 ^ 24" "\<And>r m. Fold r m \<in> set ops \<Longrightarrow> slot m + length ops < 2 ^ 24"
  shows "src_roomy hlc_now hlc_upd c_last has_room ops c"
  using assms
proof (induction ops arbitrary: c)
  case (Cons op ops)
  have id: "c_id c \<le> 255" using Cons.prems(1) by (simp add: clock_ok_def MaxNodeID_def)
  show ?case
  proof (cases op)
    case (Mint r)
    have room: "Suc (slot (c_last c)) < 2 ^ 24" using Cons.prems(2) by simp
    have "slot (c_last (snd (hlc_now r c))) \<le> Suc (slot (c_last c))"
      using slot_nextTagged [OF id room] slot_tag [OF id] by (simp add: hlc_now_def clk_Now_def Let_def)
    then have "src_roomy hlc_now hlc_upd c_last has_room ops (snd (hlc_now r c))"
      using Cons.prems hlc_source.now_inv by (intro Cons.IH) (auto, fastforce)
    then show ?thesis using room has_room_slot [of "c_last c"] by (simp add: Mint)
  next
    case (Fold r m)
    have room: "Suc (slot (max (c_last c) m)) < 2 ^ 24" using Cons.prems(2) Cons.prems(3) [of r m] by (simp add: Fold max_def)
    have "slot (c_last (snd (hlc_upd r m c))) \<le> Suc (slot (max (c_last c) m)) \<or> c_last (snd (hlc_upd r m c)) = c_last c"
      using slot_nextTagged [OF id room] slot_tag [OF id] by (simp add: hlc_upd_def clk_Update_def Let_def Max_eq_max)
    then have "slot (c_last (snd (hlc_upd r m c))) + length ops < 2 ^ 24"
      using Cons.prems(2) Cons.prems(3) [of r m] by (auto simp: Fold max_def split: if_splits)
    then have "src_roomy hlc_now hlc_upd c_last has_room ops (snd (hlc_upd r m c))"
      using Cons.prems hlc_source.upd_inv by (intro Cons.IH) (auto, fastforce)
    then show ?thesis using room has_room_slot [of "max (c_last c) m"] by (simp add: Fold)
  qed
qed simp

text \<open>
  C37: whatever the physical clock reads, forwards or backwards, the timestamps a node mints along a
  sequence of \<^verbatim>\<open>Now\<close> and \<^verbatim>\<open>Update\<close> calls are strictly increasing and later than the last one it held,
  as long as its counter and every counter it folds in start at least as many slots below the
  topmost one, of the 2^24 there are, as there are calls: the counter cannot wrap then.
\<close>

theorem clock_run_increasing:
  assumes "clock_ok c" and "slot (c_last c) + length ops < 2 ^ 24"
    and "\<And>r m. Fold r m \<in> set ops \<Longrightarrow> slot m + length ops < 2 ^ 24"
  shows "sorted_wrt (<) (c_last c # fst (src_run hlc_now hlc_upd ops c))"
  using hlc_source.run_increasing [OF assms(1) enough_room [OF assms]] by simp

theorem clock_run_increasing_witness:
  "sorted_wrt (<) (Timestamp 100 3 #
     fst (src_run hlc_now hlc_upd
        [Mint (90, 500), Fold (95, 500) (Timestamp 200 7), Mint (96, 500), Mint (900, 500)]
        \<lparr>c_last = Timestamp 100 3, c_id = 3, updatesRefused = 0, physRegressions = 0\<rparr>))"
proof -
  let ?c = "\<lparr>c_last = Timestamp 100 3, c_id = 3, updatesRefused = 0, physRegressions = 0\<rparr>"
  let ?ops = "[Mint (90, 500), Fold (95, 500) (Timestamp 200 7), Mint (96, 500), Mint (900, 500)]"
  have "clock_ok ?c" by (simp add: clock_eval)
  moreover have "slot (c_last ?c) + length ?ops < 2 ^ 24" by (simp add: slot_def)
  moreover have "slot m + length ?ops < 2 ^ 24" if "Fold r m \<in> set ?ops" for r m using that by (simp add: slot_def)
  ultimately have "sorted_wrt (<) (c_last ?c # fst (src_run hlc_now hlc_upd ?ops ?c))" by (rule clock_run_increasing)
  then show ?thesis by simp
qed

text \<open>
  two clocks with different node ordinals never mint the same timestamp, whatever they
  are asked and whatever their physical clocks read.  This needs no room in the counters: the
  tag survives even a wrap-around.
\<close>

theorem clocks_mint_disjoint:
  assumes "clock_ok c" and "clock_ok d" and "c_id c \<noteq> c_id d"
  shows "set (fst (src_run hlc_now hlc_upd ops c)) \<inter> set (fst (src_run hlc_now hlc_upd ops' d)) = {}"
  using src_run_tagged [OF assms(1)] src_run_tagged [OF assms(2)] assms(3) by fastforce

theorem clocks_mint_disjoint_witness:
  "set (fst (src_run hlc_now hlc_upd [Mint (90, 500)]
      \<lparr>c_last = zeroTS, c_id = 1, updatesRefused = 0, physRegressions = 0\<rparr>)) \<inter>
   set (fst (src_run hlc_now hlc_upd [Mint (90, 500)]
      \<lparr>c_last = zeroTS, c_id = 2, updatesRefused = 0, physRegressions = 0\<rparr>)) = {}"
  by (rule clocks_mint_disjoint) (simp_all add: clock_ok_def MaxNodeID_def)

text \<open>
  \<^verbatim>\<open>Update\<close> refuses a peer's timestamp exactly when it lies more than the bound ahead of
  the physical reading; a refusal leaves the clock's value alone, and an accepted timestamp
  leaves the clock strictly after it, after its own past, and still carrying its own tag.
\<close>

theorem update_refuses_or_advances:
  assumes "clock_ok c" and "has_room (max (c_last c) m)"
  shows "case clk_Update phys off m c of
           (Some e, c') \<Rightarrow> e = ErrBeyondEnvelope \<and> sint off < sint (Wall_Sub (Wall m) phys)
                          \<and> c_last c' = c_last c
         | (None, c') \<Rightarrow> sint (Wall_Sub (Wall m) phys) \<le> sint off
                          \<and> max (c_last c) m < c_last c' \<and> NodeOf (c_last c') = c_id c
                          \<and> sint phys \<le> sint (Wall (c_last c'))"
proof (cases "clk_Update phys off m c")
  case (Pair e c')
  show ?thesis
  proof (cases e)
    case None
    then have "clk_Update phys off m c = (None, c')" using Pair by simp
    with clk_Update_spec [OF assms(1) this] assms(2) Pair None show ?thesis
      by (auto simp: clk_Update_def Let_def split: if_splits)
  next
    case (Some x)
    with Pair show ?thesis
      by (auto simp: clk_Update_def Let_def split: if_splits)
  qed
qed

theorem update_refuses_or_advances_witness:
  "case clk_Update 100 50 (Timestamp 140 9)
          \<lparr>c_last = Timestamp 100 3, c_id = 3, updatesRefused = 0, physRegressions = 0\<rparr> of
     (Some e, c') \<Rightarrow> False
   | (None, c') \<Rightarrow> Timestamp 140 9 < c_last c'"
  using update_refuses_or_advances
    [of "\<lparr>c_last = Timestamp 100 3, c_id = 3, updatesRefused = 0, physRegressions = 0\<rparr>"
        "Timestamp 140 9" 100 50]
  by (simp add: clock_eval)

text \<open>
  C38: the tagged successor is later than its argument exactly when the argument's counter is
  not in the topmost slot, or is there with a tag below the node's.  Otherwise, in the last slot with
  a tag at or above the node's, the 32-bit sum wraps and the successor is earlier, since only
  \<^verbatim>\<open>Next\<close> carries into the wall reading.
\<close>

theorem nextTagged_greater_iff:
  assumes "node \<le> 255"
  shows "t < nextTagged t node \<longleftrightarrow> has_room t \<or> NodeOf t < node"
proof -
  define q r where "q = unat (Logical t) div 256" and "r = unat (Logical t) mod 256"
  have L: "unat (Logical t) = 256 * q + r" and r: "r < 256"
    unfolding q_def r_def by simp_all
  have n: "unat node \<le> 255"
    using assms by (simp add: word_le_nat_alt)
  have "256 * q + r < 2 ^ 32"
    using unsigned_less [of "Logical t", where ?'a = nat] L by simp
  then have q: "q \<le> 2 ^ 24 - 1" by simp
  have node: "NodeOf t < node \<longleftrightarrow> r < unat node"
    by (simp add: word_less_nat_alt NodeOf_eq_mod r_def)
  have room: "has_room t \<longleftrightarrow> q < 2 ^ 24 - 1"
    using r by (simp add: has_room_def L) arith
  have nxt: "unat (Logical (nextTagged t node)) =
      (if r < unat node then 256 * q + unat node else (256 * q + 256 + unat node) mod 2 ^ 32)"
    using unat_Logical_nextTagged [OF assms, of t] by (simp only: q_def r_def)
  have "t < nextTagged t node \<longleftrightarrow> 256 * q + r < unat (Logical (nextTagged t node))"
    by (simp add: less_timestamp_iff word_less_nat_alt flip: L)
  also have "\<dots> \<longleftrightarrow> has_room t \<or> r < unat node"
  proof (cases "q = 2 ^ 24 - 1")
    case True
    then have "(256 * q + 256 + unat node) mod 2 ^ 32 = unat node"
      using n by simp
    with True n nxt room r show ?thesis by simp
  next
    case False
    then have "(256 * q + 256 + unat node) mod 2 ^ 32 = 256 * q + 256 + unat node"
      using q n by (intro mod_less) simp
    with False q nxt room r show ?thesis by auto
  qed
  finally show ?thesis by (simp only: node)
qed

theorem nextTagged_greater_iff_witness:
  "nextTagged (Timestamp 7 (NOT 0)) 0 < Timestamp 7 (NOT 0) \<and>
   Timestamp 7 0 < nextTagged (Timestamp 7 0) 0"
proof -
  have "\<not> Timestamp 7 (NOT 0) < nextTagged (Timestamp 7 (NOT 0)) 0"
    using nextTagged_greater_iff [of 0 "Timestamp 7 (NOT 0)"] by (simp add: clock_eval)
  moreover have "nextTagged (Timestamp 7 (NOT 0)) 0 \<noteq> Timestamp 7 (NOT 0)"
    by (simp add: clock_eval)
  moreover have "Timestamp 7 0 < nextTagged (Timestamp 7 0) 0"
    using nextTagged_greater_iff [of 0 "Timestamp 7 0"] by (simp add: clock_eval)
  ultimately show ?thesis by auto
qed

lemma sint_Wall_Sub:
  assumes "0 \<le> sint t" and "0 \<le> sint u"
  shows "sint (Wall_Sub t u) = sint t - sint u"
proof -
  have "sint x < 2 ^ 63" for x :: u64
    using sint_lt [of x] by simp
  then have "sint t < 2 ^ 63" "sint u < 2 ^ 63" by blast+
  with assms show ?thesis
    by (simp add: Wall_Sub_def sint_word_ariths signed_take_bit_int_eq_self)
qed

text \<open>The wall reading a clock holds is at most the bound ahead of a physical reading.\<close>

definition within_envelope :: "wall \<Rightarrow> duration \<Rightarrow> Clock \<Rightarrow> bool" where
  "within_envelope phys off c \<longleftrightarrow> sint (Wall (c_last c)) \<le> sint phys + sint off"

text \<open>
  the clock never ratchets beyond its envelope.  If it holds no wall reading more than
  the bound ahead of an earlier physical reading, then after a \<^verbatim>\<open>Now\<close> or an \<^verbatim>\<open>Update\<close> at a later
  reading it holds none more than the bound ahead of that one, whatever peers send.
\<close>

theorem clock_stays_within_envelope:
  assumes "within_envelope phys off c" and "sint phys \<le> sint phys'"
    and "0 \<le> sint phys'" and "0 \<le> sint off" and "0 \<le> sint (Wall m)"
  shows "within_envelope phys' off (snd (clk_Now phys' c)) \<and>
         within_envelope phys' off (snd (clk_Update phys' off m c))"
proof
  show "within_envelope phys' off (snd (clk_Now phys' c))"
    using assms by (auto simp: within_envelope_def clk_Now_def Let_def)
  show "within_envelope phys' off (snd (clk_Update phys' off m c))"
    using assms sint_Wall_Sub [of "Wall m" phys']
    by (auto simp: within_envelope_def clk_Update_def Let_def Max_def)
qed

theorem clock_stays_within_envelope_witness:
  "within_envelope 110 50
     (snd (clk_Update 110 50 (Timestamp 160 9)
        \<lparr>c_last = Timestamp 150 3, c_id = 3, updatesRefused = 0, physRegressions = 0\<rparr>))"
  by (rule clock_stays_within_envelope [where phys = 100, THEN conjunct2])
    (simp_all add: within_envelope_def)

end
