(* ===== verification/Engine.thy ===== *)
theory Engine
  imports Rift_Prelude
begin

text \<open>
  The storage interface \<^verbatim>\<open>engine/\<close> and its reference implementation \<^verbatim>\<open>engine/model\<close>: batches
  of writes, immutable sorted versions of the keyspace, the durability watermark behind the
  visible version, iterators over a key range and pinned snapshots.  A nil slice bound is
  \<open>None\<close>.  The copy-on-write of the source is value semantics here.
\<close>

section \<open>Batches (engine/batch.go)\<close>

datatype Op =
    OpSet bytes bytes
  | OpDelete bytes
  | OpDeleteRange "bytes option" "bytes option"

type_synonym Batch = "Op list"

definition NewBatch :: Batch where
  "NewBatch = []"

definition Set :: "Batch \<Rightarrow> bytes \<Rightarrow> bytes \<Rightarrow> Batch" where
  "Set b key value = b @ [OpSet key value]"

definition Delete :: "Batch \<Rightarrow> bytes \<Rightarrow> Batch" where
  "Delete b key = b @ [OpDelete key]"

definition DeleteRange :: "Batch \<Rightarrow> bytes option \<Rightarrow> bytes option \<Rightarrow> Batch" where
  "DeleteRange b start stop = b @ [OpDeleteRange start stop]"

definition batch_Empty :: "Batch \<Rightarrow> bool" where
  "batch_Empty b \<longleftrightarrow> length b = 0"

definition InRange :: "bytes \<Rightarrow> bytes option \<Rightarrow> bytes option \<Rightarrow> bool" where
  "InRange key start stop =
     (if (case start of None \<Rightarrow> False | Some s \<Rightarrow> bytes_Compare key s < 0) then False
      else if (case stop of None \<Rightarrow> False | Some e \<Rightarrow> 0 \<le> bytes_Compare key e) then False
      else True)"

lemma InRange_iff:
  "InRange key start stop \<longleftrightarrow>
     (\<forall>s. start = Some s \<longrightarrow> s \<le> key) \<and> (\<forall>e. stop = Some e \<longrightarrow> key < e)"
  by (auto simp: InRange_def not_less split: option.splits)

section \<open>Versions (engine/model/model.go)\<close>

type_synonym entry = "bytes \<times> bytes"

record version =
  entries :: "entry list"
  v_seq :: nat

definition search :: "entry list \<Rightarrow> bytes \<Rightarrow> nat \<times> bool" where
  "search es key =
     (let i = sort_Search (length es) (\<lambda>i. 0 \<le> bytes_Compare (fst (es ! i)) key)
      in (i, i < length es \<and> fst (es ! i) = key))"

definition set_entry :: "entry list \<Rightarrow> bytes \<Rightarrow> bytes \<Rightarrow> entry list" where
  "set_entry es key value =
     (case search es key of (i, found) \<Rightarrow>
        if found then es[i := (fst (es ! i), value)]
        else take i es @ [(key, value)] @ drop i es)"

definition del :: "entry list \<Rightarrow> bytes \<Rightarrow> entry list" where
  "del es key =
     (case search es key of (i, found) \<Rightarrow>
        if \<not> found then es else take i es @ drop (i + 1) es)"

definition delRange :: "entry list \<Rightarrow> bytes option \<Rightarrow> bytes option \<Rightarrow> entry list" where
  "delRange es start stop =
     (let lo = (case start of None \<Rightarrow> 0 | Some s \<Rightarrow> fst (search es s));
          hi = (case stop of None \<Rightarrow> length es | Some e \<Rightarrow> fst (search es e))
      in if hi \<le> lo then es else take lo es @ drop hi es)"

fun apply_op :: "entry list \<Rightarrow> Op \<Rightarrow> entry list" where
  "apply_op es (OpSet key value) = set_entry es key value"
| "apply_op es (OpDelete key) = del es key"
| "apply_op es (OpDeleteRange start stop) = delRange es start stop"

definition applyTo :: "version \<Rightarrow> Batch \<Rightarrow> nat \<Rightarrow> version" where
  "applyTo old b sq = \<lparr>entries = foldl apply_op (entries old) b, v_seq = sq\<rparr>"

definition version_get :: "version \<Rightarrow> bytes \<Rightarrow> bytes option" where
  "version_get v key =
     (let i = sort_Search (length (entries v)) (\<lambda>i. 0 \<le> bytes_Compare (fst (entries v ! i)) key)
      in if i < length (entries v) \<and> fst (entries v ! i) = key
         then Some (snd (entries v ! i)) else None)"

section \<open>The engine\<close>

record DB =
  durable :: version
  pending :: "version list"
  db_seq :: nat
  closed :: bool
  onDurable :: "nat list"
  openSnapshots :: int
  openIters :: int

definition New :: DB where
  "New = \<lparr>durable = \<lparr>entries = [], v_seq = 0\<rparr>, pending = [], db_seq = 0, closed = False,
          onDurable = [], openSnapshots = 0, openIters = 0\<rparr>"

definition visible :: "DB \<Rightarrow> version" where
  "visible d = (if length (pending d) > 0 then pending d ! (length (pending d) - 1) else durable d)"

datatype engine_error = ApplyOnClosed | CloseOnClosed | LeakedHandles int int | SnapshotClosed

definition Apply :: "DB \<Rightarrow> Batch option \<Rightarrow> bool \<Rightarrow> (engine_error + nat) \<times> DB" where
  "Apply d b sync =
     (if closed d then (Inl ApplyOnClosed, d)
      else (let sq = db_seq d + 1; prev = visible d;
                v = (case b of
                       None \<Rightarrow> \<lparr>entries = entries prev, v_seq = sq\<rparr>
                     | Some ops \<Rightarrow> if batch_Empty ops then \<lparr>entries = entries prev, v_seq = sq\<rparr>
                                   else applyTo prev ops sq)
            in (Inr sq, d\<lparr>db_seq := sq, pending := pending d @ [v]\<rparr>)))"

definition DurableSeq :: "DB \<Rightarrow> nat" where
  "DurableSeq d = v_seq (durable d)"

definition VisibleSeq :: "DB \<Rightarrow> nat" where
  "VisibleSeq d = v_seq (visible d)"

definition OnDurable :: "DB \<Rightarrow> nat option \<Rightarrow> DB" where
  "OnDurable d f = (case f of None \<Rightarrow> d | Some cb \<Rightarrow> d\<lparr>onDurable := onDurable d @ [cb]\<rparr>)"

fun advance_loop :: "nat \<Rightarrow> version \<Rightarrow> version list \<Rightarrow> bool \<Rightarrow> version \<times> version list \<times> bool" where
  "advance_loop sq dur [] adv = (dur, [], adv)"
| "advance_loop sq dur (p # ps) adv =
     (if v_seq p \<le> sq then advance_loop sq p ps True else (dur, p # ps, adv))"

text \<open>
  \<open>None\<close> is the panic of a watermark past the last applied sequence; otherwise the new state
  and the callbacks invoked, each with the sequence it is given.
\<close>

definition AdvanceDurable :: "DB \<Rightarrow> nat \<Rightarrow> (DB \<times> (nat \<times> nat) list) option" where
  "AdvanceDurable d sq =
     (if db_seq d < sq then None
      else (case advance_loop sq (durable d) (pending d) False of (dur, ps, adv) \<Rightarrow>
        let d' = d\<lparr>durable := dur, pending := ps\<rparr>
        in Some (d', if \<not> adv then [] else map (\<lambda>f. (f, v_seq dur)) (onDurable d))))"

definition Crash :: "DB \<Rightarrow> DB" where
  "Crash d = d\<lparr>pending := [], db_seq := v_seq (durable d), openSnapshots := 0, openIters := 0\<rparr>"

definition Get :: "DB \<Rightarrow> bytes \<Rightarrow> bytes option" where
  "Get d key = version_get (visible d) key"

definition ApproximateDiskBytes :: "DB \<Rightarrow> bytes option \<Rightarrow> bytes option \<Rightarrow> nat" where
  "ApproximateDiskBytes d start stop =
     foldl (\<lambda>total e. if InRange (fst e) start stop
                      then total + (length (fst e) + length (snd e)) else total)
       0 (entries (visible d))"

definition Close :: "DB \<Rightarrow> engine_error option \<times> DB" where
  "Close d =
     (if closed d then (Some CloseOnClosed, d)
      else (let d' = d\<lparr>closed := True\<rparr>
            in if openIters d \<noteq> 0 \<or> openSnapshots d \<noteq> 0
               then (Some (LeakedHandles (openIters d) (openSnapshots d)), d')
               else (None, d')))"

section \<open>Iterators and snapshots (engine/model/iter.go)\<close>

record iter =
  it_v :: version
  it_lo :: "bytes option"
  it_hi :: "bytes option"
  it_pos :: int
  it_valid :: bool

definition newIter :: "version \<Rightarrow> bytes option \<Rightarrow> bytes option \<Rightarrow> iter" where
  "newIter v lower upper = \<lparr>it_v = v, it_lo = lower, it_hi = upper, it_pos = -1, it_valid = False\<rparr>"

definition lower_bound :: "entry list \<Rightarrow> bytes \<Rightarrow> nat" where
  "lower_bound es key = sort_Search (length es) (\<lambda>i. 0 \<le> bytes_Compare (fst (es ! i)) key)"

definition iter_bounds :: "iter \<Rightarrow> nat \<times> nat" where
  "iter_bounds it =
     (let lo = (case it_lo it of None \<Rightarrow> 0 | Some l \<Rightarrow> lower_bound (entries (it_v it)) l);
          hi = (case it_hi it of None \<Rightarrow> length (entries (it_v it))
                | Some h \<Rightarrow> lower_bound (entries (it_v it)) h)
      in (lo, if hi < lo then lo else hi))"

definition settle :: "iter \<Rightarrow> int \<Rightarrow> iter" where
  "settle it i =
     (case iter_bounds it of (lo, hi) \<Rightarrow>
        it\<lparr>it_valid := int lo \<le> i \<and> i < int hi, it_pos := i\<rparr>)"

definition SeekGE :: "iter \<Rightarrow> bytes \<Rightarrow> iter" where
  "SeekGE it key =
     (let lo = fst (iter_bounds it);
          target = (case it_lo it of None \<Rightarrow> key
                    | Some l \<Rightarrow> if bytes_Compare key l < 0 then l else key);
          i = lower_bound (entries (it_v it)) target
      in settle it (int (if i < lo then lo else i)))"

definition SeekLT :: "iter \<Rightarrow> bytes \<Rightarrow> iter" where
  "SeekLT it key = settle it (int (lower_bound (entries (it_v it)) key) - 1)"

definition First :: "iter \<Rightarrow> iter" where
  "First it = settle it (int (fst (iter_bounds it)))"

definition Last :: "iter \<Rightarrow> iter" where
  "Last it = settle it (int (snd (iter_bounds it)) - 1)"

definition iter_Next :: "iter \<Rightarrow> iter" where
  "iter_Next it = (if \<not> it_valid it then it else settle it (it_pos it + 1))"

definition Prev :: "iter \<Rightarrow> iter" where
  "Prev it = (if \<not> it_valid it then it else settle it (it_pos it - 1))"

definition iter_Key :: "iter \<Rightarrow> bytes option" where
  "iter_Key it = (if \<not> it_valid it then None else Some (fst (entries (it_v it) ! nat (it_pos it))))"

definition iter_Value :: "iter \<Rightarrow> bytes option" where
  "iter_Value it = (if \<not> it_valid it then None else Some (snd (entries (it_v it) ! nat (it_pos it))))"

definition NewIter :: "DB \<Rightarrow> bytes option \<Rightarrow> bytes option \<Rightarrow> iter \<times> DB" where
  "NewIter d lower upper = (newIter (visible d) lower upper, d\<lparr>openIters := openIters d + 1\<rparr>)"

definition iter_Close :: "iter \<Rightarrow> DB \<Rightarrow> iter \<times> DB" where
  "iter_Close it d = (it\<lparr>it_valid := False\<rparr>, d\<lparr>openIters := openIters d - 1\<rparr>)"

record snapshot =
  sn_v :: version
  sn_closed :: bool

definition NewSnapshot :: "DB \<Rightarrow> snapshot \<times> DB" where
  "NewSnapshot d = (\<lparr>sn_v = visible d, sn_closed = False\<rparr>, d\<lparr>openSnapshots := openSnapshots d + 1\<rparr>)"

definition snapshot_Get :: "snapshot \<Rightarrow> bytes \<Rightarrow> engine_error + bytes option" where
  "snapshot_Get s key = (if sn_closed s then Inl SnapshotClosed else Inr (version_get (sn_v s) key))"

definition snapshot_Close :: "snapshot \<Rightarrow> DB \<Rightarrow> engine_error option \<times> snapshot \<times> DB" where
  "snapshot_Close s d =
     (if sn_closed s then (Some SnapshotClosed, s, d)
      else (None, s\<lparr>sn_closed := True\<rparr>, d\<lparr>openSnapshots := openSnapshots d - 1\<rparr>))"

text \<open>
  The loop every caller writes, \<^verbatim>\<open>for ok := it.First(); ok; ok = it.Next()\<close>: the entries it
  visits from the iterator's current position.
\<close>

function iter_rest :: "iter \<Rightarrow> entry list" where
  "iter_rest it =
     (if \<not> it_valid it \<or> it_pos it < 0 \<or> int (length (entries (it_v it))) \<le> it_pos it then []
      else (the (iter_Key it), the (iter_Value it)) # iter_rest (iter_Next it))"
  by auto

termination
  by (relation "measure (\<lambda>it. nat (int (length (entries (it_v it))) - it_pos it))")
     (auto simp: iter_Next_def settle_def split: prod.splits)

declare iter_rest.simps [simp del]

section \<open>Sorted versions\<close>

definition keys_sorted :: "entry list \<Rightarrow> bool" where
  "keys_sorted es \<longleftrightarrow> sorted_wrt (<) (map fst es)"

lemma keys_sorted_sorted: "keys_sorted es \<Longrightarrow> sorted (map fst es)"
  unfolding keys_sorted_def by (rule strict_sorted_imp_sorted)

lemma keys_sorted_distinct: "keys_sorted es \<Longrightarrow> distinct (map fst es)"
  unfolding keys_sorted_def by (simp add: strict_sorted_iff)

lemma keys_sorted_append:
  "keys_sorted (xs @ ys) \<longleftrightarrow>
     keys_sorted xs \<and> keys_sorted ys \<and> (\<forall>x \<in> set xs. \<forall>y \<in> set ys. fst x < fst y)"
  by (auto simp: keys_sorted_def sorted_wrt_append)

lemma keys_sorted_Cons:
  "keys_sorted (x # xs) \<longleftrightarrow> (\<forall>y \<in> set xs. fst x < fst y) \<and> keys_sorted xs"
  by (auto simp: keys_sorted_def)

lemma keys_sorted_Nil [simp]: "keys_sorted []"
  by (simp add: keys_sorted_def)

text \<open>The three-way cut of a sorted version at a key: everything below, the rest.\<close>

definition below :: "bytes \<Rightarrow> entry list \<Rightarrow> entry list" where
  "below key es = takeWhile (\<lambda>e. fst e < key) es"

definition from_key :: "bytes \<Rightarrow> entry list \<Rightarrow> entry list" where
  "from_key key es = dropWhile (\<lambda>e. fst e < key) es"

lemma below_from: "below key es @ from_key key es = es"
  by (simp add: below_def from_key_def)

lemma lower_bound_sorted:
  assumes "keys_sorted es"
  shows "lower_bound es key = length (below key es)"
proof -
  have "lower_bound es key = sort_Search (length es) (\<lambda>i. key \<le> map fst es ! i)"
    unfolding lower_bound_def by (rule sort_Search_cong) simp
  then show ?thesis
    using sort_Search_sorted [OF keys_sorted_sorted [OF assms], of key]
    by (simp add: below_def takeWhile_map o_def)
qed

lemma take_below [simp]: "take (length (below key es)) es = below key es"
  by (simp add: below_def takeWhile_eq_take [symmetric])

lemma drop_below [simp]: "drop (length (below key es)) es = from_key key es"
  by (simp add: below_def from_key_def dropWhile_eq_drop)

lemma below_filter: "keys_sorted es \<Longrightarrow> below key es = filter (\<lambda>e. fst e < key) es"
proof (induction es)
  case (Cons e es)
  show ?case
  proof (cases "fst e < key")
    case False
    then have "filter (\<lambda>e. fst e < key) es = []"
      using Cons.prems by (force simp: filter_empty_conv keys_sorted_Cons)
    with False show ?thesis by (simp add: below_def)
  qed (use Cons in \<open>simp add: below_def keys_sorted_Cons\<close>)
qed (simp add: below_def)

lemma from_key_filter: "keys_sorted es \<Longrightarrow> from_key key es = filter (\<lambda>e. key \<le> fst e) es"
proof (induction es)
  case (Cons e es)
  show ?case
  proof (cases "fst e < key")
    case False
    then have "filter (\<lambda>e. key \<le> fst e) es = es"
      using Cons.prems by (force simp: filter_id_conv keys_sorted_Cons)
    with False show ?thesis by (simp add: from_key_def)
  qed (use Cons in \<open>simp add: from_key_def keys_sorted_Cons\<close>)
qed (simp add: from_key_def)

definition above :: "bytes \<Rightarrow> entry list \<Rightarrow> entry list" where
  "above key es = filter (\<lambda>e. key < fst e) es"

lemma map_of_filter_fst:
  "map_of (filter (\<lambda>e. P (fst e)) es) k = (if P k then map_of es k else None)"
  by (induction es) auto

lemma keys_sorted_filter: "keys_sorted es \<Longrightarrow> keys_sorted (filter P es)"
  by (induction es) (auto simp: keys_sorted_Cons)

lemma from_key_cut:
  "keys_sorted es \<Longrightarrow>
   from_key key es = (case map_of es key of None \<Rightarrow> [] | Some v \<Rightarrow> [(key, v)]) @ above key es"
proof (induction es)
  case (Cons e es)
  then have IH: "from_key key es = (case map_of es key of None \<Rightarrow> [] | Some v \<Rightarrow> [(key, v)]) @ above key es"
    and gt: "\<forall>y \<in> set es. fst e < fst y" and srt: "keys_sorted es"
    by (auto simp: keys_sorted_Cons)
  consider "fst e < key" | "fst e = key" | "key < fst e" by (rule linorder_cases)
  then show ?case
  proof cases
    case 1
    then show ?thesis using IH by (auto simp: from_key_def above_def)
  next
    case 2
    then have "filter (\<lambda>x. key < fst x) es = es" using gt by (auto simp: filter_id_conv)
    with 2 show ?thesis by (cases e) (simp add: from_key_def above_def)
  next
    case 3
    then have "filter (\<lambda>x. key < fst x) es = es" "map_of es key = None"
      using gt by (fastforce simp: filter_id_conv map_of_eq_None_iff)+
    with 3 show ?thesis by (auto simp: from_key_def above_def)
  qed
qed (simp add: from_key_def above_def)

lemma entries_cut:
  "keys_sorted es \<Longrightarrow>
   es = below key es @ (case map_of es key of None \<Rightarrow> [] | Some v \<Rightarrow> [(key, v)]) @ above key es"
  using below_from [of key es] by (simp add: from_key_cut)

lemma search_sorted:
  assumes "keys_sorted es"
  shows "search es key = (length (below key es), map_of es key \<noteq> None)"
proof -
  have "fst (search es key) = length (below key es)"
    using lower_bound_sorted [OF assms, of key] by (simp add: search_def Let_def lower_bound_def)
  moreover have "i < length es \<and> fst (es ! i) = key \<longleftrightarrow> map_of es key \<noteq> None"
    if i: "i = length (below key es)" for i
  proof (cases "map_of es key")
    case (Some v)
    then have "es = below key es @ (key, v) # above key es"
      using entries_cut [OF assms, of key] by simp
    then have "es ! i = (key, v)" "i < length es"
      unfolding i by (metis nth_append_length, metis length_append length_Cons less_add_Suc1 add_Suc_right)
    with Some show ?thesis by simp
  next
    case None
    then have "key \<notin> fst ` set es" by (simp add: map_of_eq_None_iff)
    with None show ?thesis by auto
  qed
  ultimately show ?thesis
    by (simp add: search_def Let_def)
qed

lemma set_entry_sorted:
  assumes "keys_sorted es"
  shows "set_entry es key value = below key es @ (key, value) # above key es"
proof (cases "map_of es key")
  case None
  then show ?thesis
    using assms by (simp add: set_entry_def search_sorted from_key_cut)
next
  case (Some v)
  then have cut: "es = below key es @ (key, v) # above key es"
    using entries_cut [OF assms, of key] by simp
  then have "es[length (below key es) := (fst (es ! length (below key es)), value)]
             = below key es @ (key, value) # above key es"
    by (metis fst_conv list_update_length nth_append_length)
  with Some show ?thesis
    using assms by (simp add: set_entry_def search_sorted)
qed

lemma del_sorted:
  assumes "keys_sorted es"
  shows "del es key = below key es @ above key es"
proof (cases "map_of es key")
  case None
  then show ?thesis
    using assms entries_cut [OF assms, of key] by (simp add: del_def search_sorted)
next
  case (Some v)
  then have "drop (Suc (length (below key es))) es = above key es"
    using assms drop_below [of key es] by (simp add: drop_Suc drop_tl from_key_cut)
  with Some show ?thesis
    using assms by (simp add: del_def search_sorted)
qed

lemma below_grows:
  assumes "keys_sorted es" "x \<in> set es" "s \<le> fst x" "fst x < e"
  shows "length (below s es) < length (below e es)"
proof -
  have "s \<le> e" using assms by auto
  then have "filter (\<lambda>x. fst x < s) es = filter (\<lambda>x. fst x < s) (filter (\<lambda>x. fst x < e) es)"
    by (auto intro!: filter_cong)
  moreover have "x \<in> set (filter (\<lambda>x. fst x < e) es)" "\<not> fst x < s"
    using assms by auto
  ultimately show ?thesis
    using assms(1) by (simp add: below_filter length_filter_less del: filter_filter set_filter)
qed

lemma length_below_mono: "s \<le> e \<Longrightarrow> length (below s es) \<le> length (below e es)"
  unfolding below_def by (induction es) auto

lemma below_antimono: "length (below s es) < length (below e es) \<Longrightarrow> s < e"
  using length_below_mono [of e s es] by (auto simp: not_less [symmetric])

lemma filter_outside:
  "keys_sorted es \<Longrightarrow> s \<le> e \<Longrightarrow>
   filter (\<lambda>x. fst x < s \<or> e \<le> fst x) es = below s es @ from_key e es"
proof (induction es)
  case (Cons x es)
  show ?case
  proof (cases "fst x < s")
    case True
    with Cons show ?thesis by (auto simp: below_def from_key_def keys_sorted_Cons)
  next
    case False
    then have "filter (\<lambda>x. fst x < s \<or> e \<le> fst x) es = filter (\<lambda>x. e \<le> fst x) es"
      using Cons.prems by (fastforce simp: keys_sorted_Cons intro!: filter_cong)
    with False Cons.prems show ?thesis
      by (simp add: from_key_filter below_def)
  qed
qed (simp add: below_def from_key_def)

lemma delRange_sorted:
  assumes "keys_sorted es"
  shows "delRange es start stop = filter (\<lambda>e. \<not> InRange (fst e) start stop) es"
proof (cases start; cases stop)
  fix s e assume "start = Some s" "stop = Some e"
  moreover have "filter (\<lambda>x. \<not> InRange (fst x) start stop) es = filter (\<lambda>x. fst x < s \<or> e \<le> fst x) es"
    using calculation by (auto simp: InRange_iff not_le not_less)
  moreover have "filter (\<lambda>x. fst x < s \<or> e \<le> fst x) es = es"
    if "\<not> length (below s es) < length (below e es)"
    using that below_grows [OF assms, of _ s e] by (intro filter_True) (meson not_le)
  ultimately show ?thesis
    using assms below_antimono [of s es e]
    by (cases "length (below s es) < length (below e es)")
       (simp_all add: delRange_def search_sorted Let_def filter_outside)
next
  fix s assume "start = Some s" "stop = None"
  then show ?thesis
    using assms take_below [of s es] take_all [of es "length (below s es)"]
    by (auto simp del: take_below simp: delRange_def search_sorted InRange_iff not_le below_filter [symmetric] Let_def)
next
  fix e assume "start = None" "stop = Some e"
  then show ?thesis
    using assms below_from [of e es]
    by (auto simp: delRange_def search_sorted InRange_iff not_less from_key_filter [symmetric])
next
  assume "start = None" "stop = None"
  then show ?thesis by (simp add: delRange_def InRange_iff)
qed

section \<open>The keyspace contract\<close>

text \<open>What one batch entry means for the key-to-value map it is applied to.\<close>

fun op_meaning :: "(bytes \<rightharpoonup> bytes) \<Rightarrow> Op \<Rightarrow> (bytes \<rightharpoonup> bytes)" where
  "op_meaning m (OpSet key value) = m(key \<mapsto> value)"
| "op_meaning m (OpDelete key) = m(key := None)"
| "op_meaning m (OpDeleteRange start stop) = (\<lambda>k. if InRange k start stop then None else m k)"

fun touches :: "Op \<Rightarrow> bytes \<Rightarrow> bool" where
  "touches (OpSet key value) k \<longleftrightarrow> k = key"
| "touches (OpDelete key) k \<longleftrightarrow> k = key"
| "touches (OpDeleteRange start stop) k \<longleftrightarrow> InRange k start stop"

locale keyspace =
  fixes ok :: "'s \<Rightarrow> bool"
    and view :: "'s \<Rightarrow> bytes \<Rightarrow> bytes option"
    and step :: "'s \<Rightarrow> Op \<Rightarrow> 's"
  assumes ok_step: "ok s \<Longrightarrow> ok (step s op)"
    and view_step: "ok s \<Longrightarrow> view (step s op) = op_meaning (view s) op"
begin

lemma ok_batch: "ok s \<Longrightarrow> ok (foldl step s b)"
  by (induction b arbitrary: s) (auto intro: ok_step)

lemma view_batch: "ok s \<Longrightarrow> view (foldl step s b) = foldl op_meaning (view s) b"
  by (induction b arbitrary: s) (auto simp: ok_step view_step)

lemma view_untouched:
  "ok s \<Longrightarrow> list_all (\<lambda>op. \<not> touches op k) b \<Longrightarrow> view (foldl step s b) k = view s k"
proof (induction b arbitrary: s)
  case (Cons op b)
  then have "view (step s op) k = view s k" by (cases op) (auto simp: view_step)
  with Cons show ?case by (simp add: ok_step)
qed simp

lemma view_last_write:
  assumes "ok s" "list_all (\<lambda>op. \<not> touches op k) b"
  shows "view (foldl step s (a @ OpSet k v # b)) k = Some v"
    and "view (foldl step s (a @ OpDelete k # b)) k = None"
    and "InRange k start stop \<Longrightarrow> view (foldl step s (a @ OpDeleteRange start stop # b)) k = None"
  using assms by (simp_all add: view_untouched ok_step ok_batch view_step)

end

lemma below_less: "x \<in> set (below key es) \<Longrightarrow> fst x < key"
  by (auto simp: below_def dest: set_takeWhileD)

lemma above_greater: "x \<in> set (above key es) \<Longrightarrow> key < fst x"
  by (auto simp: above_def)

lemma keys_sorted_below: "keys_sorted es \<Longrightarrow> keys_sorted (below key es)"
  by (simp add: below_filter keys_sorted_filter)

lemma keys_sorted_above: "keys_sorted es \<Longrightarrow> keys_sorted (above key es)"
  by (simp add: above_def keys_sorted_filter)

lemma apply_op_sorted: "keys_sorted es \<Longrightarrow> keys_sorted (apply_op es op)"
  by (cases op)
     (auto simp: set_entry_sorted del_sorted delRange_sorted keys_sorted_append keys_sorted_Cons
        keys_sorted_below keys_sorted_above keys_sorted_filter
      dest: below_less above_greater intro: less_trans)

lemma map_of_below_above:
  "keys_sorted es \<Longrightarrow> map_of (below key es) k = (if k < key then map_of es k else None)"
  "map_of (above key es) k = (if key < k then map_of es k else None)"
  by (simp_all add: below_filter above_def map_of_filter_fst [of "\<lambda>k. k < key"]
        map_of_filter_fst [of "\<lambda>k. key < k"])

lemma map_of_apply_op:
  assumes "keys_sorted es"
  shows "map_of (apply_op es op) = op_meaning (map_of es) op"
proof
  fix k
  show "map_of (apply_op es op) k = op_meaning (map_of es) op k"
    using assms
    by (cases op)
       (auto simp: set_entry_sorted del_sorted delRange_sorted map_add_def map_of_below_above
          map_of_filter_fst [of "\<lambda>k. \<not> InRange k _ _"] split: option.splits)
qed

interpretation model_keyspace: keyspace keys_sorted map_of apply_op
  by unfold_locales (auto simp: apply_op_sorted map_of_apply_op)

lemma version_get_map:
  assumes "keys_sorted (entries v)"
  shows "version_get v key = map_of (entries v) key"
proof -
  have "version_get v key =
    (case search (entries v) key of (i, found) \<Rightarrow> if found then Some (snd (entries v ! i)) else None)"
    by (simp add: version_get_def search_def Let_def)
  moreover have "snd (entries v ! length (below key (entries v))) = x" if "map_of (entries v) key = Some x" for x
    using that entries_cut [OF assms, of key]
    by (metis append_Cons nth_append_length option.simps(5) snd_conv)
  ultimately show ?thesis
    using assms by (cases "map_of (entries v) key") (auto simp: search_sorted)
qed

section \<open>The crash contract\<close>

text \<open>
  The abstract engine is the list of batches applied and how many of them are durable.
  Applying appends, a watermark raises the count, and a crash forgets what lies beyond it.
\<close>

datatype db_event = EvApply "Batch option" bool | EvAdvance nat | EvCrash

fun db_step :: "DB \<Rightarrow> db_event \<Rightarrow> DB option" where
  "db_step d (EvApply b sync) = Some (snd (Apply d b sync))"
| "db_step d (EvAdvance w) = map_option fst (AdvanceDurable d w)"
| "db_step d EvCrash = Some (Crash d)"

fun db_run :: "DB \<Rightarrow> db_event list \<Rightarrow> DB option" where
  "db_run d [] = Some d"
| "db_run d (ev # evs) = Option.bind (db_step d ev) (\<lambda>d'. db_run d' evs)"

fun log_step :: "Batch list \<times> nat \<Rightarrow> db_event \<Rightarrow> (Batch list \<times> nat) option" where
  "log_step (bs, n) (EvApply b sync) = Some (bs @ [case b of None \<Rightarrow> [] | Some ops \<Rightarrow> ops], n)"
| "log_step (bs, n) (EvAdvance w) = (if length bs < w then None else Some (bs, max n w))"
| "log_step (bs, n) EvCrash = Some (take n bs, n)"

fun log_run :: "Batch list \<times> nat \<Rightarrow> db_event list \<Rightarrow> (Batch list \<times> nat) option" where
  "log_run a [] = Some a"
| "log_run a (ev # evs) = Option.bind (log_step a ev) (\<lambda>a'. log_run a' evs)"

definition log_meaning :: "Batch list \<Rightarrow> bytes \<rightharpoonup> bytes" where
  "log_meaning bs = foldl op_meaning Map.empty (concat bs)"

definition ver_of :: "Batch list \<Rightarrow> nat \<Rightarrow> version" where
  "ver_of bs i = \<lparr>entries = foldl apply_op [] (concat (take i bs)), v_seq = i\<rparr>"

definition db_rel :: "DB \<Rightarrow> Batch list \<times> nat \<Rightarrow> bool" where
  "db_rel d = (\<lambda>(bs, n). n \<le> length bs \<and> durable d = ver_of bs n \<and>
     pending d = map (ver_of bs) [Suc n..<Suc (length bs)] \<and>
     db_seq d = length bs \<and> \<not> closed d)"

lemma ver_of_append: "i \<le> length bs \<Longrightarrow> ver_of (bs @ cs) i = ver_of bs i"
  by (simp add: ver_of_def)

lemma ver_of_snoc:
  "ver_of (bs @ [b]) (Suc (length bs)) =
     \<lparr>entries = foldl apply_op (entries (ver_of bs (length bs))) b, v_seq = Suc (length bs)\<rparr>"
  by (simp add: ver_of_def)

lemma db_rel_visible: "db_rel d (bs, n) \<Longrightarrow> visible d = ver_of bs (length bs)"
  by (cases "length bs") (auto simp: db_rel_def visible_def simp del: upt_Suc)

lemma db_rel_apply:
  assumes "db_rel d (bs, n)"
  shows "db_rel (snd (Apply d b sync)) (bs @ [case b of None \<Rightarrow> [] | Some ops \<Rightarrow> ops], n)"
proof -
  have "map (ver_of (bs @ [x])) [Suc n..<Suc (length bs)] = map (ver_of bs) [Suc n..<Suc (length bs)]" for x
    by (rule map_cong) (auto simp: ver_of_append simp del: upt_Suc)
  moreover have "[Suc n..<Suc (Suc (length bs))] = [Suc n..<Suc (length bs)] @ [Suc (length bs)]"
    using assms by (simp add: db_rel_def)
  ultimately show ?thesis
    using assms db_rel_visible [OF assms]
    by (auto simp: db_rel_def Apply_def Let_def ver_of_append ver_of_snoc applyTo_def batch_Empty_def
        simp del: upt_Suc split: option.splits)
qed

lemma advance_loop_ver:
  "n \<le> m \<Longrightarrow> w \<le> m \<Longrightarrow>
   advance_loop w (ver_of bs n) (map (ver_of bs) [Suc n..<Suc m]) adv =
     (ver_of bs (max n w), map (ver_of bs) [Suc (max n w)..<Suc m], adv \<or> n < w)"
proof (induction "m - n" arbitrary: n adv)
  case (Suc k)
  then have "[Suc n..<Suc m] = Suc n # [Suc (Suc n)..<Suc m]" by (simp add: upt_conv_Cons del: upt_Suc)
  moreover have "v_seq (ver_of bs (Suc n)) = Suc n" by (simp add: ver_of_def)
  ultimately show ?case
    using Suc.hyps(1) [of "Suc n" True] Suc.hyps(2) Suc.prems
    by (cases "Suc n \<le> w") (simp_all add: max_absorb1 max_absorb2 not_less_eq_eq del: upt_Suc)
qed (simp add: max_def)

lemma db_rel_step: "db_rel d a \<Longrightarrow> rel_option db_rel (db_step d ev) (log_step a ev)"
proof (cases ev)
  case (EvAdvance w)
  assume "db_rel d a"
  moreover obtain bs n where "a = (bs, n)" by (cases a)
  ultimately show ?thesis
    using EvAdvance advance_loop_ver [of n "length bs" w bs False]
    by (auto simp: AdvanceDurable_def db_rel_def Let_def simp del: upt_Suc)
next
  case EvCrash
  assume "db_rel d a"
  moreover obtain bs n where "a = (bs, n)" by (cases a)
  ultimately show ?thesis
    using EvCrash by (auto simp: Crash_def db_rel_def ver_of_def)
qed (cases a; auto intro: db_rel_apply)

lemma db_rel_run: "db_rel d a \<Longrightarrow> rel_option db_rel (db_run d evs) (log_run a evs)"
proof (induction evs arbitrary: d a)
  case (Cons ev evs)
  from db_rel_step [OF Cons.prems, of ev] show ?case
    by (cases rule: option.rel_cases) (auto intro: Cons.IH)
qed simp

lemma db_rel_New: "db_rel New ([], 0)"
  by (simp add: db_rel_def New_def ver_of_def)

lemma Get_ver:
  "visible d = ver_of bs i \<Longrightarrow> Get d = log_meaning (take i bs)"
  using model_keyspace.ok_batch [of "[]"] model_keyspace.view_batch [of "[]"]
  by (auto simp: Get_def version_get_map ver_of_def log_meaning_def fun_eq_iff)

lemma db_rel_observed:
  assumes "db_rel d (bs, n)"
  shows "Get d = log_meaning bs" "Get (Crash d) = log_meaning (take n bs)"
    "DurableSeq d = n" "VisibleSeq d = length bs"
  using Get_ver [OF db_rel_visible [OF assms]] Get_ver [of "Crash d" bs n] assms db_rel_visible [OF assms]
  by (auto simp: db_rel_def Crash_def visible_def DurableSeq_def VisibleSeq_def ver_of_def)

text \<open>C33: Over any sequence of applies, watermark advances and crashes from a fresh engine, the
  engine refines the log of its batches: reads see every batch applied since the last crash, in
  order, a crash would expose exactly the batches at or below the durable sequence, the two
  sequence numbers count the batches, and a watermark past the last batch is the only panic.\<close>

theorem engine_refines_batch_log:
  "map_option (\<lambda>d. (Get d, Get (Crash d), DurableSeq d, VisibleSeq d)) (db_run New evs) =
   map_option (\<lambda>(bs, n). (log_meaning bs, log_meaning (take n bs), n, length bs))
     (log_run ([], 0) evs)"
  using db_rel_run [OF db_rel_New, of evs]
  by (cases rule: option.rel_cases) (auto simp: db_rel_observed)

section \<open>Iterators visit exactly their range\<close>

definition window :: "iter \<Rightarrow> entry list" where
  "window it = filter (\<lambda>e. InRange (fst e) (it_lo it) (it_hi it)) (entries (it_v it))"

lemma iter_bounds_update [simp]: "iter_bounds (it\<lparr>it_valid := b, it_pos := i\<rparr>) = iter_bounds it"
  by (simp add: iter_bounds_def cong: option.case_cong)

lemma settle_simps [simp]:
  "it_v (settle it i) = it_v it" "it_lo (settle it i) = it_lo it" "it_hi (settle it i) = it_hi it"
  "it_pos (settle it i) = i"
  "it_valid (settle it i) \<longleftrightarrow> int (fst (iter_bounds it)) \<le> i \<and> i < int (snd (iter_bounds it))"
  "iter_bounds (settle it i) = iter_bounds it"
  by (simp_all add: settle_def case_prod_beta)

lemma settle_settle [simp]: "settle (settle it i) j = settle it j"
  by (simp add: settle_def case_prod_beta)

lemma length_below_le [simp]: "length (below k es) \<le> length es"
  by (simp add: below_def length_takeWhile_le)

lemma iter_bounds_le:
  assumes "keys_sorted (entries (it_v it))"
  shows "fst (iter_bounds it) \<le> snd (iter_bounds it)"
    "snd (iter_bounds it) \<le> length (entries (it_v it))"
  using assms by (auto simp: iter_bounds_def lower_bound_sorted Let_def not_less [symmetric]
      leD [OF length_below_le] split: option.splits)

lemma iter_rest_settle:
  assumes "keys_sorted (entries (it_v it))" "fst (iter_bounds it) \<le> p"
  shows "iter_rest (settle it (int p)) =
         take (snd (iter_bounds it) - p) (drop p (entries (it_v it)))"
  using assms(2)
proof (induction "snd (iter_bounds it) - p" arbitrary: p)
  case 0
  then show ?case by (subst iter_rest.simps) simp
next
  case (Suc n)
  let ?es = "entries (it_v it)"
  have p: "p < snd (iter_bounds it)" using Suc.hyps(2) by linarith
  then have len: "p < length ?es" using iter_bounds_le [OF assms(1)] by simp
  have "iter_rest (settle it (int p)) = ?es ! p # iter_rest (settle it (int (Suc p)))"
    using p len Suc.prems
    by (subst iter_rest.simps) (simp add: iter_Key_def iter_Value_def iter_Next_def add.commute)
  also have "iter_rest (settle it (int (Suc p))) = take (snd (iter_bounds it) - Suc p) (drop (Suc p) ?es)"
    using Suc by (intro Suc.hyps(1)) auto
  finally show ?case
    using len p by (simp add: Cons_nth_drop_Suc [symmetric] take_Cons' Suc_diff_Suc)
qed

lemma drop_below_filter:
  "keys_sorted es \<Longrightarrow> drop p (below h es) = filter (\<lambda>e. fst e < h) (drop p es)"
proof (induction es arbitrary: p)
  case (Cons e es)
  show ?case
  proof (cases "fst e < h")
    case True
    with Cons show ?thesis
      by (cases p) (auto simp: below_def keys_sorted_Cons below_filter [unfolded below_def])
  next
    case False
    then have "\<forall>x \<in> set (e # es). \<not> fst x < h"
      using Cons.prems by (force simp: keys_sorted_Cons)
    then have "filter (\<lambda>e. fst e < h) (drop p (e # es)) = []"
      unfolding filter_empty_conv by (blast dest: in_set_dropD)
    with False show ?thesis by (simp add: below_def)
  qed
qed (simp add: below_def)

lemma take_drop_filter:
  assumes "keys_sorted es"
  shows "take ((case hi of None \<Rightarrow> length es | Some h \<Rightarrow> length (below h es)) - p) (drop p es)
         = filter (\<lambda>e. \<forall>h. hi = Some h \<longrightarrow> fst e < h) (drop p es)"
proof (cases hi)
  case (Some h)
  have "take (length (below h es) - p) (drop p es) = drop p (take (length (below h es)) es)"
    by (simp only: drop_take)
  with Some show ?thesis by (simp add: drop_below_filter [OF assms])
qed simp

lemma iter_rest_from:
  assumes "keys_sorted (entries (it_v it))" "fst (iter_bounds it) \<le> p"
  shows "iter_rest (settle it (int p)) =
         filter (\<lambda>e. \<forall>h. it_hi it = Some h \<longrightarrow> fst e < h) (drop p (entries (it_v it)))"
proof -
  let ?hi = "case it_hi it of None \<Rightarrow> length (entries (it_v it))
             | Some h \<Rightarrow> length (below h (entries (it_v it)))"
  have "snd (iter_bounds it) - p = ?hi - p"
    using assms by (auto simp: iter_bounds_def lower_bound_sorted Let_def split: option.splits)
  then show ?thesis
    by (simp add: iter_rest_settle [OF assms] take_drop_filter [OF assms(1)])
qed

lemma First_rest:
  assumes "keys_sorted (entries v)"
  shows "iter_rest (First (newIter v lower upper)) =
         filter (\<lambda>e. InRange (fst e) lower upper) (entries v)"
proof -
  let ?it = "newIter v lower upper"
  have "iter_rest (First ?it) = filter (\<lambda>e. \<forall>h. upper = Some h \<longrightarrow> fst e < h)
          (drop (fst (iter_bounds ?it)) (entries v))"
    unfolding First_def using iter_rest_from [of ?it "fst (iter_bounds ?it)"] assms
    by (simp add: newIter_def)
  also have "drop (fst (iter_bounds ?it)) (entries v) =
             filter (\<lambda>e. \<forall>l. lower = Some l \<longrightarrow> l \<le> fst e) (entries v)"
    using assms by (auto simp: iter_bounds_def newIter_def Let_def lower_bound_sorted from_key_filter
        split: option.splits)
  finally show ?thesis by (auto simp: InRange_iff conj_commute intro!: filter_cong)
qed

lemma SeekGE_rest:
  assumes "keys_sorted (entries v)"
  shows "iter_rest (SeekGE (newIter v lower upper) key) =
         filter (\<lambda>e. InRange (fst e) lower upper \<and> key \<le> fst e) (entries v)"
proof -
  let ?it = "newIter v lower upper"
  let ?t = "case lower of None \<Rightarrow> key | Some l \<Rightarrow> if key < l then l else key"
  have t: "l \<le> ?t" if "lower = Some l" for l
    using that by auto
  have p: "fst (iter_bounds ?it) \<le> length (below ?t (entries v))"
    using assms length_below_mono [OF t]
    by (auto simp: iter_bounds_def newIter_def Let_def lower_bound_sorted split: option.splits)
  then have "SeekGE ?it key = settle ?it (int (length (below ?t (entries v))))"
    using assms by (auto simp: SeekGE_def newIter_def Let_def lower_bound_sorted split: option.splits)
  then have "iter_rest (SeekGE ?it key) =
     filter (\<lambda>e. \<forall>h. upper = Some h \<longrightarrow> fst e < h) (from_key ?t (entries v))"
    using iter_rest_from [OF _ p] assms by (simp add: newIter_def)
  moreover have "?t \<le> k \<longleftrightarrow> (\<forall>l. lower = Some l \<longrightarrow> l \<le> k) \<and> key \<le> k" for k
    by (auto split: option.splits)
  ultimately show ?thesis
    using assms by (auto simp: from_key_filter InRange_iff intro!: filter_cong)
qed

text \<open>An iterator positioned by SeekGE and advanced with Next until it is exhausted yields
  exactly the entries of its version that lie in the iterator's bounds at or after the key, each
  once and in key order; First yields every entry in bounds.\<close>

theorem iterator_scan_exact:
  assumes "keys_sorted (entries v)"
  shows "iter_rest (SeekGE (newIter v lower upper) key) =
           filter (\<lambda>e. InRange (fst e) lower upper \<and> key \<le> fst e) (entries v) \<and>
         iter_rest (First (newIter v lower upper)) =
           filter (\<lambda>e. InRange (fst e) lower upper) (entries v)"
  using assms by (simp add: SeekGE_rest First_rest)

theorem iterator_scan_exact_witness:
  "iter_rest (SeekGE (newIter \<lparr>entries = [([1], [7]), ([2], [8]), ([4], [9])], v_seq = 0\<rparr>
     (Some [2]) None) [3]) = [([4], [9])]"
  using iterator_scan_exact [of "\<lparr>entries = [([1], [7]), ([2], [8]), ([4], [9])], v_seq = 0\<rparr>"]
  by (simp add: keys_sorted_def InRange_iff)

lemma drop_lo_filter:
  assumes "keys_sorted (entries v)"
  shows "drop (fst (iter_bounds (newIter v lower upper))) (below key (entries v)) =
         filter (\<lambda>e. (\<forall>l. lower = Some l \<longrightarrow> l \<le> fst e) \<and> fst e < key) (entries v)"
  unfolding drop_below_filter [OF assms] using assms
  by (auto simp: iter_bounds_def newIter_def Let_def lower_bound_sorted from_key_filter conj_commute
      split: option.splits)

text \<open>SeekLT, from a key that does not lie past the upper bound, stops at the last entry in
  bounds strictly before the key, and is invalid exactly when there is none.\<close>

theorem SeekLT_last_before:
  assumes "keys_sorted (entries v)" "\<forall>h. upper = Some h \<longrightarrow> key \<le> h"
  shows "iter_Key (SeekLT (newIter v lower upper) key) =
         (let es = filter (\<lambda>e. InRange (fst e) lower upper \<and> fst e < key) (entries v)
          in if es = [] then None else Some (fst (last es)))"
proof -
  let ?it = "newIter v lower upper" and ?b = "below key (entries v)"
  let ?lo = "fst (iter_bounds ?it)"
  have eq: "filter (\<lambda>e. InRange (fst e) lower upper \<and> fst e < key) (entries v) = drop ?lo ?b"
    unfolding drop_lo_filter [OF assms(1)] using assms(2)
    by (auto simp: InRange_iff intro!: filter_cong intro: less_le_trans)
  have hi: "?lo < length ?b \<Longrightarrow> length ?b \<le> snd (iter_bounds ?it)"
    using assms length_below_mono [of key _ "entries v"]
    by (auto simp: iter_bounds_def newIter_def Let_def lower_bound_sorted leD [OF length_below_le]
        split: option.splits) (meson less_trans leD)
  have S: "SeekLT ?it key = settle ?it (int (length ?b) - 1)"
    using assms(1) by (simp add: SeekLT_def newIter_def lower_bound_sorted)
  show ?thesis
  proof (cases "?lo < length ?b")
    case True
    then have "entries v ! (length ?b - 1) = ?b ! (length ?b - 1)"
      by (metis take_below nth_take diff_less less_nat_zero_code less_one neq0_conv)
    also have "\<dots> = last (drop ?lo ?b)"
      using True by (metis last_conv_nth last_drop list.size(3) less_nat_zero_code)
    finally show ?thesis
      unfolding eq S using True hi [OF True]
      by (auto simp: iter_Key_def newIter_def [of v lower upper] nat_diff_distrib Let_def)
  next
    case False
    then show ?thesis unfolding eq S by (auto simp: iter_Key_def Let_def)
  qed
qed

theorem SeekLT_last_before_witness:
  "iter_Key (SeekLT (newIter \<lparr>entries = [([1], [7]), ([2], [8]), ([4], [9])], v_seq = 0\<rparr>
     None (Some [3])) [3]) = Some [2]"
  using SeekLT_last_before [of "\<lparr>entries = [([1], [7]), ([2], [8]), ([4], [9])], v_seq = 0\<rparr>"
      "Some [3]" "[3]" None]
  by (simp add: keys_sorted_def InRange_iff)

text \<open>
  SeekLT has no clamp at the upper bound: from a key past it, the position it settles on is
  outside the bounds and the iterator is invalid even though an entry in bounds lies below.
\<close>

lemma SeekLT_past_upper:
  "iter_Key (SeekLT (newIter \<lparr>entries = [([1], [7]), ([2], [8])], v_seq = 0\<rparr> None (Some [2])) [3])
     = None \<and>
   InRange [1] None (Some [2]) \<and> ([1] :: bytes) < [3]"
  by (simp add: SeekLT_def newIter_def iter_Key_def lower_bound_sorted keys_sorted_def below_def
      iter_bounds_def InRange_iff)

end
