(* ===== verification/Mvcc_Keys.thy ===== *)
theory Mvcc_Keys
  imports Wire Hlc Engine "HOL-Library.Sublist"
begin

text \<open>
  The engine keys of the multi-version store, \<^verbatim>\<open>kv/encoding.go\<close>, and the record codecs of
  \<^verbatim>\<open>kv/txn.go\<close>.  Every record kind shares one layout, the namespace, a kind byte, the length of
  the user key and the key, with an inverted timestamp behind it where the record has one.
\<close>

section \<open>The encodings\<close>

definition dataPrefix :: byte where "dataPrefix = 0x64"
definition lockPrefix :: byte where "lockPrefix = 0x6C"
definition writePrefix :: byte where "writePrefix = 0x77"
definition txnPrefix :: byte where "txnPrefix = 0x74"
definition readPrefix :: byte where "readPrefix = 0x72"

lemmas kind_defs = dataPrefix_def lockPrefix_def writePrefix_def txnPrefix_def readPrefix_def

definition appendInvertedTS :: "bytes \<Rightarrow> timestamp \<Rightarrow> bytes" where
  "appendInvertedTS b ts = b @ be_bytes 8 (NOT (Wall ts)) @ be_bytes 4 (NOT (Logical ts))"

definition metaKey :: "bytes \<Rightarrow> byte \<Rightarrow> bytes \<Rightarrow> bytes" where
  "metaKey ns kind key = appendU32 (ns @ [kind]) (of_nat (length key)) @ key"

definition EncodeKey :: "bytes \<Rightarrow> bytes \<Rightarrow> timestamp \<Rightarrow> bytes" where
  "EncodeKey ns key ts = appendInvertedTS (appendU32 (ns @ [dataPrefix]) (of_nat (length key)) @ key) ts"

definition KeyPrefix :: "bytes \<Rightarrow> bytes \<Rightarrow> bytes" where
  "KeyPrefix ns key = appendU32 (ns @ [dataPrefix]) (of_nat (length key)) @ key"

definition LockKey :: "bytes \<Rightarrow> bytes \<Rightarrow> bytes" where
  "LockKey ns key = metaKey ns lockPrefix key"

definition TxnKey :: "bytes \<Rightarrow> bytes \<Rightarrow> timestamp \<Rightarrow> bytes" where
  "TxnKey ns key startTS = appendInvertedTS (metaKey ns txnPrefix key) startTS"

definition WriteKey :: "bytes \<Rightarrow> bytes \<Rightarrow> timestamp \<Rightarrow> bytes" where
  "WriteKey ns key commitTS = appendInvertedTS (metaKey ns writePrefix key) commitTS"

definition WritePrefix :: "bytes \<Rightarrow> bytes \<Rightarrow> bytes" where
  "WritePrefix ns key = metaKey ns writePrefix key"

definition ReadMarkKey :: "bytes \<Rightarrow> bytes \<Rightarrow> timestamp \<Rightarrow> bytes" where
  "ReadMarkKey ns key readTS = appendInvertedTS (metaKey ns readPrefix key) readTS"

definition ReadMarkPrefix :: "bytes \<Rightarrow> bytes \<Rightarrow> bytes" where
  "ReadMarkPrefix ns key = metaKey ns readPrefix key"

text \<open>\<^verbatim>\<open>hlcWall(^Uint64(raw[:8]))\<close> and \<^verbatim>\<open>^Uint32(raw[8:])\<close>.\<close>

definition read_inverted :: "bytes \<Rightarrow> timestamp" where
  "read_inverted raw = Timestamp (NOT (be_val (take 8 raw))) (NOT (be_val (drop 8 raw)))"

definition DecodeKey :: "bytes \<Rightarrow> bytes \<Rightarrow> (bytes \<times> timestamp) option" where
  "DecodeKey ns b =
     (if length b < length ns + 1 + 4 \<or> take (length ns) b \<noteq> ns \<or> b ! length ns \<noteq> dataPrefix then None
      else (let b' = drop (length ns) b; n = unat (be_val (take 4 (drop 1 b')) :: u32)
            in if length b' \<noteq> 1 + 4 + n + 12 then None
               else Some (take n (drop (1 + 4) b'), read_inverted (drop (1 + 4 + n) b'))))"

definition takeMetaKey :: "bytes \<Rightarrow> byte \<Rightarrow> bytes \<Rightarrow> (bytes \<times> bytes) option" where
  "takeMetaKey ns kind b =
     (if length b < length ns + 1 + 4 \<or> take (length ns) b \<noteq> ns \<or> b ! length ns \<noteq> kind then None
      else (let b' = drop (length ns + 1) b; n = unat (be_val (take 4 b') :: u32); b'' = drop 4 b'
            in if length b'' < n then None else Some (take n b'', drop n b'')))"

definition DecodeWriteKey :: "bytes \<Rightarrow> bytes \<Rightarrow> (bytes \<times> timestamp) option" where
  "DecodeWriteKey ns b =
     (case takeMetaKey ns writePrefix b of
        None \<Rightarrow> None
      | Some (key, rest) \<Rightarrow> if length rest \<noteq> 12 then None else Some (key, read_inverted rest))"

definition DecodeReadMarkKey :: "bytes \<Rightarrow> bytes \<Rightarrow> (bytes \<times> timestamp) option" where
  "DecodeReadMarkKey ns b =
     (case takeMetaKey ns readPrefix b of
        None \<Rightarrow> None
      | Some (key, rest) \<Rightarrow> if length rest \<noteq> 12 then None else Some (key, read_inverted rest))"

definition TimestampOf :: "bytes \<Rightarrow> bytes \<Rightarrow> timestamp option" where
  "TimestampOf ns key =
     (case DecodeKey ns key of
        Some (k, ts) \<Rightarrow> Some ts
      | None \<Rightarrow>
          (case DecodeWriteKey ns key of
             Some (k, ts) \<Rightarrow> Some ts
           | None \<Rightarrow> (case DecodeReadMarkKey ns key of Some (k, ts) \<Rightarrow> Some ts | None \<Rightarrow> None)))"

definition KindOf :: "bytes \<Rightarrow> bytes \<Rightarrow> byte option" where
  "KindOf ns engineKey =
     (if length engineKey \<le> length ns \<or> take (length ns) engineKey \<noteq> ns then None
      else Some (engineKey ! length ns))"

definition DecodeAnyKey :: "bytes \<Rightarrow> bytes \<Rightarrow> bytes option" where
  "DecodeAnyKey ns engineKey =
     (case KindOf ns engineKey of
        None \<Rightarrow> None
      | Some kind \<Rightarrow> (case takeMetaKey ns kind engineKey of None \<Rightarrow> None | Some (key, rest) \<Rightarrow> Some key))"

text \<open>\<^verbatim>\<open>prefixEnd\<close>: the loop runs from the last byte down.\<close>

fun prefix_end_loop :: "nat \<Rightarrow> bytes \<Rightarrow> bytes option" where
  "prefix_end_loop 0 e = None"
| "prefix_end_loop (Suc i) e =
     (if e ! i \<noteq> 0xFF then Some (take (i + 1) (e[i := e ! i + 1])) else prefix_end_loop i e)"

definition prefixEnd :: "bytes \<Rightarrow> bytes option" where
  "prefixEnd p = prefix_end_loop (length p) p"

section \<open>The record values\<close>

definition putTS :: "bytes \<Rightarrow> timestamp \<Rightarrow> bytes" where
  "putTS b t = b @ be_bytes 8 (Wall t) @ be_bytes 4 (Logical t)"

definition takeTS :: "bytes \<Rightarrow> (timestamp \<times> bytes) option" where
  "takeTS b =
     (if length b < 12 then None
      else Some (Timestamp (be_val (take 8 b)) (be_val (drop 8 (take 12 b))), drop 12 b))"

record Lock =
  l_Primary :: bytes
  l_StartTS :: timestamp
  l_Deadline :: timestamp

type_synonym TxnStatus = byte

definition TxnPending :: TxnStatus where "TxnPending = 0"
definition TxnCommitted :: TxnStatus where "TxnCommitted = 1"
definition TxnRolledBack :: TxnStatus where "TxnRolledBack = 2"

record TxnRecord =
  t_Status :: TxnStatus
  t_StartTS :: timestamp
  t_CommitTS :: timestamp

definition encodeLock :: "Lock \<Rightarrow> bytes" where
  "encodeLock l =
     appendU32 (putTS (putTS [] (l_StartTS l)) (l_Deadline l)) (of_nat (length (l_Primary l))) @ l_Primary l"

definition decodeLock :: "bytes \<Rightarrow> Lock option" where
  "decodeLock b =
     (case takeTS b of None \<Rightarrow> None
      | Some (start, b1) \<Rightarrow>
          (case takeTS b1 of None \<Rightarrow> None
           | Some (deadline, b2) \<Rightarrow>
               if length b2 < 4 then None
               else if length (drop 4 b2) \<noteq> unat (be_val (take 4 b2) :: u32) then None
               else Some \<lparr>l_Primary = drop 4 b2, l_StartTS = start, l_Deadline = deadline\<rparr>))"

definition encodeWrite :: "timestamp \<Rightarrow> bool \<Rightarrow> bytes" where
  "encodeWrite startTS rollback = putTS [] startTS @ [if rollback then 1 else 0]"

definition decodeWrite :: "bytes \<Rightarrow> (timestamp \<times> bool) option" where
  "decodeWrite b =
     (case takeTS b of None \<Rightarrow> None
      | Some (st, rest) \<Rightarrow> if length rest \<noteq> 1 then None else Some (st, rest ! 0 = 1))"

definition encodeTxn :: "TxnRecord \<Rightarrow> bytes" where
  "encodeTxn r = putTS (putTS [t_Status r] (t_StartTS r)) (t_CommitTS r)"

definition decodeTxn :: "bytes \<Rightarrow> TxnRecord option" where
  "decodeTxn b =
     (if length b < 1 then None
      else (case takeTS (drop 1 b) of None \<Rightarrow> None
            | Some (start, b1) \<Rightarrow>
                (case takeTS b1 of None \<Rightarrow> None
                 | Some (commit, b2) \<Rightarrow>
                     Some \<lparr>t_Status = b ! 0, t_StartTS = start, t_CommitTS = commit\<rparr>)))"

lemma takeTS_putTS [rift_codec]: "takeTS (be_bytes 8 (Wall t) @ be_bytes 4 (Logical t) @ rest) = Some (t, rest)"
  by (cases t) (simp add: takeTS_def be_val_be_bytes)

interpretation ts_wire: wire_format "putTS []" takeTS "\<lambda>t. True"
  by unfold_locales (simp add: putTS_def rift_codec)

lemma decodeLock_encodeLock [rift_codec]: "length (l_Primary l) < 2 ^ 32 \<Longrightarrow> decodeLock (encodeLock l) = Some l"
  by (simp add: decodeLock_def encodeLock_def putTS_def appendU32_def rift_codec be_val_be_bytes unat_of_nat take_bit_nat_eq_self)

lemma decodeWrite_encodeWrite [rift_codec]: "decodeWrite (encodeWrite st rb) = Some (st, rb)"
  by (simp add: decodeWrite_def encodeWrite_def putTS_def rift_codec)

lemma decodeTxn_encodeTxn [rift_codec]: "decodeTxn (encodeTxn r) = Some r"
  using takeTS_putTS [of "t_CommitTS r" "[]"] by (simp add: decodeTxn_def encodeTxn_def putTS_def rift_codec)

section \<open>Decoding is the exact inverse of encoding\<close>

lemma read_inverted_append:
  "read_inverted (be_bytes 8 (NOT (Wall ts)) @ be_bytes 4 (NOT (Logical ts))) = ts"
  by (cases ts) (simp add: read_inverted_def be_val_be_bytes)

lemma read_inverted_inverse:
  assumes "length raw = 12"
  shows "be_bytes 8 (NOT (Wall (read_inverted raw))) @ be_bytes 4 (NOT (Logical (read_inverted raw))) = raw"
proof -
  have "be_bytes 8 (be_val (take 8 raw) :: u64) = take 8 raw" "be_bytes 4 (be_val (drop 8 raw) :: u32) = drop 8 raw"
    using assms by (intro be_bytes_be_val; simp)+
  then show ?thesis by (simp add: read_inverted_def)
qed

lemma takeMetaKey_iff:
  "takeMetaKey ns kind b = Some (key, rest) \<longleftrightarrow> b = metaKey ns kind key @ rest \<and> length key < 2 ^ 32"
proof
  assume l: "b = metaKey ns kind key @ rest \<and> length key < 2 ^ 32"
  then have "be_val (be_bytes 4 (of_nat (length key) :: u32)) = (of_nat (length key) :: u32)"
    by (simp add: be_val_be_bytes)
  moreover have "unat (of_nat (length key) :: u32) = length key"
    using l by (simp add: unat_of_nat take_bit_nat_eq_self)
  ultimately show "takeMetaKey ns kind b = Some (key, rest)"
    using l by (simp add: takeMetaKey_def metaKey_def appendU32_def Let_def nth_append)
next
  assume t: "takeMetaKey ns kind b = Some (key, rest)"
  define b' where "b' = drop (length ns + 1) b"
  define w where "w = (be_val (take 4 b') :: u32)"
  have b: "b = ns @ [kind] @ b'" "4 \<le> length b'"
    using t id_take_nth_drop [of "length ns" b]
    by (auto simp: takeMetaKey_def b'_def split: if_splits)
  have k: "key = take (unat w) (drop 4 b')" "rest = drop (unat w) (drop 4 b')" "unat w \<le> length (drop 4 b')"
    using t by (auto simp: takeMetaKey_def Let_def b'_def w_def not_less split: if_splits)
  have "be_bytes 4 w = take 4 b'" unfolding w_def using b(2) by (intro be_bytes_be_val) simp_all
  moreover have "length key = unat w" using k by simp
  moreover have "key @ rest = drop 4 b'" unfolding k by (rule append_take_drop_id)
  ultimately have "metaKey ns kind key @ rest = ns @ [kind] @ take 4 b' @ drop 4 b'"
    by (simp add: metaKey_def appendU32_def)
  moreover have "unat w < 2 ^ 32" using unsigned_less [of w, where ?'a = nat] by simp
  ultimately show "b = metaKey ns kind key @ rest \<and> length key < 2 ^ 32"
    using b(1) \<open>length key = unat w\<close> by simp
qed

lemma takeMetaKey_metaKey [rift_codec]:
  "length key < 2 ^ 32 \<Longrightarrow> takeMetaKey ns kind (metaKey ns kind key @ rest) = Some (key, rest)"
  by (simp add: takeMetaKey_iff)

lemma inverted_iff:
  "b = appendInvertedTS p ts \<longleftrightarrow> (\<exists>raw. b = p @ raw \<and> length raw = 12 \<and> read_inverted raw = ts)"
  by (auto simp: appendInvertedTS_def read_inverted_append read_inverted_inverse
      intro!: exI [of _ "be_bytes 8 (NOT (Wall ts)) @ be_bytes 4 (NOT (Logical ts))"])

lemma EncodeKey_metaKey: "EncodeKey ns key ts = appendInvertedTS (metaKey ns dataPrefix key) ts"
  by (simp add: EncodeKey_def metaKey_def)

lemma KeyPrefix_metaKey: "KeyPrefix ns key = metaKey ns dataPrefix key"
  by (simp add: KeyPrefix_def metaKey_def)

lemma DecodeKey_takeMetaKey:
  "DecodeKey ns b =
     (case takeMetaKey ns dataPrefix b of
        None \<Rightarrow> None
      | Some (key, rest) \<Rightarrow> if length rest \<noteq> 12 then None else Some (key, read_inverted rest))"
  by (auto simp: DecodeKey_def takeMetaKey_def Let_def ac_simps)

lemma decode_ts_iff:
  "(case takeMetaKey ns kind b of None \<Rightarrow> None
    | Some (key, rest) \<Rightarrow> if length rest \<noteq> 12 then None else Some (key, read_inverted rest)) = Some (key, ts)
   \<longleftrightarrow> b = appendInvertedTS (metaKey ns kind key) ts \<and> length key < 2 ^ 32"
    (is "?l \<longleftrightarrow> ?r")
proof -
  have "?l \<longleftrightarrow> (\<exists>rest. takeMetaKey ns kind b = Some (key, rest) \<and> length rest = 12 \<and> read_inverted rest = ts)"
    by (auto split: option.splits)
  then show ?thesis unfolding takeMetaKey_iff inverted_iff by auto
qed

lemma DecodeKey_iff: "DecodeKey ns b = Some (key, ts) \<longleftrightarrow> b = EncodeKey ns key ts \<and> length key < 2 ^ 32"
  unfolding DecodeKey_takeMetaKey decode_ts_iff EncodeKey_metaKey ..

lemma DecodeWriteKey_iff: "DecodeWriteKey ns b = Some (key, ts) \<longleftrightarrow> b = WriteKey ns key ts \<and> length key < 2 ^ 32"
  unfolding DecodeWriteKey_def decode_ts_iff WriteKey_def ..

lemma DecodeReadMarkKey_iff:
  "DecodeReadMarkKey ns b = Some (key, ts) \<longleftrightarrow> b = ReadMarkKey ns key ts \<and> length key < 2 ^ 32"
  unfolding DecodeReadMarkKey_def decode_ts_iff ReadMarkKey_def ..

lemma metaKey_append_inject:
  assumes "metaKey ns kind key @ rest = metaKey ns kind' key' @ rest'" "length key < 2 ^ 32" "length key' < 2 ^ 32"
  shows "kind = kind' \<and> key = key' \<and> rest = rest'"
proof -
  have k: "kind = kind'" using assms(1) by (simp add: metaKey_def appendU32_def)
  have "takeMetaKey ns kind (metaKey ns kind key @ rest) = takeMetaKey ns kind (metaKey ns kind key' @ rest')"
    using assms(1) k by simp
  then show ?thesis using assms(2,3) k by (simp add: takeMetaKey_metaKey)
qed

lemma appendInvertedTS_inject [simp]: "appendInvertedTS p ts = appendInvertedTS p ts' \<longleftrightarrow> ts = ts'"
  by (cases ts; cases ts') (auto simp: appendInvertedTS_def be_bytes_inject)

section \<open>Order and prefixes\<close>

text \<open>
  A prefix scan from \<open>p\<close> to \<^verbatim>\<open>prefixEnd(p)\<close> visits exactly the keys that start with \<open>p\<close>.
\<close>

lemma prefix_end_loop_Cons:
  "i \<le> length xs \<Longrightarrow> prefix_end_loop (Suc i) (x # xs) =
     (case prefix_end_loop i xs of Some e \<Rightarrow> Some (x # e) | None \<Rightarrow> if x \<noteq> 0xFF then Some [x + 1] else None)"
  by (induction i) auto

lemma prefixEnd_Cons:
  "prefixEnd (x # xs) = (case prefixEnd xs of Some e \<Rightarrow> Some (x # e) | None \<Rightarrow> if x \<noteq> 0xFF then Some [x + 1] else None)"
  unfolding prefixEnd_def using prefix_end_loop_Cons [of "length xs" xs x] by simp

lemma byte_less_succ: "x \<noteq> 0xFF \<Longrightarrow> y < x + 1 \<longleftrightarrow> y \<le> (x :: byte)"
proof -
  assume "x \<noteq> 0xFF"
  then have "unat x \<noteq> 255" by (simp add: word_unat_eq_iff)
  moreover have "unat x < 256" using unsigned_less [of x, where ?'a = nat] by simp
  ultimately have "unat (x + 1) = unat x + 1" by (simp add: unat_word_ariths)
  then show ?thesis by (simp add: word_less_nat_alt word_le_nat_alt less_Suc_eq_le)
qed

lemma byte_max: "y \<le> (0xFF :: byte)"
  using unsigned_less [of y, where ?'a = nat] by (simp add: word_le_nat_alt)

definition before_end :: "bytes \<Rightarrow> bytes option \<Rightarrow> bool" where
  "before_end k e = (case e of None \<Rightarrow> True | Some e \<Rightarrow> k < e)"

lemma prefixEnd_exact: "p \<le> k \<and> before_end k (prefixEnd p) \<longleftrightarrow> prefix p k"
proof (induction p arbitrary: k)
  case Nil
  show ?case by (simp add: prefixEnd_def before_end_def)
next
  case (Cons x xs)
  show ?case
  proof (cases k)
    case (Cons y ys)
    have "x # xs \<le> y # ys \<and> before_end (y # ys) (prefixEnd (x # xs)) \<longleftrightarrow>
      x = y \<and> xs \<le> ys \<and> before_end ys (prefixEnd xs)"
      using byte_less_succ [of x y] byte_max [of y]
      by (auto simp: prefixEnd_Cons before_end_def split: option.splits)
    with Cons.IH [of ys] Cons show ?thesis by simp
  qed simp
qed

lemma prefixEnd_InRange: "InRange k (Some p) (prefixEnd p) \<longleftrightarrow> prefix p k"
  using prefixEnd_exact [of p k] by (simp add: InRange_iff before_end_def split: option.splits)

text \<open>Timestamps with a wall reading that is not negative, which is what the byte order assumes.\<close>

definition ts_ok :: "timestamp \<Rightarrow> bool" where
  "ts_ok ts \<longleftrightarrow> 0 \<le> sint (Wall ts)"

lemma sint_less_unsigned:
  assumes "0 \<le> sint (v :: u64)" "0 \<le> sint (w :: u64)"
  shows "v < w \<longleftrightarrow> sint v < sint w"
proof -
  have "sint x = uint x" if "0 \<le> sint x" for x :: u64
    using that sint_lt [of x] by (simp add: uint_sint [of x] take_bit_int_eq_self)
  with assms show ?thesis by (simp add: word_less_def)
qed

lemma inverted_less_iff:
  assumes "ts_ok ts" "ts_ok ts'"
  shows "appendInvertedTS p ts < appendInvertedTS p ts' \<longleftrightarrow> ts' < ts"
proof -
  have "be_bytes 8 (NOT (Wall ts)) < be_bytes 8 (NOT (Wall ts')) \<longleftrightarrow> sint (Wall ts') < sint (Wall ts)"
    using assms sint_less_unsigned [of "Wall ts'" "Wall ts"] by (simp add: be_bytes_less_iff not_word_less_iff ts_ok_def)
  moreover have "be_bytes 8 (NOT (Wall ts)) = be_bytes 8 (NOT (Wall ts')) \<longleftrightarrow> Wall ts = Wall ts'"
    by (simp add: be_bytes_inject)
  ultimately show ?thesis
    by (auto simp: appendInvertedTS_def list_append_less_same_length be_bytes_less_iff not_word_less_iff less_timestamp_iff)
qed

lemma inverted_le_iff:
  assumes "ts_ok ts" "ts_ok ts'"
  shows "appendInvertedTS p ts \<le> appendInvertedTS p ts' \<longleftrightarrow> ts' \<le> ts"
  using inverted_less_iff [OF assms(2,1), of p] by (simp add: linorder_not_less [symmetric])

text \<open>C36: The key decoders accept exactly what the encoders write: a data, commit or read-mark key
  decodes to a user key and a timestamp if and only if it is the encoding of them under the same
  namespace (and the user key's length fits its four-byte field).\<close>

theorem key_codecs_exact:
  "(DecodeKey ns b = Some (key, ts) \<longleftrightarrow> b = EncodeKey ns key ts \<and> length key < 2 ^ 32) \<and>
   (DecodeWriteKey ns b = Some (key, ts) \<longleftrightarrow> b = WriteKey ns key ts \<and> length key < 2 ^ 32) \<and>
   (DecodeReadMarkKey ns b = Some (key, ts) \<longleftrightarrow> b = ReadMarkKey ns key ts \<and> length key < 2 ^ 32)"
  by (simp add: DecodeKey_iff DecodeWriteKey_iff DecodeReadMarkKey_iff)

text \<open>A scan from a prefix to \<^verbatim>\<open>prefixEnd\<close> of it visits exactly the keys that begin with the
  prefix, also when the prefix ends in bytes 0xFF or consists of them.\<close>

theorem prefix_scan_exact: "InRange k (Some p) (prefixEnd p) \<longleftrightarrow> prefix p k"
  by (rule prefixEnd_InRange)

text \<open>Within one user key the versions sort newest first, and the scan of one key's chain meets
  no version of another key: the byte order of two encodings of one key is the reverse of their
  timestamps, and an encoding lies in the chain of a key exactly when it is of that key.  Wall
  readings are taken to be nonnegative and keys shorter than four gigabytes.\<close>

theorem version_chain_order:
  assumes "ts_ok ts" "ts_ok ts'" "length key < 2 ^ 32" "length key' < 2 ^ 32"
  shows "(EncodeKey ns key ts < EncodeKey ns key ts' \<longleftrightarrow> ts' < ts) \<and>
    (InRange (EncodeKey ns key' ts) (Some (KeyPrefix ns key)) (prefixEnd (KeyPrefix ns key)) \<longleftrightarrow> key' = key)"
proof -
  have "prefix (metaKey ns dataPrefix key) (EncodeKey ns key' ts) \<longleftrightarrow> key' = key"
    unfolding EncodeKey_metaKey appendInvertedTS_def prefix_def
    using metaKey_append_inject [OF _ assms(4,3)] by blast
  then show ?thesis
    using inverted_less_iff [OF assms(1,2)]
    by (simp add: EncodeKey_metaKey KeyPrefix_metaKey prefixEnd_InRange)
qed

theorem version_chain_order_witness:
  "EncodeKey [1] [7] (Timestamp 9 0) < EncodeKey [1] [7] (Timestamp 5 3) \<and>
   \<not> InRange (EncodeKey [1] [7, 0] (Timestamp 9 0)) (Some (KeyPrefix [1] [7])) (prefixEnd (KeyPrefix [1] [7]))"
proof -
  have ok: "ts_ok (Timestamp 9 0)" "ts_ok (Timestamp 5 3)" by (simp_all add: ts_ok_def)
  have "Timestamp 5 3 < Timestamp 9 0" by (simp add: less_timestamp_iff)
  with version_chain_order [OF ok, of "[7]" "[7, 0]" "[1]"] show ?thesis by simp
qed

text \<open>The values of lock, commit and transaction records decode to what was encoded.\<close>

theorem record_values_roundtrip:
  "(length (l_Primary l) < 2 ^ 32 \<longrightarrow> decodeLock (encodeLock l) = Some l) \<and>
   decodeWrite (encodeWrite st rb) = Some (st, rb) \<and> decodeTxn (encodeTxn r) = Some r"
  by (simp add: rift_codec)

theorem record_values_roundtrip_witness:
  "decodeLock (encodeLock \<lparr>l_Primary = [1, 2], l_StartTS = Timestamp 3 4, l_Deadline = Timestamp 5 6\<rparr>) =
     Some \<lparr>l_Primary = [1, 2], l_StartTS = Timestamp 3 4, l_Deadline = Timestamp 5 6\<rparr>"
  using record_values_roundtrip [of "\<lparr>l_Primary = [1, 2], l_StartTS = Timestamp 3 4, l_Deadline = Timestamp 5 6\<rparr>"]
  by simp

end
