(* ===== verification/Mvcc.thy ===== *)
theory Mvcc
  imports Mvcc_Keys
begin

text \<open>
  The multi-version store, \<^verbatim>\<open>kv/store.go\<close>.  The engine a store works on is shared with the rest of
  its node and is an argument of the operations that read it; an operation that writes stages into
  a batch and returns it.  Every iterator an operation opens is closed before it returns, so the
  engine itself is unchanged.
\<close>

section \<open>The store\<close>

record Store =
  st_ns :: bytes
  gcMark :: timestamp
  foreignLocksKept :: nat
  reads :: nat
  readsRefused :: nat
  prewrites :: nat
  commits :: nat
  rollbacks :: nat
  readsBlocked :: nat
  uncertaintyRestarts :: nat
  rollForwards :: nat
  rollBacks :: nat
  versionsWrote :: nat
  versionsGCd :: nat
  readMarks :: nat
  readConflicts :: nat

datatype kv_error =
    ErrUnsetTimestamp | ErrBelowGCMark | VersionFromTheFuture timestamp timestamp
  | ErrKeyIsLocked bytes timestamp | ErrWriteConflict bytes timestamp timestamp
  | ErrTxnAlreadyDecided bytes TxnRecord | CommitBeforeStart timestamp timestamp
  | CommittedWithoutTimestamp | UncertaintyError bytes timestamp timestamp
  | LockedError bytes Lock | CommitWithoutVersion bytes timestamp timestamp

definition NewStore :: "bytes \<Rightarrow> Store" where
  "NewStore ns = \<lparr>st_ns = ns, gcMark = zeroTS, foreignLocksKept = 0, reads = 0, readsRefused = 0,
     prewrites = 0, commits = 0, rollbacks = 0, readsBlocked = 0, uncertaintyRestarts = 0,
     rollForwards = 0, rollBacks = 0, versionsWrote = 0, versionsGCd = 0, readMarks = 0, readConflicts = 0\<rparr>"

definition PutInto :: "Batch \<Rightarrow> bytes \<Rightarrow> timestamp \<Rightarrow> bytes \<Rightarrow> Store \<Rightarrow> kv_error option \<times> Batch \<times> Store" where
  "PutInto b key ts val s =
     (if \<not> IsSet ts then (Some ErrUnsetTimestamp, b, s)
      else if LessEq ts (gcMark s) then (Some ErrBelowGCMark, b, s)
      else (None, Set b (EncodeKey (st_ns s) key ts) val, s\<lparr>versionsWrote := versionsWrote s + 1\<rparr>))"

definition prefix_iter :: "DB \<Rightarrow> bytes \<Rightarrow> iter" where
  "prefix_iter db p = fst (NewIter db (Some p) (prefixEnd p))"

definition ReadAt :: "DB \<Rightarrow> bytes \<Rightarrow> timestamp \<Rightarrow> Store \<Rightarrow> (kv_error + bytes option) \<times> Store" where
  "ReadAt db key ts s =
     (if \<not> IsSet ts then (Inl ErrUnsetTimestamp, s)
      else (let s1 = s\<lparr>reads := reads s + 1\<rparr>
            in if LessEq ts (gcMark s1) then (Inl ErrBelowGCMark, s1\<lparr>readsRefused := readsRefused s1 + 1\<rparr>)
               else (let it = SeekGE (prefix_iter db (KeyPrefix (st_ns s1) key)) (EncodeKey (st_ns s1) key ts)
                     in (case (iter_Key it, iter_Value it) of
                           (Some k, Some val) \<Rightarrow>
                             (case DecodeKey (st_ns s1) k of
                                Some (gotKey, gotTS) \<Rightarrow>
                                  if gotKey \<noteq> key then (Inr None, s1)
                                  else if Less ts gotTS then (Inl (VersionFromTheFuture ts gotTS), s1)
                                  else (Inr (Some val), s1)
                              | None \<Rightarrow> (Inr None, s1))
                         | _ \<Rightarrow> (Inr None, s1)))))"

definition ReadLatest :: "DB \<Rightarrow> bytes \<Rightarrow> Store \<Rightarrow> bytes option \<times> Store" where
  "ReadLatest db key s =
     (let s1 = s\<lparr>reads := reads s + 1\<rparr>;
          it = SeekGE (prefix_iter db (KeyPrefix (st_ns s1) key)) (KeyPrefix (st_ns s1) key)
      in (case (iter_Key it, iter_Value it) of
            (Some k, Some val) \<Rightarrow>
              (case DecodeKey (st_ns s1) k of
                 Some (gotKey, gotTS) \<Rightarrow> (if gotKey \<noteq> key then None else Some val, s1)
               | None \<Rightarrow> (None, s1))
          | _ \<Rightarrow> (None, s1)))"

text \<open>
  The collection pass over the data versions in engine order.  \<open>cur\<close> is the key whose chain is
  being walked, \<open>kept\<close> whether its newest version below the new mark has been met.
\<close>

fun gc_loop :: "bytes \<Rightarrow> timestamp \<Rightarrow> entry list \<Rightarrow> bytes \<Rightarrow> bool \<Rightarrow> Batch \<Rightarrow> nat \<Rightarrow> Batch \<times> nat" where
  "gc_loop ns to [] cur kept b removed = (b, removed)"
| "gc_loop ns to (e # es) cur kept b removed =
     (case DecodeKey ns (fst e) of
        None \<Rightarrow> gc_loop ns to es cur kept b removed
      | Some (key, ts) \<Rightarrow>
          (let cur' = (if key \<noteq> cur then key else cur); kept' = (if key \<noteq> cur then False else kept)
           in if LessEq to ts then gc_loop ns to es cur' kept' b removed
              else if \<not> kept' then gc_loop ns to es cur' True b removed
              else gc_loop ns to es cur' kept' (Delete b (fst e)) (removed + 1)))"

definition AdvanceGCInto :: "DB \<Rightarrow> Batch \<Rightarrow> timestamp \<Rightarrow> Store \<Rightarrow> (kv_error + nat) \<times> Batch \<times> Store" where
  "AdvanceGCInto db b to s =
     (if \<not> IsSet to then (Inl ErrUnsetTimestamp, b, s)
      else if LessEq to (gcMark s) then (Inr 0, b, s)
      else (case gc_loop (st_ns s) to (iter_rest (First (prefix_iter db (st_ns s @ [dataPrefix])))) [] False b 0 of
              (b', removed) \<Rightarrow> (Inr removed, b', s\<lparr>gcMark := to, versionsGCd := versionsGCd s + removed\<rparr>)))"

definition SetGCMark :: "timestamp \<Rightarrow> Store \<Rightarrow> Store" where
  "SetGCMark ts s = s\<lparr>gcMark := ts\<rparr>"

record Version =
  v_Key :: bytes
  v_At :: timestamp
  v_Value :: bytes

fun versions_loop :: "bytes \<Rightarrow> entry list \<Rightarrow> Version list" where
  "versions_loop ns [] = []"
| "versions_loop ns (e # es) =
     (case DecodeKey ns (fst e) of
        None \<Rightarrow> versions_loop ns es
      | Some (key, ts) \<Rightarrow> \<lparr>v_Key = key, v_At = ts, v_Value = snd e\<rparr> # versions_loop ns es)"

definition Versions :: "DB \<Rightarrow> Store \<Rightarrow> Version list" where
  "Versions db s = versions_loop (st_ns s) (iter_rest (First (prefix_iter db (st_ns s @ [dataPrefix]))))"

definition IngestInto :: "Batch \<Rightarrow> Version list \<Rightarrow> timestamp \<Rightarrow> Store \<Rightarrow> Batch \<times> Store" where
  "IngestInto b vs mark s =
     (let lo = st_ns s @ [dataPrefix]; b1 = DeleteRange b (Some lo) (prefixEnd lo)
      in (foldl (\<lambda>b v. Set b (EncodeKey (st_ns s) (v_Key v) (v_At v)) (v_Value v)) b1 vs,
          s\<lparr>gcMark := mark\<rparr>))"

fun keys_loop :: "bytes list \<Rightarrow> Version list \<Rightarrow> bytes list" where
  "keys_loop acc [] = acc"
| "keys_loop acc (v # vs) =
     (if length acc = 0 \<or> acc ! (length acc - 1) \<noteq> v_Key v then keys_loop (acc @ [v_Key v]) vs
      else keys_loop acc vs)"

definition Keys :: "DB \<Rightarrow> Store \<Rightarrow> bytes list" where
  "Keys db s = keys_loop [] (Versions db s)"

definition owns :: "Store \<Rightarrow> bytes \<Rightarrow> bool" where
  "owns s engineKey \<longleftrightarrow>
     \<not> (length engineKey \<le> length (st_ns s) \<or> take (length (st_ns s)) engineKey \<noteq> st_ns s) \<and>
     engineKey ! length (st_ns s) \<in> {dataPrefix, lockPrefix, writePrefix, txnPrefix, readPrefix}"

type_synonym Record = entry

definition Records :: "DB \<Rightarrow> Store \<Rightarrow> Record list" where
  "Records db s = filter (\<lambda>e. owns s (fst e)) (iter_rest (First (prefix_iter db (st_ns s))))"

definition IngestRecordsInto :: "Batch \<Rightarrow> Record list \<Rightarrow> timestamp \<Rightarrow> Store \<Rightarrow> Batch \<times> Store" where
  "IngestRecordsInto b rs mark s =
     (let b1 = foldl (\<lambda>b kind. DeleteRange b (Some (st_ns s @ [kind])) (prefixEnd (st_ns s @ [kind]))) b
                 [dataPrefix, lockPrefix, writePrefix, txnPrefix, readPrefix]
      in (foldl (\<lambda>b r. Set b (fst r) (snd r)) b1 rs, s\<lparr>gcMark := mark\<rparr>))"

definition UserKeyOf :: "Store \<Rightarrow> bytes \<Rightarrow> bytes option" where
  "UserKeyOf s engineKey =
     (if \<not> owns s engineKey then None
      else (case takeMetaKey (st_ns s) (engineKey ! length (st_ns s)) engineKey of
              None \<Rightarrow> None | Some (key, rest) \<Rightarrow> Some key))"

section \<open>Reading through iterators\<close>

text \<open>An iterator opened and closed leaves the engine as it was.\<close>

lemma iter_open_close: "snd (iter_Close it (snd (NewIter db lo hi))) = db"
  by (simp add: NewIter_def iter_Close_def)

abbreviation content :: "DB \<Rightarrow> entry list" where
  "content db \<equiv> entries (visible db)"

definition first_entry :: "entry list \<Rightarrow> entry option" where
  "first_entry es = (case es of [] \<Rightarrow> None | e # _ \<Rightarrow> Some e)"

lemma iter_head:
  assumes "keys_sorted (entries (it_v it))" "0 \<le> p"
  shows "iter_Key (settle it p) = map_option fst (first_entry (iter_rest (settle it p)))"
    "iter_Value (settle it p) = map_option snd (first_entry (iter_rest (settle it p)))"
proof -
  have b: "int (snd (iter_bounds it)) \<le> int (length (entries (it_v it)))"
    using iter_bounds_le(2) [OF assms(1)] by simp
  show "iter_Key (settle it p) = map_option fst (first_entry (iter_rest (settle it p)))"
    using assms(2) b by (subst iter_rest.simps) (auto simp: first_entry_def iter_Key_def iter_Value_def)
  show "iter_Value (settle it p) = map_option snd (first_entry (iter_rest (settle it p)))"
    using assms(2) b by (subst iter_rest.simps) (auto simp: first_entry_def iter_Key_def iter_Value_def)
qed

lemma SeekGE_settle: "\<exists>p \<ge> 0. SeekGE it key = settle it p"
  unfolding SeekGE_def Let_def by (intro exI conjI) (rule of_nat_0_le_iff, rule refl)

lemma prefix_iter_rest:
  assumes "keys_sorted (content db)"
  shows "iter_rest (First (prefix_iter db p)) = filter (\<lambda>e. prefix p (fst e)) (content db)"
    "iter_rest (SeekGE (prefix_iter db p) key) = filter (\<lambda>e. prefix p (fst e) \<and> key \<le> fst e) (content db)"
  using First_rest [OF assms] SeekGE_rest [OF assms]
  by (simp_all add: prefix_iter_def NewIter_def prefixEnd_InRange)

lemma SeekGE_head:
  assumes "keys_sorted (content db)"
  shows "iter_Key (SeekGE (prefix_iter db p) key) =
      map_option fst (first_entry (filter (\<lambda>e. prefix p (fst e) \<and> key \<le> fst e) (content db)))"
    "iter_Value (SeekGE (prefix_iter db p) key) =
      map_option snd (first_entry (filter (\<lambda>e. prefix p (fst e) \<and> key \<le> fst e) (content db)))"
proof -
  obtain q where q: "q \<ge> 0" "SeekGE (prefix_iter db p) key = settle (prefix_iter db p) q"
    using SeekGE_settle by blast
  have "keys_sorted (entries (it_v (prefix_iter db p)))"
    using assms by (simp add: prefix_iter_def NewIter_def newIter_def)
  from iter_head [OF this q(1)] show
    "iter_Key (SeekGE (prefix_iter db p) key) =
      map_option fst (first_entry (filter (\<lambda>e. prefix p (fst e) \<and> key \<le> fst e) (content db)))"
    "iter_Value (SeekGE (prefix_iter db p) key) =
      map_option snd (first_entry (filter (\<lambda>e. prefix p (fst e) \<and> key \<le> fst e) (content db)))"
    by (simp_all add: q(2) prefix_iter_rest(2) [OF assms, of p key, unfolded q(2)])
qed

section \<open>Well-formed contents\<close>

text \<open>
  Every record of a kind that carries a timestamp in its key decodes, with a nonnegative wall
  reading, and the value of a commit record decodes too.
\<close>

definition stamped :: "bytes \<Rightarrow> byte \<Rightarrow> bytes \<Rightarrow> bool" where
  "stamped ns kind k \<longleftrightarrow>
     (\<exists>key ts. k = appendInvertedTS (metaKey ns kind key) ts \<and> length key < 2 ^ 32 \<and> ts_ok ts)"

definition rec_ok :: "bytes \<Rightarrow> entry \<Rightarrow> bool" where
  "rec_ok ns e \<longleftrightarrow>
     (\<forall>kind \<in> {dataPrefix, writePrefix, readPrefix}. prefix (ns @ [kind]) (fst e) \<longrightarrow> stamped ns kind (fst e)) \<and>
     (prefix (ns @ [writePrefix]) (fst e) \<longrightarrow> decodeWrite (snd e) \<noteq> None)"

definition store_ok :: "bytes \<Rightarrow> entry list \<Rightarrow> bool" where
  "store_ok ns es \<longleftrightarrow> keys_sorted es \<and> (\<forall>e \<in> set es. rec_ok ns e)"

lemma first_entry_simps [simp]:
  "first_entry [] = None" "first_entry (e # es) = Some e" "first_entry es = None \<longleftrightarrow> es = []"
  by (simp_all add: first_entry_def split: list.splits)

lemma first_entry_filter:
  assumes "keys_sorted es"
  shows "first_entry (filter P es) = None \<longleftrightarrow> (\<forall>e \<in> set es. \<not> P e)"
    "first_entry (filter P es) = Some e \<longleftrightarrow>
      e \<in> set es \<and> P e \<and> (\<forall>e' \<in> set es. P e' \<longrightarrow> e' = e \<or> fst e < fst e')"
proof -
  show "first_entry (filter P es) = None \<longleftrightarrow> (\<forall>e \<in> set es. \<not> P e)"
    by (simp add: filter_empty_conv)
  show "first_entry (filter P es) = Some e \<longleftrightarrow>
      e \<in> set es \<and> P e \<and> (\<forall>e' \<in> set es. P e' \<longrightarrow> e' = e \<or> fst e < fst e')"
    using assms
  proof (induction es)
    case (Cons x xs)
    have lt: "\<forall>y \<in> set xs. fst x < fst y" and srt: "keys_sorted xs"
      using Cons.prems by (auto simp: keys_sorted_Cons)
    show ?case
    proof (cases "P x")
      case True
      have "e = x" if "e \<in> set (x # xs)" "e = x \<or> fst e < fst x"
        using that lt by (meson less_asym set_ConsD)
      with True lt show ?thesis by auto
    next
      case False
      then show ?thesis using Cons.IH [OF srt] by auto
    qed
  qed simp
qed

lemma metaKey_prefix_kind: "prefix (metaKey ns kind key) k \<Longrightarrow> prefix (ns @ [kind]) k"
  by (auto simp: metaKey_def appendU32_def prefix_def)

lemma kind_prefix_unique: "prefix (ns @ [kind]) k \<Longrightarrow> prefix (ns @ [kind']) k \<Longrightarrow> kind = kind'"
  by (auto simp: prefix_def)

text \<open>In a well-formed content, a key's chain of one kind is what its stamped keys say.\<close>

lemma chain_member:
  assumes "store_ok ns es" "kind \<in> {dataPrefix, writePrefix, readPrefix}" "length key < 2 ^ 32"
    "e \<in> set es" "prefix (metaKey ns kind key) (fst e)"
  obtains ts where "fst e = appendInvertedTS (metaKey ns kind key) ts" "ts_ok ts"
proof -
  have "stamped ns kind (fst e)"
    using assms metaKey_prefix_kind unfolding store_ok_def rec_ok_def by blast
  then obtain key' ts where k: "fst e = appendInvertedTS (metaKey ns kind key') ts" "length key' < 2 ^ 32" "ts_ok ts"
    unfolding stamped_def by blast
  moreover have "key' = key"
    using assms(5) k metaKey_append_inject [OF _ assms(3) k(2)]
    unfolding appendInvertedTS_def prefix_def by metis
  ultimately show ?thesis using that by simp
qed

lemma prefix_inverted [simp]: "prefix p (appendInvertedTS p ts)"
  by (simp add: appendInvertedTS_def)

text \<open>The versions of one kind under a key, as a function of the timestamp.\<close>

definition chain_of :: "entry list \<Rightarrow> bytes \<Rightarrow> byte \<Rightarrow> bytes \<Rightarrow> timestamp \<Rightarrow> bytes option" where
  "chain_of es ns kind key ts = map_of es (appendInvertedTS (metaKey ns kind key) ts)"

lemma chain_of_Some:
  assumes "keys_sorted es"
  shows "chain_of es ns kind key ts = Some v \<longleftrightarrow> (appendInvertedTS (metaKey ns kind key) ts, v) \<in> set es"
  unfolding chain_of_def using keys_sorted_distinct [OF assms] by (rule map_of_eq_Some_iff)

lemma chain_of_ts_ok:
  assumes "store_ok ns es" "kind \<in> {dataPrefix, writePrefix, readPrefix}" "length key < 2 ^ 32"
    "chain_of es ns kind key ts = Some v"
  shows "ts_ok ts"
proof -
  have "(appendInvertedTS (metaKey ns kind key) ts, v) \<in> set es"
    using assms(1,4) by (simp add: chain_of_Some store_ok_def)
  from chain_member [OF assms(1-3) this]
  obtain t where "appendInvertedTS (metaKey ns kind key) ts = appendInvertedTS (metaKey ns kind key) t" "ts_ok t"
    by auto
  then show ?thesis by simp
qed

definition newest_at :: "(timestamp \<Rightarrow> bytes option) \<Rightarrow> timestamp \<Rightarrow> bytes option \<Rightarrow> bool" where
  "newest_at f ts r \<longleftrightarrow>
     (case r of None \<Rightarrow> \<forall>t \<le> ts. f t = None
      | Some v \<Rightarrow> \<exists>t \<le> ts. f t = Some v \<and> (\<forall>t'. t < t' \<and> t' \<le> ts \<longrightarrow> f t' = None))"

lemma newest_at_unique: "newest_at f ts r \<Longrightarrow> newest_at f ts r' \<Longrightarrow> r = r'"
proof (cases r; cases r')
  fix v v'
  assume a: "newest_at f ts r" "newest_at f ts r'" "r = Some v" "r' = Some v'"
  then obtain t t' where "t \<le> ts" "f t = Some v" "\<forall>u. t < u \<and> u \<le> ts \<longrightarrow> f u = None"
    "t' \<le> ts" "f t' = Some v'" "\<forall>u. t' < u \<and> u \<le> ts \<longrightarrow> f u = None"
    unfolding newest_at_def by auto
  then have "t = t'" by (metis linorder_neqE option.distinct(1))
  with a \<open>f t = Some v\<close> \<open>f t' = Some v'\<close> show "r = r'" by simp
qed (auto simp: newest_at_def)

lemma seek_newest:
  assumes ok: "store_ok ns es" "kind \<in> {dataPrefix, writePrefix, readPrefix}" "length key < 2 ^ 32" and ts: "ts_ok ts"
    and f: "first_entry (filter (\<lambda>e. prefix (metaKey ns kind key) (fst e) \<and>
              appendInvertedTS (metaKey ns kind key) ts \<le> fst e) es) = r"
  shows "newest_at (chain_of es ns kind key) ts (map_option snd r)"
    "r = Some e \<Longrightarrow> \<exists>t \<le> ts. fst e = appendInvertedTS (metaKey ns kind key) t"
proof -
  let ?p = "metaKey ns kind key"
  have srt: "keys_sorted es" using ok(1) by (simp add: store_ok_def)
  have none: "chain_of es ns kind key t = None"
    if "\<not> (\<exists>e \<in> set es. fst e = appendInvertedTS ?p t)" for t
    using that srt by (metis chain_of_Some fst_conv not_Some_eq)
  have in_chain: "\<exists>t \<le> ts. fst e = appendInvertedTS ?p t \<and> ts_ok t" if "e \<in> set es" "prefix ?p (fst e)" "appendInvertedTS ?p ts \<le> fst e" for e
    using chain_member [OF ok that(1,2)] that(3) inverted_le_iff [OF ts] by metis
  have some: "e \<in> set es \<and> (prefix ?p (fst e) \<and> appendInvertedTS ?p ts \<le> fst e) \<and>
      (\<forall>e' \<in> set es. prefix ?p (fst e') \<and> appendInvertedTS ?p ts \<le> fst e' \<longrightarrow> e' = e \<or> fst e < fst e')"
    if "r = Some e" for e
    using f that first_entry_filter(2) [OF srt] by simp
  then show "r = Some e \<Longrightarrow> \<exists>t \<le> ts. fst e = appendInvertedTS ?p t"
    using in_chain by blast
  show "newest_at (chain_of es ns kind key) ts (map_option snd r)"
  proof (cases r)
    case None
    have "chain_of es ns kind key t = None" if t: "t \<le> ts" for t
    proof (rule ccontr)
      assume "chain_of es ns kind key t \<noteq> None"
      then obtain v where v: "chain_of es ns kind key t = Some v" by blast
      then have "(appendInvertedTS ?p t, v) \<in> set es" by (simp add: chain_of_Some [OF srt])
      moreover have "appendInvertedTS ?p ts \<le> appendInvertedTS ?p t"
        using t inverted_le_iff [OF ts chain_of_ts_ok [OF ok v]] by simp
      ultimately show False
        using f [unfolded None] unfolding first_entry_filter(1) [OF srt] by fastforce
    qed
    with None show ?thesis by (simp add: newest_at_def)
  next
    case (Some e)
    then have e: "e \<in> set es" "prefix ?p (fst e)" "appendInvertedTS ?p ts \<le> fst e"
      and least: "\<And>e'. e' \<in> set es \<Longrightarrow> prefix ?p (fst e') \<Longrightarrow> appendInvertedTS ?p ts \<le> fst e' \<Longrightarrow> e' = e \<or> fst e < fst e'"
      using some [OF Some] by blast+
    obtain t where t: "t \<le> ts" "fst e = appendInvertedTS ?p t" "ts_ok t" using in_chain [OF e] by blast
    have "chain_of es ns kind key t = Some (snd e)"
      using e(1) t(2) by (metis chain_of_Some [OF srt] prod.collapse)
    moreover have "chain_of es ns kind key t' = None" if t': "t < t'" "t' \<le> ts" for t'
    proof (rule ccontr)
      assume "chain_of es ns kind key t' \<noteq> None"
      then obtain v where v: "chain_of es ns kind key t' = Some v" by blast
      have ok': "ts_ok t'" by (rule chain_of_ts_ok [OF ok v])
      have "(appendInvertedTS ?p t', v) \<in> set es" using v by (simp add: chain_of_Some [OF srt])
      moreover have "appendInvertedTS ?p ts \<le> appendInvertedTS ?p t'"
        using inverted_le_iff [OF ts ok'] t'(2) by simp
      moreover have "appendInvertedTS ?p t' < fst e"
        using inverted_less_iff [OF ok' t(3)] t'(1) t(2) by simp
      ultimately show False using least [of "(appendInvertedTS ?p t', v)"] by auto
    qed
    ultimately show ?thesis using t(1) Some by (auto simp: newest_at_def)
  qed
qed

text \<open>The records the operations write are well formed.\<close>

lemma kinds_distinct [simp]:
  "dataPrefix \<noteq> writePrefix" "dataPrefix \<noteq> readPrefix" "writePrefix \<noteq> readPrefix"
  "lockPrefix \<noteq> dataPrefix" "lockPrefix \<noteq> writePrefix" "lockPrefix \<noteq> readPrefix"
  "txnPrefix \<noteq> dataPrefix" "txnPrefix \<noteq> writePrefix" "txnPrefix \<noteq> readPrefix" "txnPrefix \<noteq> lockPrefix"
  by (simp_all add: kind_defs)

lemmas kinds_distinct_sym [simp] = kinds_distinct [THEN not_sym]

lemma kind_of_metaKey: "prefix (ns @ [kind]) (metaKey ns kind' key @ rest) \<longleftrightarrow> kind' = kind"
  by (auto simp: metaKey_def appendU32_def)

lemma rec_ok_kind:
  assumes "length key < 2 ^ 32" "ts_ok ts" "kind = writePrefix \<longrightarrow> decodeWrite v \<noteq> None"
  shows "rec_ok ns (appendInvertedTS (metaKey ns kind key) ts, v)"
proof -
  have k: "prefix (ns @ [kind']) (appendInvertedTS (metaKey ns kind key) ts) \<longleftrightarrow> kind = kind'" for kind'
    unfolding appendInvertedTS_def by (rule kind_of_metaKey)
  have "stamped ns kind (appendInvertedTS (metaKey ns kind key) ts)"
    unfolding stamped_def using assms(1,2) by blast
  with assms(3) show ?thesis unfolding rec_ok_def fst_conv snd_conv k by blast
qed

lemma rec_ok_plain:
  "kind \<notin> {dataPrefix, writePrefix, readPrefix} \<Longrightarrow> rec_ok ns (metaKey ns kind key, v)"
  using kind_of_metaKey [of ns _ kind key "[]"] unfolding rec_ok_def by auto

lemma rec_ok_written:
  "length key < 2 ^ 32 \<Longrightarrow> ts_ok ts \<Longrightarrow> rec_ok ns (EncodeKey ns key ts, v)"
  "length key < 2 ^ 32 \<Longrightarrow> ts_ok ts \<Longrightarrow> rec_ok ns (WriteKey ns key ts, encodeWrite st rb)"
  "length key < 2 ^ 32 \<Longrightarrow> ts_ok ts \<Longrightarrow> rec_ok ns (ReadMarkKey ns key ts, v)"
  "length key < 2 ^ 32 \<Longrightarrow> ts_ok ts \<Longrightarrow> rec_ok ns (TxnKey ns key ts, v)"
  "rec_ok ns (LockKey ns key, v)"
  by (simp_all add: EncodeKey_metaKey WriteKey_def ReadMarkKey_def TxnKey_def LockKey_def rec_ok_kind rec_ok_plain rift_codec)

lemma store_ok_Nil [simp]: "store_ok ns []"
  by (simp add: store_ok_def)

section \<open>Reads\<close>

lemma Get_content: "keys_sorted (content db) \<Longrightarrow> Get db k = map_of (content db) k"
  by (simp add: Get_def version_get_map)

lemma chain_of_Get:
  "keys_sorted (content db) \<Longrightarrow> chain_of (content db) ns dataPrefix key = (\<lambda>t. Get db (EncodeKey ns key t))"
  by (simp add: fun_eq_iff chain_of_def Get_content EncodeKey_metaKey)

lemma ReadAt_answers:
  assumes "store_ok (st_ns s) (content db)" "length key < 2 ^ 32" "ts_ok ts"
  shows "\<exists>r. newest_at (\<lambda>t. Get db (EncodeKey (st_ns s) key t)) ts r \<and>
    fst (ReadAt db key ts s) =
      (if \<not> IsSet ts then Inl ErrUnsetTimestamp else if ts \<le> gcMark s then Inl ErrBelowGCMark else Inr r)"
proof -
  let ?ns = "st_ns s" and ?es = "content db"
  have srt: "keys_sorted ?es" using assms(1) by (simp add: store_ok_def)
  define r where "r = first_entry (filter (\<lambda>e. prefix (metaKey ?ns dataPrefix key) (fst e) \<and>
      appendInvertedTS (metaKey ?ns dataPrefix key) ts \<le> fst e) ?es)"
  have new: "newest_at (\<lambda>t. Get db (EncodeKey ?ns key t)) ts (map_option snd r)"
    using seek_newest(1) [OF assms(1) _ assms(2,3) r_def [symmetric]] by (simp add: chain_of_Get [OF srt])
  have at: "\<exists>t \<le> ts. fst e = EncodeKey ?ns key t" if "r = Some e" for e
    using seek_newest(2) [OF assms(1) _ assms(2,3) r_def [symmetric] that] by (simp add: EncodeKey_metaKey)
  have heads: "iter_Key (SeekGE (prefix_iter db (KeyPrefix ?ns key)) (EncodeKey ?ns key ts)) = map_option fst r"
    "iter_Value (SeekGE (prefix_iter db (KeyPrefix ?ns key)) (EncodeKey ?ns key ts)) = map_option snd r"
    by (simp_all add: SeekGE_head [OF srt] r_def KeyPrefix_metaKey EncodeKey_metaKey)
  have "fst (ReadAt db key ts s) = Inr (map_option snd r)" if set: "IsSet ts" "gcMark s < ts"
  proof (cases r)
    case None
    with set heads show ?thesis by (simp add: ReadAt_def Let_def)
  next
    case (Some e)
    obtain t where t: "t \<le> ts" "fst e = EncodeKey ?ns key t" using at [OF Some] by blast
    then have "DecodeKey ?ns (fst e) = Some (key, t)" using assms(2) by (simp add: DecodeKey_iff)
    with Some t set heads show ?thesis by (simp add: ReadAt_def Let_def not_less not_le)
  qed
  then have "fst (ReadAt db key ts s) =
      (if \<not> IsSet ts then Inl ErrUnsetTimestamp else if ts \<le> gcMark s then Inl ErrBelowGCMark else Inr (map_option snd r))"
    by (simp add: ReadAt_def not_le)
  with new show ?thesis by blast
qed

text \<open>C28: A read at a timestamp above the collection mark returns the newest version at or before
  it, and reports absence exactly when there is none; the read never lands on a later version.  A read
  without a timestamp, and a read at or below the mark, are refused as such.\<close>

theorem ReadAt_newest:
  assumes "store_ok (st_ns s) (content db)" "length key < 2 ^ 32" "ts_ok ts"
  shows "\<exists>r. newest_at (\<lambda>t. Get db (EncodeKey (st_ns s) key t)) ts r \<and>
    fst (ReadAt db key ts s) =
      (if \<not> IsSet ts then Inl ErrUnsetTimestamp else if ts \<le> gcMark s then Inl ErrBelowGCMark else Inr r)"
  using assms by (rule ReadAt_answers)

lemma EncodeKey_less:
  "ts_ok t \<Longrightarrow> ts_ok t' \<Longrightarrow> EncodeKey ns key t < EncodeKey ns key t' \<longleftrightarrow> t' < t"
  by (simp add: EncodeKey_metaKey inverted_less_iff)

text \<open>A small content: three versions of one key, newest first.\<close>

definition demo_db :: DB where
  "demo_db = Engine.New\<lparr>durable := \<lparr>entries =
     [(EncodeKey [1] [7] (Timestamp 9 0), [90]), (EncodeKey [1] [7] (Timestamp 5 0), [50]),
      (EncodeKey [1] [7] (Timestamp 3 0), [30])], v_seq = 1\<rparr>\<rparr>"

lemma demo_content [simp]:
  "content demo_db = [(EncodeKey [1] [7] (Timestamp 9 0), [90]), (EncodeKey [1] [7] (Timestamp 5 0), [50]),
      (EncodeKey [1] [7] (Timestamp 3 0), [30])]" "\<not> closed demo_db"
  by (simp_all add: demo_db_def visible_def Engine.New_def)

lemma demo_store_ok: "store_ok [1] (content demo_db)"
  by (simp add: store_ok_def rec_ok_written ts_ok_def keys_sorted_Cons EncodeKey_less less_timestamp_iff)

theorem ReadAt_newest_witness:
  "fst (ReadAt demo_db [7] (Timestamp 8 0) (NewStore [1])) = Inr (Some [50])"
proof -
  let ?s = "NewStore [1]"
  have ok: "store_ok (st_ns ?s) (content demo_db)" using demo_store_ok by (simp add: NewStore_def)
  have h: "ts_ok (Timestamp 8 0)" "IsSet (Timestamp 8 0)" "gcMark ?s < Timestamp 8 0" "length [7 :: byte] < 2 ^ 32"
    by (simp_all add: ts_ok_def IsSet_def Wall_IsSet_def NewStore_def zeroTS_def less_timestamp_iff)
  have g: "Get demo_db (EncodeKey [1] [7] t) =
      (if t = Timestamp 9 0 then Some [90] else if t = Timestamp 5 0 then Some [50] else if t = Timestamp 3 0 then Some [30] else None)" for t
    using demo_store_ok by (simp add: Get_content store_ok_def EncodeKey_metaKey)
  obtain r where r: "fst (ReadAt demo_db [7] (Timestamp 8 0) ?s) = Inr r"
    "newest_at (\<lambda>t. Get demo_db (EncodeKey [1] [7] t)) (Timestamp 8 0) r"
    using ReadAt_newest [OF ok h(4,1)] h(2,3) unfolding linorder_not_le [symmetric] by (auto simp: NewStore_def)
  have "newest_at (\<lambda>t. Get demo_db (EncodeKey [1] [7] t)) (Timestamp 8 0) (Some [50])"
    unfolding newest_at_def g option.case
    by (intro exI [of _ "Timestamp 5 0"]) (auto simp: less_timestamp_iff less_eq_timestamp_iff)
  with r newest_at_unique show ?thesis by blast
qed

section \<open>Collection\<close>

lemma prefix_between: "prefix (p :: bytes) a \<Longrightarrow> prefix p b \<Longrightarrow> a \<le> x \<Longrightarrow> x \<le> b \<Longrightarrow> prefix p x"
  using prefixEnd_exact [of p a] prefixEnd_exact [of p b] prefixEnd_exact [of p x]
  by (auto simp: before_end_def split: option.splits)

text \<open>A version is stale for a new mark when a newer version of its key is still below the mark.\<close>

definition stale :: "bytes \<Rightarrow> timestamp \<Rightarrow> bytes set \<Rightarrow> bytes \<Rightarrow> bool" where
  "stale ns to ks k \<longleftrightarrow> (\<exists>key t t0. k = EncodeKey ns key t \<and> length key < 2 ^ 32 \<and> t < t0 \<and> t0 < to \<and>
     EncodeKey ns key t0 \<in> ks)"

lemma EncodeKey_inject:
  "length key < 2 ^ 32 \<Longrightarrow> length key' < 2 ^ 32 \<Longrightarrow> EncodeKey ns key t = EncodeKey ns key' t' \<longleftrightarrow> key = key' \<and> t = t'"
  using DecodeKey_iff [of ns "EncodeKey ns key t"] by (metis Pair_inject option.inject)

lemma stale_version:
  assumes "length key < 2 ^ 32"
  shows "stale ns to ks (EncodeKey ns key t) \<longleftrightarrow> (\<exists>t0. t < t0 \<and> t0 < to \<and> EncodeKey ns key t0 \<in> ks)"
  unfolding stale_def using assms EncodeKey_inject [OF assms] by metis

lemma EncodeKey_between:
  assumes "EncodeKey ns key a \<le> EncodeKey ns key' x" "EncodeKey ns key' x \<le> EncodeKey ns key b"
    "length key < 2 ^ 32" "length key' < 2 ^ 32"
  shows "key' = key"
proof -
  have "prefix (metaKey ns dataPrefix key) (EncodeKey ns key' x)"
    by (rule prefix_between [OF _ _ assms(1,2)]) (simp_all add: EncodeKey_metaKey)
  then show ?thesis
    using metaKey_append_inject [OF _ assms(4,3)]
    unfolding EncodeKey_metaKey appendInvertedTS_def prefix_def by blast
qed


text \<open>What the pass knows when it has walked \<open>don\<close> and has \<open>es\<close> to go.\<close>

definition gc_state :: "bytes \<Rightarrow> timestamp \<Rightarrow> entry list \<Rightarrow> entry list \<Rightarrow> bytes \<Rightarrow> bool \<Rightarrow> bool" where
  "gc_state ns to don es cur kept \<longleftrightarrow>
     keys_sorted (don @ es) \<and> (\<forall>e \<in> set (don @ es). stamped ns dataPrefix (fst e)) \<and>
     (\<forall>key t t0. length key < 2 ^ 32 \<and> EncodeKey ns key t0 \<in> fst ` set don \<and> t0 < to \<and> EncodeKey ns key t \<in> fst ` set es
        \<longrightarrow> cur = key \<and> kept) \<and>
     (kept \<longrightarrow> (\<exists>t0. EncodeKey ns cur t0 \<in> fst ` set don \<and> t0 < to))"

lemma gc_state_ts_ok:
  assumes "gc_state ns to don es cur kept" "EncodeKey ns k t \<in> fst ` set (don @ es)" "length k < 2 ^ 32"
  shows "ts_ok t"
proof -
  obtain e where "e \<in> set (don @ es)" "fst e = EncodeKey ns k t" using assms(2) by force
  then have "stamped ns dataPrefix (EncodeKey ns k t)"
    using assms(1) unfolding gc_state_def by (auto simp del: set_append)
  then obtain k' t' where "EncodeKey ns k t = EncodeKey ns k' t'" "length k' < 2 ^ 32" "ts_ok t'"
    by (auto simp: stamped_def EncodeKey_metaKey)
  then show ?thesis using EncodeKey_inject [OF assms(3)] by simp
qed

lemma keys_split: "fst ` set (don @ e # es) = fst ` set don \<union> {fst e} \<union> fst ` set es"
  by auto

lemma gc_state_order:
  assumes "gc_state ns to don (e # es) cur kept"
  shows "a \<in> fst ` set don \<Longrightarrow> a < fst e" "a \<in> fst ` set es \<Longrightarrow> fst e < a"
  using assms by (auto simp: gc_state_def keys_sorted_append keys_sorted_Cons)

lemma gc_state_head:
  assumes st: "gc_state ns to don (e # es) cur kept" and e: "fst e = EncodeKey ns key ts" "length key < 2 ^ 32" "ts_ok ts"
  shows "stale ns to (fst ` set (don @ e # es)) (fst e) \<longleftrightarrow> ts < to \<and> key = cur \<and> kept"
proof
  assume "stale ns to (fst ` set (don @ e # es)) (fst e)"
  then obtain t0 where t0: "ts < t0" "t0 < to" "EncodeKey ns key t0 \<in> fst ` set (don @ e # es)"
    using e EncodeKey_inject unfolding stale_def by metis
  have lt: "EncodeKey ns key t0 < fst e"
    using EncodeKey_less [OF gc_state_ts_ok [OF st t0(3) e(2)] e(3)] t0(1) e(1) by simp
  then have "EncodeKey ns key t0 \<notin> fst ` set es" "EncodeKey ns key t0 \<noteq> fst e"
    using gc_state_order(2) [OF st] by (meson less_asym, metis less_irrefl)
  then have "EncodeKey ns key t0 \<in> fst ` set don" using t0(3) keys_split [of don e es] by blast
  moreover have "EncodeKey ns key ts \<in> fst ` set (e # es)" using e(1) by simp
  ultimately have "cur = key \<and> kept" using st e(2) t0(2) unfolding gc_state_def by blast
  with t0 show "ts < to \<and> key = cur \<and> kept" by auto
next
  assume a: "ts < to \<and> key = cur \<and> kept"
  then obtain t0 where t0: "EncodeKey ns key t0 \<in> fst ` set don" "t0 < to" using st unfolding gc_state_def by blast
  then have m: "EncodeKey ns key t0 \<in> fst ` set (don @ e # es)" by auto
  have "ts < t0"
    using gc_state_order(1) [OF st t0(1)] EncodeKey_less [OF gc_state_ts_ok [OF st m e(2)] e(3)] e(1) by simp
  with m show "stale ns to (fst ` set (don @ e # es)) (fst e)"
    using t0(2) e unfolding stale_def by blast
qed

lemma gc_state_next:
  assumes st: "gc_state ns to don (e # es) cur kept" and e: "fst e = EncodeKey ns key ts" "length key < 2 ^ 32"
  shows "gc_state ns to (don @ [e]) es key (ts < to \<or> key = cur \<and> kept)"
proof -
  have "key = k' \<and> (ts < to \<or> key = cur \<and> kept)"
    if a: "length k' < 2 ^ 32" "EncodeKey ns k' t0 \<in> fst ` set (don @ [e])" "t0 < to" "EncodeKey ns k' t \<in> fst ` set es" for k' t t0
  proof (cases "EncodeKey ns k' t0 \<in> fst ` set don")
    case True
    then have "key = k'"
      using EncodeKey_between [of ns k' t0 key ts t] gc_state_order(1) [OF st True] gc_state_order(2) [OF st a(4)] e a(1)
      by simp
    moreover have "EncodeKey ns k' t \<in> fst ` set (e # es)" using a(4) by simp
    then have "cur = k' \<and> kept" using st True a(1,3) unfolding gc_state_def by blast
    ultimately show ?thesis by simp
  next
    case False
    then have "EncodeKey ns k' t0 = EncodeKey ns key ts" using a(2) e(1) by auto
    then show ?thesis using EncodeKey_inject [OF a(1) e(2)] a(3) by simp
  qed
  moreover have "ts < to \<or> key = cur \<and> kept \<longrightarrow> (\<exists>t0. EncodeKey ns key t0 \<in> fst ` set (don @ [e]) \<and> t0 < to)"
    using st e(1) unfolding gc_state_def by auto
  moreover have "keys_sorted ((don @ [e]) @ es)" "\<forall>e \<in> set ((don @ [e]) @ es). stamped ns dataPrefix (fst e)"
    using st by (simp_all add: gc_state_def)
  ultimately show ?thesis unfolding gc_state_def by blast
qed

lemma gc_loop_exact:
  assumes "gc_state ns to don es cur kept"
  shows "\<exists>ds. gc_loop ns to es cur kept b n = (b @ map OpDelete ds, n + length ds) \<and>
    set ds = {k \<in> fst ` set es. stale ns to (fst ` set (don @ es)) k}"
  using assms
proof (induction es arbitrary: don cur kept b n)
  case Nil
  show ?case by simp
next
  case (Cons e es)
  obtain key ts where e: "fst e = EncodeKey ns key ts" "length key < 2 ^ 32" "ts_ok ts"
    using Cons.prems by (auto simp: gc_state_def stamped_def EncodeKey_metaKey)
  let ?kept = "key = cur \<and> kept" and ?del = "ts < to \<and> key = cur \<and> kept"
  let ?b = "if ?del then Delete b (fst e) else b" and ?n = "if ?del then n + 1 else n"
  obtain ds where ds: "gc_loop ns to es key (ts < to \<or> ?kept) ?b ?n = (?b @ map OpDelete ds, ?n + length ds)"
    "set ds = {k \<in> fst ` set es. stale ns to (fst ` set (don @ e # es)) k}"
    using Cons.IH [OF gc_state_next [OF Cons.prems e(1,2)], of ?b ?n] by auto
  have "DecodeKey ns (fst e) = Some (key, ts)" using e by (simp add: DecodeKey_iff)
  then have "gc_loop ns to (e # es) cur kept b n = gc_loop ns to es key (ts < to \<or> ?kept) ?b ?n"
    by (cases "ts < to") (auto simp: Let_def linorder_not_less [symmetric])
  moreover have "stale ns to (fst ` set (don @ e # es)) (fst e) \<longleftrightarrow> ?del"
    by (rule gc_state_head [OF Cons.prems e])
  ultimately show ?case
    using ds by (intro exI [of _ "if ?del then fst e # ds else ds"]) (auto simp: Delete_def)
qed


text \<open>Applying a staged batch.\<close>

lemma Apply_content:
  assumes "\<not> closed db"
  shows "content (snd (Apply db (Some b) sync)) = foldl apply_op (content db) b"
  using assms by (cases "b = []") (simp_all add: Apply_def Let_def batch_Empty_def visible_def applyTo_def)

lemma Apply_sorted:
  "\<not> closed db \<Longrightarrow> keys_sorted (content db) \<Longrightarrow> keys_sorted (content (snd (Apply db (Some b) sync)))"
  by (simp add: Apply_content model_keyspace.ok_batch)

lemma Apply_Get:
  assumes "\<not> closed db" "keys_sorted (content db)"
  shows "Get (snd (Apply db (Some b) sync)) = foldl op_meaning (Get db) b"
proof -
  have "Get d = map_of (content d)" if "keys_sorted (content d)" for d
    using that by (simp add: fun_eq_iff Get_content)
  then show ?thesis
    using assms(2) Apply_sorted [OF assms] model_keyspace.view_batch [OF assms(2), of b]
    by (simp add: Apply_content [OF assms(1)])
qed

lemma deletes_meaning: "foldl op_meaning m (map OpDelete ds) = (\<lambda>k. if k \<in> set ds then None else m k)"
  by (induction ds arbitrary: m) (auto simp: fun_eq_iff)

lemma content_member: "keys_sorted (content db) \<Longrightarrow> k \<in> fst ` set (content db) \<longleftrightarrow> Get db k \<noteq> None"
  by (simp add: Get_content map_of_eq_None_iff)

lemma EncodeKey_kind [simp]: "prefix (ns @ [dataPrefix]) (EncodeKey ns key t)"
  unfolding EncodeKey_metaKey by (rule metaKey_prefix_kind [OF prefix_inverted])

lemma content_Get:
  assumes "keys_sorted (content db)"
  shows "e \<in> set (content db) \<longleftrightarrow> Get db (fst e) = Some (snd e)"
proof -
  have "(fst e, snd e) \<in> set (content db) \<longleftrightarrow> Get db (fst e) = Some (snd e)"
    unfolding Get_content [OF assms] by (rule map_of_eq_Some_iff [OF keys_sorted_distinct [OF assms], symmetric])
  then show ?thesis by simp
qed

lemma store_ok_subset:
  assumes "store_ok ns (content db)" "keys_sorted (content db')" "\<And>k v. Get db' k = Some v \<Longrightarrow> Get db k = Some v"
  shows "store_ok ns (content db')"
proof -
  have "keys_sorted (content db)" using assms(1) by (simp add: store_ok_def)
  then have "set (content db') \<subseteq> set (content db)"
    using assms(3) content_Get assms(2) by blast
  then show ?thesis using assms(1,2) unfolding store_ok_def by blast
qed

lemma stale_data: "stale ns to ks k \<Longrightarrow> prefix (ns @ [dataPrefix]) k"
  by (auto simp: stale_def)

lemma stale_kind: "stale ns to (fst ` set (filter (\<lambda>e. prefix (ns @ [dataPrefix]) (fst e)) es)) k \<longleftrightarrow> stale ns to (fst ` set es) k"
proof -
  have "EncodeKey ns key t0 \<in> fst ` set (filter (\<lambda>e. prefix (ns @ [dataPrefix]) (fst e)) es) \<longleftrightarrow>
    EncodeKey ns key t0 \<in> fst ` set es" for key t0
    using EncodeKey_kind [of ns key t0] by force
  then show ?thesis by (simp add: stale_def)
qed

lemma AdvanceGC_exact:
  assumes "store_ok (st_ns s) (content db)" "IsSet to" "gcMark s < to"
  obtains ds where "AdvanceGCInto db b to s =
      (Inr (length ds), b @ map OpDelete ds, s\<lparr>gcMark := to, versionsGCd := versionsGCd s + length ds\<rparr>)"
    "set ds = {k \<in> fst ` set (content db). stale (st_ns s) to (fst ` set (content db)) k}"
proof -
  let ?ns = "st_ns s"
  let ?es = "filter (\<lambda>e. prefix (?ns @ [dataPrefix]) (fst e)) (content db)"
  have srt: "keys_sorted (content db)" using assms(1) by (simp add: store_ok_def)
  have rest: "iter_rest (First (prefix_iter db (?ns @ [dataPrefix]))) = ?es"
    by (rule prefix_iter_rest(1) [OF srt])
  have st: "gc_state ?ns to [] ?es [] False"
    using assms(1) by (auto simp: gc_state_def store_ok_def rec_ok_def keys_sorted_filter)
  obtain ds where ds: "gc_loop ?ns to ?es [] False b 0 = (b @ map OpDelete ds, length ds)"
    "set ds = {k \<in> fst ` set ?es. stale ?ns to (fst ` set ?es) k}"
    using gc_loop_exact [OF st, of b 0] by auto
  have "set ds = {k \<in> fst ` set (content db). stale ?ns to (fst ` set (content db)) k}"
    unfolding ds(2) stale_kind using stale_data by auto
  moreover have "AdvanceGCInto db b to s =
      (Inr (length ds), b @ map OpDelete ds, s\<lparr>gcMark := to, versionsGCd := versionsGCd s + length ds\<rparr>)"
    using assms(2,3) ds(1) rest by (simp add: AdvanceGCInto_def not_le)
  ultimately show ?thesis using that by blast
qed

lemma newest_at_collected:
  assumes "newest_at f ts r" "\<And>t. f' t = (if D t then None else f t)" "\<And>t. D t \<Longrightarrow> \<exists>t0. t < t0 \<and> t0 \<le> ts \<and> f t0 \<noteq> None"
  shows "newest_at f' ts r"
proof (cases r)
  case (Some v)
  then obtain t where t: "t \<le> ts" "f t = Some v" "\<forall>t'. t < t' \<and> t' \<le> ts \<longrightarrow> f t' = None"
    using assms(1) by (auto simp: newest_at_def)
  have "\<not> D t"
  proof
    assume "D t"
    then obtain t0 where t0: "t < t0" "t0 \<le> ts" "f t0 \<noteq> None" using assms(3) by metis
    from t(3) t0(1,2) have "f t0 = None" by simp
    with t0(3) show False by simp
  qed
  then have "f' t = Some v" "\<forall>t'. t < t' \<and> t' \<le> ts \<longrightarrow> f' t' = None" using t(2,3) by (simp_all add: assms(2))
  with t(1) Some show ?thesis unfolding newest_at_def by auto
next
  case None
  then show ?thesis using assms(1) by (simp add: newest_at_def assms(2))
qed

lemma gc_effect:
  assumes ok: "store_ok (st_ns s) (content db)" "\<not> closed db" and to: "IsSet to" "gcMark s < to"
    and gc: "AdvanceGCInto db [] to s = (Inr n, b, s')" and db': "db' = snd (Apply db (Some b) sync)"
  shows "Get db' = (\<lambda>k. if stale (st_ns s) to {k. Get db k \<noteq> None} k then None else Get db k)"
    "st_ns s' = st_ns s" "gcMark s' = to" "store_ok (st_ns s') (content db')"
proof -
  have srt: "keys_sorted (content db)" using ok(1) by (simp add: store_ok_def)
  have keys: "fst ` set (content db) = {k. Get db k \<noteq> None}"
    using content_member [OF srt] by blast
  obtain ds where a: "AdvanceGCInto db [] to s =
      (Inr (length ds), [] @ map OpDelete ds, s\<lparr>gcMark := to, versionsGCd := versionsGCd s + length ds\<rparr>)"
    "set ds = {k \<in> fst ` set (content db). stale (st_ns s) to (fst ` set (content db)) k}"
    by (rule AdvanceGC_exact [OF ok(1) to])
  then have ds: "b = map OpDelete ds" "s' = s\<lparr>gcMark := to, versionsGCd := versionsGCd s + length ds\<rparr>"
    "set ds = {k. Get db k \<noteq> None \<and> stale (st_ns s) to {k. Get db k \<noteq> None} k}"
    using gc unfolding keys by simp_all
  show get: "Get db' = (\<lambda>k. if stale (st_ns s) to {k. Get db k \<noteq> None} k then None else Get db k)"
    unfolding db' Apply_Get [OF ok(2) srt] ds(1) deletes_meaning ds(3) by (auto simp: fun_eq_iff)
  show ns: "st_ns s' = st_ns s" "gcMark s' = to" by (simp_all add: ds(2))
  show "store_ok (st_ns s') (content db')"
    unfolding ns by (rule store_ok_subset [OF ok(1)]) (simp_all add: db' Apply_sorted [OF ok(2) srt] get [unfolded db'] split: if_splits)
qed

text \<open>C29: Garbage collection removes a version exactly when a newer version of its key lies strictly
  below the new mark, moves the mark, and changes no read above the mark: applying the staged batch
  leaves every answer at every later timestamp as it was.  The keeper of a key is its newest version
  strictly below the mark.  A version exactly at the mark stays too and does not take the keeper's
  place, so a key with one keeps two versions at or below the mark.\<close>

theorem gc_keeps_reads:
  assumes ok: "store_ok (st_ns s) (content db)" "\<not> closed db" and to: "IsSet to" "gcMark s < to"
    and gc: "AdvanceGCInto db [] to s = (Inr n, b, s')" and db': "db' = snd (Apply db (Some b) sync)"
    and ts: "ts_ok ts" "IsSet ts" "to < ts" "length key < 2 ^ 32"
  shows "gcMark s' = to \<and>
    Get db' = (\<lambda>k. if stale (st_ns s) to {k. Get db k \<noteq> None} k then None else Get db k) \<and>
    fst (ReadAt db' key ts s') = fst (ReadAt db key ts s) \<and>
    (\<forall>t. t < to \<and> (\<forall>t0. t < t0 \<and> t0 < to \<longrightarrow> Get db (EncodeKey (st_ns s) key t0) = None) \<longrightarrow>
       Get db' (EncodeKey (st_ns s) key t) = Get db (EncodeKey (st_ns s) key t) \<and>
       Get db' (EncodeKey (st_ns s) key to) = Get db (EncodeKey (st_ns s) key to))"
proof -
  note get = gc_effect(1) [OF ok to gc db'] and ns = gc_effect(2,3) [OF ok to gc db'] and ok' = gc_effect(4) [OF ok to gc db']
  obtain r r' where r: "fst (ReadAt db key ts s) = Inr r" "newest_at (\<lambda>t. Get db (EncodeKey (st_ns s) key t)) ts r"
    "fst (ReadAt db' key ts s') = Inr r'" "newest_at (\<lambda>t. Get db' (EncodeKey (st_ns s) key t)) ts r'"
    using ReadAt_answers [OF ok(1) ts(4,1)] ReadAt_answers [OF ok' ts(4,1), unfolded ns] less_trans [OF to(2) ts(3)] ts(2,3)
    by (auto simp: not_le)
  have "newest_at (\<lambda>t. Get db' (EncodeKey (st_ns s) key t)) ts r"
  proof (rule newest_at_collected [OF r(2)])
    show "Get db' (EncodeKey (st_ns s) key t) =
        (if stale (st_ns s) to {k. Get db k \<noteq> None} (EncodeKey (st_ns s) key t) then None
         else Get db (EncodeKey (st_ns s) key t))" for t
      by (simp add: get)
    show "\<exists>t0 > t. t0 \<le> ts \<and> Get db (EncodeKey (st_ns s) key t0) \<noteq> None"
      if "stale (st_ns s) to {k. Get db k \<noteq> None} (EncodeKey (st_ns s) key t)" for t
      using that ts(3) unfolding stale_version [OF ts(4)] by (auto intro: less_imp_le less_trans)
  qed
  then have "r' = r" using r(4) newest_at_unique by blast
  moreover have "Get db' (EncodeKey (st_ns s) key t) = Get db (EncodeKey (st_ns s) key t)"
    if none: "\<And>t0. t < t0 \<Longrightarrow> t0 < to \<Longrightarrow> Get db (EncodeKey (st_ns s) key t0) = None" for t
    using stale_version [OF ts(4), of "st_ns s" to "{k. Get db k \<noteq> None}" t] none by (auto simp: get)
  ultimately show ?thesis using r(1,3) get ns by (simp add: less_imp_not_less)
qed

theorem gc_keeps_reads_witness:
  "\<exists>n b s'. AdvanceGCInto demo_db [] (Timestamp 6 0) (NewStore [1]) = (Inr n, b, s') \<and> b \<noteq> [] \<and>
     fst (ReadAt (snd (Apply demo_db (Some b) True)) [7] (Timestamp 8 0) s') =
     fst (ReadAt demo_db [7] (Timestamp 8 0) (NewStore [1]))"
proof -
  let ?s = "NewStore [1]"
  have ok: "store_ok (st_ns ?s) (content demo_db)" using demo_store_ok by (simp add: NewStore_def)
  have h: "ts_ok (Timestamp 8 0)" "IsSet (Timestamp 8 0)" "Timestamp 6 0 < Timestamp 8 0" "length [7 :: byte] < 2 ^ 32"
    "IsSet (Timestamp 6 0)" "gcMark ?s < Timestamp 6 0"
    by (simp_all add: ts_ok_def IsSet_def Wall_IsSet_def NewStore_def zeroTS_def less_timestamp_iff)
  obtain ds where a: "AdvanceGCInto demo_db [] (Timestamp 6 0) ?s =
      (Inr (length ds), [] @ map OpDelete ds, ?s\<lparr>gcMark := Timestamp 6 0, versionsGCd := versionsGCd ?s + length ds\<rparr>)"
    "set ds = {k \<in> fst ` set (content demo_db). stale (st_ns ?s) (Timestamp 6 0) (fst ` set (content demo_db)) k}"
    by (rule AdvanceGC_exact [OF ok h(5,6)])
  have "Timestamp 3 0 < Timestamp 5 0" "Timestamp 5 0 < Timestamp 6 0" by (simp_all add: less_timestamp_iff)
  then have "stale (st_ns ?s) (Timestamp 6 0) (fst ` set (content demo_db)) (EncodeKey [1] [7] (Timestamp 3 0))"
    unfolding stale_def by (intro exI [of _ "[7]"] exI [of _ "Timestamp 3 0"] exI [of _ "Timestamp 5 0"]) (simp add: NewStore_def)
  then have "EncodeKey [1] [7] (Timestamp 3 0) \<in> set ds" unfolding a(2) by simp
  then have "map OpDelete ds \<noteq> []" by auto
  moreover note gc_keeps_reads [OF ok demo_content(2) h(5,6) a(1) refl h(1-4), of True]
  ultimately show ?thesis using a(1) by (intro exI [of _ "length ds"] exI [of _ "map OpDelete ds"]) auto
qed

lemma keys_sorted_ext:
  assumes "keys_sorted xs" "keys_sorted ys" "map_of xs = map_of ys"
  shows "xs = ys"
proof -
  have "fst ` set xs = fst ` set ys" using assms(3) by (metis dom_map_of_conv_image_fst)
  then have keys: "map fst xs = map fst ys"
    using assms(1,2) by (intro strict_sorted_equal) (simp_all add: keys_sorted_def)
  have all: "map (\<lambda>k. (k, the (map_of zs k))) (map fst zs) = zs" if "keys_sorted zs" for zs
    using keys_sorted_distinct [OF that] by (auto simp: o_def intro!: map_idI)
  show ?thesis
    using all [OF assms(1)] all [OF assms(2)] unfolding keys assms(3) by (rule trans [OF sym])
qed

section \<open>Snapshots of the state machine\<close>

lemma owns_prefix:
  "owns s k \<longleftrightarrow> (\<exists>kind \<in> {dataPrefix, lockPrefix, writePrefix, txnPrefix, readPrefix}. prefix (st_ns s @ [kind]) k)"
proof -
  have "prefix (ns @ [kind]) k \<longleftrightarrow> length ns < length k \<and> take (length ns) k = ns \<and> k ! length ns = kind" for ns kind
    by (auto simp: prefix_def nth_append intro: id_take_nth_drop)
      (metis append.assoc append_Cons append_Nil id_take_nth_drop)
  then show ?thesis by (auto simp: owns_def not_le)
qed

lemma owns_in_namespace: "owns s k \<Longrightarrow> prefix (st_ns s) k"
  unfolding owns_prefix by (auto simp: prefix_def)

lemma sets_meaning:
  "distinct (map fst rs) \<Longrightarrow> foldl op_meaning m (map (\<lambda>r. OpSet (fst r) (snd r)) rs) = m ++ map_of rs"
proof (induction rs arbitrary: m)
  case (Cons r rs)
  then have "fst r \<notin> dom (map_of rs)" by (simp add: dom_map_of_conv_image_fst)
  with Cons show ?case by (auto simp: fun_eq_iff map_add_def split: option.splits)
qed simp

lemma Set_fold: "foldl (\<lambda>b r. Set b (fst r) (snd r)) b rs = b @ map (\<lambda>r. OpSet (fst r) (snd r)) rs"
  by (induction rs arbitrary: b) (simp_all add: Set_def)

lemma Records_map:
  assumes "keys_sorted (content db)"
  shows "map_of (Records db s) k = (if owns s k then Get db k else None)" "distinct (map fst (Records db s))"
proof -
  have "Records db s = filter (\<lambda>e. owns s (fst e)) (content db)"
    using owns_in_namespace [of s] by (auto simp: Records_def prefix_iter_rest(1) [OF assms] intro!: filter_cong)
  then show "map_of (Records db s) k = (if owns s k then Get db k else None)" "distinct (map fst (Records db s))"
    using keys_sorted_distinct [OF keys_sorted_filter [OF assms]]
    by (simp_all add: map_of_filter_fst [of "owns s"] Get_content [OF assms])
qed

lemma ingest_meaning:
  assumes "distinct (map fst rs)"
  shows "foldl op_meaning m (fst (IngestRecordsInto [] rs mark s)) = (\<lambda>k. if owns s k then None else m k) ++ map_of rs"
proof -
  define dels where "dels = map (\<lambda>kind. OpDeleteRange (Some (st_ns s @ [kind])) (prefixEnd (st_ns s @ [kind])))
    [dataPrefix, lockPrefix, writePrefix, txnPrefix, readPrefix]"
  have "fst (IngestRecordsInto [] rs mark s) = dels @ map (\<lambda>r. OpSet (fst r) (snd r)) rs"
    by (simp add: IngestRecordsInto_def Let_def Set_fold DeleteRange_def dels_def)
  moreover have "foldl op_meaning m dels = (\<lambda>k. if owns s k then None else m k)" for m
    by (auto simp: dels_def owns_prefix prefixEnd_InRange fun_eq_iff)
  ultimately show ?thesis by (simp add: sets_meaning [OF assms])
qed

text \<open>Installing a snapshot replaces a store's state by the one it was taken of and touches
  nothing else: after ingesting the records of one engine into another under the same namespace,
  every key the state machine owns has the value it has in the source, absence included, and every
  other key keeps its own; the collection mark comes along.\<close>

theorem ingest_replaces_state:
  assumes "keys_sorted (content src)" "keys_sorted (content dst)" "\<not> closed dst"
    "IngestRecordsInto [] (Records src s) mark s = (b, s')"
  shows "Get (snd (Apply dst (Some b) sync)) = (\<lambda>k. if owns s k then Get src k else Get dst k) \<and>
    gcMark s' = mark \<and> Records (snd (Apply dst (Some b) sync)) s = Records src s"
proof -
  have b: "b = fst (IngestRecordsInto [] (Records src s) mark s)" "s' = s\<lparr>gcMark := mark\<rparr>"
    using assms(4) by (auto simp: IngestRecordsInto_def)
  have get: "Get (snd (Apply dst (Some b) sync)) = (\<lambda>k. if owns s k then Get src k else Get dst k)"
    unfolding Apply_Get [OF assms(3,2)] b(1) ingest_meaning [OF Records_map(2) [OF assms(1)]]
    by (auto simp: fun_eq_iff map_add_def Records_map(1) [OF assms(1)] split: option.splits)
  let ?d = "snd (Apply dst (Some b) sync)"
  have srt: "keys_sorted (content ?d)" by (rule Apply_sorted [OF assms(3,2)])
  have "map_of (Records ?d s) = map_of (Records src s)"
    by (simp add: fun_eq_iff Records_map(1) [OF srt] Records_map(1) [OF assms(1)] get)
  moreover have "keys_sorted (Records d s)" if "keys_sorted (content d)" for d
    unfolding Records_def prefix_iter_rest(1) [OF that] by (intro keys_sorted_filter that)
  ultimately have "Records ?d s = Records src s"
    using srt assms(1) by (intro keys_sorted_ext) auto
  with get b(2) show ?thesis by simp
qed

theorem ingest_replaces_state_witness:
  "\<exists>b s'. IngestRecordsInto [] (Records demo_db (NewStore [1])) (Timestamp 2 0) (NewStore [1]) = (b, s') \<and>
     gcMark s' = Timestamp 2 0 \<and>
     Get (snd (Apply Engine.New (Some b) True)) (EncodeKey [1] [7] (Timestamp 5 0)) = Some [50]"
proof -
  let ?s = "NewStore [1]"
  obtain b s' where b: "IngestRecordsInto [] (Records demo_db ?s) (Timestamp 2 0) ?s = (b, s')" by fastforce
  have srt: "keys_sorted (content demo_db)" "keys_sorted (content Engine.New)" "\<not> closed Engine.New"
    using demo_store_ok by (simp_all add: store_ok_def Engine.New_def visible_def)
  have "owns ?s (EncodeKey [1] [7] (Timestamp 5 0))"
    using EncodeKey_kind [of "[1]"] unfolding owns_prefix by (auto simp: NewStore_def)
  moreover have "Get demo_db (EncodeKey [1] [7] (Timestamp 5 0)) = Some [50]"
    using srt(1) by (simp add: Get_content EncodeKey_metaKey)
  ultimately show ?thesis
    using ingest_replaces_state [OF srt b, of True] b by simp
qed

end
