(* ===== verification/Store_Codec.thy ===== *)
theory Store_Codec
  imports Raft_State Mvcc
begin

text \<open>
  The wire and storage encodings of \<^verbatim>\<open>store/codec.go\<close>, \<^verbatim>\<open>store/range.go\<close> and
  \<^verbatim>\<open>store/txncmd.go\<close>: hard state, log entries, snapshots, range descriptors, split and transaction
  commands, the whole state machine, and Raft messages.  Go strings are byte lists; the model's
  terms and indexes are naturals, encoded in 64 bits as the code does.
\<close>

section \<open>Ranges\<close>

type_synonym RangeID = u64

record RangeDescriptor =
  d_ID :: RangeID
  d_Start :: bytes
  d_End :: "bytes option"
  d_Epoch :: u64

definition desc_Contains :: "RangeDescriptor \<Rightarrow> bytes \<Rightarrow> bool" where
  "desc_Contains d key =
     (if key < d_Start d then False
      else (case d_End d of None \<Rightarrow> True | Some e \<Rightarrow> key < e))"

text \<open>Appending no bytes to a nil slice leaves it nil, so an empty bound becomes no bound.\<close>

definition desc_Clone :: "RangeDescriptor \<Rightarrow> RangeDescriptor" where
  "desc_Clone d = \<lparr>d_ID = d_ID d, d_Start = d_Start d,
     d_End = (case d_End d of None \<Rightarrow> None | Some e \<Rightarrow> if e = [] then None else Some e), d_Epoch = d_Epoch d\<rparr>"

record SplitSpec =
  sp_Key :: bytes
  sp_Left :: RangeDescriptor
  sp_Right :: RangeDescriptor

definition encodeDescInto :: "bytes \<Rightarrow> RangeDescriptor \<Rightarrow> bytes" where
  "encodeDescInto b d =
     (let b = putU64 b (d_ID d); b = putU64 b (d_Epoch d); b = putBytes b (d_Start d)
      in (case d_End d of None \<Rightarrow> b @ [0] | Some e \<Rightarrow> putBytes (b @ [1]) e))"

definition decodeDescFrom :: "bytes \<Rightarrow> (RangeDescriptor \<times> bytes) option" where
  "decodeDescFrom b = do {
     (i, b) \<leftarrow> takeU64 b;
     (ep, b) \<leftarrow> takeU64 b;
     (st, b) \<leftarrow> takeBytes b;
     if length b < 1 then None
     else (let bounded = (hd b = 1); b = tl b
           in if \<not> bounded then Some (\<lparr>d_ID = i, d_Start = st, d_End = None, d_Epoch = ep\<rparr>, b)
              else do {
                (e, b) \<leftarrow> takeBytes b;
                Some (\<lparr>d_ID = i, d_Start = st, d_End = Some e, d_Epoch = ep\<rparr>, b) })
   }"

definition encodeDesc :: "RangeDescriptor \<Rightarrow> bytes" where
  "encodeDesc d = encodeDescInto [] d"

definition decodeDesc :: "bytes \<Rightarrow> RangeDescriptor option" where
  "decodeDesc b = map_option fst (decodeDescFrom b)"

definition encodeSplit :: "SplitSpec \<Rightarrow> bytes" where
  "encodeSplit s = encodeDescInto (encodeDescInto (putBytes [] (sp_Key s)) (sp_Left s)) (sp_Right s)"

definition decodeSplit :: "bytes \<Rightarrow> SplitSpec option" where
  "decodeSplit b = do {
     (k, b) \<leftarrow> takeBytes b;
     (l, b) \<leftarrow> decodeDescFrom b;
     (r, b) \<leftarrow> decodeDescFrom b;
     Some \<lparr>sp_Key = k, sp_Left = l, sp_Right = r\<rparr>
   }"

definition splitMarker :: byte where "splitMarker = 0xFF"

definition isSplitCommand :: "bytes \<Rightarrow> bool" where
  "isSplitCommand data \<longleftrightarrow> length data > 0 \<and> hd data = splitMarker"

definition encodeSplitCommand :: "SplitSpec \<Rightarrow> bytes" where
  "encodeSplitCommand s = [splitMarker] @ encodeSplit s"

definition decodeSplitCommand :: "bytes \<Rightarrow> SplitSpec option" where
  "decodeSplitCommand data = (if \<not> isSplitCommand data then None else decodeSplit (drop 1 data))"

definition splitKeyFor :: "bytes list \<Rightarrow> bytes option" where
  "splitKeyFor ks = (if length ks < 2 then None else Some (ks ! (length ks div 2)))"

definition FirstRange :: RangeID where "FirstRange = 1"

definition FirstRangeDescriptor :: RangeDescriptor where
  "FirstRangeDescriptor = \<lparr>d_ID = FirstRange, d_Start = [], d_End = None, d_Epoch = 1\<rparr>"

section \<open>Engine keys of a range\<close>

definition rangePrefix :: "RangeID \<Rightarrow> bytes" where
  "rangePrefix i = [0x72, 0x2F] @ be_bytes 8 i"

definition keyHardStateOf :: "RangeID \<Rightarrow> bytes" where
  "keyHardStateOf i = rangePrefix i @ [0x2F, 0x68, 0x73]"

definition keySnapshotOf :: "RangeID \<Rightarrow> bytes" where
  "keySnapshotOf i = rangePrefix i @ [0x2F, 0x73, 0x6E, 0x61, 0x70]"

definition keyDescOf :: "RangeID \<Rightarrow> bytes" where
  "keyDescOf i = rangePrefix i @ [0x2F, 0x64, 0x65, 0x73, 0x63]"

definition logPrefixOf :: "RangeID \<Rightarrow> bytes" where
  "logPrefixOf i = rangePrefix i @ [0x2F, 0x65, 0x2F]"

definition logUpperOf :: "RangeID \<Rightarrow> bytes" where
  "logUpperOf i = rangePrefix i @ [0x2F, 0x65, 0x30]"

definition logKeyOf :: "RangeID \<Rightarrow> nat \<Rightarrow> bytes" where
  "logKeyOf i idx = logPrefixOf i @ be_bytes 8 (of_nat idx :: u64)"

section \<open>Raft's persistent state\<close>

definition u64 :: "nat \<Rightarrow> u64" where "u64 n = of_nat n"

definition encodeHardState :: "HardState \<Rightarrow> bytes" where
  "encodeHardState hs = putU64 (putU64 [] (u64 (hs_Term hs))) (hs_Vote hs)"

definition decodeHardState :: "bytes \<Rightarrow> HardState" where
  "decodeHardState b =
     (case do { (t, b) \<leftarrow> takeU64 b; (v, b) \<leftarrow> takeU64 b; Some \<lparr>hs_Term = unat t, hs_Vote = v\<rparr> } of
        Some hs \<Rightarrow> hs
      | None \<Rightarrow> \<lparr>hs_Term = 0, hs_Vote = 0\<rparr>)"

definition encodeEntry :: "Entry \<Rightarrow> bytes" where
  "encodeEntry e =
     (let b = [e_Type e];
          b = putU64 b (u64 (e_Term e));
          b = putU64 b (u64 (e_Index e));
          b = putU64 b (pid_Node (e_ID e));
          b = putU64 b (pid_Seq (e_ID e))
      in putBytes b (e_Data e))"

definition decodeEntry :: "bytes \<Rightarrow> Entry option" where
  "decodeEntry b =
     (if length b < 1 then None
      else (let et = hd b; b = tl b in do {
        (t, b) \<leftarrow> takeU64 b;
        (i, b) \<leftarrow> takeU64 b;
        (pn, b) \<leftarrow> takeU64 b;
        (ps, b) \<leftarrow> takeU64 b;
        (d, b) \<leftarrow> takeBytes b;
        Some \<lparr>e_Type = et, e_Term = unat t, e_Index = unat i, e_ID = \<lparr>pid_Node = pn, pid_Seq = ps\<rparr>, e_Data = d\<rparr> }))"

text \<open>A snapshot record: metadata and bytes, the four fields of \<open>Snapshot\<close>.\<close>

definition encodeSnapshot :: "Snapshot \<Rightarrow> bytes" where
  "encodeSnapshot s =
     (let b = putU64 [] (u64 (s_Index s));
          b = putU64 b (u64 (s_Term s));
          b = putBytes b (EncodeConfiguration (s_Conf s))
      in putBytes b (s_Data s))"

definition decodeSnapshot :: "bytes \<Rightarrow> Snapshot option" where
  "decodeSnapshot b = do {
     (idx, b) \<leftarrow> takeU64 b;
     (term, b) \<leftarrow> takeU64 b;
     (confRaw, b) \<leftarrow> takeBytes b;
     conf \<leftarrow> DecodeConfiguration confRaw;
     (data, b) \<leftarrow> takeBytes b;
     Some \<lparr>s_Index = unat idx, s_Term = unat term, s_Data = data, s_Conf = conf\<rparr>
   }"

section \<open>The whole state machine\<close>

definition putStamp :: "bytes \<Rightarrow> timestamp \<Rightarrow> bytes" where
  "putStamp b t = putU64 (putU64 b (Wall t)) (ucast (Logical t))"

definition takeStamp :: "bytes \<Rightarrow> (timestamp \<times> bytes) option" where
  "takeStamp b = do {
     (w, b) \<leftarrow> takeU64 b;
     (l, b) \<leftarrow> takeU64 b;
     Some (Timestamp w (ucast l), b)
   }"

definition takeRecord :: "bytes \<Rightarrow> (Record \<times> bytes) option" where
  "takeRecord b = do {
     (k, b) \<leftarrow> takeBytes b;
     (v, b) \<leftarrow> takeBytes b;
     Some ((k, v), b)
   }"

definition encodeMachine :: "RangeDescriptor \<Rightarrow> timestamp \<Rightarrow> Record list \<Rightarrow> bytes" where
  "encodeMachine desc mark rs =
     (let b = putBytes [] (encodeDesc desc);
          b = putStamp b mark;
          b = putU64 b (u64 (length rs))
      in foldl (\<lambda>b r. putBytes (putBytes b (fst r)) (snd r)) b rs)"

definition decodeMachine :: "bytes \<Rightarrow> (RangeDescriptor \<times> timestamp \<times> Record list) option" where
  "decodeMachine b = do {
     (descRaw, b) \<leftarrow> takeBytes b;
     desc \<leftarrow> decodeDesc descRaw;
     (mark, b) \<leftarrow> takeStamp b;
     (n, b) \<leftarrow> takeU64 b;
     (rs, b) \<leftarrow> take_many takeRecord (unat n) b;
     Some (desc, mark, rs)
   }"

section \<open>Messages\<close>

definition msg_code :: "MessageType \<Rightarrow> byte" where
  "msg_code t = (case t of MsgVote \<Rightarrow> 1 | MsgVoteResp \<Rightarrow> 2 | MsgApp \<Rightarrow> 3 | MsgAppResp \<Rightarrow> 4 | MsgPreVote \<Rightarrow> 5
     | MsgPreVoteResp \<Rightarrow> 6 | MsgSnap \<Rightarrow> 7 | MsgTimeoutNow \<Rightarrow> 8 | MsgReadIndex \<Rightarrow> 9 | MsgReadIndexResp \<Rightarrow> 10
     | MsgUnknown x \<Rightarrow> x)"

definition msg_of :: "byte \<Rightarrow> MessageType" where
  "msg_of x = (if x = 1 then MsgVote else if x = 2 then MsgVoteResp else if x = 3 then MsgApp
     else if x = 4 then MsgAppResp else if x = 5 then MsgPreVote else if x = 6 then MsgPreVoteResp
     else if x = 7 then MsgSnap else if x = 8 then MsgTimeoutNow else if x = 9 then MsgReadIndex
     else if x = 10 then MsgReadIndexResp else MsgUnknown x)"

definition encodeMessage :: "Message \<Rightarrow> bytes" where
  "encodeMessage m =
     (let b = [msg_code (m_Type m)];
          b = foldl putU64 b
                [m_From m, m_To m, u64 (m_Term m), u64 (m_LastLogIndex m), u64 (m_LastLogTerm m),
                 u64 (m_PrevLogIndex m), u64 (m_PrevLogTerm m), u64 (m_LeaderCommit m), u64 (m_MatchIndex m),
                 u64 (m_Hint m), u64 (m_SnapIndex m), u64 (m_SnapTerm m)];
          b = putBytes b (m_SnapData m);
          b = putBytes b (m_SnapConf m);
          b = putBytes b (m_ReadCtx m);
          b = putU64 b (u64 (m_ReadIndex m));
          flags = (0 :: byte);
          flags = (if m_Granted m then flags OR 1 else flags);
          flags = (if m_Success m then flags OR 2 else flags);
          b = b @ [flags];
          b = appendU32 b (of_nat (length (m_Entries m)))
      in foldl (\<lambda>b e. putBytes b (encodeEntry e)) b (m_Entries m))"

definition takeEntry :: "bytes \<Rightarrow> (Entry \<times> bytes) option" where
  "takeEntry b = do { (raw, rest) \<leftarrow> takeBytes b; e \<leftarrow> decodeEntry raw; Some (e, rest) }"

definition decodeMessage :: "bytes \<Rightarrow> Message option" where
  "decodeMessage b =
     (if length b < 1 then None
      else (let ty = msg_of (hd b); b = tl b in do {
        (vals, b) \<leftarrow> take_many takeU64 12 b;
        (sd, b) \<leftarrow> takeBytes b;
        (sc, b) \<leftarrow> takeBytes b;
        (rc, b) \<leftarrow> takeBytes b;
        (ri, b) \<leftarrow> takeU64 b;
        if length b < 1 then None
        else (let granted = (hd b AND 1 \<noteq> 0); success = (hd b AND 2 \<noteq> 0); b = tl b
              in if length b < 4 then None
                 else do {
                   (es, b) \<leftarrow> take_many takeEntry (unat (be_val (take 4 b) :: u32)) (drop 4 b);
                   Some \<lparr>m_Type = ty, m_From = vals ! 0, m_To = vals ! 1, m_Term = unat (vals ! 2),
                     m_LastLogIndex = unat (vals ! 3), m_LastLogTerm = unat (vals ! 4), m_Granted = granted,
                     m_Success = success, m_PrevLogIndex = unat (vals ! 5), m_PrevLogTerm = unat (vals ! 6),
                     m_Entries = es, m_LeaderCommit = unat (vals ! 7), m_MatchIndex = unat (vals ! 8),
                     m_Hint = unat (vals ! 9), m_SnapIndex = unat (vals ! 10), m_SnapTerm = unat (vals ! 11),
                     m_SnapData = sd, m_SnapConf = sc, m_ReadCtx = rc, m_ReadIndex = unat ri\<rparr> }) }))"

section \<open>Commands\<close>

definition opGC :: bytes where "opGC = [0x67, 0x63]"
definition opPut :: bytes where "opPut = [0x70, 0x75, 0x74]"

definition encodeCmd :: "bytes \<Rightarrow> bytes \<Rightarrow> bytes \<Rightarrow> timestamp \<Rightarrow> bytes" where
  "encodeCmd op key val at =
     (let b = putBytes [] op; b = putBytes b key; b = putBytes b val in putStamp b at)"

definition decodeCmd :: "bytes \<Rightarrow> bytes \<times> bytes \<times> bytes \<times> timestamp" where
  "decodeCmd b =
     (case do {
        (op, b) \<leftarrow> takeBytes b;
        (k, b) \<leftarrow> takeBytes b;
        (v, b) \<leftarrow> takeBytes b;
        (at, b) \<leftarrow> takeStamp b;
        Some (op, k, v, at)
      } of Some c \<Rightarrow> c | None \<Rightarrow> ([], [], [], zeroTS))"

definition encodeReadCtx :: "NodeID \<Rightarrow> u64 \<Rightarrow> bytes" where
  "encodeReadCtx node seq = putU64 (putU64 [] node) seq"

definition OpPrewrite :: byte where "OpPrewrite = 1"
definition OpCommitKey :: byte where "OpCommitKey = 2"
definition OpRollbackKey :: byte where "OpRollbackKey = 3"
definition OpPutTxnRecord :: byte where "OpPutTxnRecord = 4"
definition OpTxnGet :: byte where "OpTxnGet = 5"
definition OpResolveStatus :: byte where "OpResolveStatus = 6"
definition OpApplyResolution :: byte where "OpApplyResolution = 7"

lemmas txn_ops = OpPrewrite_def OpCommitKey_def OpRollbackKey_def OpPutTxnRecord_def OpTxnGet_def
  OpResolveStatus_def OpApplyResolution_def

record TxnCommand =
  x_Op :: byte
  x_Key :: bytes
  x_Value :: bytes
  x_Primary :: bytes
  x_StartTS :: timestamp
  x_CommitTS :: timestamp
  x_Deadline :: timestamp
  x_Status :: TxnStatus
  x_ReadTS :: timestamp
  x_Origin :: u64
  x_ExpireAt :: timestamp
  x_MaxTS :: timestamp

definition txnMarker :: byte where "txnMarker = 0xFE"

definition isTxnCommand :: "bytes \<Rightarrow> bool" where
  "isTxnCommand data \<longleftrightarrow> length data > 0 \<and> hd data = txnMarker"

definition encodeTxnCommand :: "TxnCommand \<Rightarrow> bytes" where
  "encodeTxnCommand c =
     (let b = [txnMarker, x_Op c, x_Status c];
          b = putU64 b (x_Origin c);
          b = putBytes b (x_Key c);
          b = putBytes b (x_Value c);
          b = putBytes b (x_Primary c)
      in foldl putStamp b [x_StartTS c, x_CommitTS c, x_Deadline c, x_ReadTS c, x_MaxTS c, x_ExpireAt c])"

definition decodeTxnCommand :: "bytes \<Rightarrow> TxnCommand option" where
  "decodeTxnCommand data =
     (if \<not> isTxnCommand data \<or> length data < 3 then None
      else do {
        (origin, b) \<leftarrow> takeU64 (drop 3 data);
        (key, b) \<leftarrow> takeBytes b;
        (val, b) \<leftarrow> takeBytes b;
        (primary, b) \<leftarrow> takeBytes b;
        (ts, b) \<leftarrow> take_many takeStamp 6 b;
        Some \<lparr>x_Op = data ! 1, x_Key = key, x_Value = val, x_Primary = primary, x_StartTS = ts ! 0,
          x_CommitTS = ts ! 1, x_Deadline = ts ! 2, x_Status = data ! 2, x_ReadTS = ts ! 3,
          x_Origin = origin, x_ExpireAt = ts ! 5, x_MaxTS = ts ! 4\<rparr> })"

section \<open>Decoding laws\<close>

lemmas put_defs = putU64_def putBytes_def appendU32_def putStamp_def Let_def

definition desc_ok :: "RangeDescriptor \<Rightarrow> bool" where
  "desc_ok d \<longleftrightarrow> length (d_Start d) < 2 ^ 32 \<and> (case d_End d of None \<Rightarrow> True | Some e \<Rightarrow> length e < 2 ^ 32)"

definition entry_ok :: "Entry \<Rightarrow> bool" where
  "entry_ok e \<longleftrightarrow> e_Term e < 2 ^ 64 \<and> e_Index e < 2 ^ 64 \<and> length (e_Data e) + 37 < 2 ^ 32"

lemma unat_u64: "n < 2 ^ 64 \<Longrightarrow> unat (u64 n) = n"
  by (simp add: u64_def unsigned_of_nat take_bit_nat_eq_self)

lemma ucast_ucast_32: "ucast (ucast (l :: u32) :: u64) = (l :: u32)"
  by (rule bit_word_eqI) (auto simp: bit_simps)

interpretation stamp_wire: wire_format "putStamp []" takeStamp "\<lambda>_. True"
  by unfold_locales (simp add: put_defs takeStamp_def rift_codec ucast_ucast_32)

lemma takeStamp_put [rift_codec]:
  "takeStamp (be_bytes 8 (Wall t) @ be_bytes 8 (ucast (Logical t) :: u64) @ rest) = Some (t, rest)"
  using stamp_wire.tk_put [of t rest] by (simp add: put_defs)

lemma encodeDescInto_append: "encodeDescInto b d = b @ encodeDesc d"
  by (simp add: encodeDescInto_def encodeDesc_def put_defs Let_def split: option.splits)

interpretation desc_wire: wire_format encodeDesc decodeDescFrom desc_ok
  by unfold_locales
     (auto simp: encodeDesc_def encodeDescInto_def decodeDescFrom_def put_defs Let_def rift_codec desc_ok_def split: option.splits)

interpretation record_wire: wire_format "\<lambda>r. putBytes (putBytes [] (fst r)) (snd r)" takeRecord
    "\<lambda>r. length (fst r) < 2 ^ 32 \<and> length (snd r) < 2 ^ 32"
  by unfold_locales (auto simp: takeRecord_def put_defs rift_codec)

lemma length_encodeEntry: "length (encodeEntry e) = length (e_Data e) + 37"
  by (simp add: encodeEntry_def put_defs)

lemma decodeEntry_encodeEntry: "entry_ok e \<Longrightarrow> decodeEntry (encodeEntry e) = Some e"
  using takeBytes_putBytes [of "e_Data e" "[]"]
  by (simp add: encodeEntry_def decodeEntry_def put_defs rift_codec entry_ok_def unat_u64)

interpretation entry_wire: wire_format "\<lambda>e. putBytes [] (encodeEntry e)" takeEntry entry_ok
proof unfold_locales
  fix e rest assume e: "entry_ok e"
  then have "length (encodeEntry e) < 2 ^ 32" by (simp add: length_encodeEntry entry_ok_def)
  with e show "takeEntry (putBytes [] (encodeEntry e) @ rest) = Some (e, rest)"
    by (simp add: takeEntry_def bytes_wire.tk_put decodeEntry_encodeEntry)
qed

lemma decodeDesc_encodeDesc [rift_codec]: "desc_ok d \<Longrightarrow> decodeDesc (encodeDesc d) = Some d"
  by (simp add: decodeDesc_def desc_wire.tk_put_whole)


section \<open>Round trips\<close>

text \<open>Raft's persistent state survives its encoding: hard state, log entries and snapshots of
  64-bit terms and indexes decode to what was encoded, and bytes too short for a hard state decode
  to the zero hard state of a new node.\<close>

theorem persistent_state_roundtrip:
  assumes "hs_Term hs < 2 ^ 64" "entry_ok e" "s_Index sn < 2 ^ 64" "s_Term sn < 2 ^ 64" "length (s_Data sn) < 2 ^ 32"
    "length (Voters (s_Conf sn)) < 256" "length (Learners (s_Conf sn)) < 256" "length b < 16"
  shows "decodeHardState (encodeHardState hs) = hs \<and> decodeEntry (encodeEntry e) = Some e \<and>
    decodeSnapshot (encodeSnapshot sn) = Some sn \<and> decodeHardState b = \<lparr>hs_Term = 0, hs_Vote = 0\<rparr>"
proof (intro conjI)
  show "decodeHardState (encodeHardState hs) = hs"
    using assms(1) u64_wire.tk_put_whole [of "hs_Vote hs"]
    by (simp add: decodeHardState_def encodeHardState_def put_defs rift_codec unat_u64)
  show "decodeEntry (encodeEntry e) = Some e" by (rule decodeEntry_encodeEntry [OF assms(2)])
  have "length (EncodeConfiguration (s_Conf sn)) < 2 ^ 32"
    using assms(6,7) by (simp add: EncodeConfiguration_def length_concat_ids)
  then show "decodeSnapshot (encodeSnapshot sn) = Some sn"
    using assms(3-7) takeBytes_putBytes [of "s_Data sn" "[]"]
    by (simp add: decodeSnapshot_def encodeSnapshot_def put_defs rift_codec unat_u64)
  have "length b - 8 < 8" using assms(8) by arith
  then show "decodeHardState b = \<lparr>hs_Term = 0, hs_Vote = 0\<rparr>"
    by (simp add: decodeHardState_def takeU64_def)
qed

theorem persistent_state_roundtrip_witness:
  "decodeHardState (encodeHardState \<lparr>hs_Term = 7, hs_Vote = 2\<rparr>) = \<lparr>hs_Term = 7, hs_Vote = 2\<rparr> \<and>
   decodeEntry (encodeEntry \<lparr>e_Type = 1, e_Term = 7, e_Index = 3, e_ID = zeroPID, e_Data = [9, 8]\<rparr>) =
     Some \<lparr>e_Type = 1, e_Term = 7, e_Index = 3, e_ID = zeroPID, e_Data = [9, 8]\<rparr> \<and>
   decodeSnapshot (encodeSnapshot \<lparr>s_Index = 5, s_Term = 2, s_Data = [1], s_Conf = \<lparr>Voters = [1, 2], Learners = [3]\<rparr>\<rparr>) =
     Some \<lparr>s_Index = 5, s_Term = 2, s_Data = [1], s_Conf = \<lparr>Voters = [1, 2], Learners = [3]\<rparr>\<rparr> \<and>
   decodeHardState [0, 0, 1] = \<lparr>hs_Term = 0, hs_Vote = 0\<rparr>"
  by (rule persistent_state_roundtrip) (simp_all add: entry_ok_def)

lemma foldl_putBytes: "foldl (\<lambda>b r. putBytes (putBytes b (fst r)) (snd r)) b rs =
    b @ concat (map (\<lambda>r. putBytes (putBytes [] (fst r)) (snd r)) rs)"
  by (induction rs arbitrary: b) (simp_all add: put_defs)

lemma decodeMachine_encodeMachine:
  assumes "desc_ok desc" "length (encodeDesc desc) < 2 ^ 32" "length rs < 2 ^ 64"
    "list_all (\<lambda>r. length (fst r) < 2 ^ 32 \<and> length (snd r) < 2 ^ 32) rs"
  shows "decodeMachine (encodeMachine desc mark rs) = Some (desc, mark, rs)"
proof -
  let ?body = "concat (map (\<lambda>r. putBytes (putBytes [] (fst r)) (snd r)) rs)"
  have e: "encodeMachine desc mark rs = putBytes [] (encodeDesc desc) @ putStamp [] mark @ putU64 [] (u64 (length rs)) @ ?body"
    by (simp add: encodeMachine_def Let_def foldl_putBytes) (simp add: put_defs)
  have "take_many takeRecord (length rs) ?body = Some (rs, [])"
    using record_wire.take_many_put [OF assms(4), of "[]"] by simp
  then show ?thesis
    unfolding decodeMachine_def e
    by (simp add: bytes_wire.tk_put [OF assms(2)] decodeDesc_encodeDesc [OF assms(1)]
        stamp_wire.tk_put u64_wire.tk_put unat_u64 [OF assms(3)])
qed

text \<open>A state machine decodes to itself: extent, collection mark and every record, in order.\<close>

theorem machine_roundtrip:
  assumes "desc_ok desc" "length (encodeDesc desc) < 2 ^ 32" "length rs < 2 ^ 64"
    "list_all (\<lambda>r. length (fst r) < 2 ^ 32 \<and> length (snd r) < 2 ^ 32) rs"
  shows "decodeMachine (encodeMachine desc mark rs) = Some (desc, mark, rs)"
  by (rule decodeMachine_encodeMachine [OF assms])

theorem machine_roundtrip_witness:
  "decodeMachine (encodeMachine FirstRangeDescriptor (Timestamp 4 1) [([1], [2, 3]), ([5], [])]) =
     Some (FirstRangeDescriptor, Timestamp 4 1, [([1], [2, 3]), ([5], [])])"
  by (rule machine_roundtrip)
     (simp_all add: FirstRangeDescriptor_def desc_ok_def encodeDesc_def encodeDescInto_def put_defs)

definition msg_ok :: "Message \<Rightarrow> bool" where
  "msg_ok m \<longleftrightarrow>
     msg_of (msg_code (m_Type m)) = m_Type m \<and>
     (\<forall>n \<in> {m_Term m, m_LastLogIndex m, m_LastLogTerm m, m_PrevLogIndex m, m_PrevLogTerm m, m_LeaderCommit m,
        m_MatchIndex m, m_Hint m, m_SnapIndex m, m_SnapTerm m, m_ReadIndex m}. n < 2 ^ 64) \<and>
     length (m_SnapData m) < 2 ^ 32 \<and> length (m_SnapConf m) < 2 ^ 32 \<and> length (m_ReadCtx m) < 2 ^ 32 \<and>
     length (m_Entries m) < 2 ^ 32 \<and> list_all entry_ok (m_Entries m)"

lemma foldl_putU64: "foldl putU64 b vs = b @ concat (map (putU64 []) vs)"
  by (induction vs arbitrary: b) (simp_all add: put_defs)

lemma foldl_putEntries: "foldl (\<lambda>b e. putBytes b (encodeEntry e)) b es = b @ concat (map (\<lambda>e. putBytes [] (encodeEntry e)) es)"
  by (induction es arbitrary: b) (simp_all add: put_defs)

lemma decode_flags:
  fixes g s :: bool
  defines "f \<equiv> (let f = (0 :: byte); f = (if g then f OR 1 else f) in if s then f OR 2 else f)"
  shows "f AND 1 \<noteq> 0 \<longleftrightarrow> g" "f AND 2 \<noteq> 0 \<longleftrightarrow> s"
  by (auto simp: f_def Let_def)

text \<open>A Raft message crosses the transport unchanged, the fields of every message type included,
  when its numbers fit 64 bits and its payloads the 32-bit length prefixes.\<close>

theorem message_roundtrip:
  assumes "msg_ok m"
  shows "decodeMessage (encodeMessage m) = Some m"
proof -
  define vs where "vs = [m_From m, m_To m, u64 (m_Term m), u64 (m_LastLogIndex m), u64 (m_LastLogTerm m),
                 u64 (m_PrevLogIndex m), u64 (m_PrevLogTerm m), u64 (m_LeaderCommit m), u64 (m_MatchIndex m),
                 u64 (m_Hint m), u64 (m_SnapIndex m), u64 (m_SnapTerm m)]"
  define fl where "fl = (let f = (0 :: byte); f = (if m_Granted m then f OR 1 else f) in if m_Success m then f OR 2 else f)"
  define es where "es = concat (map (\<lambda>e. putBytes [] (encodeEntry e)) (m_Entries m))"
  have enc: "encodeMessage m = msg_code (m_Type m) # concat (map (putU64 []) vs) @ putBytes [] (m_SnapData m) @
      putBytes [] (m_SnapConf m) @ putBytes [] (m_ReadCtx m) @ putU64 [] (u64 (m_ReadIndex m)) @
      fl # be_bytes 4 (of_nat (length (m_Entries m)) :: u32) @ es"
    unfolding encodeMessage_def foldl_putU64 foldl_putEntries vs_def [symmetric] es_def [symmetric]
    by (simp add: put_defs fl_def)
  have vals: "take_many takeU64 12 (concat (map (putU64 []) vs) @ r) = Some (vs, r)" for r
  proof -
    have "length vs = 12" by (simp add: vs_def)
    with u64_wire.take_many_put [of vs r] show ?thesis by (simp add: list_all_iff)
  qed
  have ent: "take_many takeEntry (length (m_Entries m)) es = Some (m_Entries m, [])"
    using entry_wire.take_many_put [of "m_Entries m" "[]"] assms by (simp add: es_def msg_ok_def)
  have n: "unat (of_nat (length (m_Entries m)) :: u32) = length (m_Entries m)"
    using assms by (simp add: msg_ok_def unsigned_of_nat take_bit_nat_eq_self)
  show ?thesis
    using assms decode_flags [of "m_Granted m" "m_Success m", folded fl_def]
    unfolding enc decodeMessage_def Let_def
    by (simp add: vals bytes_wire.tk_put u64_wire.tk_put be_val_be_bytes n ent msg_ok_def unat_u64)
       (simp add: vs_def unat_u64)
qed

theorem message_roundtrip_witness:
  "decodeMessage (encodeMessage ((new_msg MsgApp 1 2 7)\<lparr>m_Success := True, m_SnapData := [4],
      m_Entries := [\<lparr>e_Type = 1, e_Term = 7, e_Index = 3, e_ID = zeroPID, e_Data = [9, 8]\<rparr>]\<rparr>)) =
    Some ((new_msg MsgApp 1 2 7)\<lparr>m_Success := True, m_SnapData := [4],
      m_Entries := [\<lparr>e_Type = 1, e_Term = 7, e_Index = 3, e_ID = zeroPID, e_Data = [9, 8]\<rparr>]\<rparr>)"
  by (rule message_roundtrip) (simp add: msg_ok_def msg_of_def msg_code_def new_msg_def entry_ok_def)

lemma stamps_roundtrip: "length ts = n \<Longrightarrow> take_many takeStamp n (foldl putStamp [] ts) = Some (ts, [])"
proof -
  have "foldl putStamp b ts = b @ concat (map (putStamp []) ts)" for b
    by (induction ts arbitrary: b) (simp_all add: put_defs)
  then show "length ts = n \<Longrightarrow> ?thesis" using stamp_wire.take_many_put [of ts "[]"] by (auto simp: list_all_iff)
qed

lemma decodeTxnCommand_encode:
  assumes "length (x_Key c) < 2 ^ 32" "length (x_Value c) < 2 ^ 32" "length (x_Primary c) < 2 ^ 32"
  shows "isTxnCommand (encodeTxnCommand c)" "decodeTxnCommand (encodeTxnCommand c) = Some c"
proof -
  let ?ts = "[x_StartTS c, x_CommitTS c, x_Deadline c, x_ReadTS c, x_MaxTS c, x_ExpireAt c]"
  have body: "foldl putStamp b ?ts = b @ foldl putStamp [] ?ts" for b by (simp add: put_defs)
  have enc: "encodeTxnCommand c = [txnMarker, x_Op c, x_Status c] @ putU64 [] (x_Origin c) @ putBytes [] (x_Key c) @
      putBytes [] (x_Value c) @ putBytes [] (x_Primary c) @ foldl putStamp [] ?ts"
    unfolding encodeTxnCommand_def Let_def by (subst body) (simp add: put_defs)
  show tx: "isTxnCommand (encodeTxnCommand c)" unfolding enc isTxnCommand_def by simp
  have "take_many takeStamp 6 (foldl putStamp [] ?ts) = Some (?ts, [])" by (rule stamps_roundtrip) simp
  then show "decodeTxnCommand (encodeTxnCommand c) = Some c"
    using tx unfolding decodeTxnCommand_def enc
    by (simp add: u64_wire.tk_put bytes_wire.tk_put [OF assms(1)] bytes_wire.tk_put [OF assms(2)]
        bytes_wire.tk_put [OF assms(3)] del: foldl.simps)
qed

lemma decodeSplitCommand_encode:
  assumes "length (sp_Key sp) < 2 ^ 32" "desc_ok (sp_Left sp)" "desc_ok (sp_Right sp)"
  shows "\<not> isTxnCommand (encodeSplitCommand sp)" "isSplitCommand (encodeSplitCommand sp)"
    "decodeSplitCommand (encodeSplitCommand sp) = Some sp"
proof -
  show "\<not> isTxnCommand (encodeSplitCommand sp)" "isSplitCommand (encodeSplitCommand sp)"
    by (simp_all add: isTxnCommand_def isSplitCommand_def encodeSplitCommand_def splitMarker_def txnMarker_def)
  then show "decodeSplitCommand (encodeSplitCommand sp) = Some sp"
    using desc_wire.tk_put [OF assms(2)] desc_wire.tk_put_whole [OF assms(3)] bytes_wire.tk_put [OF assms(1)]
    by (simp add: decodeSplitCommand_def encodeSplitCommand_def decodeSplit_def encodeSplit_def encodeDescInto_append)
qed

lemma decodeCmd_encode:
  assumes "length op < 2 ^ 24" "length k < 2 ^ 32" "length v < 2 ^ 32"
  shows "\<not> isTxnCommand (encodeCmd op k v at)" "\<not> isSplitCommand (encodeCmd op k v at)"
    "decodeCmd (encodeCmd op k v at) = (op, k, v, at)"
proof -
  have "hd (encodeCmd op k v at) = ucast (drop_bit 24 (of_nat (length op) :: u32))"
    by (simp add: encodeCmd_def put_defs be_bytes.simps(2) [of 3, simplified])
  moreover have "unat (drop_bit 24 (of_nat (length op) :: u32)) = 0"
    using assms(1) by (simp add: unsigned_drop_bit_eq unsigned_of_nat take_bit_nat_eq_self drop_bit_nat_def)
  then have "drop_bit 24 (of_nat (length op) :: u32) = 0" by (simp only: unat_eq_0)
  ultimately have "hd (encodeCmd op k v at) = 0" by simp
  then show "\<not> isTxnCommand (encodeCmd op k v at)" "\<not> isSplitCommand (encodeCmd op k v at)"
    by (simp_all add: isTxnCommand_def isSplitCommand_def txnMarker_def splitMarker_def)
  show "decodeCmd (encodeCmd op k v at) = (op, k, v, at)"
    using assms stamp_wire.tk_put_whole [of at] takeStamp_put [of at "[]"]
    by (simp add: decodeCmd_def encodeCmd_def put_defs rift_codec)
qed

text \<open>C34: The three kinds of command a log entry can carry are told apart by their first byte and
  each decodes to itself: a transaction step, a split, and a client command with a short opcode.\<close>

theorem command_dispatch:
  assumes "length (x_Key c) < 2 ^ 32" "length (x_Value c) < 2 ^ 32" "length (x_Primary c) < 2 ^ 32"
    "length (sp_Key sp) < 2 ^ 32" "desc_ok (sp_Left sp)" "desc_ok (sp_Right sp)"
    "length op < 2 ^ 24" "length k < 2 ^ 32" "length v < 2 ^ 32"
  shows "isTxnCommand (encodeTxnCommand c) \<and> decodeTxnCommand (encodeTxnCommand c) = Some c \<and>
    \<not> isTxnCommand (encodeSplitCommand sp) \<and> isSplitCommand (encodeSplitCommand sp) \<and>
    decodeSplitCommand (encodeSplitCommand sp) = Some sp \<and>
    \<not> isTxnCommand (encodeCmd op k v at) \<and> \<not> isSplitCommand (encodeCmd op k v at) \<and>
    decodeCmd (encodeCmd op k v at) = (op, k, v, at)"
  using decodeTxnCommand_encode [OF assms(1-3)] decodeSplitCommand_encode [OF assms(4-6)]
    decodeCmd_encode [OF assms(7-9)] by blast

definition demo_txn :: TxnCommand where
  "demo_txn = \<lparr>x_Op = OpPrewrite, x_Key = [7], x_Value = [1], x_Primary = [7], x_StartTS = Timestamp 10 0,
     x_CommitTS = zeroTS, x_Deadline = Timestamp 90 0, x_Status = TxnPending, x_ReadTS = zeroTS, x_Origin = 3,
     x_ExpireAt = zeroTS, x_MaxTS = zeroTS\<rparr>"

definition demo_split :: SplitSpec where
  "demo_split = \<lparr>sp_Key = [5], sp_Left = FirstRangeDescriptor\<lparr>d_End := Some [5], d_Epoch := 2\<rparr>,
     sp_Right = \<lparr>d_ID = 2, d_Start = [5], d_End = None, d_Epoch = 1\<rparr>\<rparr>"

theorem command_dispatch_witness:
  "decodeTxnCommand (encodeTxnCommand demo_txn) = Some demo_txn \<and>
   decodeSplitCommand (encodeSplitCommand demo_split) = Some demo_split \<and>
   \<not> isTxnCommand (encodeCmd opPut [7] [1] (Timestamp 10 0)) \<and>
   decodeCmd (encodeCmd opPut [7] [1] (Timestamp 10 0)) = (opPut, [7], [1], Timestamp 10 0)"
  using command_dispatch [of demo_txn demo_split opPut "[7]" "[1]" "Timestamp 10 0"]
  by (simp add: demo_txn_def demo_split_def FirstRangeDescriptor_def desc_ok_def opPut_def)

section \<open>Keyspaces\<close>

lemma be_bytes_8_inject: "be_bytes 8 (v :: u64) = be_bytes 8 w \<longleftrightarrow> v = w"
  by (metis takeU64_putU64 option.inject prod.inject)

lemma rangePrefix_unique:
  assumes "prefix (rangePrefix i) k" "prefix (rangePrefix j) k"
  shows "i = j"
proof -
  from assms obtain r r' where "be_bytes 8 i @ r = be_bytes 8 j @ r'"
    by (auto simp: rangePrefix_def prefix_def)
  then show ?thesis by (simp add: append_eq_append_conv be_bytes_8_inject)
qed

lemma prefixEnd_snoc: "x \<noteq> 0xFF \<Longrightarrow> prefixEnd (p @ [x]) = Some (p @ [x + 1])"
  by (simp add: prefixEnd_def nth_append list_update_append)

text \<open>C35: The engine keys of different ranges, and within a range its hard state, snapshot,
  descriptor, log and multi-version records, never collide; and the log is one contiguous run of
  keys in index order, so the scan over it returns exactly the entries, oldest first.\<close>

theorem range_keys_disjoint:
  "(prefix (rangePrefix i) k \<and> prefix (rangePrefix j) k \<longrightarrow> i = j) \<and>
   (\<forall>kind \<in> {dataPrefix, lockPrefix, writePrefix, txnPrefix, readPrefix}. prefix (rangePrefix i @ [kind]) k \<longrightarrow>
      k \<noteq> keyHardStateOf i \<and> k \<noteq> keySnapshotOf i \<and> k \<noteq> keyDescOf i \<and> \<not> prefix (logPrefixOf i) k) \<and>
   distinct [keyHardStateOf i, keySnapshotOf i, keyDescOf i, logKeyOf i n] \<and>
   (InRange k (Some (logPrefixOf i)) (Some (logUpperOf i)) \<longleftrightarrow> prefix (logPrefixOf i) k) \<and>
   (n < 2 ^ 64 \<and> m < 2 ^ 64 \<longrightarrow> (logKeyOf i n < logKeyOf i m \<longleftrightarrow> n < m) \<and> (logKeyOf i n = logKeyOf i m \<longleftrightarrow> n = m))"
proof (intro conjI impI)
  show "prefix (rangePrefix i) k \<and> prefix (rangePrefix j) k \<Longrightarrow> i = j" using rangePrefix_unique by blast
  show "\<forall>kind \<in> {dataPrefix, lockPrefix, writePrefix, txnPrefix, readPrefix}. prefix (rangePrefix i @ [kind]) k \<longrightarrow>
      k \<noteq> keyHardStateOf i \<and> k \<noteq> keySnapshotOf i \<and> k \<noteq> keyDescOf i \<and> \<not> prefix (logPrefixOf i) k"
    by (auto simp: keyHardStateOf_def keySnapshotOf_def keyDescOf_def logPrefixOf_def kind_defs prefix_def)
  show "distinct [keyHardStateOf i, keySnapshotOf i, keyDescOf i, logKeyOf i n]"
    by (simp add: keyHardStateOf_def keySnapshotOf_def keyDescOf_def logKeyOf_def logPrefixOf_def)
  have "prefixEnd (logPrefixOf i) = Some (logUpperOf i)"
    using prefixEnd_snoc [of "0x2F" "rangePrefix i @ [0x2F, 0x65]"] by (simp add: logPrefixOf_def logUpperOf_def)
  then show "InRange k (Some (logPrefixOf i)) (Some (logUpperOf i)) \<longleftrightarrow> prefix (logPrefixOf i) k"
    using prefixEnd_InRange [of k "logPrefixOf i"] by simp
  assume "n < 2 ^ 64 \<and> m < 2 ^ 64"
  then have "unat (of_nat n :: u64) = n" "unat (of_nat m :: u64) = m"
    using unat_u64 [of n] unat_u64 [of m] by (simp_all add: u64_def)
  then have "(of_nat n :: u64) < of_nat m \<longleftrightarrow> n < m" "(of_nat n :: u64) = of_nat m \<longleftrightarrow> n = m"
    by (simp_all add: word_less_nat_alt word_unat_eq_iff)
  then show "logKeyOf i n < logKeyOf i m \<longleftrightarrow> n < m" "logKeyOf i n = logKeyOf i m \<longleftrightarrow> n = m"
    by (simp_all add: logKeyOf_def be_bytes_less_iff be_bytes_8_inject)
qed

theorem range_keys_disjoint_witness:
  "logKeyOf 1 255 < logKeyOf 1 256 \<and> \<not> prefix (logPrefixOf 1) (EncodeKey (rangePrefix 1) [47] (Timestamp 3 0)) \<and>
   InRange (logKeyOf 1 9) (Some (logPrefixOf 1)) (Some (logUpperOf 1))"
proof -
  have "prefix (rangePrefix 1 @ [dataPrefix]) (EncodeKey (rangePrefix 1) [47] (Timestamp 3 0))" by simp
  moreover have "prefix (logPrefixOf 1) (logKeyOf 1 9)" by (simp add: logKeyOf_def)
  ultimately show ?thesis
    using range_keys_disjoint [of 1 "EncodeKey (rangePrefix 1) [47] (Timestamp 3 0)" 1 255 256]
      range_keys_disjoint [of 1 "logKeyOf 1 9" 1 255 256] by simp
qed

end
