(* ===== verification/Txn.thy ===== *)
theory Txn
  imports Mvcc
begin

text \<open>
  Percolator transactions over the multi-version store: \<^verbatim>\<open>kv/txn.go\<close>, \<^verbatim>\<open>kv/read.go\<close> and
  \<^verbatim>\<open>kv/resolve.go\<close>.  As in the store, the engine an operation reads is an argument and what it
  writes is staged into a batch.
\<close>

section \<open>Reading the records\<close>

definition store_Lock :: "DB \<Rightarrow> bytes \<Rightarrow> Store \<Rightarrow> Lock option" where
  "store_Lock db key s =
     (case Get db (LockKey (st_ns s) key) of None \<Rightarrow> None | Some v \<Rightarrow> decodeLock v)"

definition store_Txn :: "DB \<Rightarrow> bytes \<Rightarrow> timestamp \<Rightarrow> Store \<Rightarrow> TxnRecord option" where
  "store_Txn db primary startTS s =
     (case Get db (TxnKey (st_ns s) primary startTS) of None \<Rightarrow> None | Some v \<Rightarrow> decodeTxn v)"

definition newestCommit :: "DB \<Rightarrow> bytes \<Rightarrow> Store \<Rightarrow> (timestamp \<times> timestamp) option" where
  "newestCommit db key s =
     (let it = First (prefix_iter db (WritePrefix (st_ns s) key))
      in (case (iter_Key it, iter_Value it) of
            (Some k, Some val) \<Rightarrow>
              (case DecodeWriteKey (st_ns s) k of
                 Some (gotKey, c) \<Rightarrow>
                   if gotKey \<noteq> key then None
                   else (case decodeWrite val of Some (st, rb) \<Rightarrow> Some (c, st) | None \<Rightarrow> None)
               | None \<Rightarrow> None)
          | _ \<Rightarrow> None))"

definition ReadMark :: "DB \<Rightarrow> bytes \<Rightarrow> Store \<Rightarrow> timestamp option" where
  "ReadMark db key s =
     (let it = First (prefix_iter db (ReadMarkPrefix (st_ns s) key))
      in (case iter_Key it of
            Some k \<Rightarrow>
              (case DecodeReadMarkKey (st_ns s) k of
                 Some (gotKey, ts) \<Rightarrow> if gotKey \<noteq> key then None else Some ts
               | None \<Rightarrow> None)
          | None \<Rightarrow> None))"

section \<open>Writing steps\<close>

definition refuseIfReadAbove :: "DB \<Rightarrow> bytes \<Rightarrow> timestamp \<Rightarrow> Store \<Rightarrow> kv_error option \<times> Store" where
  "refuseIfReadAbove db key startTS s =
     (case ReadMark db key s of
        None \<Rightarrow> (None, s)
      | Some mark \<Rightarrow>
          if \<not> Less startTS mark then (None, s)
          else (Some (ErrWriteConflict key mark startTS), s\<lparr>readConflicts := readConflicts s + 1\<rparr>))"

definition commit_above :: "DB \<Rightarrow> bytes \<Rightarrow> timestamp \<Rightarrow> Store \<Rightarrow> timestamp option" where
  "commit_above db key startTS s =
     (case newestCommit db key s of
        None \<Rightarrow> None
      | Some (commit, st) \<Rightarrow> if Less startTS commit then Some commit else None)"

definition PrewriteInto :: "DB \<Rightarrow> Batch \<Rightarrow> bytes \<Rightarrow> Lock \<Rightarrow> bytes \<Rightarrow> Store \<Rightarrow> kv_error option \<times> Batch \<times> Store" where
  "PrewriteInto db b key l val s =
     (if \<not> IsSet (l_StartTS l) then (Some ErrUnsetTimestamp, b, s)
      else if LessEq (l_StartTS l) (gcMark s) then (Some ErrBelowGCMark, b, s)
      else (case store_Lock db key s of
              Some cur \<Rightarrow> (Some (ErrKeyIsLocked key (l_StartTS cur)), b, s)
            | None \<Rightarrow>
                (case commit_above db key (l_StartTS l) s of
                   Some commit \<Rightarrow> (Some (ErrWriteConflict key commit (l_StartTS l)), b, s)
                 | None \<Rightarrow>
                     (case refuseIfReadAbove db key (l_StartTS l) s of
                        (Some err, s1) \<Rightarrow> (Some err, b, s1)
                      | (None, s1) \<Rightarrow>
                          (None,
                           Set (Set b (LockKey (st_ns s1) key) (encodeLock l)) (EncodeKey (st_ns s1) key (l_StartTS l)) val,
                           s1\<lparr>prewrites := prewrites s1 + 1\<rparr>)))))"

definition releaseLockOf :: "DB \<Rightarrow> Batch \<Rightarrow> bytes \<Rightarrow> timestamp \<Rightarrow> Store \<Rightarrow> Batch \<times> Store" where
  "releaseLockOf db b key startTS s =
     (case store_Lock db key s of
        Some l \<Rightarrow>
          if l_StartTS l \<noteq> startTS then (b, s\<lparr>foreignLocksKept := foreignLocksKept s + 1\<rparr>)
          else (Delete b (LockKey (st_ns s) key), s)
      | None \<Rightarrow> (b, s\<lparr>foreignLocksKept := foreignLocksKept s + 1\<rparr>))"

definition CommitInto ::
  "DB \<Rightarrow> Batch \<Rightarrow> bytes \<Rightarrow> timestamp \<Rightarrow> timestamp \<Rightarrow> Store \<Rightarrow> kv_error option \<times> Batch \<times> Store" where
  "CommitInto db b key startTS commitTS s =
     (if \<not> IsSet startTS \<or> \<not> IsSet commitTS then (Some ErrUnsetTimestamp, b, s)
      else if Less commitTS startTS then (Some (CommitBeforeStart commitTS startTS), b, s)
      else (case releaseLockOf db (Set b (WriteKey (st_ns s) key commitTS) (encodeWrite startTS False)) key startTS s of
              (b', s') \<Rightarrow> (None, b', s'\<lparr>commits := commits s' + 1\<rparr>)))"

definition RollbackInto :: "DB \<Rightarrow> Batch \<Rightarrow> bytes \<Rightarrow> timestamp \<Rightarrow> Store \<Rightarrow> kv_error option \<times> Batch \<times> Store" where
  "RollbackInto db b key startTS s =
     (if \<not> IsSet startTS then (Some ErrUnsetTimestamp, b, s)
      else (case releaseLockOf db (Set b (WriteKey (st_ns s) key startTS) (encodeWrite startTS True)) key startTS s of
              (b', s') \<Rightarrow> (None, Delete b' (EncodeKey (st_ns s') key startTS), s'\<lparr>rollbacks := rollbacks s' + 1\<rparr>)))"

definition PutTxnInto :: "DB \<Rightarrow> Batch \<Rightarrow> bytes \<Rightarrow> TxnRecord \<Rightarrow> Store \<Rightarrow> kv_error option \<times> Batch" where
  "PutTxnInto db b primary r s =
     (if \<not> IsSet (t_StartTS r) then (Some ErrUnsetTimestamp, b)
      else if t_Status r = TxnCommitted \<and> \<not> IsSet (t_CommitTS r) then (Some CommittedWithoutTimestamp, b)
      else (case store_Txn db primary (t_StartTS r) s of
              Some cur \<Rightarrow> (Some (ErrTxnAlreadyDecided primary cur), b)
            | None \<Rightarrow> (None, Set b (TxnKey (st_ns s) primary (t_StartTS r)) (encodeTxn r))))"

definition NoteReadInto :: "DB \<Rightarrow> Batch \<Rightarrow> bytes \<Rightarrow> timestamp \<Rightarrow> Store \<Rightarrow> kv_error option \<times> Batch \<times> Store" where
  "NoteReadInto db b key readTS s =
     (if \<not> IsSet readTS then (Some ErrUnsetTimestamp, b, s)
      else (case ReadMark db key s of
              Some cur \<Rightarrow>
                if LessEq readTS cur then (None, b, s)
                else (None, Set (Delete b (ReadMarkKey (st_ns s) key cur)) (ReadMarkKey (st_ns s) key readTS) [],
                      s\<lparr>readMarks := readMarks s + 1\<rparr>)
            | None \<Rightarrow> (None, Set b (ReadMarkKey (st_ns s) key readTS) [], s\<lparr>readMarks := readMarks s + 1\<rparr>)))"

section \<open>Snapshot reads\<close>

text \<open>
  The walk over a key's commit records, newest first: \<open>Inl\<close> with the commit when it is uncertain,
  otherwise the first commit at or below the read that is not a rollback, if there is one.
\<close>

fun getTxn_loop :: "bytes \<Rightarrow> bytes \<Rightarrow> timestamp \<Rightarrow> timestamp \<Rightarrow> entry list \<Rightarrow> timestamp + (timestamp \<times> timestamp) option" where
  "getTxn_loop ns key readTS ceiling [] = Inr None"
| "getTxn_loop ns key readTS ceiling (e # es) =
     (case DecodeWriteKey ns (fst e) of
        None \<Rightarrow> Inr None
      | Some (gotKey, commitTS) \<Rightarrow>
          if gotKey \<noteq> key then Inr None
          else (case decodeWrite (snd e) of
                  None \<Rightarrow> getTxn_loop ns key readTS ceiling es
                | Some (startTS, rollback) \<Rightarrow>
                    if Less readTS commitTS then
                      (if \<not> rollback \<and> LessEq commitTS ceiling then Inl commitTS
                       else getTxn_loop ns key readTS ceiling es)
                    else if rollback then getTxn_loop ns key readTS ceiling es
                    else Inr (Some (commitTS, startTS))))"

definition GetTxn :: "DB \<Rightarrow> bytes \<Rightarrow> timestamp \<Rightarrow> timestamp \<Rightarrow> Store \<Rightarrow> (kv_error + bytes option) \<times> Store" where
  "GetTxn db key readTS ceiling s =
     (if \<not> IsSet readTS then (Inl ErrUnsetTimestamp, s)
      else (let s1 = s\<lparr>reads := reads s + 1\<rparr>
        in if LessEq readTS (gcMark s1) then (Inl ErrBelowGCMark, s1\<lparr>readsRefused := readsRefused s1 + 1\<rparr>)
           else (let go = (case getTxn_loop (st_ns s1) key readTS ceiling
                                  (iter_rest (First (prefix_iter db (WritePrefix (st_ns s1) key)))) of
                             Inl c \<Rightarrow> (Inl (UncertaintyError key readTS c),
                                       s1\<lparr>uncertaintyRestarts := uncertaintyRestarts s1 + 1\<rparr>)
                           | Inr None \<Rightarrow> (Inr None, s1)
                           | Inr (Some (c, st)) \<Rightarrow>
                               (case Get db (EncodeKey (st_ns s1) key st) of
                                  None \<Rightarrow> (Inl (CommitWithoutVersion key c st), s1)
                                | Some v \<Rightarrow> (Inr (Some v), s1)))
                 in (case store_Lock db key s1 of
                       Some l \<Rightarrow> if LessEq (l_StartTS l) readTS
                                 then (Inl (LockedError key l), s1\<lparr>readsBlocked := readsBlocked s1 + 1\<rparr>)
                                 else go
                     | None \<Rightarrow> go))))"

definition UncertaintyCeiling :: "timestamp \<Rightarrow> duration \<Rightarrow> timestamp" where
  "UncertaintyCeiling readTS maxOffset = Timestamp (Wall_Add (Wall readTS) maxOffset) 0"

definition RestartAt :: "timestamp \<Rightarrow> timestamp" where
  "RestartAt commitTS = Next commitTS"

section \<open>Resolution\<close>

datatype Resolution = ResolveWait | ResolveForward | ResolveBack

definition ResolveLock :: "DB \<Rightarrow> Lock \<Rightarrow> timestamp \<Rightarrow> bool \<Rightarrow> Store \<Rightarrow> Resolution \<times> timestamp" where
  "ResolveLock db l readTS primaryOnThisRange s =
     (if \<not> primaryOnThisRange then (ResolveWait, zeroTS)
      else (case store_Txn db (l_Primary l) (l_StartTS l) s of
              Some rec \<Rightarrow> if t_Status rec = TxnCommitted then (ResolveForward, t_CommitTS rec) else (ResolveBack, zeroTS)
            | None \<Rightarrow> if LessEq readTS (l_Deadline l) then (ResolveWait, zeroTS) else (ResolveBack, zeroTS)))"

definition ApplyResolutionInto ::
  "DB \<Rightarrow> Batch \<Rightarrow> bytes \<Rightarrow> Lock \<Rightarrow> Resolution \<Rightarrow> timestamp \<Rightarrow> Store \<Rightarrow> kv_error option \<times> Batch \<times> Store" where
  "ApplyResolutionInto db b key l r commitTS s =
     (case r of
        ResolveForward \<Rightarrow> CommitInto db b key (l_StartTS l) commitTS (s\<lparr>rollForwards := rollForwards s + 1\<rparr>)
      | ResolveBack \<Rightarrow> RollbackInto db b key (l_StartTS l) (s\<lparr>rollBacks := rollBacks s + 1\<rparr>)
      | ResolveWait \<Rightarrow> (None, b, s))"

section \<open>What the walk over a chain finds\<close>

lemma chain_list:
  assumes ok: "store_ok ns es" "kind \<in> {dataPrefix, writePrefix, readPrefix}" "length key < 2 ^ 32"
  obtains tvs where
    "filter (\<lambda>e. prefix (metaKey ns kind key) (fst e)) es = map (\<lambda>(t, v). (appendInvertedTS (metaKey ns kind key) t, v)) tvs"
    "sorted_wrt (\<lambda>a b. fst b < fst a) tvs" "\<And>t v. (t, v) \<in> set tvs \<longleftrightarrow> chain_of es ns kind key t = Some v"
proof -
  let ?p = "metaKey ns kind key"
  define L where "L = filter (\<lambda>e. prefix ?p (fst e)) es"
  define tof where "tof e = read_inverted (drop (length ?p) (fst e))" for e :: entry
  define tvs where "tvs = map (\<lambda>e. (tof e, snd e)) L"
  have srt: "keys_sorted es" "keys_sorted L"
    using ok(1) by (simp_all add: store_ok_def L_def keys_sorted_filter)
  have inv: "read_inverted (drop (length ?p) (appendInvertedTS ?p t)) = t" for t
    by (simp add: appendInvertedTS_def read_inverted_append)
  have stamp: "fst e = appendInvertedTS ?p (tof e) \<and> ts_ok (tof e)" if "e \<in> set L" for e
  proof -
    have "e \<in> set es" "prefix ?p (fst e)" using that by (simp_all add: L_def)
    then obtain t where "fst e = appendInvertedTS ?p t" "ts_ok t" by (rule chain_member [OF ok])
    then show ?thesis by (simp add: tof_def inv)
  qed
  then have L: "L = map (\<lambda>(t, v). (appendInvertedTS ?p t, v)) tvs"
    by (simp add: tvs_def o_def) (rule map_idI [symmetric], simp add: prod_eq_iff)
  have mem: "(t, v) \<in> set tvs \<longleftrightarrow> (appendInvertedTS ?p t, v) \<in> set es" for t v
  proof -
    have "(appendInvertedTS ?p t, v) \<in> set es \<longleftrightarrow> (appendInvertedTS ?p t, v) \<in> set L" by (simp add: L_def)
    also have "\<dots> \<longleftrightarrow> (t, v) \<in> set tvs" by (subst L) auto
    finally show ?thesis by simp
  qed
  have "sorted_wrt (\<lambda>a b. fst b < fst a) tvs"
    unfolding tvs_def sorted_wrt_map
  proof (rule sorted_wrt_mono_rel)
    show "sorted_wrt (\<lambda>x y. fst x < fst y) L" using srt(2) by (simp add: keys_sorted_def sorted_wrt_map)
    fix x y assume "x \<in> set L" "y \<in> set L" "fst x < fst y"
    with stamp [of x] stamp [of y] inverted_less_iff [of "tof x" "tof y" ?p]
    show "fst (tof y, snd y) < fst (tof x, snd x)" by simp
  qed
  with L mem show ?thesis using that [of tvs] by (simp add: L_def chain_of_Some [OF srt(1)])
qed

text \<open>
  The commits of a key, as a function from the commit timestamp to the start timestamp it names;
  a rollback tombstone is no commit.
\<close>

definition real_commit :: "bytes option \<Rightarrow> timestamp option" where
  "real_commit w = (case w of None \<Rightarrow> None
     | Some v \<Rightarrow> (case decodeWrite v of Some (st, rb) \<Rightarrow> if rb then None else Some st | None \<Rightarrow> None))"

definition committed :: "DB \<Rightarrow> Store \<Rightarrow> bytes \<Rightarrow> timestamp \<Rightarrow> timestamp option" where
  "committed db s key c = real_commit (Get db (WriteKey (st_ns s) key c))"

text \<open>What a snapshot at \<open>readTS\<close> with a given ceiling has to find among the commits.\<close>

definition snapshot_answer ::
  "(timestamp \<Rightarrow> timestamp option) \<Rightarrow> timestamp \<Rightarrow> timestamp \<Rightarrow> timestamp + (timestamp \<times> timestamp) option \<Rightarrow> bool" where
  "snapshot_answer f readTS ceiling r \<longleftrightarrow>
     (case r of
        Inl c \<Rightarrow> readTS < c \<and> c \<le> ceiling \<and> f c \<noteq> None \<and> (\<forall>c'. c < c' \<and> c' \<le> ceiling \<longrightarrow> f c' = None)
      | Inr (Some (c, st)) \<Rightarrow> (\<forall>c'. readTS < c' \<and> c' \<le> ceiling \<longrightarrow> f c' = None) \<and>
          c \<le> readTS \<and> f c = Some st \<and> (\<forall>c'. c < c' \<and> c' \<le> readTS \<longrightarrow> f c' = None)
      | Inr None \<Rightarrow> (\<forall>c'. readTS < c' \<and> c' \<le> ceiling \<longrightarrow> f c' = None) \<and> (\<forall>c' \<le> readTS. f c' = None))"

lemma snapshot_answer_above:
  assumes "snapshot_answer f readTS ceiling r" "\<And>c. c \<noteq> t \<Longrightarrow> f' c = f c" "f' t = None \<or> readTS < t \<and> ceiling < t" "f t = None"
  shows "snapshot_answer f' readTS ceiling r"
proof -
  have eq: "f' c = f c" if "c \<le> readTS \<or> c \<le> ceiling" for c
    using assms(2) [of c] assms(3,4) that by (cases "c = t") auto
  show ?thesis
  proof (cases r)
    case (Inl c)
    then show ?thesis using assms(1) by (simp add: snapshot_answer_def eq)
  next
    case (Inr p)
    show ?thesis
    proof (cases p)
      case None
      then show ?thesis using assms(1) Inr by (simp add: snapshot_answer_def eq)
    next
      case (Some q)
      then show ?thesis using assms(1) Inr by (cases q) (simp add: snapshot_answer_def eq)
    qed
  qed
qed

lemma getTxn_loop_answer:
  assumes "sorted_wrt (\<lambda>a b. fst b < fst a) tvs" "length key < 2 ^ 32" "\<forall>(t, v) \<in> set tvs. decodeWrite v \<noteq> None"
  shows "snapshot_answer (\<lambda>c. real_commit (map_of tvs c)) readTS ceiling
           (getTxn_loop ns key readTS ceiling (map (\<lambda>(t, v). (WriteKey ns key t, v)) tvs))"
  using assms(1,3)
proof (induction tvs)
  case Nil
  show ?case by (simp add: snapshot_answer_def real_commit_def)
next
  case (Cons tv tvs)
  obtain t v where tv: "tv = (t, v)" by (cases tv)
  obtain st rb where d: "decodeWrite v = Some (st, rb)" using Cons.prems(2) tv by auto
  have below: "c < t" if "c \<in> fst ` set tvs" for c using Cons.prems(1) tv that by auto
  then have none: "map_of tvs c = None" if "t \<le> c" for c
    using that by (meson leD map_of_eq_None_iff)
  have IH: "snapshot_answer (\<lambda>c. real_commit (map_of tvs c)) readTS ceiling
      (getTxn_loop ns key readTS ceiling (map (\<lambda>(t, v). (WriteKey ns key t, v)) tvs))" (is "snapshot_answer ?f _ _ ?r")
    using Cons by simp
  have dec: "DecodeWriteKey ns (WriteKey ns key t) = Some (key, t)" using assms(2) by (simp add: DecodeWriteKey_iff)
  define F where "F c = real_commit (map_of (tv # tvs) c)" for c
  have ft: "F t = (if rb then None else Some st)" using d tv by (simp add: F_def real_commit_def)
  have later: "F c = None" if "t < c" for c using none [of c] that tv by (auto simp: F_def real_commit_def)
  have skip: "snapshot_answer F readTS ceiling ?r" if "rb \<or> readTS < t \<and> ceiling < t"
    by (rule snapshot_answer_above [OF IH, of t]) (use that ft none [of t] tv in \<open>auto simp: F_def real_commit_def\<close>)
  consider "rb \<or> readTS < t \<and> ceiling < t" | "\<not> rb" "readTS < t" "t \<le> ceiling" | "\<not> rb" "t \<le> readTS" by fastforce
  then have "snapshot_answer F readTS ceiling (getTxn_loop ns key readTS ceiling (map (\<lambda>(t, v). (WriteKey ns key t, v)) (tv # tvs)))"
  proof cases
    case 1
    then have "getTxn_loop ns key readTS ceiling (map (\<lambda>(t, v). (WriteKey ns key t, v)) (tv # tvs)) = ?r"
      using tv d dec by (auto simp: not_less not_le)
    with skip [OF 1] show ?thesis by simp
  next
    case 2
    then have "getTxn_loop ns key readTS ceiling (map (\<lambda>(t, v). (WriteKey ns key t, v)) (tv # tvs)) = Inl t"
      using tv d dec by simp
    with 2 ft later show ?thesis by (simp add: snapshot_answer_def)
  next
    case 3
    then have r: "getTxn_loop ns key readTS ceiling (map (\<lambda>(t, v). (WriteKey ns key t, v)) (tv # tvs)) = Inr (Some (t, st))"
      using leD [OF 3(2)] tv d dec by simp
    have up: "F c = None" if "readTS < c" for c using later [OF le_less_trans [OF 3(2) that]] .
    have "F t = Some st" using ft 3(1) by simp
    then show ?thesis
      unfolding r snapshot_answer_def sum.case option.case prod.case using 3(2) later up by blast
  qed
  then show ?case unfolding F_def [abs_def] .
qed

lemma snapshot_answer_unique:
  assumes "snapshot_answer f readTS ceiling r" "snapshot_answer f readTS ceiling r'"
  shows "r = r'"
proof -
  have newest: "c = c'" if "P c" "P c'" "f c \<noteq> None" "f c' \<noteq> None"
    "\<forall>x. c < x \<and> P x \<longrightarrow> f x = None" "\<forall>x. c' < x \<and> P x \<longrightarrow> f x = None" for c c' and P :: "timestamp \<Rightarrow> bool"
    using that by (metis linorder_less_linear)
  consider c c' where "r = Inl c" "r' = Inl c'" | c p where "r = Inl c" "r' = Inr p" | c p where "r = Inr p" "r' = Inl c"
    | p p' where "r = Inr p" "r' = Inr p'"
    by (cases r; cases r') auto
  then show ?thesis
  proof cases
    case 1
    with assms show ?thesis
      using newest [of "\<lambda>c. c \<le> ceiling" c c'] by (simp add: snapshot_answer_def)
  next
    case 2
    with assms show ?thesis by (auto simp: snapshot_answer_def split: option.splits)
  next
    case 3
    with assms show ?thesis by (auto simp: snapshot_answer_def split: option.splits)
  next
    case 4
    show ?thesis
    proof (cases p; cases p')
      fix a a' assume p: "p = Some a" "p' = Some a'"
      have "fst a = fst a'"
        using assms 4 p newest [of "\<lambda>c. c \<le> readTS" "fst a" "fst a'"] by (simp add: snapshot_answer_def case_prod_beta)
      with assms 4 p show ?thesis by (simp add: snapshot_answer_def case_prod_beta prod_eq_iff)
    qed (use assms 4 in \<open>auto simp: snapshot_answer_def\<close>)
  qed
qed

lemma getTxn_loop_snapshot:
  assumes "store_ok (st_ns s) (content db)" "length key < 2 ^ 32"
  shows "snapshot_answer (committed db s key) readTS ceiling
    (getTxn_loop (st_ns s) key readTS ceiling (iter_rest (First (prefix_iter db (WritePrefix (st_ns s) key)))))"
proof -
  let ?ns = "st_ns s"
  have srt: "keys_sorted (content db)" using assms(1) by (simp add: store_ok_def)
  obtain tvs where tvs:
    "filter (\<lambda>e. prefix (metaKey ?ns writePrefix key) (fst e)) (content db) =
       map (\<lambda>(t, v). (appendInvertedTS (metaKey ?ns writePrefix key) t, v)) tvs"
    "sorted_wrt (\<lambda>a b. fst b < fst a) tvs"
    "\<And>t v. (t, v) \<in> set tvs \<longleftrightarrow> chain_of (content db) ?ns writePrefix key t = Some v"
    using chain_list [OF assms(1) _ assms(2)] by blast
  have dist: "distinct (map fst tvs)"
    using tvs(2) by (induction tvs) auto
  have map: "map_of tvs = chain_of (content db) ?ns writePrefix key"
  proof
    fix t
    show "map_of tvs t = chain_of (content db) ?ns writePrefix key t"
      using tvs(3) [of t] map_of_eq_Some_iff [OF dist, of t] by (metis not_Some_eq)
  qed
  have "decodeWrite v \<noteq> None" if "(t, v) \<in> set tvs" for t v
  proof -
    have "(appendInvertedTS (metaKey ?ns writePrefix key) t, v) \<in> set (content db)"
      using that tvs(3) chain_of_Some [OF srt] by blast
    then show ?thesis
      using assms(1) metaKey_prefix_kind [OF prefix_inverted] unfolding store_ok_def rec_ok_def by fastforce
  qed
  then have "snapshot_answer (\<lambda>c. real_commit (map_of tvs c)) readTS ceiling
           (getTxn_loop ?ns key readTS ceiling (map (\<lambda>(t, v). (WriteKey ?ns key t, v)) tvs))"
    by (intro getTxn_loop_answer tvs(2) assms(2)) auto
  moreover have "(\<lambda>c. real_commit (map_of tvs c)) = committed db s key"
    by (simp add: fun_eq_iff map chain_of_def committed_def WriteKey_def Get_content [OF srt])
  ultimately show ?thesis
    by (simp add: prefix_iter_rest(1) [OF srt] WritePrefix_def WriteKey_def tvs(1))
qed

definition reveal :: "DB \<Rightarrow> Store \<Rightarrow> bytes \<Rightarrow> timestamp \<Rightarrow> timestamp + (timestamp \<times> timestamp) option \<Rightarrow> kv_error + bytes option" where
  "reveal db s key readTS r =
     (case r of
        Inl c \<Rightarrow> Inl (UncertaintyError key readTS c)
      | Inr None \<Rightarrow> Inr None
      | Inr (Some (c, st)) \<Rightarrow>
          (case Get db (EncodeKey (st_ns s) key st) of
             None \<Rightarrow> Inl (CommitWithoutVersion key c st) | Some v \<Rightarrow> Inr (Some v)))"

lemma store_Lock_reads [simp]: "store_Lock db key (s\<lparr>reads := n\<rparr>) = store_Lock db key s"
  by (simp add: store_Lock_def)

lemma GetTxn_open:
  assumes "IsSet readTS" "gcMark s < readTS" "\<forall>l. store_Lock db key s = Some l \<longrightarrow> readTS < l_StartTS l"
  shows "fst (GetTxn db key readTS ceiling s) = reveal db s key readTS
    (getTxn_loop (st_ns s) key readTS ceiling (iter_rest (First (prefix_iter db (WritePrefix (st_ns s) key)))))"
  using assms
  by (auto simp: GetTxn_def Let_def reveal_def not_le leD split: option.splits sum.splits)

text \<open>C15: A transactional read above the collection mark answers on every branch what snapshot
  isolation asks: a lock at or below the snapshot blocks it; otherwise a commit between the snapshot
  and the ceiling makes it uncertain, naming the newest such commit; otherwise it returns the value
  that the newest commit at or below the snapshot makes visible, or absence when there is none.\<close>

theorem GetTxn_snapshot:
  assumes "store_ok (st_ns s) (content db)" "length key < 2 ^ 32" "IsSet readTS" "gcMark s < readTS"
  shows "(\<exists>l. store_Lock db key s = Some l \<and> l_StartTS l \<le> readTS \<and>
       fst (GetTxn db key readTS ceiling s) = Inl (LockedError key l)) \<or>
    ((\<forall>l. store_Lock db key s = Some l \<longrightarrow> readTS < l_StartTS l) \<and>
     (\<exists>r. snapshot_answer (committed db s key) readTS ceiling r \<and>
        fst (GetTxn db key readTS ceiling s) = reveal db s key readTS r))"
proof (cases "\<forall>l. store_Lock db key s = Some l \<longrightarrow> readTS < l_StartTS l")
  case True
  then show ?thesis
    using GetTxn_open [OF assms(3,4) True] getTxn_loop_snapshot [OF assms(1,2)] by blast
next
  case False
  then obtain l where "store_Lock db key s = Some l" "l_StartTS l \<le> readTS" by (auto simp: not_less)
  moreover from this have "fst (GetTxn db key readTS ceiling s) = Inl (LockedError key l)"
    using assms(3,4) by (simp add: GetTxn_def Let_def not_le)
  ultimately show ?thesis by blast
qed

lemma GetTxn_answer:
  assumes "store_ok (st_ns s) (content db)" "length key < 2 ^ 32" "IsSet readTS" "gcMark s < readTS"
    "\<forall>l. store_Lock db key s = Some l \<longrightarrow> readTS < l_StartTS l" "snapshot_answer (committed db s key) readTS ceiling r"
  shows "fst (GetTxn db key readTS ceiling s) = reveal db s key readTS r"
  unfolding GetTxn_open [OF assms(3-5)]
    snapshot_answer_unique [OF getTxn_loop_snapshot [OF assms(1,2)] assms(6)] by (rule refl)

lemma reveal_uncertain: "reveal db s key readTS r = Inl (UncertaintyError key' readTS' c) \<Longrightarrow> r = Inl c"
  by (auto simp: reveal_def split: sum.splits option.splits)

lemma GetTxn_store: "st_ns (snd (GetTxn db key readTS ceiling s)) = st_ns s \<and> gcMark (snd (GetTxn db key readTS ceiling s)) = gcMark s"
  by (auto simp: GetTxn_def Let_def split: sum.splits option.splits)

lemma GetTxn_uncertain:
  assumes "store_ok (st_ns s) (content db)" "length key < 2 ^ 32"
    "fst (GetTxn db key readTS ceiling s) = Inl (UncertaintyError key' readTS' c)"
  shows "snapshot_answer (committed db s key) readTS ceiling (Inl c)"
proof -
  have h: "IsSet readTS" "gcMark s < readTS" "\<forall>l. store_Lock db key s = Some l \<longrightarrow> readTS < l_StartTS l"
    using assms(3) by (auto simp: GetTxn_def Let_def not_le split: if_splits)
  show ?thesis
    using assms(3) reveal_uncertain getTxn_loop_snapshot [OF assms(1,2), of readTS ceiling]
    unfolding GetTxn_open [OF h] by fastforce
qed

lemma Next_greater:
  assumes "sint (Wall c) < 2 ^ 63 - 1"
  shows "c < Next c"
proof (cases "Logical c = NOT 0")
  case True
  have "sint (Wall c + 1) = sint (Wall c) + 1"
    using assms sint_ge [of "Wall c"] by (simp add: sint_word_ariths signed_take_bit_int_eq_self)
  with True show ?thesis by (simp add: Next_def less_timestamp_iff)
next
  case False
  then have "1 + Logical c \<noteq> 0" by (simp add: add_eq_0_iff add.commute)
  then have "Logical c < Logical c + 1" using unatSuc [of "Logical c"] by (simp add: word_less_nat_alt add.commute)
  with False show ?thesis by (simp add: Next_def less_timestamp_iff)
qed

text \<open>C27: A restart converges.  When a read is refused as uncertain, restarting it at the timestamp
  the error names, with the same ceiling and on the same state, is never uncertain again: the
  restart lies above the newest commit of the interval.\<close>

theorem restart_converges:
  assumes "store_ok (st_ns s) (content db)" "length key < 2 ^ 32"
    "GetTxn db key readTS ceiling s = (Inl (UncertaintyError key readTS c), s')" "sint (Wall c) < 2 ^ 63 - 1"
  shows "readTS < RestartAt c \<and> fst (GetTxn db key (RestartAt c) ceiling s') \<noteq> Inl (UncertaintyError k t c')"
proof -
  have c: "readTS < c" "\<forall>x. c < x \<and> x \<le> ceiling \<longrightarrow> committed db s key x = None"
    using GetTxn_uncertain [OF assms(1,2), of readTS ceiling] assms(3) by (auto simp: snapshot_answer_def)
  have lt: "c < RestartAt c" unfolding RestartAt_def by (rule Next_greater [OF assms(4)])
  have s': "st_ns s' = st_ns s" using GetTxn_store [of db key readTS ceiling s] assms(3) by simp
  have "False" if "fst (GetTxn db key (RestartAt c) ceiling s') = Inl (UncertaintyError k t c')"
  proof -
    have "snapshot_answer (committed db s' key) (RestartAt c) ceiling (Inl c')"
      using GetTxn_uncertain [OF _ assms(2) that] assms(1) s' by simp
    then have "RestartAt c < c'" "c' \<le> ceiling" "committed db s key c' \<noteq> None"
      by (auto simp: snapshot_answer_def committed_def s')
    then show False using c(2) lt by (meson less_trans)
  qed
  then show ?thesis using less_trans [OF c(1) lt] by blast
qed

section \<open>A transfer left open across a collection\<close>

lemma kind_less: "kind < kind' \<Longrightarrow> metaKey ns kind key @ r < metaKey ns kind' key' @ r'"
  unfolding metaKey_def appendU32_def by (induction ns) simp_all

lemma WriteKey_less: "ts_ok t \<Longrightarrow> ts_ok t' \<Longrightarrow> WriteKey ns key t < WriteKey ns key t' \<longleftrightarrow> t' < t"
  by (simp add: WriteKey_def inverted_less_iff)

lemma EncodeKey_less_WriteKey: "EncodeKey ns key t < WriteKey ns key' t'"
  using kind_less [of dataPrefix writePrefix]
  by (simp add: EncodeKey_metaKey WriteKey_def appendInvertedTS_def kind_defs)

text \<open>
  One key with two committed writers: the first started at 10 and committed at 20, the second
  started at 30 and committed at 100.
\<close>

definition bank_db :: DB where
  "bank_db = Engine.New\<lparr>durable := \<lparr>entries =
     [(EncodeKey [1] [7] (Timestamp 30 0), [2]), (EncodeKey [1] [7] (Timestamp 10 0), [1]),
      (WriteKey [1] [7] (Timestamp 100 0), encodeWrite (Timestamp 30 0) False),
      (WriteKey [1] [7] (Timestamp 20 0), encodeWrite (Timestamp 10 0) False)], v_seq = 1\<rparr>\<rparr>"

lemma bank_content:
  "content bank_db =
     [(EncodeKey [1] [7] (Timestamp 30 0), [2]), (EncodeKey [1] [7] (Timestamp 10 0), [1]),
      (WriteKey [1] [7] (Timestamp 100 0), encodeWrite (Timestamp 30 0) False),
      (WriteKey [1] [7] (Timestamp 20 0), encodeWrite (Timestamp 10 0) False)]" "\<not> closed bank_db"
  by (simp_all add: bank_db_def visible_def Engine.New_def)

lemma bank_ok: "store_ok [1] (content bank_db)"
  by (simp add: bank_content store_ok_def rec_ok_written ts_ok_def keys_sorted_Cons EncodeKey_less WriteKey_less
      EncodeKey_less_WriteKey less_timestamp_iff)

lemma bank_sorted: "keys_sorted (content bank_db)"
  using bank_ok by (simp add: store_ok_def)

lemma kinds_apart [simp]:
  "EncodeKey ns key t \<noteq> WriteKey ns key' t'" "WriteKey ns key' t' \<noteq> EncodeKey ns key t"
  "LockKey ns key \<noteq> EncodeKey ns key' t" "LockKey ns key \<noteq> WriteKey ns key' t"
  by (simp_all add: EncodeKey_metaKey WriteKey_def LockKey_def metaKey_def appendInvertedTS_def appendU32_def)

lemma bank_Get:
  "Get bank_db (EncodeKey [1] [7] t) =
     (if t = Timestamp 30 0 then Some [2] else if t = Timestamp 10 0 then Some [1] else None)"
  "Get bank_db (WriteKey [1] [7] t) =
     (if t = Timestamp 100 0 then Some (encodeWrite (Timestamp 30 0) False)
      else if t = Timestamp 20 0 then Some (encodeWrite (Timestamp 10 0) False) else None)"
  "Get bank_db (LockKey [1] key) = None"
  unfolding Get_content [OF bank_sorted] bank_content
  by (simp_all add: EncodeKey_metaKey [symmetric] del: EncodeKey_metaKey)
     (simp_all add: EncodeKey_metaKey WriteKey_def)

lemma bank_committed:
  "committed bank_db s [7] c =
     (if c = Timestamp 100 0 then Some (Timestamp 30 0) else if c = Timestamp 20 0 then Some (Timestamp 10 0) else None)"
  if "st_ns s = [1]"
  using that by (simp add: committed_def bank_Get real_commit_def rift_codec)

lemma bank_unlocked: "st_ns s = [1] \<Longrightarrow> store_Lock bank_db key s = None"
  by (simp add: store_Lock_def bank_Get)

lemmas ts_eval = less_timestamp_iff less_eq_timestamp_iff IsSet_def Wall_IsSet_def zeroTS_def ts_ok_def

lemma NewStore_simps [simp]: "st_ns (NewStore ns) = ns" "gcMark (NewStore ns) = zeroTS"
  by (simp_all add: NewStore_def)

lemma bank_read_60: "snapshot_answer (committed bank_db (NewStore [1]) [7]) (Timestamp 60 0) (Timestamp 60 0)
    (Inr (Some (Timestamp 20 0, Timestamp 10 0)))"
  by (auto simp: snapshot_answer_def bank_committed ts_eval)

lemma bank_read_120: "snapshot_answer (committed bank_db (NewStore [1]) [7]) (Timestamp 60 0) (Timestamp 120 0)
    (Inl (Timestamp 100 0))"
  by (auto simp: snapshot_answer_def bank_committed ts_eval)

lemma bank_reveal_60: "reveal bank_db (NewStore [1]) [7] (Timestamp 60 0) (Inr (Some (Timestamp 20 0, Timestamp 10 0))) = Inr (Some [1])"
  by (simp add: reveal_def bank_Get)

theorem GetTxn_snapshot_witness:
  "fst (GetTxn bank_db [7] (Timestamp 60 0) (Timestamp 60 0) (NewStore [1])) = Inr (Some [1])"
proof -
  have "\<exists>r. snapshot_answer (committed bank_db (NewStore [1]) [7]) (Timestamp 60 0) (Timestamp 60 0) r \<and>
      fst (GetTxn bank_db [7] (Timestamp 60 0) (Timestamp 60 0) (NewStore [1])) =
      reveal bank_db (NewStore [1]) [7] (Timestamp 60 0) r"
    using GetTxn_snapshot [of "NewStore [1]" bank_db "[7]" "Timestamp 60 0" "Timestamp 60 0"] bank_ok bank_unlocked
    by (simp add: ts_eval)
  then show ?thesis
    using snapshot_answer_unique [OF bank_read_60] by (metis bank_reveal_60)
qed

lemma bank_uncertain:
  "fst (GetTxn bank_db [7] (Timestamp 60 0) (Timestamp 120 0) (NewStore [1])) =
     Inl (UncertaintyError [7] (Timestamp 60 0) (Timestamp 100 0))"
  by (subst GetTxn_answer [OF _ _ _ _ _ bank_read_120])
     (simp_all add: bank_ok bank_unlocked reveal_def ts_eval)

theorem restart_converges_witness:
  "\<exists>s'. GetTxn bank_db [7] (Timestamp 60 0) (Timestamp 120 0) (NewStore [1]) =
      (Inl (UncertaintyError [7] (Timestamp 60 0) (Timestamp 100 0)), s') \<and>
    Timestamp 60 0 < RestartAt (Timestamp 100 0) \<and>
    (\<forall>k t c'. fst (GetTxn bank_db [7] (RestartAt (Timestamp 100 0)) (Timestamp 120 0) s') \<noteq> Inl (UncertaintyError k t c'))"
proof -
  obtain s' where g: "GetTxn bank_db [7] (Timestamp 60 0) (Timestamp 120 0) (NewStore [1]) =
      (Inl (UncertaintyError [7] (Timestamp 60 0) (Timestamp 100 0)), s')"
    using bank_uncertain by (metis prod.collapse)
  have ok: "store_ok (st_ns (NewStore [1])) (content bank_db)" using bank_ok by simp
  show ?thesis using g restart_converges [OF ok _ g] by (intro exI [of _ s']) simp
qed

text \<open>C30: Collection judges versions by their start timestamp while a snapshot read finds them by
  commit timestamp, and the two disagree: when the key has any version at a start below the new mark
  that is newer than the one the read resolves to, whether that newer version is committed later or
  not at all, collection removes the version the read needs, and a read above the mark that had an
  answer reports a commit record without its version.\<close>

theorem gc_orphans_commit:
  assumes ok: "store_ok (st_ns s) (content db)" "\<not> closed db" and to: "IsSet to" "gcMark s < to"
    and gc: "AdvanceGCInto db [] to s = (Inr n, b, s')" and db': "db' = snd (Apply db (Some b) sync)"
    and rd: "IsSet readTS" "to < readTS" "length key < 2 ^ 32" "store_Lock db key s = None"
    and ans: "snapshot_answer (committed db s key) readTS ceiling (Inr (Some (c, st)))"
    and newer: "st < t0" "t0 < to" "Get db (EncodeKey (st_ns s) key t0) \<noteq> None"
  shows "fst (GetTxn db' key readTS ceiling s') = Inl (CommitWithoutVersion key c st)"
proof -
  note get = gc_effect(1) [OF ok to gc db'] and ns = gc_effect(2,3) [OF ok to gc db'] and ok' = gc_effect(4) [OF ok to gc db']
  have kept: "Get db' k = Get db k" if "\<not> prefix (st_ns s @ [dataPrefix]) k" for k
    using that stale_data by (metis get)
  have "\<not> prefix (st_ns s @ [dataPrefix]) (WriteKey (st_ns s) key t)" for t
    using kind_of_metaKey by (simp add: WriteKey_def appendInvertedTS_def)
  then have "committed db' s' key = committed db s key" by (simp add: fun_eq_iff committed_def ns kept)
  moreover have "\<not> prefix (st_ns s @ [dataPrefix]) (LockKey (st_ns s) key)"
    using kind_of_metaKey [of _ _ _ _ "[]"] by (simp add: LockKey_def)
  then have "store_Lock db' key s' = None" using rd(4) by (simp add: store_Lock_def ns kept)
  moreover have "stale (st_ns s) to {k. Get db k \<noteq> None} (EncodeKey (st_ns s) key st)"
    unfolding stale_def using newer rd(3) by blast
  then have "Get db' (EncodeKey (st_ns s) key st) = None" by (simp add: get)
  ultimately show ?thesis
    using GetTxn_answer [OF ok' rd(3,1), of ceiling] ans rd(2) by (simp add: ns reveal_def)
qed

theorem gc_orphans_commit_witness:
  "\<exists>n b s'. AdvanceGCInto bank_db [] (Timestamp 50 0) (NewStore [1]) = (Inr n, b, s') \<and>
     fst (GetTxn bank_db [7] (Timestamp 60 0) (Timestamp 60 0) (NewStore [1])) = Inr (Some [1]) \<and>
     fst (GetTxn (snd (Apply bank_db (Some b) True)) [7] (Timestamp 60 0) (Timestamp 60 0) s') =
       Inl (CommitWithoutVersion [7] (Timestamp 20 0) (Timestamp 10 0))"
proof -
  let ?s = "NewStore [1]"
  have ok: "store_ok (st_ns ?s) (content bank_db)" using bank_ok by simp
  have to: "IsSet (Timestamp 50 0)" "gcMark ?s < Timestamp 50 0" by (simp_all add: ts_eval)
  obtain n b s' where gc: "AdvanceGCInto bank_db [] (Timestamp 50 0) ?s = (Inr n, b, s')"
    by (rule AdvanceGC_exact [OF ok to, of "[]"]) simp
  have "fst (GetTxn bank_db [7] (Timestamp 60 0) (Timestamp 60 0) ?s) = Inr (Some [1])"
    by (subst GetTxn_answer [OF ok _ _ _ _ bank_read_60]) (simp_all add: bank_unlocked bank_reveal_60 ts_eval)
  moreover have "fst (GetTxn (snd (Apply bank_db (Some b) True)) [7] (Timestamp 60 0) (Timestamp 60 0) s') =
       Inl (CommitWithoutVersion [7] (Timestamp 20 0) (Timestamp 10 0))"
    by (rule gc_orphans_commit [OF ok bank_content(2) to gc refl _ _ _ _ bank_read_60, of "Timestamp 30 0"])
       (simp_all add: bank_unlocked bank_Get ts_eval)
  ultimately show ?thesis using gc by blast
qed

end
