(* ===== verification/Replay.thy ===== *)
theory Replay
  imports Store_Codec Txn
begin

text \<open>
  The replicated state machine of a range: the apply path of a transaction step and the resumable
  replay of \<^verbatim>\<open>store/replay.go\<close>.  A replay owns a fresh model engine and a batch; \<open>None\<close> is the
  panic of a flush whose engine refuses the batch.
\<close>

section \<open>One transaction step\<close>

definition applyTxnTo :: "DB \<Rightarrow> Store \<Rightarrow> Batch \<Rightarrow> TxnCommand \<Rightarrow> RangeDescriptor \<Rightarrow> Batch \<times> Store" where
  "applyTxnTo db s b c desc =
     (if x_Op c = OpPrewrite then
        snd (PrewriteInto db b (x_Key c)
               \<lparr>l_Primary = x_Primary c, l_StartTS = x_StartTS c, l_Deadline = x_Deadline c\<rparr> (x_Value c) s)
      else if x_Op c = OpCommitKey then snd (CommitInto db b (x_Key c) (x_StartTS c) (x_CommitTS c) s)
      else if x_Op c = OpRollbackKey then snd (RollbackInto db b (x_Key c) (x_StartTS c) s)
      else if x_Op c = OpPutTxnRecord then
        (snd (PutTxnInto db b (x_Key c)
                \<lparr>t_Status = x_Status c, t_StartTS = x_StartTS c, t_CommitTS = x_CommitTS c\<rparr> s), s)
      else if x_Op c = OpTxnGet then snd (NoteReadInto db b (x_Key c) (x_ReadTS c) s)
      else if x_Op c = OpResolveStatus then
        (let l = \<lparr>l_Primary = x_Key c, l_StartTS = x_StartTS c, l_Deadline = x_Deadline c\<rparr>
         in if fst (ResolveLock db l (x_ExpireAt c) True s) \<noteq> ResolveBack then (b, s)
            else (case store_Txn db (x_Key c) (x_StartTS c) s of
                    Some rec \<Rightarrow> (b, s)
                  | None \<Rightarrow>
                      (snd (PutTxnInto db b (x_Key c)
                              \<lparr>t_Status = TxnRolledBack, t_StartTS = x_StartTS c, t_CommitTS = zeroTS\<rparr> s), s)))
      else if x_Op c = OpApplyResolution then
        (case store_Lock db (x_Key c) s of
           None \<Rightarrow> (b, s)
         | Some l \<Rightarrow>
             if l_StartTS l \<noteq> x_StartTS c then (b, s)
             else snd (ApplyResolutionInto db b (x_Key c) l
                         (if x_Status c = TxnRolledBack then ResolveBack else ResolveForward) (x_CommitTS c) s))
      else (b, s))"

section \<open>The replay\<close>

record Replay =
  rp_desc :: RangeDescriptor
  rp_s :: Store
  rp_db :: DB
  rp_b :: Batch
  rp_next :: nat
  noopReachedSwitch :: nat

definition NewReplay :: "bytes \<Rightarrow> Replay option" where
  "NewReplay base =
     (case decodeMachine base of
        None \<Rightarrow> None
      | Some (desc, mark, recs) \<Rightarrow>
          (let db = Engine.New; s = NewStore (rangePrefix (d_ID desc))
           in (case IngestRecordsInto NewBatch recs mark s of
                 (seed, s') \<Rightarrow>
                   (case Apply db (Some seed) False of
                      (Inl err, db') \<Rightarrow> None
                    | (Inr seq, db') \<Rightarrow>
                        Some \<lparr>rp_desc = desc, rp_s = s', rp_db = db', rp_b = NewBatch, rp_next = 0,
                              noopReachedSwitch = 0\<rparr>))))"

definition flush :: "Replay \<Rightarrow> Replay option" where
  "flush r =
     (if batch_Empty (rp_b r) then Some r
      else (case Apply (rp_db r) (Some (rp_b r)) False of
              (Inl err, db') \<Rightarrow> None
            | (Inr seq, db') \<Rightarrow> Some (r\<lparr>rp_db := db', rp_b := []\<rparr>)))"

definition end_bytes :: "RangeDescriptor \<Rightarrow> bytes" where
  "end_bytes d = (case d_End d of None \<Rightarrow> [] | Some e \<Rightarrow> e)"

text \<open>A split entry applies only against the extent it was computed from.\<close>

definition split_matches :: "SplitSpec \<Rightarrow> RangeDescriptor \<Rightarrow> bool" where
  "split_matches spec desc \<longleftrightarrow>
     \<not> (d_Epoch (sp_Left spec) \<noteq> d_Epoch desc + 1 \<or> d_Start (sp_Left spec) \<noteq> d_Start desc \<or>
        end_bytes (sp_Right spec) \<noteq> end_bytes desc)"

definition kept_by :: "Store \<Rightarrow> RangeDescriptor \<Rightarrow> Record \<Rightarrow> bool" where
  "kept_by s d rec = (case UserKeyOf s (fst rec) of None \<Rightarrow> False | Some key \<Rightarrow> desc_Contains d key)"

definition applyOne :: "Replay \<Rightarrow> Entry \<Rightarrow> Replay option" where
  "applyOne r e =
     (let noop = (length (e_Data e) = 0 \<and> pid_Zero (e_ID e))
      in if length (e_Data e) = 0 then Some r
         else (let r = (if noop then r\<lparr>noopReachedSwitch := noopReachedSwitch r + 1\<rparr> else r) in
           if isTxnCommand (e_Data e) then
             (case decodeTxnCommand (e_Data e) of
                None \<Rightarrow> Some r
              | Some c \<Rightarrow>
                  if \<not> desc_Contains (rp_desc r) (x_Key c) then Some r
                  else do {
                    r1 \<leftarrow> flush r;
                    (case applyTxnTo (rp_db r1) (rp_s r1) (rp_b r1) c (rp_desc r1) of
                       (b, s) \<Rightarrow> flush (r1\<lparr>rp_b := b, rp_s := s\<rparr>)) })
           else if isSplitCommand (e_Data e) then
             (case decodeSplitCommand (e_Data e) of
                None \<Rightarrow> Some r
              | Some spec \<Rightarrow>
                  if \<not> split_matches spec (rp_desc r) then Some r
                  else do {
                    r1 \<leftarrow> flush r;
                    (let kept = filter (kept_by (rp_s r1) (sp_Left spec)) (Records (rp_db r1) (rp_s r1))
                     in (case IngestRecordsInto (rp_b r1) kept (gcMark (rp_s r1)) (rp_s r1) of
                           (b, s) \<Rightarrow> do {
                             r2 \<leftarrow> flush (r1\<lparr>rp_b := b, rp_s := s\<rparr>);
                             Some (r2\<lparr>rp_desc := sp_Left spec\<rparr>) })) })
           else
             (case decodeCmd (e_Data e) of
                (op, k, v, at) \<Rightarrow>
                  if op = opGC then do {
                    r1 \<leftarrow> flush r;
                    (case AdvanceGCInto (rp_db r1) (rp_b r1) at (rp_s r1) of
                       (Inr removed, b, s) \<Rightarrow> flush (r1\<lparr>rp_b := b, rp_s := s\<rparr>)
                     | (Inl err, b, s) \<Rightarrow> Some (r1\<lparr>rp_b := [], rp_s := s\<rparr>)) }
                  else if op = opPut then
                    (if desc_Contains (rp_desc r) k then
                       (case PutInto (rp_b r) k at v (rp_s r) of (err, b, s) \<Rightarrow> Some (r\<lparr>rp_b := b, rp_s := s\<rparr>))
                     else Some r)
                  else Some r)))"

fun apply_from :: "Replay \<Rightarrow> Entry list \<Rightarrow> Replay option" where
  "apply_from r [] = Some r"
| "apply_from r (e # es) = do { r' \<leftarrow> applyOne r e; apply_from r' es }"

definition replay_Apply :: "Replay \<Rightarrow> Entry list \<Rightarrow> Replay option" where
  "replay_Apply r es = do {
     r1 \<leftarrow> apply_from r (drop (rp_next r) es);
     flush (if length es > rp_next r then r1\<lparr>rp_next := length es\<rparr> else r1) }"

definition replay_State :: "Replay \<Rightarrow> (RangeDescriptor \<times> timestamp \<times> Record list) option" where
  "replay_State r = do { r1 \<leftarrow> flush r; Some (rp_desc r1, gcMark (rp_s r1), Records (rp_db r1) (rp_s r1)) }"

definition ReplayMachine :: "bytes \<Rightarrow> Entry list \<Rightarrow> (RangeDescriptor \<times> timestamp \<times> Record list) option" where
  "ReplayMachine base es = do { r \<leftarrow> NewReplay base; r1 \<leftarrow> replay_Apply r es; replay_State r1 }"

section \<open>What a step depends on\<close>

text \<open>
  Two stores show the same view when they share namespace, mark and the records they own; everything
  a step stages is a function of that view, and the batch it is given is only appended to.
\<close>

definition owned_part :: "Store \<Rightarrow> entry list \<Rightarrow> entry list" where
  "owned_part s es = filter (\<lambda>e. owns s (fst e)) es"

definition same_view :: "DB \<Rightarrow> Store \<Rightarrow> DB \<Rightarrow> Store \<Rightarrow> bool" where
  "same_view db s db' s' \<longleftrightarrow>
     keys_sorted (content db) \<and> keys_sorted (content db') \<and> owned_part s (content db') = owned_part s (content db) \<and>
     st_ns s' = st_ns s \<and> gcMark s' = gcMark s"

lemma First_head:
  assumes "keys_sorted (content db)"
  shows "iter_Key (First (prefix_iter db p)) = map_option fst (first_entry (filter (\<lambda>e. prefix p (fst e)) (content db)))"
    "iter_Value (First (prefix_iter db p)) = map_option snd (first_entry (filter (\<lambda>e. prefix p (fst e)) (content db)))"
proof -
  have srt: "keys_sorted (entries (it_v (prefix_iter db p)))"
    using assms by (simp add: prefix_iter_def NewIter_def newIter_def)
  show "iter_Key (First (prefix_iter db p)) = map_option fst (first_entry (filter (\<lambda>e. prefix p (fst e)) (content db)))"
    "iter_Value (First (prefix_iter db p)) = map_option snd (first_entry (filter (\<lambda>e. prefix p (fst e)) (content db)))"
    using iter_head [OF srt of_nat_0_le_iff [of "fst (iter_bounds (prefix_iter db p))"], folded First_def]
      prefix_iter_rest(1) [OF assms] by simp_all
qed

lemma owns_ns: "st_ns s' = st_ns s \<Longrightarrow> owns s' = owns s"
  by (simp add: owns_def fun_eq_iff)

lemma Records_owned: "keys_sorted (content db) \<Longrightarrow> Records db s = owned_part s (content db)"
  using owns_in_namespace [of s] by (auto simp: Records_def owned_part_def prefix_iter_rest(1) intro!: filter_cong)

lemma filter_owned:
  "(\<And>k. prefix p k \<Longrightarrow> owns s k) \<Longrightarrow> filter (\<lambda>e. prefix p (fst e)) (owned_part s es) = filter (\<lambda>e. prefix p (fst e)) es"
  by (auto simp: owned_part_def intro: filter_cong)

lemma owns_kind: "kind \<in> {dataPrefix, lockPrefix, writePrefix, txnPrefix, readPrefix} \<Longrightarrow> owns s (st_ns s @ kind # rest)"
  by (simp add: owns_def nth_append)

lemma metaKey_owned:
  "kind \<in> {dataPrefix, lockPrefix, writePrefix, txnPrefix, readPrefix} \<Longrightarrow> prefix (metaKey (st_ns s) kind key) k \<Longrightarrow> owns s k"
  using owns_kind by (auto simp: metaKey_def appendU32_def prefix_def)

lemma owned_keys [simp]:
  "owns s (LockKey (st_ns s) key)" "owns s (TxnKey (st_ns s) key t)" "owns s (WriteKey (st_ns s) key t)"
  "owns s (ReadMarkKey (st_ns s) key t)" "owns s (EncodeKey (st_ns s) key t)"
  using owns_kind
  by (simp_all add: LockKey_def TxnKey_def WriteKey_def ReadMarkKey_def appendInvertedTS_def EncodeKey_def metaKey_def
      appendU32_def)

lemma same_viewD:
  assumes "same_view db s db' s'"
  shows "st_ns s' = st_ns s" "gcMark s' = gcMark s" "owns s k \<Longrightarrow> Get db' k = Get db k"
  using assms map_of_filter_fst [of "owns s" "content db" k] map_of_filter_fst [of "owns s" "content db'" k]
  by (simp_all add: same_view_def owned_part_def Get_content)

lemma same_view_scan:
  assumes "same_view db s db' s'" "\<And>k. prefix p k \<Longrightarrow> owns s k"
  shows "iter_Key (First (prefix_iter db' p)) = iter_Key (First (prefix_iter db p))"
    "iter_Value (First (prefix_iter db' p)) = iter_Value (First (prefix_iter db p))"
    "iter_rest (First (prefix_iter db' p)) = iter_rest (First (prefix_iter db p))"
proof -
  have "filter (\<lambda>e. prefix p (fst e)) (content db') = filter (\<lambda>e. prefix p (fst e)) (content db)"
    using assms filter_owned [of p s "content db"] filter_owned [of p s "content db'"] by (simp add: same_view_def)
  then show "iter_Key (First (prefix_iter db' p)) = iter_Key (First (prefix_iter db p))"
    "iter_Value (First (prefix_iter db' p)) = iter_Value (First (prefix_iter db p))"
    "iter_rest (First (prefix_iter db' p)) = iter_rest (First (prefix_iter db p))"
    using assms(1) by (simp_all add: same_view_def First_head prefix_iter_rest(1))
qed

lemma same_view_reads:
  assumes "same_view db s db' s'"
  shows "store_Lock db' key s' = store_Lock db key s" "store_Txn db' key t s' = store_Txn db key t s"
    "newestCommit db' key s' = newestCommit db key s" "ReadMark db' key s' = ReadMark db key s"
    "commit_above db' key t s' = commit_above db key t s" "Records db' s' = Records db s"
    "fst (refuseIfReadAbove db' key t s') = fst (refuseIfReadAbove db key t s)"
    "fst (ResolveLock db' l t p s') = fst (ResolveLock db l t p s)"
proof -
  note v = same_viewD(1,2) [OF assms] same_viewD(3) [OF assms owned_keys(1)] same_viewD(3) [OF assms owned_keys(2)]
  have scan: "iter_Key (First (prefix_iter db' (metaKey (st_ns s) kind key))) = iter_Key (First (prefix_iter db (metaKey (st_ns s) kind key)))"
    "iter_Value (First (prefix_iter db' (metaKey (st_ns s) kind key))) = iter_Value (First (prefix_iter db (metaKey (st_ns s) kind key)))"
    if "kind \<in> {writePrefix, readPrefix}" for kind key
    using same_view_scan [OF assms, of "metaKey (st_ns s) kind key"] metaKey_owned [of kind s key] that by auto
  show *: "store_Lock db' key s' = store_Lock db key s" "store_Txn db' key t s' = store_Txn db key t s"
    "newestCommit db' key s' = newestCommit db key s" "ReadMark db' key s' = ReadMark db key s" for key t
    unfolding store_Lock_def store_Txn_def newestCommit_def ReadMark_def Let_def WritePrefix_def ReadMarkPrefix_def v
    by (simp_all add: scan)
  show "commit_above db' key t s' = commit_above db key t s" by (simp add: commit_above_def *)
  show "Records db' s' = Records db s"
    using assms by (simp add: same_view_def Records_owned owned_part_def owns_ns [of s' s])
  show "fst (refuseIfReadAbove db' key t s') = fst (refuseIfReadAbove db key t s)"
    by (simp add: refuseIfReadAbove_def * split: option.splits)
  show "fst (ResolveLock db' l t p s') = fst (ResolveLock db l t p s)"
    by (simp add: ResolveLock_def * split: option.splits)
qed

lemma refuse_keeps: "st_ns (snd (refuseIfReadAbove db key t s)) = st_ns s" "gcMark (snd (refuseIfReadAbove db key t s)) = gcMark s"
  by (simp_all add: refuseIfReadAbove_def split: option.splits)

text \<open>What an operation that stages into a batch leaves: its ops, appended, and the store's view.\<close>

definition stages :: "Batch \<Rightarrow> Store \<Rightarrow> Batch \<Rightarrow> Batch \<times> Store \<Rightarrow> bool" where
  "stages b s ops r \<longleftrightarrow> fst r = b @ ops \<and> st_ns (snd r) = st_ns s \<and> gcMark (snd r) = gcMark s"

lemma releaseLockOf_batch:
  "releaseLockOf db b key t s = (b @ fst (releaseLockOf db [] key t s), snd (releaseLockOf db [] key t s))"
  "st_ns (snd (releaseLockOf db [] key t s)) = st_ns s" "gcMark (snd (releaseLockOf db [] key t s)) = gcMark s"
  by (simp_all add: releaseLockOf_def Delete_def split: option.splits)

lemma releaseLockOf_view:
  "same_view db s db' s' \<Longrightarrow> fst (releaseLockOf db' [] key t s') = fst (releaseLockOf db [] key t s)"
  using same_view_reads(1) [of db s db' s' key] same_viewD(1) [of db s db' s']
  by (simp add: releaseLockOf_def split: option.splits)

lemma PrewriteInto_stages:
  assumes "same_view db s db' s'"
  shows "stages b s (fst (snd (PrewriteInto db' [] key l v s'))) (snd (PrewriteInto db b key l v s))"
proof -
  obtain e1 t1 e2 t2 where r: "refuseIfReadAbove db key (l_StartTS l) s = (e1, t1)"
    "refuseIfReadAbove db' key (l_StartTS l) s' = (e2, t2)" by (meson surj_pair)
  then have "e2 = e1" "st_ns t1 = st_ns s" "gcMark t1 = gcMark s" "st_ns t2 = st_ns s"
    using same_view_reads(7) [OF assms, of key "l_StartTS l"] refuse_keeps [of db key "l_StartTS l" s]
      refuse_keeps [of db' key "l_StartTS l" s'] same_viewD(1) [OF assms] by simp_all
  then show ?thesis
    using same_view_reads(1,5) [OF assms, of key] same_viewD(2) [OF assms] r
    by (auto simp: stages_def PrewriteInto_def Set_def split: option.splits)
qed

lemma CommitInto_stages:
  assumes "same_view db s db' s'"
  shows "stages b s (fst (snd (CommitInto db' [] key st ct s'))) (snd (CommitInto db b key st ct s))"
  unfolding CommitInto_def releaseLockOf_batch(1) [of _ "Set _ _ _"]
  by (simp add: stages_def Set_def releaseLockOf_view [OF assms] releaseLockOf_batch(2,3) same_viewD(1) [OF assms])

lemma RollbackInto_stages:
  assumes "same_view db s db' s'"
  shows "stages b s (fst (snd (RollbackInto db' [] key st s'))) (snd (RollbackInto db b key st s))"
  unfolding RollbackInto_def releaseLockOf_batch(1) [of _ "Set _ _ _"]
  by (simp add: stages_def Set_def Delete_def releaseLockOf_view [OF assms] releaseLockOf_batch(2,3) same_viewD(1) [OF assms])

lemma PutTxnInto_stages:
  "same_view db s db' s' \<Longrightarrow> stages b s (snd (PutTxnInto db' [] key r s')) (snd (PutTxnInto db b key r s), s)"
  using same_view_reads(2) [of db s db' s' key] same_viewD(1) [of db s db' s']
  by (simp add: stages_def PutTxnInto_def Set_def split: option.splits)

lemma NoteReadInto_stages:
  "same_view db s db' s' \<Longrightarrow> stages b s (fst (snd (NoteReadInto db' [] key t s'))) (snd (NoteReadInto db b key t s))"
  using same_view_reads(4) [of db s db' s' key] same_viewD(1) [of db s db' s']
  by (simp add: stages_def NoteReadInto_def Set_def Delete_def split: option.splits)

lemma same_view_counters:
  "same_view db s db' s' \<Longrightarrow> same_view db (s\<lparr>rollForwards := n\<rparr>) db' (s'\<lparr>rollForwards := m\<rparr>)"
  "same_view db s db' s' \<Longrightarrow> same_view db (s\<lparr>rollBacks := n\<rparr>) db' (s'\<lparr>rollBacks := m\<rparr>)"
  by (simp_all add: same_view_def owned_part_def owns_def)

lemma ApplyResolutionInto_stages:
  assumes "same_view db s db' s'"
  shows "stages b s (fst (snd (ApplyResolutionInto db' [] key l r ct s'))) (snd (ApplyResolutionInto db b key l r ct s))"
  using CommitInto_stages [OF same_view_counters(1) [OF assms]] RollbackInto_stages [OF same_view_counters(2) [OF assms]]
  by (cases r) (simp_all add: ApplyResolutionInto_def stages_def)

lemmas stage_rules = PrewriteInto_stages CommitInto_stages RollbackInto_stages PutTxnInto_stages NoteReadInto_stages
  ApplyResolutionInto_stages

lemma stages_nothing: "stages b s [] (b, s)"
  by (simp add: stages_def)

lemma applyTxnTo_stages:
  assumes "same_view db s db' s'"
  shows "stages b s (fst (applyTxnTo db' s' [] c d')) (applyTxnTo db s b c d)"
  unfolding applyTxnTo_def same_view_reads [OF assms] Let_def
  using stage_rules [OF assms] stages_nothing by (auto split: option.splits)

section \<open>The abstract state machine\<close>

text \<open>
  The machine the log drives, with no batch and no engine: extent, namespace, collection mark and
  the sorted content.  Every command takes effect at once, at its position.
\<close>

record sm =
  sm_desc :: RangeDescriptor
  sm_ns :: bytes
  sm_mark :: timestamp
  sm_es :: "entry list"

definition mem :: "entry list \<Rightarrow> DB" where
  "mem es = Engine.New\<lparr>durable := \<lparr>entries = es, v_seq = 0\<rparr>\<rparr>"

definition bare :: "sm \<Rightarrow> Store" where
  "bare m = (NewStore (sm_ns m))\<lparr>gcMark := sm_mark m\<rparr>"

definition sm_apply :: "Batch \<Rightarrow> sm \<Rightarrow> sm" where
  "sm_apply ops m = m\<lparr>sm_es := foldl apply_op (sm_es m) ops\<rparr>"

definition sm_txn :: "TxnCommand \<Rightarrow> sm \<Rightarrow> sm" where
  "sm_txn c m = sm_apply (fst (applyTxnTo (mem (sm_es m)) (bare m) [] c (sm_desc m))) m"

definition sm_split :: "SplitSpec \<Rightarrow> sm \<Rightarrow> sm" where
  "sm_split spec m =
     (let kept = filter (kept_by (bare m) (sp_Left spec)) (Records (mem (sm_es m)) (bare m))
      in sm_apply (fst (IngestRecordsInto [] kept (sm_mark m) (bare m))) m\<lparr>sm_desc := sp_Left spec\<rparr>)"

definition sm_gc :: "timestamp \<Rightarrow> sm \<Rightarrow> sm" where
  "sm_gc at m =
     (case AdvanceGCInto (mem (sm_es m)) [] at (bare m) of
        (Inr removed, ops, s) \<Rightarrow> sm_apply ops m\<lparr>sm_mark := gcMark s\<rparr>
      | (Inl err, ops, s) \<Rightarrow> m)"

definition sm_put :: "bytes \<Rightarrow> timestamp \<Rightarrow> bytes \<Rightarrow> sm \<Rightarrow> sm" where
  "sm_put k at v m = sm_apply (fst (snd (PutInto [] k at v (bare m)))) m"

definition sm_step :: "sm \<Rightarrow> Entry \<Rightarrow> sm" where
  "sm_step m e =
     (if length (e_Data e) = 0 then m
      else if isTxnCommand (e_Data e) then
        (case decodeTxnCommand (e_Data e) of
           None \<Rightarrow> m | Some c \<Rightarrow> if \<not> desc_Contains (sm_desc m) (x_Key c) then m else sm_txn c m)
      else if isSplitCommand (e_Data e) then
        (case decodeSplitCommand (e_Data e) of
           None \<Rightarrow> m | Some spec \<Rightarrow> if \<not> split_matches spec (sm_desc m) then m else sm_split spec m)
      else (case decodeCmd (e_Data e) of
              (op, k, v, at) \<Rightarrow>
                if op = opGC then sm_gc at m
                else if op = opPut then (if desc_Contains (sm_desc m) k then sm_put k at v m else m)
                else m))"

definition sm_of :: "Replay \<Rightarrow> sm" where
  "sm_of r = \<lparr>sm_desc = rp_desc r, sm_ns = st_ns (rp_s r), sm_mark = gcMark (rp_s r),
     sm_es = foldl apply_op (content (rp_db r)) (rp_b r)\<rparr>"

definition sm_ok :: "sm \<Rightarrow> bool" where
  "sm_ok m \<longleftrightarrow> keys_sorted (sm_es m)"

definition replay_ok :: "Replay \<Rightarrow> bool" where
  "replay_ok r \<longleftrightarrow> \<not> closed (rp_db r) \<and> keys_sorted (content (rp_db r))"

lemma mem_simps [simp]: "content (mem es) = es" "\<not> closed (mem es)"
  by (simp_all add: mem_def visible_def Engine.New_def)

lemma bare_simps [simp]: "st_ns (bare m) = sm_ns m" "gcMark (bare m) = sm_mark m"
  by (simp_all add: bare_def)

lemma Apply_closed [simp]: "closed (snd (Apply db b sync)) = closed db"
  by (simp add: Apply_def Let_def)

lemma flush_total:
  assumes "replay_ok r"
  obtains r' where "flush r = Some r'" "rp_b r' = []" "replay_ok r'" "sm_of r' = sm_of r" "rp_next r' = rp_next r"
    "rp_s r' = rp_s r" "rp_desc r' = rp_desc r" "content (rp_db r') = foldl apply_op (content (rp_db r)) (rp_b r)"
proof (cases "rp_b r = []")
  case True
  then show ?thesis using assms by (intro that [of r]) (simp_all add: flush_def batch_Empty_def)
next
  case False
  let ?r = "r\<lparr>rp_db := snd (Apply (rp_db r) (Some (rp_b r)) False), rp_b := []\<rparr>"
  have opn: "\<not> closed (rp_db r)" "keys_sorted (content (rp_db r))" using assms by (simp_all add: replay_ok_def)
  have "flush r = Some ?r"
    using False opn(1) by (simp add: flush_def batch_Empty_def Apply_def Let_def)
  moreover have "replay_ok ?r"
    using Apply_sorted [OF opn] opn(1) by (simp add: replay_ok_def)
  ultimately show ?thesis
    using Apply_content [OF opn(1)] by (intro that [of ?r]) (simp_all add: sm_of_def)
qed

lemma flush_same_view:
  assumes "replay_ok r" "rp_b r = []"
  shows "same_view (rp_db r) (rp_s r) (mem (sm_es (sm_of r))) (bare (sm_of r))"
  using assms by (simp add: same_view_def replay_ok_def sm_of_def)

lemma noop_flush:
  assumes "replay_ok r"
  shows "\<exists>r'. flush r = Some r' \<and> rp_b r' = [] \<and> replay_ok r' \<and> sm_of r' = sm_of r \<and> rp_next r' = rp_next r \<and>
    noopReachedSwitch r' = noopReachedSwitch r"
proof -
  obtain r' where r': "flush r = Some r'" "rp_b r' = []" "replay_ok r'" "sm_of r' = sm_of r" "rp_next r' = rp_next r"
    using flush_total [OF assms] by blast
  moreover have "noopReachedSwitch r' = noopReachedSwitch r"
    using r'(1) by (auto simp: flush_def split: if_splits prod.splits sum.splits)
  ultimately show ?thesis by blast
qed

text \<open>Staging into an empty batch and flushing is the abstract effect.\<close>

lemma stage_and_flush:
  assumes "replay_ok r" "rp_b r = []" "stages [] (rp_s r) ops (b, s)"
  shows "\<exists>r'. flush (r\<lparr>rp_b := b, rp_s := s\<rparr>) = Some r' \<and> replay_ok r' \<and> sm_of r' = sm_apply ops (sm_of r) \<and>
    rp_next r' = rp_next r \<and> noopReachedSwitch r' = noopReachedSwitch r"
proof -
  let ?r = "r\<lparr>rp_b := b, rp_s := s\<rparr>"
  have "replay_ok ?r" using assms(1) by (simp add: replay_ok_def)
  moreover have "sm_of ?r = sm_apply ops (sm_of r)"
    using assms(2,3) by (simp add: sm_of_def sm_apply_def stages_def)
  ultimately show ?thesis using noop_flush [of ?r] by auto
qed

definition refines :: "Replay option \<Rightarrow> Replay \<Rightarrow> sm \<Rightarrow> bool" where
  "refines r' r m \<longleftrightarrow> (\<exists>q. r' = Some q \<and> replay_ok q \<and> sm_of q = m \<and> rp_next q = rp_next r \<and>
     noopReachedSwitch q = noopReachedSwitch r)"

lemma refines_same: "replay_ok r \<Longrightarrow> refines (Some r) r (sm_of r)"
  by (simp add: refines_def)

lemma refines_flush:
  assumes "replay_ok r" "\<And>r1. replay_ok r1 \<Longrightarrow> rp_b r1 = [] \<Longrightarrow> sm_of r1 = sm_of r \<Longrightarrow> refines (f r1) r1 (g (sm_of r))"
  shows "refines (do { r1 \<leftarrow> flush r; f r1 }) r (g (sm_of r))"
proof -
  obtain r1 where r1: "flush r = Some r1" "rp_b r1 = []" "replay_ok r1" "sm_of r1 = sm_of r" "rp_next r1 = rp_next r"
    "noopReachedSwitch r1 = noopReachedSwitch r"
    using noop_flush [OF assms(1)] by blast
  then show ?thesis using assms(2) [OF r1(3,2,4)] by (simp add: refines_def)
qed

lemma refines_txn:
  assumes "replay_ok r"
  shows "refines (do { r1 \<leftarrow> flush r;
           (case applyTxnTo (rp_db r1) (rp_s r1) (rp_b r1) c (rp_desc r1) of (b, s) \<Rightarrow> flush (r1\<lparr>rp_b := b, rp_s := s\<rparr>)) })
         r (sm_txn c (sm_of r))"
proof (rule refines_flush [OF assms])
  fix r1 assume r1: "replay_ok r1" "rp_b r1 = []" "sm_of r1 = sm_of r"
  obtain b s where a: "applyTxnTo (rp_db r1) (rp_s r1) (rp_b r1) c (rp_desc r1) = (b, s)" by (meson surj_pair)
  have "stages [] (rp_s r1) (fst (applyTxnTo (mem (sm_es (sm_of r1))) (bare (sm_of r1)) [] c (sm_desc (sm_of r1)))) (b, s)"
    using applyTxnTo_stages [OF flush_same_view [OF r1(1,2)], of "[]" c _ "rp_desc r1"] a r1(2) by simp
  from stage_and_flush [OF r1(1,2) this] show "refines (case applyTxnTo (rp_db r1) (rp_s r1) (rp_b r1) c (rp_desc r1) of
      (b, s) \<Rightarrow> flush (r1\<lparr>rp_b := b, rp_s := s\<rparr>)) r1 (sm_txn c (sm_of r))"
    unfolding a prod.case refines_def sm_txn_def r1(3) by blast
qed

lemma AdvanceGC_view:
  assumes "same_view db s db' s'" "AdvanceGCInto db [] at s = (x, b, t)"
  obtains t' where "AdvanceGCInto db' [] at s' = (x, b, t')" "gcMark t' = gcMark t" "st_ns t = st_ns s"
    "isl x \<Longrightarrow> t = s \<and> b = []"
proof -
  note v = same_viewD(1,2) [OF assms(1)]
    same_view_scan(3) [OF assms(1), of "st_ns s @ [dataPrefix]"]
  have "owns s k" if "prefix (st_ns s @ [dataPrefix]) k" for k using that unfolding owns_prefix by blast
  note v = v(1,2) v(3) [OF this]
  have "\<exists>t'. AdvanceGCInto db' [] at s' = (x, b, t') \<and> gcMark t' = gcMark t \<and> st_ns t = st_ns s \<and>
      (isl x \<longrightarrow> t = s \<and> b = [])"
    using assms(2) v by (auto simp: AdvanceGCInto_def split: if_splits prod.splits)
  then show ?thesis using that by blast
qed

lemma refines_gc:
  assumes "replay_ok r"
  shows "refines (do { r1 \<leftarrow> flush r;
           (case AdvanceGCInto (rp_db r1) (rp_b r1) at (rp_s r1) of
              (Inr removed, b, s) \<Rightarrow> flush (r1\<lparr>rp_b := b, rp_s := s\<rparr>)
            | (Inl err, b, s) \<Rightarrow> Some (r1\<lparr>rp_b := [], rp_s := s\<rparr>)) })
         r (sm_gc at (sm_of r))"
proof (rule refines_flush [OF assms])
  fix r1 assume r1: "replay_ok r1" "rp_b r1 = []" "sm_of r1 = sm_of r"
  note view = flush_same_view [OF r1(1,2), unfolded r1(3)]
  obtain x b s where a: "AdvanceGCInto (rp_db r1) [] at (rp_s r1) = (x, b, s)" by (rule prod_cases3)
  obtain s' where a': "AdvanceGCInto (mem (sm_es (sm_of r))) [] at (bare (sm_of r)) = (x, b, s')" "gcMark s' = gcMark s"
    "st_ns s = st_ns (rp_s r1)"
    by (rule AdvanceGC_view [OF view a])
  let ?r = "r1\<lparr>rp_b := b, rp_s := s\<rparr>"
  have "replay_ok ?r" using r1(1) by (simp add: replay_ok_def)
  from noop_flush [OF this] obtain q where q: "flush ?r = Some q" "replay_ok q" "sm_of q = sm_of ?r"
    "rp_next q = rp_next r1" "noopReachedSwitch q = noopReachedSwitch r1" by auto
  have err: "sm_of (r1\<lparr>rp_b := [], rp_s := s\<rparr>) = sm_of r" if "isl x"
    using that a r1(2,3) by (auto simp: AdvanceGCInto_def sm_of_def split: if_splits prod.splits)
  show "refines (case AdvanceGCInto (rp_db r1) (rp_b r1) at (rp_s r1) of
              (Inr removed, b, s) \<Rightarrow> flush (r1\<lparr>rp_b := b, rp_s := s\<rparr>)
            | (Inl err, b, s) \<Rightarrow> Some (r1\<lparr>rp_b := [], rp_s := s\<rparr>)) r1 (sm_gc at (sm_of r))"
  proof (cases x)
    case (Inl e)
    then show ?thesis using err r1 a a' by (simp add: refines_def sm_gc_def replay_ok_def)
  next
    case (Inr n)
    have "sm_of ?r = sm_apply b (sm_of r)\<lparr>sm_mark := gcMark s\<rparr>"
      using r1(2,3) a'(3) by (auto simp: sm_of_def sm_apply_def)
    then show ?thesis using Inr q a a' r1(2) by (simp add: refines_def sm_gc_def)
  qed
qed

lemma kept_by_view: "st_ns s' = st_ns s \<Longrightarrow> kept_by s' d = kept_by s d"
  unfolding kept_by_def UserKeyOf_def owns_def by simp

lemma IngestRecords_view:
  "st_ns s' = st_ns s \<Longrightarrow> fst (IngestRecordsInto b rs mark s') = fst (IngestRecordsInto b rs mark s)"
  by (simp add: IngestRecordsInto_def)

lemma refines_split:
  assumes "replay_ok r"
  shows "refines (do { r1 \<leftarrow> flush r;
           (let kept = filter (kept_by (rp_s r1) (sp_Left spec)) (Records (rp_db r1) (rp_s r1))
            in (case IngestRecordsInto (rp_b r1) kept (gcMark (rp_s r1)) (rp_s r1) of
                  (b, s) \<Rightarrow> do {
                    r2 \<leftarrow> flush (r1\<lparr>rp_b := b, rp_s := s\<rparr>);
                    Some (r2\<lparr>rp_desc := sp_Left spec\<rparr>) })) })
         r (sm_split spec (sm_of r))"
proof (rule refines_flush [OF assms])
  fix r1 assume r1: "replay_ok r1" "rp_b r1 = []" "sm_of r1 = sm_of r"
  note view = flush_same_view [OF r1(1,2), unfolded r1(3)]
  define kept where "kept = filter (kept_by (rp_s r1) (sp_Left spec)) (Records (rp_db r1) (rp_s r1))"
  have kept: "kept = filter (kept_by (bare (sm_of r)) (sp_Left spec)) (Records (mem (sm_es (sm_of r))) (bare (sm_of r)))"
    unfolding kept_def kept_by_view [OF same_viewD(1) [OF view]] same_view_reads(6) [OF view] by (rule refl)
  have mark: "gcMark (rp_s r1) = sm_mark (sm_of r)" using same_viewD(2) [OF view] by simp
  obtain b s where a: "IngestRecordsInto (rp_b r1) kept (gcMark (rp_s r1)) (rp_s r1) = (b, s)" by (meson surj_pair)
  then have "stages [] (rp_s r1) (fst (IngestRecordsInto [] kept (sm_mark (sm_of r)) (bare (sm_of r)))) (b, s)"
    using IngestRecords_view [OF same_viewD(1) [OF view]] r1(2) mark
    by (auto simp: stages_def IngestRecordsInto_def Let_def)
  from stage_and_flush [OF r1(1,2) this] obtain q where
    q: "flush (r1\<lparr>rp_b := b, rp_s := s\<rparr>) = Some q" "replay_ok q" "rp_next q = rp_next r1"
      "noopReachedSwitch q = noopReachedSwitch r1"
      "sm_of q = sm_apply (fst (IngestRecordsInto [] kept (sm_mark (sm_of r)) (bare (sm_of r)))) (sm_of r)"
    unfolding r1(3) by blast
  have "sm_of (q\<lparr>rp_desc := sp_Left spec\<rparr>) = (sm_of q)\<lparr>sm_desc := sp_Left spec\<rparr>" by (simp add: sm_of_def)
  also have "\<dots> = sm_split spec (sm_of r)" unfolding q(5) sm_split_def kept [symmetric] Let_def by (rule refl)
  finally show "refines (let kept = filter (kept_by (rp_s r1) (sp_Left spec)) (Records (rp_db r1) (rp_s r1))
            in (case IngestRecordsInto (rp_b r1) kept (gcMark (rp_s r1)) (rp_s r1) of
                  (b, s) \<Rightarrow> do {
                    r2 \<leftarrow> flush (r1\<lparr>rp_b := b, rp_s := s\<rparr>);
                    Some (r2\<lparr>rp_desc := sp_Left spec\<rparr>) })) r1 (sm_split spec (sm_of r))"
    unfolding kept_def [symmetric] Let_def a prod.case using q(1-4) by (simp add: refines_def replay_ok_def)
qed

lemma refines_put:
  assumes "replay_ok r"
  shows "refines (case PutInto (rp_b r) k at v (rp_s r) of (err, b, s) \<Rightarrow> Some (r\<lparr>rp_b := b, rp_s := s\<rparr>))
    r (sm_put k at v (sm_of r))"
  using assms by (simp add: refines_def sm_put_def PutInto_def replay_ok_def sm_of_def sm_apply_def Set_def)

lemma applyOne_refines:
  assumes "replay_ok r"
  shows "refines (applyOne r e) r (sm_step (sm_of r) e)"
proof -
  have same: "refines (Some r) r (sm_of r)" by (rule refines_same [OF assms])
  have d: "sm_desc (sm_of r) = rp_desc r" by (simp add: sm_of_def)
  obtain op k v at where cmd: "decodeCmd (e_Data e) = (op, k, v, at)" by (rule prod_cases4)
  show ?thesis
    using same refines_txn [OF assms] refines_split [OF assms] refines_gc [OF assms, of at]
      refines_put [OF assms, of k at v]
    unfolding applyOne_def sm_step_def Let_def cmd d
    by (simp split: option.splits)
qed

lemma apply_from_refines:
  "replay_ok r \<Longrightarrow> refines (apply_from r es) r (foldl sm_step (sm_of r) es)"
proof (induction es arbitrary: r)
  case (Cons e es)
  then obtain q where q: "applyOne r e = Some q" "replay_ok q" "sm_of q = sm_step (sm_of r) e" "rp_next q = rp_next r"
    "noopReachedSwitch q = noopReachedSwitch r"
    using applyOne_refines [OF Cons.prems, of e] unfolding refines_def by blast
  with Cons.IH [OF q(2)] show ?case by (simp add: refines_def)
qed (simp add: refines_def)

lemma replay_Apply_refines:
  assumes "replay_ok r"
  shows "\<exists>q. replay_Apply r es = Some q \<and> replay_ok q \<and> rp_b q = [] \<and> sm_of q = foldl sm_step (sm_of r) (drop (rp_next r) es) \<and>
    rp_next q = max (rp_next r) (length es) \<and> noopReachedSwitch q = noopReachedSwitch r"
proof -
  obtain q where q: "apply_from r (drop (rp_next r) es) = Some q" "replay_ok q"
    "sm_of q = foldl sm_step (sm_of r) (drop (rp_next r) es)" "rp_next q = rp_next r" "noopReachedSwitch q = noopReachedSwitch r"
    using apply_from_refines [OF assms, of "drop (rp_next r) es"] unfolding refines_def by blast
  let ?q = "if length es > rp_next r then q\<lparr>rp_next := length es\<rparr> else q"
  have "replay_ok ?q" "sm_of ?q = sm_of q" "rp_next ?q = max (rp_next r) (length es)" "noopReachedSwitch ?q = noopReachedSwitch r"
    using q(2,4,5) by (simp_all add: replay_ok_def sm_of_def)
  with noop_flush [of ?q] q(1,3) show ?thesis by (fastforce simp: replay_Apply_def)
qed

lemma replay_State_sm:
  assumes "replay_ok r"
  shows "replay_State r = Some (sm_desc (sm_of r), sm_mark (sm_of r), Records (mem (sm_es (sm_of r))) (bare (sm_of r)))"
proof -
  obtain q where q: "flush r = Some q" "rp_b q = []" "replay_ok q" "sm_of q = sm_of r"
    using noop_flush [OF assms] by blast
  have "Records (mem (sm_es (sm_of r))) (bare (sm_of r)) = Records (rp_db q) (rp_s q)"
    using same_view_reads(6) [OF flush_same_view [OF q(3,2)]] q(4) by simp
  moreover have "rp_desc q = sm_desc (sm_of r)" "gcMark (rp_s q) = sm_mark (sm_of r)"
    unfolding q(4) [symmetric] by (simp_all add: sm_of_def)
  ultimately show ?thesis using q(1) by (simp add: replay_State_def)
qed

lemma NewReplay_ok:
  assumes "NewReplay base = Some r"
  shows "replay_ok r" "rp_next r = 0" "noopReachedSwitch r = 0" "rp_b r = []"
proof -
  obtain desc mark recs where d: "decodeMachine base = Some (desc, mark, recs)"
    using assms by (auto simp: NewReplay_def split: option.splits)
  obtain seed s' where i: "IngestRecordsInto NewBatch recs mark (NewStore (rangePrefix (d_ID desc))) = (seed, s')"
    by (meson surj_pair)
  have n: "\<not> closed Engine.New" "keys_sorted (content Engine.New)" by (simp_all add: Engine.New_def visible_def)
  then have "fst (Apply Engine.New (Some seed) False) = Inr 1" by (simp add: Apply_def Let_def Engine.New_def)
  then have "r = \<lparr>rp_desc = desc, rp_s = s', rp_db = snd (Apply Engine.New (Some seed) False), rp_b = NewBatch,
      rp_next = 0, noopReachedSwitch = 0\<rparr>"
    using assms by (simp add: NewReplay_def d i Let_def split: prod.splits)
  then show "replay_ok r" "rp_next r = 0" "noopReachedSwitch r = 0" "rp_b r = []"
    using Apply_sorted [OF n] n(1) by (simp_all add: replay_ok_def NewBatch_def)
qed

text \<open>C5: A replay reaches a state for every log, never panicking and never letting a term-start
  no-op reach the command switch, and that state is what each command does at its position: batching
  and flushing are invisible.  Feeding the log in growing prefixes gives the state of feeding it at
  once.\<close>

theorem replay_is_the_log:
  assumes "NewReplay base = Some r"
  shows "\<exists>r1 r2. replay_Apply r xs = Some r1 \<and> replay_Apply r1 (xs @ ys) = Some r2 \<and>
    noopReachedSwitch r2 = 0 \<and> rp_next r2 = length (xs @ ys) \<and>
    (let m = foldl sm_step (sm_of r) (xs @ ys)
     in replay_State r2 = Some (sm_desc m, sm_mark m, Records (mem (sm_es m)) (bare m))) \<and>
    replay_State r2 = ReplayMachine base (xs @ ys)"
proof -
  note ok = NewReplay_ok [OF assms]
  obtain r1 where r1: "replay_Apply r xs = Some r1" "replay_ok r1" "sm_of r1 = foldl sm_step (sm_of r) xs"
    "rp_next r1 = length xs" "noopReachedSwitch r1 = 0"
    using replay_Apply_refines [OF ok(1), of xs] ok(2,3) by auto
  obtain r2 where r2: "replay_Apply r1 (xs @ ys) = Some r2" "replay_ok r2"
    "sm_of r2 = foldl sm_step (sm_of r1) ys" "rp_next r2 = length (xs @ ys)" "noopReachedSwitch r2 = 0"
    using replay_Apply_refines [OF r1(2), of "xs @ ys"] r1(4,5) by auto
  obtain r3 where r3: "replay_Apply r (xs @ ys) = Some r3" "replay_ok r3" "sm_of r3 = foldl sm_step (sm_of r) (xs @ ys)"
    using replay_Apply_refines [OF ok(1), of "xs @ ys"] ok(2) by auto
  have "replay_State r3 = replay_State r2"
    unfolding replay_State_sm [OF r3(2)] replay_State_sm [OF r2(2)] r3(3) r2(3) r1(3) foldl_append by (rule refl)
  then have "replay_State r2 = ReplayMachine base (xs @ ys)" by (simp add: ReplayMachine_def assms r3(1))
  moreover have "sm_of r2 = foldl sm_step (sm_of r) (xs @ ys)" by (simp add: r2(3) r1(3))
  ultimately show ?thesis
    using r1(1) r2 replay_State_sm [OF r2(2)] by (intro exI [of _ r1] exI [of _ r2]) (simp add: Let_def)
qed

definition birth :: bytes where
  "birth = encodeMachine FirstRangeDescriptor zeroTS []"

lemma birth_decodes: "decodeMachine birth = Some (FirstRangeDescriptor, zeroTS, [])"
  unfolding birth_def by (rule decodeMachine_encodeMachine)
    (simp_all add: FirstRangeDescriptor_def desc_ok_def encodeDesc_def encodeDescInto_def put_defs)

lemma birth_replays: "\<exists>r. NewReplay birth = Some r"
  by (simp add: NewReplay_def birth_decodes Let_def Apply_def Engine.New_def split: prod.splits)

theorem replay_is_the_log_witness:
  "\<exists>r. NewReplay birth = Some r \<and>
    (\<exists>r1 r2. replay_Apply r [] = Some r1 \<and>
      replay_Apply r1 [\<lparr>e_Type = EntryNormal, e_Term = 1, e_Index = 1, e_ID = zeroPID, e_Data = []\<rparr>] = Some r2 \<and>
      noopReachedSwitch r2 = 0 \<and> rp_next r2 = 1)"
proof -
  obtain r where r: "NewReplay birth = Some r" using birth_replays by blast
  show ?thesis
    using replay_is_the_log [OF r, of "[]" "[\<lparr>e_Type = EntryNormal, e_Term = 1, e_Index = 1, e_ID = zeroPID, e_Data = []\<rparr>]"] r
    by (intro exI [of _ r]) auto
qed

end
