(* ===== verification/Txn_Log.thy ===== *)
theory Txn_Log
  imports Replay
begin

text \<open>
  What the log of a range promises about its transactions: decisions are final, a lock is released
  only by its owner, and a snapshot once read stays as it was read.  Everything here is about the
  abstract state machine that the replay refines.
\<close>

section \<open>What one entry does\<close>

lemma sm_step_cases:
  obtains (same) "sm_step m e = m"
  | (txn) c where "isTxnCommand (e_Data e)" "decodeTxnCommand (e_Data e) = Some c" "desc_Contains (sm_desc m) (x_Key c)"
      "sm_step m e = sm_txn c m"
  | (split) spec where "isSplitCommand (e_Data e)" "decodeSplitCommand (e_Data e) = Some spec"
      "split_matches spec (sm_desc m)" "sm_step m e = sm_split spec m"
  | (gc) k v at where "decodeCmd (e_Data e) = (opGC, k, v, at)" "sm_step m e = sm_gc at m"
      "\<not> isTxnCommand (e_Data e)" "\<not> isSplitCommand (e_Data e)"
  | (put) k v at where "decodeCmd (e_Data e) = (opPut, k, v, at)" "desc_Contains (sm_desc m) k"
      "sm_step m e = sm_put k at v m" "\<not> isTxnCommand (e_Data e)" "\<not> isSplitCommand (e_Data e)"
proof -
  obtain op k v at where cmd: "decodeCmd (e_Data e) = (op, k, v, at)" by (rule prod_cases4)
  consider "length (e_Data e) = 0" | "isTxnCommand (e_Data e)"
    | "length (e_Data e) \<noteq> 0" "\<not> isTxnCommand (e_Data e)" "isSplitCommand (e_Data e)"
    | "length (e_Data e) \<noteq> 0" "\<not> isTxnCommand (e_Data e)" "\<not> isSplitCommand (e_Data e)" by blast
  then show ?thesis
  proof cases
    case 1
    then show ?thesis using same by (simp add: sm_step_def)
  next
    case 2
    then have "length (e_Data e) \<noteq> 0" by (simp add: isTxnCommand_def)
    with 2 same txn show ?thesis
      by (cases "decodeTxnCommand (e_Data e)"; cases "desc_Contains (sm_desc m) (x_Key (the (decodeTxnCommand (e_Data e))))")
         (simp_all add: sm_step_def)
  next
    case 3
    with same split show ?thesis
      by (cases "decodeSplitCommand (e_Data e)"; cases "split_matches (the (decodeSplitCommand (e_Data e))) (sm_desc m)")
         (simp_all add: sm_step_def)
  next
    case 4
    have neq: "opGC \<noteq> opPut" by (simp add: opGC_def opPut_def)
    from 4 same gc put cmd neq show ?thesis
      by (cases "op = opGC"; cases "op = opPut"; cases "desc_Contains (sm_desc m) k") (simp_all add: sm_step_def)
  qed
qed

abbreviation look :: "sm \<Rightarrow> bytes \<Rightarrow> bytes option" where
  "look m \<equiv> map_of (sm_es m)"

abbreviation lock_of :: "sm \<Rightarrow> bytes \<Rightarrow> Lock option" where
  "lock_of m key \<equiv> store_Lock (mem (sm_es m)) key (bare m)"

abbreviation decision_of :: "sm \<Rightarrow> bytes \<Rightarrow> timestamp \<Rightarrow> TxnRecord option" where
  "decision_of m key st \<equiv> store_Txn (mem (sm_es m)) key st (bare m)"

abbreviation commit_of :: "sm \<Rightarrow> bytes \<Rightarrow> timestamp \<Rightarrow> timestamp option" where
  "commit_of m key c \<equiv> committed (mem (sm_es m)) (bare m) key c"

abbreviation mark_of :: "sm \<Rightarrow> bytes \<Rightarrow> timestamp option" where
  "mark_of m key \<equiv> ReadMark (mem (sm_es m)) key (bare m)"

lemma sm_apply_simps [simp]: "sm_desc (sm_apply ops m) = sm_desc m" "sm_ns (sm_apply ops m) = sm_ns m"
  "sm_mark (sm_apply ops m) = sm_mark m"
  by (simp_all add: sm_apply_def)

lemma sm_apply_look:
  assumes "sm_ok m"
  shows "look (sm_apply ops m) = foldl op_meaning (look m) ops" "sm_ok (sm_apply ops m)"
  using assms model_keyspace.view_batch [of "sm_es m" ops] model_keyspace.ok_batch [of "sm_es m" ops]
  by (simp_all add: sm_apply_def sm_ok_def)

lemma Get_mem: "sm_ok m \<Longrightarrow> Get (mem (sm_es m)) = look m"
  by (simp add: fun_eq_iff Get_content sm_ok_def)

lemma reads_look:
  assumes "sm_ok m"
  shows "lock_of m key = (case look m (LockKey (sm_ns m) key) of None \<Rightarrow> None | Some v \<Rightarrow> decodeLock v)"
    "decision_of m key st = (case look m (TxnKey (sm_ns m) key st) of None \<Rightarrow> None | Some v \<Rightarrow> decodeTxn v)"
    "commit_of m key c = real_commit (look m (WriteKey (sm_ns m) key c))"
  by (simp_all add: store_Lock_def store_Txn_def committed_def Get_mem [OF assms])

text \<open>The ops a transaction step stages, case by case.\<close>

abbreviation release :: "sm \<Rightarrow> TxnCommand \<Rightarrow> Batch" where
  "release m c \<equiv> fst (releaseLockOf (mem (sm_es m)) [] (x_Key c) (x_StartTS c) (bare m))"

lemma release_cases:
  "release m c = [] \<or>
   release m c = [OpDelete (LockKey (sm_ns m) (x_Key c))] \<and> (\<exists>l. lock_of m (x_Key c) = Some l \<and> l_StartTS l = x_StartTS c)"
  by (simp add: releaseLockOf_def Delete_def split: option.splits)

lemma commit_ops:
  "fst (snd (CommitInto (mem (sm_es m)) [] (x_Key c) (x_StartTS c) ct (bare m))) = [] \<or>
   fst (snd (CommitInto (mem (sm_es m)) [] (x_Key c) (x_StartTS c) ct (bare m))) =
     OpSet (WriteKey (sm_ns m) (x_Key c) ct) (encodeWrite (x_StartTS c) False) # release m c \<and> x_StartTS c \<le> ct"
  unfolding CommitInto_def releaseLockOf_batch(1) [of _ "Set _ _ _"] by (simp add: Set_def not_less)

lemma rollback_ops:
  "fst (snd (RollbackInto (mem (sm_es m)) [] (x_Key c) (x_StartTS c) (bare m))) = [] \<or>
   fst (snd (RollbackInto (mem (sm_es m)) [] (x_Key c) (x_StartTS c) (bare m))) =
     OpSet (WriteKey (sm_ns m) (x_Key c) (x_StartTS c)) (encodeWrite (x_StartTS c) True) # release m c @
       [OpDelete (EncodeKey (sm_ns m) (x_Key c) (x_StartTS c))]"
  unfolding RollbackInto_def releaseLockOf_batch(1) [of _ "Set _ _ _"]
  by (simp add: Set_def Delete_def releaseLockOf_batch(2))

lemma resolution_ops:
  "fst (snd (CommitInto db [] key st ct (s\<lparr>rollForwards := n\<rparr>))) = fst (snd (CommitInto db [] key st ct s))"
  "fst (snd (RollbackInto db [] key st (s\<lparr>rollBacks := n\<rparr>))) = fst (snd (RollbackInto db [] key st s))"
  by (simp_all add: CommitInto_def RollbackInto_def releaseLockOf_def store_Lock_def split: option.splits prod.splits)

definition txn_ops :: "sm \<Rightarrow> TxnCommand \<Rightarrow> Batch" where
  "txn_ops m c = fst (applyTxnTo (mem (sm_es m)) (bare m) [] c (sm_desc m))"

lemma sm_txn_ops: "sm_txn c m = sm_apply (txn_ops m c) m"
  by (simp add: sm_txn_def txn_ops_def)

text \<open>
  \<open>held\<close> says that the step's own transaction holds the lock of the step's key.
\<close>

definition held :: "sm \<Rightarrow> TxnCommand \<Rightarrow> bool" where
  "held m c \<longleftrightarrow> (\<exists>l. lock_of m (x_Key c) = Some l \<and> l_StartTS l = x_StartTS c)"

lemma op_codes [simp]:
  "OpPrewrite \<noteq> OpCommitKey" "OpPrewrite \<noteq> OpRollbackKey" "OpPrewrite \<noteq> OpPutTxnRecord" "OpPrewrite \<noteq> OpTxnGet"
  "OpPrewrite \<noteq> OpResolveStatus" "OpPrewrite \<noteq> OpApplyResolution" "OpCommitKey \<noteq> OpRollbackKey"
  "OpCommitKey \<noteq> OpPutTxnRecord" "OpCommitKey \<noteq> OpTxnGet" "OpCommitKey \<noteq> OpResolveStatus" "OpCommitKey \<noteq> OpApplyResolution"
  "OpRollbackKey \<noteq> OpPutTxnRecord" "OpRollbackKey \<noteq> OpTxnGet" "OpRollbackKey \<noteq> OpResolveStatus"
  "OpRollbackKey \<noteq> OpApplyResolution" "OpPutTxnRecord \<noteq> OpTxnGet" "OpPutTxnRecord \<noteq> OpResolveStatus"
  "OpPutTxnRecord \<noteq> OpApplyResolution" "OpTxnGet \<noteq> OpResolveStatus" "OpTxnGet \<noteq> OpApplyResolution"
  "OpResolveStatus \<noteq> OpApplyResolution"
  by (simp_all add: txn_ops)

lemmas op_codes_sym [simp] = op_codes [THEN not_sym]

lemma prewrite_ops:
  fixes m c
  defines "l \<equiv> \<lparr>l_Primary = x_Primary c, l_StartTS = x_StartTS c, l_Deadline = x_Deadline c\<rparr>"
  defines "ops \<equiv> fst (snd (PrewriteInto (mem (sm_es m)) [] (x_Key c) l (x_Value c) (bare m)))"
  shows "ops = [] \<or>
    ops = [OpSet (LockKey (sm_ns m) (x_Key c)) (encodeLock l), OpSet (EncodeKey (sm_ns m) (x_Key c) (x_StartTS c)) (x_Value c)] \<and>
    sm_mark m < x_StartTS c \<and> lock_of m (x_Key c) = None \<and>
    commit_above (mem (sm_es m)) (x_Key c) (x_StartTS c) (bare m) = None \<and>
    (\<forall>t. mark_of m (x_Key c) = Some t \<longrightarrow> t \<le> x_StartTS c)"
  by (auto simp: ops_def l_def PrewriteInto_def Set_def refuseIfReadAbove_def not_le not_less split: option.splits)

lemma puttxn_ops:
  "snd (PutTxnInto (mem (sm_es m)) [] key r (bare m)) = [] \<or>
   snd (PutTxnInto (mem (sm_es m)) [] key r (bare m)) = [OpSet (TxnKey (sm_ns m) key (t_StartTS r)) (encodeTxn r)] \<and>
   decision_of m key (t_StartTS r) = None"
  by (simp add: PutTxnInto_def Set_def split: option.splits)

lemma txn_ops_code:
  fixes c m
  defines "l \<equiv> \<lparr>l_Primary = x_Primary c, l_StartTS = x_StartTS c, l_Deadline = x_Deadline c\<rparr>"
  defines "cops \<equiv> fst (snd (CommitInto (mem (sm_es m)) [] (x_Key c) (x_StartTS c) (x_CommitTS c) (bare m)))"
  defines "rops \<equiv> fst (snd (RollbackInto (mem (sm_es m)) [] (x_Key c) (x_StartTS c) (bare m)))"
  defines "pops \<equiv> (\<lambda>status ct. snd (PutTxnInto (mem (sm_es m)) [] (x_Key c)
      \<lparr>t_Status = status, t_StartTS = x_StartTS c, t_CommitTS = ct\<rparr> (bare m)))"
  obtains
    "x_Op c = OpPrewrite" "txn_ops m c = fst (snd (PrewriteInto (mem (sm_es m)) [] (x_Key c) l (x_Value c) (bare m)))"
  | "x_Op c = OpCommitKey" "txn_ops m c = cops"
  | "x_Op c = OpRollbackKey" "txn_ops m c = rops"
  | "x_Op c = OpPutTxnRecord" "txn_ops m c = pops (x_Status c) (x_CommitTS c)"
  | "x_Op c = OpTxnGet" "txn_ops m c = fst (snd (NoteReadInto (mem (sm_es m)) [] (x_Key c) (x_ReadTS c) (bare m)))"
  | "x_Op c = OpResolveStatus" "txn_ops m c = [] \<or> txn_ops m c = pops TxnRolledBack zeroTS"
  | "x_Op c = OpApplyResolution" "txn_ops m c = [] \<or> held m c \<and> (txn_ops m c = cops \<or> txn_ops m c = rops)"
  | "txn_ops m c = []"
proof -
  consider "x_Op c = OpPrewrite" | "x_Op c = OpCommitKey" | "x_Op c = OpRollbackKey" | "x_Op c = OpPutTxnRecord"
    | "x_Op c = OpTxnGet" | "x_Op c = OpResolveStatus" | "x_Op c = OpApplyResolution"
    | "x_Op c \<notin> {OpPrewrite, OpCommitKey, OpRollbackKey, OpPutTxnRecord, OpTxnGet, OpResolveStatus, OpApplyResolution}" by blast
  then show ?thesis
  proof cases
    case 6
    with that(6) show ?thesis by (auto simp: txn_ops_def applyTxnTo_def pops_def Let_def split: option.splits)
  next
    case 7
    have "txn_ops m c = [] \<or> held m c \<and> (txn_ops m c = cops \<or> txn_ops m c = rops)"
      using 7 by (auto simp: txn_ops_def applyTxnTo_def held_def ApplyResolutionInto_def resolution_ops cops_def rops_def
          split: option.splits)
    with 7 that(7) show ?thesis by blast
  qed (use that in \<open>simp_all add: txn_ops_def applyTxnTo_def l_def cops_def rops_def pops_def\<close>)
qed

lemma txn_ops_cases:
  obtains (nothing) "txn_ops m c = []"
  | (prewrite) l where "x_Op c = OpPrewrite" "l_StartTS l = x_StartTS c" "l_Primary l = x_Primary c"
      "txn_ops m c = [OpSet (LockKey (sm_ns m) (x_Key c)) (encodeLock l),
         OpSet (EncodeKey (sm_ns m) (x_Key c) (x_StartTS c)) (x_Value c)]"
      "sm_mark m < x_StartTS c" "lock_of m (x_Key c) = None"
      "commit_above (mem (sm_es m)) (x_Key c) (x_StartTS c) (bare m) = None"
      "\<And>t. mark_of m (x_Key c) = Some t \<Longrightarrow> t \<le> x_StartTS c"
  | (commit) "x_Op c = OpCommitKey \<or> x_Op c = OpApplyResolution \<and> held m c"
      "txn_ops m c = OpSet (WriteKey (sm_ns m) (x_Key c) (x_CommitTS c)) (encodeWrite (x_StartTS c) False) # release m c"
      "x_StartTS c \<le> x_CommitTS c"
  | (rollback) "x_Op c = OpRollbackKey \<or> x_Op c = OpApplyResolution \<and> held m c"
      "txn_ops m c = OpSet (WriteKey (sm_ns m) (x_Key c) (x_StartTS c)) (encodeWrite (x_StartTS c) True) # release m c @
         [OpDelete (EncodeKey (sm_ns m) (x_Key c) (x_StartTS c))]"
  | (decide) r where "x_Op c = OpPutTxnRecord \<or> x_Op c = OpResolveStatus" "t_StartTS r = x_StartTS c"
      "txn_ops m c = [OpSet (TxnKey (sm_ns m) (x_Key c) (x_StartTS c)) (encodeTxn r)]"
      "decision_of m (x_Key c) (x_StartTS c) = None"
  | (mark) "x_Op c = OpTxnGet" "\<And>t. mark_of m (x_Key c) = Some t \<Longrightarrow> t < x_ReadTS c"
      "txn_ops m c = (case mark_of m (x_Key c) of None \<Rightarrow> [] | Some t \<Rightarrow> [OpDelete (ReadMarkKey (sm_ns m) (x_Key c) t)]) @
         [OpSet (ReadMarkKey (sm_ns m) (x_Key c) (x_ReadTS c)) []]"
proof -
  let ?l = "\<lparr>l_Primary = x_Primary c, l_StartTS = x_StartTS c, l_Deadline = x_Deadline c\<rparr>"
  let ?r = "\<lparr>t_Status = x_Status c, t_StartTS = x_StartTS c, t_CommitTS = x_CommitTS c\<rparr>"
  let ?d = "\<lparr>t_Status = TxnRolledBack, t_StartTS = x_StartTS c, t_CommitTS = zeroTS\<rparr>"
  show ?thesis
  proof (cases "txn_ops m c = []")
    case ne: False
    show ?thesis
      using txn_ops_code [of c m]
    proof cases
      case 1
      with ne prewrite_ops [of m c] show ?thesis by (intro prewrite [of ?l]) auto
    next
      case 2
      with ne commit_ops [of m c] commit show ?thesis by metis
    next
      case 3
      with ne rollback_ops [of m c] rollback show ?thesis by metis
    next
      case 4
      with ne puttxn_ops [of m "x_Key c" ?r] show ?thesis by (intro decide [of ?r]) auto
    next
      case 5
      with ne show ?thesis
        by (intro mark) (auto simp: NoteReadInto_def Set_def Delete_def not_le split: option.splits if_splits)
    next
      case 6
      with ne puttxn_ops [of m "x_Key c" ?d] show ?thesis by (intro decide [of ?d]) auto
    next
      case 7
      then show ?thesis using ne commit_ops [of m c] rollback_ops [of m c] commit rollback by metis
    next
      case 8
      with ne show ?thesis by simp
    qed
  qed (rule nothing)
qed

section \<open>Keys apart\<close>

lemmas key_defs = EncodeKey_metaKey WriteKey_def TxnKey_def ReadMarkKey_def LockKey_def

lemma kinds_disjoint [simp]:
  "LockKey ns k \<noteq> TxnKey ns k' t" "LockKey ns k \<noteq> ReadMarkKey ns k' t" "TxnKey ns k t \<noteq> ReadMarkKey ns k' t'"
  "TxnKey ns k t \<noteq> EncodeKey ns k' t'" "TxnKey ns k t \<noteq> WriteKey ns k' t'" "ReadMarkKey ns k t \<noteq> EncodeKey ns k' t'"
  "ReadMarkKey ns k t \<noteq> WriteKey ns k' t'"
  by (simp_all add: key_defs metaKey_def appendInvertedTS_def appendU32_def)

lemmas kinds_disjoint_sym [simp] = kinds_disjoint [THEN not_sym] kinds_apart(3,4) [THEN not_sym]

lemma metaKey_kind: "metaKey ns kind k ! length ns = kind" "(metaKey ns kind k @ r) ! length ns = kind"
  by (simp_all add: metaKey_def appendU32_def nth_append)

lemma UserKeyOf_key:
  assumes "length key < 2 ^ 32" "kind \<in> {dataPrefix, lockPrefix, writePrefix, txnPrefix, readPrefix}"
  shows "UserKeyOf s (metaKey (st_ns s) kind key @ r) = Some key"
proof -
  have "prefix (st_ns s @ [kind]) (metaKey (st_ns s) kind key @ r)" by (simp add: kind_of_metaKey)
  then have "owns s (metaKey (st_ns s) kind key @ r)" unfolding owns_prefix using assms(2) by blast
  then show ?thesis using assms(1) by (simp add: UserKeyOf_def metaKey_kind rift_codec)
qed

lemma UserKeyOf_keys:
  assumes "length key < 2 ^ 32"
  shows "UserKeyOf s (LockKey (st_ns s) key) = Some key" "UserKeyOf s (EncodeKey (st_ns s) key t) = Some key"
    "UserKeyOf s (WriteKey (st_ns s) key t) = Some key" "UserKeyOf s (TxnKey (st_ns s) key t) = Some key"
    "UserKeyOf s (ReadMarkKey (st_ns s) key t) = Some key"
  using UserKeyOf_key [OF assms, of lockPrefix s "[]"] UserKeyOf_key [OF assms, of _ s]
  by (simp_all add: key_defs appendInvertedTS_def)

lemma metaKey_inject:
  assumes "length k < 2 ^ 32" "length k' < 2 ^ 32"
  shows "metaKey ns kind k @ r = metaKey ns kind k' @ r' \<longleftrightarrow> k = k' \<and> r = r'"
proof
  assume "metaKey ns kind k @ r = metaKey ns kind k' @ r'"
  from metaKey_append_inject [OF this assms] show "k = k' \<and> r = r'" by blast
qed simp

lemma keys_inject:
  assumes "length k < 2 ^ 32" "length k' < 2 ^ 32"
  shows "LockKey ns k = LockKey ns k' \<longleftrightarrow> k = k'" "TxnKey ns k t = TxnKey ns k' t' \<longleftrightarrow> k = k' \<and> t = t'"
    "WriteKey ns k t = WriteKey ns k' t' \<longleftrightarrow> k = k' \<and> t = t'" "EncodeKey ns k t = EncodeKey ns k' t' \<longleftrightarrow> k = k' \<and> t = t'"
    "ReadMarkKey ns k t = ReadMarkKey ns k' t' \<longleftrightarrow> k = k' \<and> t = t'"
proof -
  have "appendInvertedTS (metaKey ns kind k) t = appendInvertedTS (metaKey ns kind k') t' \<longleftrightarrow> k = k' \<and> t = t'" for kind
    using metaKey_inject [OF assms, of ns kind] appendInvertedTS_inject [of "metaKey ns kind k" t t']
    unfolding appendInvertedTS_def by auto
  then show "TxnKey ns k t = TxnKey ns k' t' \<longleftrightarrow> k = k' \<and> t = t'"
    "WriteKey ns k t = WriteKey ns k' t' \<longleftrightarrow> k = k' \<and> t = t'" "EncodeKey ns k t = EncodeKey ns k' t' \<longleftrightarrow> k = k' \<and> t = t'"
    "ReadMarkKey ns k t = ReadMarkKey ns k' t' \<longleftrightarrow> k = k' \<and> t = t'"
    by (simp_all add: key_defs)
  show "LockKey ns k = LockKey ns k' \<longleftrightarrow> k = k'"
    using metaKey_inject [OF assms, of ns lockPrefix "[]" "[]"] by (simp add: LockKey_def)
qed

lemma takeBytes_bound:
  assumes "takeBytes b = Some (v, r)"
  shows "length v < 2 ^ 32"
proof -
  have "length v \<le> unat (be_val (take 4 b) :: u32)"
    using assms by (auto simp: takeBytes_def Let_def split: if_splits)
  also have "\<dots> < 2 ^ 32" using unsigned_less [of "be_val (take 4 b) :: u32"] by simp
  finally show ?thesis .
qed

lemma decodeTxnCommand_key: "decodeTxnCommand d = Some c \<Longrightarrow> length (x_Key c) < 2 ^ 32 \<and> length (x_Primary c) < 2 ^ 32"
  by (auto simp: decodeTxnCommand_def Option.bind_eq_Some_conv dest!: takeBytes_bound split: if_splits)

lemma decodeCmd_key:
  assumes "decodeCmd d = (op, k, v, at)"
  shows "length k < 2 ^ 32"
proof (cases "op = [] \<and> k = [] \<and> v = [] \<and> at = zeroTS")
  case False
  with assms show ?thesis
    by (auto simp: decodeCmd_def Option.bind_eq_Some_conv dest!: takeBytes_bound split: option.splits)
qed simp

section \<open>What each kind of entry leaves alone\<close>

lemma sm_split_simps [simp]: "sm_desc (sm_split spec m) = sp_Left spec" "sm_ns (sm_split spec m) = sm_ns m"
  "sm_mark (sm_split spec m) = sm_mark m"
  by (simp_all add: sm_split_def Let_def)

lemma sm_txn_simps [simp]: "sm_desc (sm_txn c m) = sm_desc m" "sm_ns (sm_txn c m) = sm_ns m" "sm_mark (sm_txn c m) = sm_mark m"
  by (simp_all add: sm_txn_def)

lemma sm_put_simps [simp]: "sm_desc (sm_put k at v m) = sm_desc m" "sm_ns (sm_put k at v m) = sm_ns m"
  "sm_mark (sm_put k at v m) = sm_mark m"
  by (simp_all add: sm_put_def)

lemma sm_gc_simps [simp]: "sm_desc (sm_gc at m) = sm_desc m" "sm_ns (sm_gc at m) = sm_ns m"
  by (simp_all add: sm_gc_def split: prod.splits sum.splits)

lemma sm_step_ns [simp]: "sm_ns (sm_step m e) = sm_ns m"
  by (rule sm_step_cases [of m e]) simp_all

lemma sm_split_look:
  assumes "sm_ok m"
  shows "look (sm_split spec m) k =
    (if owns (bare m) k then (if kept_by (bare m) (sp_Left spec) (k, []) then look m k else None) else look m k)"
    "sm_ok (sm_split spec m)"
proof -
  let ?rs = "Records (mem (sm_es m)) (bare m)"
  have srt: "keys_sorted (content (mem (sm_es m)))" using assms by (simp add: sm_ok_def)
  have kb: "kept_by (bare m) (sp_Left spec) e = kept_by (bare m) (sp_Left spec) (fst e, [])" for e by (simp add: kept_by_def)
  define P where "P k = kept_by (bare m) (sp_Left spec) (k, [])" for k
  have f: "filter (kept_by (bare m) (sp_Left spec)) ?rs = filter (\<lambda>e. P (fst e)) ?rs"
    unfolding P_def by (rule filter_cong [OF refl]) (rule kb)
  have d: "distinct (map fst (filter (\<lambda>e. P (fst e)) ?rs))"
    using Records_map(2) [OF srt] by (rule distinct_map_filter)
  have r: "map_of (filter (\<lambda>e. P (fst e)) ?rs) k = (if P k \<and> owns (bare m) k then look m k else None)" for k
    using Records_map(1) [OF srt, of "bare m" k] Get_mem [OF assms] by (simp add: map_of_filter_fst)
  show "look (sm_split spec m) k =
    (if owns (bare m) k then (if kept_by (bare m) (sp_Left spec) (k, []) then look m k else None) else look m k)"
    unfolding sm_split_def Let_def f P_def [symmetric]
    using sm_apply_look(1) [OF assms] by (simp add: ingest_meaning [OF d] map_add_def r split: option.splits)
  show "sm_ok (sm_split spec m)"
    using sm_apply_look(2) [OF assms] by (simp add: sm_split_def sm_ok_def Let_def)
qed

lemma sm_split_keeps:
  assumes "sm_ok m" "UserKeyOf (bare m) k = Some key" "desc_Contains (sp_Left spec) key"
  shows "look (sm_split spec m) k = look m k"
  using assms sm_split_look(1) [OF assms(1)] by (simp add: kept_by_def)

lemma gc_loop_deletes:
  "\<exists>ds. fst (gc_loop ns to es cur kept b n) = b @ map OpDelete ds \<and> set ds \<subseteq> fst ` set es"
proof (induction ns to es cur kept b n rule: gc_loop.induct)
  case (2 ns to e es cur kept b n)
  show ?case
  proof (cases "DecodeKey ns (fst e)")
    case None
    with 2(1) show ?thesis by auto
  next
    case (Some p)
    obtain key ts where p: "DecodeKey ns (fst e) = Some (key, ts)" using Some by (cases p) auto
    define cur' kept' where "cur' = (if key \<noteq> cur then key else cur)" and "kept' = (if key \<noteq> cur then False else kept)"
    consider "LessEq to ts" | "\<not> LessEq to ts" "\<not> kept'" | "\<not> LessEq to ts" "kept'" by blast
    then show ?thesis
    proof cases
      case 1
      then obtain ds where "fst (gc_loop ns to es cur' kept' b n) = b @ map OpDelete ds" "set ds \<subseteq> fst ` set es"
        using 2(2) [OF p refl cur'_def kept'_def] by blast
      with 1 p show ?thesis by (intro exI [of _ ds]) (auto simp: cur'_def kept'_def Let_def)
    next
      case 2
      then obtain ds where "fst (gc_loop ns to es cur' True b n) = b @ map OpDelete ds" "set ds \<subseteq> fst ` set es"
        using "2.IH"(3) [OF p refl cur'_def kept'_def] by blast
      with 2 p show ?thesis by (intro exI [of _ ds]) (auto simp: cur'_def kept'_def Let_def)
    next
      case 3
      then obtain ds where "fst (gc_loop ns to es cur' kept' (Delete b (fst e)) (n + 1)) = Delete b (fst e) @ map OpDelete ds"
        "set ds \<subseteq> fst ` set es"
        using "2.IH"(4) [OF p refl cur'_def kept'_def] by blast
      with 3 p show ?thesis by (intro exI [of _ "fst e # ds"]) (auto simp: cur'_def kept'_def Let_def Delete_def)
    qed
  qed
qed simp

lemma sm_gc_look:
  assumes "sm_ok m"
  shows "\<not> prefix (sm_ns m @ [dataPrefix]) k \<Longrightarrow> look (sm_gc at m) k = look m k" "sm_ok (sm_gc at m)"
    "look (sm_gc at m) k = Some v \<Longrightarrow> look m k = Some v"
proof -
  let ?es = "filter (\<lambda>e. prefix (sm_ns m @ [dataPrefix]) (fst e)) (sm_es m)"
  have rest: "iter_rest (First (prefix_iter (mem (sm_es m)) (sm_ns m @ [dataPrefix]))) = ?es"
    using prefix_iter_rest(1) [of "mem (sm_es m)"] assms by (simp add: sm_ok_def)
  obtain ds where ds: "fst (gc_loop (sm_ns m) at ?es [] False [] 0) = map OpDelete ds" "set ds \<subseteq> fst ` set ?es"
    using gc_loop_deletes [of "sm_ns m" at ?es "[]" False "[]" 0] by auto
  then obtain n where "gc_loop (sm_ns m) at ?es [] False [] 0 = (map OpDelete ds, n)" by (metis prod.collapse)
  then have "sm_gc at m = m \<or> sm_gc at m = sm_apply (map OpDelete ds) m\<lparr>sm_mark := at\<rparr>"
    by (simp add: sm_gc_def AdvanceGCInto_def rest) (simp add: sm_apply_def)
  moreover have "look (sm_apply (map OpDelete ds) m) k = look m k" if "\<not> prefix (sm_ns m @ [dataPrefix]) k"
    using that ds(2) sm_apply_look(1) [OF assms, of "map OpDelete ds"] by (auto simp: deletes_meaning)
  moreover have "look m k = Some v" if "look (sm_apply (map OpDelete ds) m) k = Some v"
    using that sm_apply_look(1) [OF assms, of "map OpDelete ds"] by (simp add: deletes_meaning split: if_splits)
  ultimately show "\<not> prefix (sm_ns m @ [dataPrefix]) k \<Longrightarrow> look (sm_gc at m) k = look m k" "sm_ok (sm_gc at m)"
    "look (sm_gc at m) k = Some v \<Longrightarrow> look m k = Some v"
    using assms sm_apply_look(2) [OF assms, of "map OpDelete ds"] by (auto simp: sm_ok_def)
qed

lemma sm_put_look:
  assumes "sm_ok m"
  shows "k' \<noteq> EncodeKey (sm_ns m) k at \<Longrightarrow> look (sm_put k at v m) k' = look m k'" "sm_ok (sm_put k at v m)"
  using sm_apply_look [OF assms] by (simp_all add: sm_put_def PutInto_def Set_def)

lemma sm_txn_look:
  assumes "sm_ok m"
  shows "look (sm_txn c m) = foldl op_meaning (look m) (txn_ops m c)" "sm_ok (sm_txn c m)"
  using sm_apply_look [OF assms] by (simp_all add: sm_txn_ops)

lemma sm_step_ok: "sm_ok m \<Longrightarrow> sm_ok (sm_step m e)"
  by (rule sm_step_cases [of m e]) (simp_all add: sm_txn_look sm_split_look sm_gc_look sm_put_look)

lemma not_data_prefix [simp]:
  "\<not> prefix (ns @ [dataPrefix]) (LockKey ns k)" "\<not> prefix (ns @ [dataPrefix]) (WriteKey ns k t)"
  "\<not> prefix (ns @ [dataPrefix]) (TxnKey ns k t)" "\<not> prefix (ns @ [dataPrefix]) (ReadMarkKey ns k t)"
  using kind_of_metaKey [of ns dataPrefix _ k "[]"] kind_of_metaKey [of ns dataPrefix _ k]
  by (simp_all add: key_defs appendInvertedTS_def)

lemma release_meaning:
  "foldl op_meaning g (release m c) k = (if k = LockKey (sm_ns m) (x_Key c) \<and> held m c then None else g k)"
  using release_cases [of m c] by (auto simp: held_def releaseLockOf_def Delete_def split: option.splits)

text \<open>
  A record that is neither a data version nor of a kind the step touches for its own key stays; the
  frame of one entry, for the records of a key the range still owns afterwards.
\<close>

lemma frame_txn_record:
  assumes "sm_ok m" "length key < 2 ^ 32" "decision_of m key st = Some r" "desc_Contains (sm_desc (sm_step m e)) key"
  shows "look (sm_step m e) (TxnKey (sm_ns m) key st) = look m (TxnKey (sm_ns m) key st)"
proof (cases rule: sm_step_cases [of m e, case_names same txn split gc put])
  case (txn c)
  have len: "length (x_Key c) < 2 ^ 32" using decodeTxnCommand_key [OF txn(2)] by simp
  have "foldl op_meaning (look m) (txn_ops m c) (TxnKey (sm_ns m) key st) = look m (TxnKey (sm_ns m) key st)"
  proof (cases rule: txn_ops_cases [of m c, case_names nothing prewrite commit rollback decide mark])
    case (decide q)
    have "\<not> (x_Key c = key \<and> x_StartTS c = st)" using decide(4) assms(3) by auto
    then show ?thesis using decide(3) keys_inject(2) [OF assms(2) len] by auto
  qed (auto simp: release_meaning split: option.splits)
  then show ?thesis unfolding txn(4) sm_txn_look(1) [OF assms(1)] .
next
  case (split spec)
  then show ?thesis
    using sm_split_keeps [OF assms(1), of "TxnKey (sm_ns m) key st" key spec] UserKeyOf_keys(4) [OF assms(2), of "bare m"] assms(4)
    by simp
qed (simp_all add: sm_gc_look(1) [OF assms(1)] sm_put_look(1) [OF assms(1)])

lemma decision_step:
  assumes "sm_ok m" "length key < 2 ^ 32" "decision_of m key st = Some r" "desc_Contains (sm_desc (sm_step m e)) key"
  shows "decision_of (sm_step m e) key st = Some r"
  using assms(3) frame_txn_record [OF assms]
  by (simp add: reads_look(2) [OF assms(1)] reads_look(2) [OF sm_step_ok [OF assms(1)]])

text \<open>The range owns a key at every position of a log.\<close>

fun owns_throughout :: "bytes \<Rightarrow> sm \<Rightarrow> Entry list \<Rightarrow> bool" where
  "owns_throughout key m [] = desc_Contains (sm_desc m) key"
| "owns_throughout key m (e # es) = (desc_Contains (sm_desc m) key \<and> owns_throughout key (sm_step m e) es)"

lemma owns_throughout_first: "owns_throughout key m es \<Longrightarrow> desc_Contains (sm_desc m) key"
  by (cases es) auto

text \<open>C12: A transaction's decision is final.  Once the range of the primary key holds a record for a
  start timestamp, no later entry changes it, whatever coordinators and resolvers still propose, for
  as long as the range owns the key; so every resolver that looks later finds the same verdict.\<close>

theorem decision_final:
  assumes "sm_ok m" "length key < 2 ^ 32" "decision_of m key st = Some r" "owns_throughout key m es"
  shows "decision_of (foldl sm_step m es) key st = Some r \<and>
    fst (ResolveLock (mem (sm_es (foldl sm_step m es))) \<lparr>l_Primary = key, l_StartTS = st, l_Deadline = dl\<rparr> readTS True
           (bare (foldl sm_step m es))) = (if t_Status r = TxnCommitted then ResolveForward else ResolveBack)"
proof -
  have "decision_of (foldl sm_step m es) key st = Some r"
    using assms
  proof (induction es arbitrary: m)
    case (Cons e es)
    have "decision_of (sm_step m e) key st = Some r"
      using Cons.prems owns_throughout_first [of key "sm_step m e" es] by (intro decision_step) auto
    with Cons.IH [OF sm_step_ok [OF Cons.prems(1)] Cons.prems(2)] Cons.prems(4) show ?case by simp
  qed simp
  then show ?thesis by (simp add: ResolveLock_def)
qed

definition demo_sm :: sm where
  "demo_sm = \<lparr>sm_desc = FirstRangeDescriptor, sm_ns = [1], sm_mark = zeroTS,
     sm_es = [(LockKey [1] [7], encodeLock \<lparr>l_Primary = [7], l_StartTS = Timestamp 10 0, l_Deadline = Timestamp 90 0\<rparr>),
       (TxnKey [1] [7] (Timestamp 10 0), encodeTxn \<lparr>t_Status = TxnCommitted, t_StartTS = Timestamp 10 0, t_CommitTS = Timestamp 20 0\<rparr>)]\<rparr>"

text \<open>A late rollback of the same transaction, and a rollback by another one.\<close>

definition late_rollback :: "byte \<Rightarrow> timestamp \<Rightarrow> Entry" where
  "late_rollback op st = \<lparr>e_Type = EntryNormal, e_Term = 1, e_Index = 1, e_ID = zeroPID,
     e_Data = encodeTxnCommand (demo_txn\<lparr>x_Op := op, x_Status := TxnRolledBack, x_StartTS := st\<rparr>)\<rparr>"

lemma late_rollback_decodes:
  "isTxnCommand (e_Data (late_rollback op st))"
  "decodeTxnCommand (e_Data (late_rollback op st)) = Some (demo_txn\<lparr>x_Op := op, x_Status := TxnRolledBack, x_StartTS := st\<rparr>)"
  unfolding late_rollback_def
  by (simp_all add: decodeTxnCommand_encode demo_txn_def)

lemma late_rollback_desc: "sm_desc (sm_step m (late_rollback op st)) = sm_desc m"
  by (simp add: sm_step_def late_rollback_decodes)

lemma demo_sm_facts: "sm_ok demo_sm" "desc_Contains (sm_desc demo_sm) [7]"
proof -
  have "LockKey [1] [7] < TxnKey [1] [7] (Timestamp 10 0)"
    using kind_less [of lockPrefix txnPrefix "[1]" "[7]" "[]"] by (simp add: key_defs appendInvertedTS_def kind_defs)
  then show "sm_ok demo_sm" by (simp add: sm_ok_def demo_sm_def keys_sorted_Cons)
  show "desc_Contains (sm_desc demo_sm) [7]" by (simp add: demo_sm_def FirstRangeDescriptor_def desc_Contains_def)
qed

lemma demo_sm_reads:
  "decision_of demo_sm [7] (Timestamp 10 0) =
     Some \<lparr>t_Status = TxnCommitted, t_StartTS = Timestamp 10 0, t_CommitTS = Timestamp 20 0\<rparr>"
  "lock_of demo_sm [7] = Some \<lparr>l_Primary = [7], l_StartTS = Timestamp 10 0, l_Deadline = Timestamp 90 0\<rparr>"
  by (simp_all add: reads_look [OF demo_sm_facts(1)]) (simp_all add: demo_sm_def rift_codec)

theorem decision_final_witness:
  "decision_of (foldl sm_step demo_sm [late_rollback OpPutTxnRecord (Timestamp 10 0)]) [7] (Timestamp 10 0) =
     Some \<lparr>t_Status = TxnCommitted, t_StartTS = Timestamp 10 0, t_CommitTS = Timestamp 20 0\<rparr>"
  using decision_final [OF demo_sm_facts(1) _ demo_sm_reads(1), of "[late_rollback OpPutTxnRecord (Timestamp 10 0)]"]
    demo_sm_facts(2) late_rollback_desc by simp

lemma frame_lock:
  assumes "sm_ok m" "length key < 2 ^ 32" "lock_of m key = Some l" "desc_Contains (sm_desc (sm_step m e)) key"
    and quiet: "\<And>c. decodeTxnCommand (e_Data e) = Some c \<Longrightarrow> x_Key c = key \<Longrightarrow> x_StartTS c = l_StartTS l \<Longrightarrow>
      x_Op c \<notin> {OpCommitKey, OpRollbackKey, OpApplyResolution}"
  shows "look (sm_step m e) (LockKey (sm_ns m) key) = look m (LockKey (sm_ns m) key)"
proof (cases rule: sm_step_cases [of m e, case_names same txn split gc put])
  case (txn c)
  have len: "length (x_Key c) < 2 ^ 32" using decodeTxnCommand_key [OF txn(2)] by simp
  have rel: "\<not> (LockKey (sm_ns m) key = LockKey (sm_ns m) (x_Key c) \<and> held m c)"
    if "x_Op c \<in> {OpCommitKey, OpRollbackKey, OpApplyResolution}"
    using quiet [OF txn(2)] that assms(3) keys_inject(1) [OF assms(2) len] by (auto simp: held_def)
  have "foldl op_meaning (look m) (txn_ops m c) (LockKey (sm_ns m) key) = look m (LockKey (sm_ns m) key)"
  proof (cases rule: txn_ops_cases [of m c, case_names nothing prewrite commit rollback decide mark])
    case (prewrite q)
    have "x_Key c \<noteq> key" using prewrite(6) assms(3) by auto
    then show ?thesis using prewrite(4) keys_inject(1) [OF assms(2) len] by auto
  next
    case commit
    then show ?thesis using rel by (auto simp: release_meaning)
  next
    case rollback
    then show ?thesis using rel by (auto simp: release_meaning)
  qed (auto split: option.splits)
  then show ?thesis unfolding txn(4) sm_txn_look(1) [OF assms(1)] .
next
  case (split spec)
  then show ?thesis
    using sm_split_keeps [OF assms(1), of "LockKey (sm_ns m) key" key spec] UserKeyOf_keys(1) [OF assms(2), of "bare m"] assms(4)
    by simp
qed (simp_all add: sm_gc_look(1) [OF assms(1)] sm_put_look(1) [OF assms(1)])

text \<open>C13: A lock is its owner's.  While a key is locked by one transaction, no step of any other
  transaction, rollbacks and commits of the same key included, removes or replaces the lock: it
  stays until a commit, a rollback or a resolution of its own transaction.\<close>

theorem lock_is_the_owners:
  assumes "sm_ok m" "length key < 2 ^ 32" "lock_of m key = Some l" "owns_throughout key m es"
    "\<forall>e \<in> set es. \<forall>c. decodeTxnCommand (e_Data e) = Some c \<and> x_Key c = key \<and> x_StartTS c = l_StartTS l \<longrightarrow>
       x_Op c \<notin> {OpCommitKey, OpRollbackKey, OpApplyResolution}"
  shows "lock_of (foldl sm_step m es) key = Some l"
  using assms
proof (induction es arbitrary: m)
  case (Cons e es)
  have owns: "desc_Contains (sm_desc (sm_step m e)) key"
    using Cons.prems(4) owns_throughout_first [of key "sm_step m e" es] by simp
  have "look (sm_step m e) (LockKey (sm_ns m) key) = look m (LockKey (sm_ns m) key)"
    using Cons.prems(5) by (intro frame_lock [OF Cons.prems(1-3) owns]) auto
  then have "lock_of (sm_step m e) key = Some l"
    using Cons.prems(3) by (simp add: reads_look(1) [OF Cons.prems(1)] reads_look(1) [OF sm_step_ok [OF Cons.prems(1)]])
  with Cons.IH [OF sm_step_ok [OF Cons.prems(1)] Cons.prems(2)] Cons.prems(4,5) show ?case by simp
qed simp

theorem lock_is_the_owners_witness:
  "lock_of (foldl sm_step demo_sm [late_rollback OpRollbackKey (Timestamp 30 0)]) [7] =
     Some \<lparr>l_Primary = [7], l_StartTS = Timestamp 10 0, l_Deadline = Timestamp 90 0\<rparr>"
  by (rule lock_is_the_owners [OF demo_sm_facts(1) _ demo_sm_reads(2)])
     (simp_all add: demo_sm_facts(2) late_rollback_desc late_rollback_decodes)

end
