(* ===== verification/Txn_Snapshot.thy ===== *)
theory Txn_Snapshot
  imports Txn_Log
begin

text \<open>
  Repeatable snapshots: once a range has recorded that a key was read at a timestamp, no entry that
  follows the protocol changes what a read at that timestamp sees.
\<close>

section \<open>Well-formed contents along a log\<close>

definition sm_wf :: "sm \<Rightarrow> bool" where
  "sm_wf m \<longleftrightarrow> store_ok (sm_ns m) (sm_es m)"

lemma sm_wf_ok: "sm_wf m \<Longrightarrow> sm_ok m"
  by (simp add: sm_wf_def store_ok_def sm_ok_def)

lemma sm_wf_look:
  assumes "sm_ok m"
  shows "sm_wf m \<longleftrightarrow> (\<forall>k v. look m k = Some v \<longrightarrow> rec_ok (sm_ns m) (k, v))"
proof -
  have "(k, v) \<in> set (sm_es m) \<longleftrightarrow> look m k = Some v" for k v
    using assms keys_sorted_distinct by (simp add: sm_ok_def)
  then show ?thesis using assms by (auto simp: sm_wf_def store_ok_def sm_ok_def)
qed

lemma meaning_source:
  "foldl op_meaning g ops k = Some v \<Longrightarrow> g k = Some v \<or> OpSet k v \<in> set ops"
proof (induction ops arbitrary: g)
  case (Cons x ops)
  then show ?case by (cases x) (fastforce split: if_splits)+
qed simp

lemma sm_wf_apply:
  assumes "sm_wf m" "\<And>k v. OpSet k v \<in> set ops \<Longrightarrow> rec_ok (sm_ns m) (k, v)"
  shows "sm_wf (sm_apply ops m)"
proof -
  note ok = sm_wf_ok [OF assms(1)]
  have "rec_ok (sm_ns m) (k, v)" if "foldl op_meaning (look m) ops k = Some v" for k v
    using meaning_source [OF that] assms(2) assms(1) [unfolded sm_wf_look [OF ok]] by blast
  then show ?thesis
    unfolding sm_wf_look [OF sm_apply_look(2) [OF ok]] sm_apply_look(1) [OF ok] by simp
qed

text \<open>The timestamps an entry carries have nonnegative wall readings.\<close>

definition stamps_ok :: "Entry \<Rightarrow> bool" where
  "stamps_ok e \<longleftrightarrow>
     (\<forall>c. decodeTxnCommand (e_Data e) = Some c \<longrightarrow> ts_ok (x_StartTS c) \<and> ts_ok (x_CommitTS c) \<and> ts_ok (x_ReadTS c)) \<and>
     (\<not> isTxnCommand (e_Data e) \<and> \<not> isSplitCommand (e_Data e) \<longrightarrow>
        (case decodeCmd (e_Data e) of (op, k, v, at) \<Rightarrow> ts_ok at))"

lemma txn_ops_rec_ok:
  assumes "length (x_Key c) < 2 ^ 32" "ts_ok (x_StartTS c)" "ts_ok (x_CommitTS c)" "ts_ok (x_ReadTS c)" "OpSet k v \<in> set (txn_ops m c)"
  shows "rec_ok (sm_ns m) (k, v)"
proof -
  have rel: "OpSet k v \<notin> set (release m c)" using release_cases [of m c] by auto
  note written = rec_ok_written(1-4) [OF assms(1)]
  show ?thesis
    using assms(5)
  proof (cases rule: txn_ops_cases [of m c, case_names nothing prewrite commit rollback decide mark])
    case mark
    then show ?thesis using assms(5) written(3) [OF assms(4)] by (auto split: option.splits)
  qed (use assms(5) rel written(1,2,4) [OF assms(2)] written(2) [OF assms(3)] rec_ok_written(5) in auto)
qed

lemma sm_wf_shrink:
  assumes "sm_wf m" "sm_ok m'" "sm_ns m' = sm_ns m" "\<And>k v. look m' k = Some v \<Longrightarrow> look m k = Some v"
  shows "sm_wf m'"
  using assms unfolding sm_wf_look [OF assms(2)] sm_wf_look [OF sm_wf_ok [OF assms(1)]] by simp

lemma sm_wf_step:
  assumes "sm_wf m" "stamps_ok e"
  shows "sm_wf (sm_step m e)"
proof (cases rule: sm_step_cases [of m e, case_names same txn split gc put])
  case (txn c)
  then show ?thesis
    using assms decodeTxnCommand_key [OF txn(2)] txn_ops_rec_ok [of c _ _ m]
    unfolding txn(4) sm_txn_ops by (intro sm_wf_apply) (auto simp: stamps_ok_def)
next
  case (split spec)
  note look = sm_split_look [OF sm_wf_ok [OF assms(1)], of spec]
  show ?thesis
    unfolding split(4) by (rule sm_wf_shrink [OF assms(1) look(2)]) (auto simp: look(1) split: if_splits)
next
  case (gc k v at)
  note look = sm_gc_look [OF sm_wf_ok [OF assms(1)]]
  show ?thesis unfolding gc(2) by (rule sm_wf_shrink [OF assms(1) look(2)]) (auto intro: look(3))
next
  case (put k v at)
  have "length k < 2 ^ 32" "ts_ok at" using decodeCmd_key [OF put(1)] assms(2) put(1,4,5) by (auto simp: stamps_ok_def)
  then show ?thesis
    unfolding put(3) sm_put_def by (intro sm_wf_apply assms(1)) (auto simp: PutInto_def Set_def rec_ok_written(1) split: if_splits)
qed (use assms(1) in auto)

section \<open>Read marks\<close>

lemma mark_of_newest:
  assumes "sm_wf m" "length key < 2 ^ 32"
  shows "case mark_of m key of None \<Rightarrow> \<forall>t. look m (ReadMarkKey (sm_ns m) key t) = None
    | Some t \<Rightarrow> look m (ReadMarkKey (sm_ns m) key t) \<noteq> None \<and> (\<forall>t'. t < t' \<longrightarrow> look m (ReadMarkKey (sm_ns m) key t') = None)"
proof -
  let ?ns = "sm_ns m" and ?p = "metaKey (sm_ns m) readPrefix key"
  have srt: "keys_sorted (content (mem (sm_es m)))" using sm_wf_ok [OF assms(1)] by (simp add: sm_ok_def)
  obtain tvs where tvs: "filter (\<lambda>e. prefix ?p (fst e)) (sm_es m) = map (\<lambda>(t, v). (appendInvertedTS ?p t, v)) tvs"
    "sorted_wrt (\<lambda>a b. fst b < fst a) tvs" "\<And>t v. (t, v) \<in> set tvs \<longleftrightarrow> chain_of (sm_es m) ?ns readPrefix key t = Some v"
    using chain_list [OF assms(1) [unfolded sm_wf_def] _ assms(2), of readPrefix] by blast
  have chain: "look m (ReadMarkKey ?ns key t) = Some v \<longleftrightarrow> (t, v) \<in> set tvs" for t v
    unfolding tvs(3) chain_of_def ReadMarkKey_def by (rule refl)
  then have none: "look m (ReadMarkKey ?ns key t) = None" if "t \<notin> fst ` set tvs" for t
    using that by (metis fst_conv image_eqI not_Some_eq)
  have key: "iter_Key (First (prefix_iter (mem (sm_es m)) (ReadMarkPrefix ?ns key))) =
      map_option fst (first_entry (map (\<lambda>(t, v). (appendInvertedTS ?p t, v)) tvs))"
    using First_head(1) [OF srt, of "ReadMarkPrefix ?ns key"] tvs(1) by (simp add: ReadMarkPrefix_def)
  show ?thesis
  proof (cases tvs)
    case Nil
    then have "mark_of m key = None" by (simp add: ReadMark_def key)
    with none Nil show ?thesis by simp
  next
    case (Cons tv tvs')
    obtain t v where tv: "tv = (t, v)" by (cases tv)
    have "DecodeReadMarkKey ?ns (ReadMarkKey ?ns key t) = Some (key, t)" using assms(2) by (simp add: DecodeReadMarkKey_iff)
    then have "mark_of m key = Some t" using Cons tv by (simp add: ReadMark_def key ReadMarkKey_def)
    moreover have "look m (ReadMarkKey ?ns key t) = Some v" using chain Cons tv by simp
    moreover have "look m (ReadMarkKey ?ns key t') = None" if "t < t'" for t'
      using that tvs(2) Cons tv by (intro none) auto
    ultimately show ?thesis by simp
  qed
qed

text \<open>A key carries a read mark at or above a timestamp.\<close>

definition read_at :: "sm \<Rightarrow> bytes \<Rightarrow> timestamp \<Rightarrow> bool" where
  "read_at m key ts \<longleftrightarrow> (\<exists>t \<ge> ts. look m (ReadMarkKey (sm_ns m) key t) \<noteq> None)"

lemma read_at_mark: "sm_wf m \<Longrightarrow> length key < 2 ^ 32 \<Longrightarrow> read_at m key ts \<longleftrightarrow> (\<exists>t \<ge> ts. mark_of m key = Some t)"
proof
  assume wf: "sm_wf m" "length key < 2 ^ 32"
  assume "read_at m key ts"
  then obtain t where t: "ts \<le> t" "look m (ReadMarkKey (sm_ns m) key t) \<noteq> None" by (auto simp: read_at_def)
  obtain t' where t': "mark_of m key = Some t'" using mark_of_newest [OF wf] t(2) by (cases "mark_of m key") auto
  then have "\<not> t' < t" using mark_of_newest [OF wf] t(2) by auto
  then show "\<exists>t \<ge> ts. mark_of m key = Some t" using t(1) t' by (intro exI [of _ t']) auto
next
  assume "sm_wf m" "length key < 2 ^ 32" "\<exists>t \<ge> ts. mark_of m key = Some t"
  then show "read_at m key ts" using mark_of_newest [of m key] by (auto simp: read_at_def)
qed

lemma read_at_step:
  assumes "sm_wf m" "length key < 2 ^ 32" "read_at m key ts" "desc_Contains (sm_desc (sm_step m e)) key"
  shows "read_at (sm_step m e) key ts"
proof (cases rule: sm_step_cases [of m e, case_names same txn split gc put])
  note ok = sm_wf_ok [OF assms(1)]
  case (txn c)
  have len: "length (x_Key c) < 2 ^ 32" using decodeTxnCommand_key [OF txn(2)] by simp
  obtain t where t: "ts \<le> t" "mark_of m key = Some t" "look m (ReadMarkKey (sm_ns m) key t) \<noteq> None"
    using assms(3) mark_of_newest [OF assms(1,2)] unfolding read_at_mark [OF assms(1,2)] by auto
  have "\<exists>t \<ge> ts. foldl op_meaning (look m) (txn_ops m c) (ReadMarkKey (sm_ns m) key t) \<noteq> None"
  proof (cases rule: txn_ops_cases [of m c, case_names nothing prewrite commit rollback decide mark])
    case mark
    show ?thesis
    proof (cases "x_Key c = key")
      case True
      then have "t < x_ReadTS c" using mark(2) t(2) by simp
      then show ?thesis using mark(3) t(1) True by (intro exI [of _ "x_ReadTS c"]) auto
    next
      case False
      then show ?thesis
        using mark(3) t(1,3) keys_inject(5) [OF assms(2) len] by (intro exI [of _ t]) (auto split: option.splits)
    qed
  qed (use t(1,3) in \<open>auto simp: release_meaning intro!: exI [of _ t]\<close>)
  then show ?thesis unfolding txn(4) read_at_def sm_txn_look(1) [OF ok] by simp
next
  note ok = sm_wf_ok [OF assms(1)]
  case (split spec)
  then show ?thesis
    using sm_split_keeps [OF ok, of "ReadMarkKey (sm_ns m) key _" key spec] UserKeyOf_keys(5) [OF assms(2), of "bare m"] assms(3,4)
    by (simp add: read_at_def)
qed (use assms(3) sm_gc_look(1) [OF sm_wf_ok [OF assms(1)]] sm_put_look(1) [OF sm_wf_ok [OF assms(1)]] in \<open>auto simp: read_at_def\<close>)

lemma read_at_noted:
  assumes "sm_wf m" "length (x_Key c) < 2 ^ 32" "x_Op c = OpTxnGet" "IsSet (x_ReadTS c)"
  shows "read_at (sm_txn c m) (x_Key c) (x_ReadTS c)"
proof -
  note ok = sm_wf_ok [OF assms(1)]
  have ops: "txn_ops m c = fst (snd (NoteReadInto (mem (sm_es m)) [] (x_Key c) (x_ReadTS c) (bare m)))"
    using assms(3) by (simp add: txn_ops_def applyTxnTo_def)
  show ?thesis
  proof (cases "\<exists>t \<ge> x_ReadTS c. mark_of m (x_Key c) = Some t")
    case True
    then have "read_at m (x_Key c) (x_ReadTS c)" unfolding read_at_mark [OF assms(1,2)] .
    moreover have "txn_ops m c = []" using True assms(4) by (auto simp: ops NoteReadInto_def)
    ultimately show ?thesis by (simp add: sm_txn_ops sm_apply_def)
  next
    case False
    then have "\<exists>b. txn_ops m c = b @ [OpSet (ReadMarkKey (sm_ns m) (x_Key c) (x_ReadTS c)) []]"
      using assms(4) by (cases "mark_of m (x_Key c)") (simp_all add: ops NoteReadInto_def Set_def)
    then obtain b where "txn_ops m c = b @ [OpSet (ReadMarkKey (sm_ns m) (x_Key c) (x_ReadTS c)) []]" by blast
    then show ?thesis unfolding read_at_def sm_txn_look(1) [OF ok] by (intro exI [of _ "x_ReadTS c"]) simp
  qed
qed

lemma read_at_log:
  assumes "sm_wf m" "length key < 2 ^ 32" "read_at m key ts" "owns_throughout key m es" "\<forall>e \<in> set es. stamps_ok e"
  shows "read_at (foldl sm_step m es) key ts \<and> sm_wf (foldl sm_step m es)"
  using assms
proof (induction es arbitrary: m)
  case (Cons e es)
  have "read_at (sm_step m e) key ts"
    using Cons.prems owns_throughout_first [of key "sm_step m e" es] by (intro read_at_step) auto
  then show ?case using Cons.IH [of "sm_step m e"] Cons.prems sm_wf_step [of m e] by simp
qed simp

lemma prewrite_below_read:
  assumes "sm_wf m" "length (x_Key c) < 2 ^ 32" "read_at m (x_Key c) ts" "x_Op c = OpPrewrite" "x_StartTS c < ts"
  shows "txn_ops m c = []"
proof (cases rule: txn_ops_cases [of m c, case_names nothing prewrite commit rollback decide mark])
  case (prewrite l)
  obtain t where "ts \<le> t" "mark_of m (x_Key c) = Some t" using assms(3) unfolding read_at_mark [OF assms(1,2)] by blast
  with prewrite(8) assms(5) show ?thesis by fastforce
qed (use assms(4) in auto)

text \<open>C14: A read is a first committer too.  Once a snapshot read of a key at a timestamp has been
  applied, every later prewrite of that key by a transaction that started below that timestamp is
  refused without effect, at every position of the log, for as long as the range owns the key.\<close>

theorem no_prewrite_below_a_read:
  assumes "sm_wf m" "isTxnCommand (e_Data e)" "decodeTxnCommand (e_Data e) = Some g" "x_Op g = OpTxnGet" "IsSet (x_ReadTS g)"
    "owns_throughout (x_Key g) m (e # es)" "\<forall>e' \<in> set (e # es). stamps_ok e'"
    "x_Op c = OpPrewrite" "x_Key c = x_Key g" "x_StartTS c < x_ReadTS g"
  shows "sm_txn c (foldl sm_step m (e # es)) = foldl sm_step m (e # es)"
proof -
  have len: "length (x_Key g) < 2 ^ 32" using decodeTxnCommand_key [OF assms(3)] by simp
  have "length (e_Data e) \<noteq> 0" using assms(2) by (simp add: isTxnCommand_def)
  then have step: "sm_step m e = sm_txn g m"
    using assms(2,3,6) by (simp add: sm_step_def)
  have "read_at (sm_step m e) (x_Key g) (x_ReadTS g)"
    unfolding step by (rule read_at_noted [OF assms(1) len assms(4,5)])
  then have "read_at (foldl sm_step m (e # es)) (x_Key g) (x_ReadTS g) \<and> sm_wf (foldl sm_step m (e # es))"
    using read_at_log [of "sm_step m e" "x_Key g" "x_ReadTS g" es] sm_wf_step [of m e] len assms(1,6,7) by simp
  then have "txn_ops (foldl sm_step m (e # es)) c = []"
    using prewrite_below_read [of _ c "x_ReadTS g"] len assms(8-10) by simp
  then show ?thesis by (simp add: sm_txn_ops sm_apply_def)
qed

definition bank_sm :: sm where
  "bank_sm = \<lparr>sm_desc = FirstRangeDescriptor, sm_ns = [1], sm_mark = zeroTS, sm_es = content bank_db\<rparr>"

definition txn_entry :: "TxnCommand \<Rightarrow> Entry" where
  "txn_entry c = \<lparr>e_Type = EntryNormal, e_Term = 1, e_Index = 1, e_ID = zeroPID, e_Data = encodeTxnCommand c\<rparr>"

abbreviation get_60 :: TxnCommand where
  "get_60 \<equiv> demo_txn\<lparr>x_Op := OpTxnGet, x_ReadTS := Timestamp 60 0\<rparr>"

abbreviation prewrite_at :: "wall \<Rightarrow> TxnCommand" where
  "prewrite_at w \<equiv> demo_txn\<lparr>x_StartTS := Timestamp w 0\<rparr>"

lemma demo_entries:
  "isTxnCommand (e_Data (txn_entry get_60))" "decodeTxnCommand (e_Data (txn_entry get_60)) = Some get_60"
  "isTxnCommand (e_Data (txn_entry (prewrite_at w)))" "decodeTxnCommand (e_Data (txn_entry (prewrite_at w))) = Some (prewrite_at w)"
  unfolding txn_entry_def by (simp_all add: decodeTxnCommand_encode demo_txn_def)

lemma txn_entry_desc: "sm_desc (sm_step m (txn_entry get_60)) = sm_desc m"
  "sm_desc (sm_step m (txn_entry (prewrite_at w))) = sm_desc m"
  by (simp_all add: sm_step_def demo_entries)

lemma bank_view: "same_view bank_db (NewStore [1]) (mem (sm_es bank_sm)) (bare bank_sm)"
  by (simp add: same_view_def bank_sm_def bank_sorted)

lemma bank_sm_facts:
  "sm_wf bank_sm" "desc_Contains (sm_desc bank_sm) [7]" "lock_of bank_sm key = None" "stamps_ok (txn_entry get_60)"
  "commit_of bank_sm [7] c = committed bank_db (NewStore [1]) [7] c"
proof -
  show "sm_wf bank_sm" using bank_ok by (simp add: sm_wf_def bank_sm_def)
  show "desc_Contains (sm_desc bank_sm) [7]" by (simp add: bank_sm_def FirstRangeDescriptor_def desc_Contains_def)
  show "lock_of bank_sm key = None" using same_view_reads(1) [OF bank_view, of key] bank_unlocked by simp
  show "stamps_ok (txn_entry get_60)"
    by (simp add: stamps_ok_def demo_entries) (simp add: demo_txn_def ts_ok_def zeroTS_def)
  show "commit_of bank_sm [7] c = committed bank_db (NewStore [1]) [7] c"
    using same_viewD(1) [OF bank_view] same_viewD(3) [OF bank_view owned_keys(3), of "[7]"] by (simp add: committed_def)
qed

theorem no_prewrite_below_a_read_witness:
  "sm_txn (prewrite_at 50) (foldl sm_step bank_sm [txn_entry get_60]) = foldl sm_step bank_sm [txn_entry get_60]"
  by (rule no_prewrite_below_a_read [OF bank_sm_facts(1) demo_entries(1,2)])
     (simp_all add: txn_entry_desc bank_sm_facts(2,4) ts_eval, simp_all add: demo_txn_def bank_sm_facts(2) ts_eval)

section \<open>Repeatable snapshots\<close>

text \<open>
  What the coordinators and resolvers of a key owe to a snapshot at \<open>ts\<close>: nobody prewrites at that
  very timestamp; a commit is of a transaction that holds the key's lock, or repeats a commit
  already recorded; a key is rolled back only for a transaction that has not committed it; a plain
  write does not reuse the start timestamp of a committed transaction; and no collection is applied.
\<close>

definition follows :: "bytes \<Rightarrow> timestamp \<Rightarrow> sm \<Rightarrow> Entry \<Rightarrow> bool" where
  "follows key ts m e \<longleftrightarrow> stamps_ok e \<and>
     (\<forall>c. decodeTxnCommand (e_Data e) = Some c \<and> x_Key c = key \<longrightarrow>
        (x_Op c = OpPrewrite \<longrightarrow> x_StartTS c \<noteq> ts) \<and>
        (x_Op c = OpCommitKey \<longrightarrow> held m c \<or> commit_of m key (x_CommitTS c) = Some (x_StartTS c)) \<and>
        (x_Op c = OpRollbackKey \<longrightarrow> commit_of m key (x_StartTS c) = None \<and> (\<forall>t. commit_of m key t \<noteq> Some (x_StartTS c)))) \<and>
     (\<not> isTxnCommand (e_Data e) \<and> \<not> isSplitCommand (e_Data e) \<longrightarrow>
        (case decodeCmd (e_Data e) of (op, k, v, at) \<Rightarrow>
           op \<noteq> opGC \<and> (op = opPut \<and> k = key \<longrightarrow> (\<forall>t. commit_of m key t \<noteq> Some at))))"

fun follows_log :: "bytes \<Rightarrow> timestamp \<Rightarrow> sm \<Rightarrow> Entry list \<Rightarrow> bool" where
  "follows_log key ts m [] = True"
| "follows_log key ts m (e # es) = (follows key ts m e \<and> follows_log key ts (sm_step m e) es)"

text \<open>What a snapshot at \<open>ts\<close> sees of a key: its commits up to \<open>ts\<close> and the versions they name.\<close>

definition same_snapshot :: "bytes \<Rightarrow> timestamp \<Rightarrow> sm \<Rightarrow> sm \<Rightarrow> bool" where
  "same_snapshot key ts m m' \<longleftrightarrow> sm_ns m' = sm_ns m \<and> sm_mark m' = sm_mark m \<and>
     (\<forall>c \<le> ts. commit_of m' key c = commit_of m key c) \<and>
     (\<forall>c \<le> ts. \<forall>st. commit_of m key c = Some st \<longrightarrow>
        look m' (EncodeKey (sm_ns m) key st) = look m (EncodeKey (sm_ns m) key st))"

definition guarded :: "bytes \<Rightarrow> timestamp \<Rightarrow> sm \<Rightarrow> bool" where
  "guarded key ts m \<longleftrightarrow> sm_wf m \<and> read_at m key ts \<and> (\<forall>l. lock_of m key = Some l \<longrightarrow> ts < l_StartTS l) \<and>
     (\<forall>c st. commit_of m key c = Some st \<longrightarrow> st \<le> c)"

lemma same_snapshot_refl: "same_snapshot key ts m m"
  by (simp add: same_snapshot_def)

lemma same_snapshot_trans: "same_snapshot key ts m1 m2 \<Longrightarrow> same_snapshot key ts m2 m3 \<Longrightarrow> same_snapshot key ts m1 m3"
  unfolding same_snapshot_def by metis

text \<open>An entry that leaves the commit records and versions a snapshot sees as they are.\<close>

lemma unseen_change:
  assumes "sm_ok m" "sm_ok m'" "sm_ns m' = sm_ns m" "sm_mark m' = sm_mark m"
    "\<And>c. c \<le> ts \<Longrightarrow> commit_of m' key c = commit_of m key c"
    "\<And>c st. c \<le> ts \<Longrightarrow> commit_of m key c = Some st \<Longrightarrow>
       look m' (EncodeKey (sm_ns m) key st) = look m (EncodeKey (sm_ns m) key st)"
  shows "same_snapshot key ts m m'"
  using assms by (simp add: same_snapshot_def)

lemma commit_of_step:
  assumes "sm_ok m" "sm_ok m'" "sm_ns m' = sm_ns m" "look m' (WriteKey (sm_ns m) key c) = look m (WriteKey (sm_ns m) key c)"
  shows "commit_of m' key c = commit_of m key c"
  using assms by (simp add: reads_look(3))

lemma lock_of_step:
  assumes "sm_ok m" "sm_ok m'" "sm_ns m' = sm_ns m" "look m' (LockKey (sm_ns m) key) = look m (LockKey (sm_ns m) key)"
  shows "lock_of m' key = lock_of m key"
  using assms by (simp add: reads_look(1))

lemma meaning_frame:
  "(\<And>v. OpSet k v \<notin> set ops) \<Longrightarrow> OpDelete k \<notin> set ops \<Longrightarrow> (\<And>a b. OpDeleteRange a b \<notin> set ops) \<Longrightarrow>
   foldl op_meaning g ops k = g k"
proof (induction ops arbitrary: g)
  case (Cons x ops)
  then have "op_meaning g x k = g k" by (cases x) auto
  with Cons show ?case by simp
qed simp

lemma txn_ops_key:
  assumes "length (x_Key c) < 2 ^ 32" "UserKeyOf (bare m) k = Some key" "x_Key c \<noteq> key"
  shows "foldl op_meaning (look m) (txn_ops m c) k = look m k"
proof -
  have u: "k \<noteq> LockKey (sm_ns m) (x_Key c)" "\<And>t. k \<noteq> EncodeKey (sm_ns m) (x_Key c) t" "\<And>t. k \<noteq> WriteKey (sm_ns m) (x_Key c) t"
    "\<And>t. k \<noteq> TxnKey (sm_ns m) (x_Key c) t" "\<And>t. k \<noteq> ReadMarkKey (sm_ns m) (x_Key c) t"
    using UserKeyOf_keys [OF assms(1), of "bare m"] assms(2,3) by auto
  then show ?thesis
    by (cases rule: txn_ops_cases [of m c, case_names nothing prewrite commit rollback decide mark])
       (auto simp: release_meaning split: option.splits)
qed

lemma real_commit_encode [simp]: "real_commit (Some (encodeWrite st rb)) = (if rb then None else Some st)" "real_commit None = None"
  by (simp_all add: real_commit_def rift_codec)

text \<open>One transaction step on the key itself, case by case.\<close>

lemma prewrite_unseen:
  assumes g: "guarded key ts m" and len: "length (x_Key c) < 2 ^ 32" "length (x_Primary c) < 2 ^ 32" and k: "x_Key c = key"
    and ops: "txn_ops m c = [OpSet (LockKey (sm_ns m) key) (encodeLock l), OpSet (EncodeKey (sm_ns m) key (x_StartTS c)) (x_Value c)]"
    and l: "l_StartTS l = x_StartTS c" "l_Primary l = x_Primary c" and free: "\<And>t. mark_of m key = Some t \<Longrightarrow> t \<le> x_StartTS c"
    and ne: "x_StartTS c \<noteq> ts"
  shows "same_snapshot key ts m (sm_txn c m) \<and> (\<forall>l. lock_of (sm_txn c m) key = Some l \<longrightarrow> ts < l_StartTS l) \<and>
    (\<forall>t st. commit_of (sm_txn c m) key t = Some st \<longrightarrow> st \<le> t)"
proof -
  have wf: "sm_wf m" "read_at m key ts" and sane: "\<And>t st. commit_of m key t = Some st \<Longrightarrow> st \<le> t"
    using g by (auto simp: guarded_def)
  note ok = sm_wf_ok [OF wf(1)] and look = sm_txn_look [OF sm_wf_ok [OF wf(1)], of c]
  obtain t where "ts \<le> t" "mark_of m key = Some t" using wf(2) len(1) unfolding k by (auto simp: read_at_mark [OF wf(1)])
  then have later: "ts < x_StartTS c" using free ne by fastforce
  have com: "commit_of (sm_txn c m) key t = commit_of m key t" for t
    by (rule commit_of_step [OF ok look(2)]) (simp_all add: look(1) ops)
  have "look (sm_txn c m) (EncodeKey (sm_ns m) key st) = look m (EncodeKey (sm_ns m) key st)"
    if "t \<le> ts" "commit_of m key t = Some st" for t st
  proof -
    have "st \<noteq> x_StartTS c" using sane [OF that(2)] that(1) later by auto
    then have "EncodeKey (sm_ns m) key st \<noteq> EncodeKey (sm_ns m) key (x_StartTS c)" by (simp add: EncodeKey_metaKey)
    then show ?thesis by (simp add: look(1) ops)
  qed
  moreover have "lock_of (sm_txn c m) key = Some l"
    using l(2) len(2) by (simp add: reads_look(1) [OF look(2)] look(1) ops rift_codec)
  ultimately show ?thesis
    using com later l(1) sane by (auto simp: same_snapshot_def)
qed

lemma release_lock:
  assumes "sm_ok m" "x_Key c = key" "txn_ops m c = OpSet (WriteKey (sm_ns m) key t) v # release m c @ ops"
    "ops = [] \<or> (\<exists>t. ops = [OpDelete (EncodeKey (sm_ns m) key t)])"
  shows "lock_of (sm_txn c m) key = (if held m c then None else lock_of m key)"
    "look (sm_txn c m) (WriteKey (sm_ns m) key t') = (if t' = t then Some v else look m (WriteKey (sm_ns m) key t'))"
proof -
  note look = sm_txn_look [OF assms(1), of c]
  show "lock_of (sm_txn c m) key = (if held m c then None else lock_of m key)"
    using assms(2,4) by (auto simp: reads_look(1) [OF look(2)] reads_look(1) [OF assms(1)] look(1) assms(3) release_meaning)
  have "WriteKey (sm_ns m) key t' = WriteKey (sm_ns m) key t \<longleftrightarrow> t' = t" by (simp add: WriteKey_def)
  then show "look (sm_txn c m) (WriteKey (sm_ns m) key t') = (if t' = t then Some v else look m (WriteKey (sm_ns m) key t'))"
    using assms(2,4) by (auto simp: look(1) assms(3) release_meaning)
qed

lemma commit_unseen:
  assumes g: "guarded key ts m" and k: "x_Key c = key" and le: "x_StartTS c \<le> x_CommitTS c"
    and ops: "txn_ops m c = OpSet (WriteKey (sm_ns m) key (x_CommitTS c)) (encodeWrite (x_StartTS c) False) # release m c"
    and who: "held m c \<or> commit_of m key (x_CommitTS c) = Some (x_StartTS c)"
  shows "same_snapshot key ts m (sm_txn c m) \<and> (\<forall>l. lock_of (sm_txn c m) key = Some l \<longrightarrow> ts < l_StartTS l) \<and>
    (\<forall>t st. commit_of (sm_txn c m) key t = Some st \<longrightarrow> st \<le> t)"
proof -
  have wf: "sm_wf m" and locks: "\<And>l. lock_of m key = Some l \<Longrightarrow> ts < l_StartTS l"
    and sane: "\<And>t st. commit_of m key t = Some st \<Longrightarrow> st \<le> t" using g by (auto simp: guarded_def)
  note ok = sm_wf_ok [OF wf] and look = sm_txn_look [OF sm_wf_ok [OF wf], of c]
  note rel = release_lock [OF ok k, of "x_CommitTS c" "encodeWrite (x_StartTS c) False" "[]"]
  have com: "commit_of (sm_txn c m) key t = (if t = x_CommitTS c then Some (x_StartTS c) else commit_of m key t)" for t
    using rel(2) [of t] ops by (simp add: reads_look(3) [OF look(2)] reads_look(3) [OF ok])
  have "commit_of (sm_txn c m) key t = commit_of m key t" if "t \<le> ts" for t
  proof (cases "held m c")
    case True
    then have "ts < x_StartTS c" using locks k by (auto simp: held_def)
    with le that show ?thesis by (auto simp: com)
  qed (use who in \<open>simp add: com\<close>)
  moreover have "look (sm_txn c m) (EncodeKey (sm_ns m) key st) = look m (EncodeKey (sm_ns m) key st)" for st
    by (simp add: look(1) ops release_meaning)
  moreover have "ts < l_StartTS l" if "lock_of (sm_txn c m) key = Some l" for l
    using rel(1) ops that locks by (simp split: if_splits)
  moreover have "st \<le> t" if "commit_of (sm_txn c m) key t = Some st" for t st
    using that sane le by (auto simp: com split: if_splits)
  ultimately show ?thesis by (auto simp: same_snapshot_def)
qed

lemma rollback_unseen:
  assumes g: "guarded key ts m" and k: "x_Key c = key"
    and ops: "txn_ops m c = OpSet (WriteKey (sm_ns m) key (x_StartTS c)) (encodeWrite (x_StartTS c) True) # release m c @
      [OpDelete (EncodeKey (sm_ns m) key (x_StartTS c))]"
    and who: "held m c \<or> commit_of m key (x_StartTS c) = None \<and> (\<forall>t. commit_of m key t \<noteq> Some (x_StartTS c))"
  shows "same_snapshot key ts m (sm_txn c m) \<and> (\<forall>l. lock_of (sm_txn c m) key = Some l \<longrightarrow> ts < l_StartTS l) \<and>
    (\<forall>t st. commit_of (sm_txn c m) key t = Some st \<longrightarrow> st \<le> t)"
proof -
  have wf: "sm_wf m" and locks: "\<And>l. lock_of m key = Some l \<Longrightarrow> ts < l_StartTS l"
    and sane: "\<And>t st. commit_of m key t = Some st \<Longrightarrow> st \<le> t" using g by (auto simp: guarded_def)
  note ok = sm_wf_ok [OF wf] and look = sm_txn_look [OF sm_wf_ok [OF wf], of c]
  have "\<exists>t. [OpDelete (EncodeKey (sm_ns m) key (x_StartTS c))] = [OpDelete (EncodeKey (sm_ns m) key t)]" by blast
  note rel = release_lock [OF ok k ops disjI2 [OF this]]
  have com: "commit_of (sm_txn c m) key t = (if t = x_StartTS c then None else commit_of m key t)" for t
    using rel(2) [of t] by (simp add: reads_look(3) [OF look(2)] reads_look(3) [OF ok])
  have later: "ts < x_StartTS c" if "held m c" using that locks k by (auto simp: held_def)
  have "commit_of (sm_txn c m) key t = commit_of m key t" if "t \<le> ts" for t
    using who later that by (auto simp: com)
  moreover have "look (sm_txn c m) (EncodeKey (sm_ns m) key st) = look m (EncodeKey (sm_ns m) key st)"
    if "t \<le> ts" "commit_of m key t = Some st" for t st
  proof -
    have "st \<noteq> x_StartTS c" using who later sane [OF that(2)] that by auto
    then have "EncodeKey (sm_ns m) key st \<noteq> EncodeKey (sm_ns m) key (x_StartTS c)" by (simp add: EncodeKey_metaKey)
    then show ?thesis by (simp add: look(1) ops release_meaning)
  qed
  moreover have "ts < l_StartTS l" if "lock_of (sm_txn c m) key = Some l" for l
    using rel(1) that locks by (simp split: if_splits)
  moreover have "st \<le> t" if "commit_of (sm_txn c m) key t = Some st" for t st
    using that sane by (auto simp: com split: if_splits)
  ultimately show ?thesis by (auto simp: same_snapshot_def)
qed

text \<open>Entries that do not touch what the guard speaks of.\<close>

lemma untouched:
  assumes "guarded key ts m" "sm_ok m'" "sm_ns m' = sm_ns m" "sm_mark m' = sm_mark m"
    "look m' (LockKey (sm_ns m) key) = look m (LockKey (sm_ns m) key)"
    "\<And>t. look m' (WriteKey (sm_ns m) key t) = look m (WriteKey (sm_ns m) key t)"
    "\<And>t st. commit_of m key t = Some st \<Longrightarrow> look m' (EncodeKey (sm_ns m) key st) = look m (EncodeKey (sm_ns m) key st)"
  shows "same_snapshot key ts m m' \<and> (\<forall>l. lock_of m' key = Some l \<longrightarrow> ts < l_StartTS l) \<and>
    (\<forall>t st. commit_of m' key t = Some st \<longrightarrow> st \<le> t)"
proof -
  have ok: "sm_ok m" using assms(1) sm_wf_ok by (auto simp: guarded_def)
  have "commit_of m' key t = commit_of m key t" "lock_of m' key = lock_of m key" for t
    using commit_of_step [OF ok assms(2,3) assms(6)] lock_of_step [OF ok assms(2,3,5)] by simp_all
  with assms show ?thesis by (auto simp: same_snapshot_def guarded_def)
qed

lemma txn_unseen:
  assumes g: "guarded key ts m" and len: "length key < 2 ^ 32"
    and c: "decodeTxnCommand (e_Data e) = Some c" and f: "follows key ts m e"
  shows "same_snapshot key ts m (sm_txn c m) \<and> (\<forall>l. lock_of (sm_txn c m) key = Some l \<longrightarrow> ts < l_StartTS l) \<and>
    (\<forall>t st. commit_of (sm_txn c m) key t = Some st \<longrightarrow> st \<le> t)"
proof -
  have ok: "sm_ok m" using g sm_wf_ok by (auto simp: guarded_def)
  note look = sm_txn_look [OF ok, of c] and lens = decodeTxnCommand_key [OF c]
  have same: ?thesis if "\<And>k. k \<in> {LockKey (sm_ns m) key} \<union> range (WriteKey (sm_ns m) key) \<union> range (EncodeKey (sm_ns m) key) \<Longrightarrow>
      foldl op_meaning (look m) (txn_ops m c) k = look m k"
    by (rule untouched [OF g look(2)]) (simp_all add: look(1) that)
  show ?thesis
  proof (cases "x_Key c = key")
    case False
    have "UserKeyOf (bare m) k = Some key"
      if "k \<in> {LockKey (sm_ns m) key} \<union> range (WriteKey (sm_ns m) key) \<union> range (EncodeKey (sm_ns m) key)" for k
      using that UserKeyOf_keys(1-3) [OF len, of "bare m"] by auto
    with txn_ops_key [OF _ _ False] lens show ?thesis by (intro same) blast
  next
    case True
    have rules: "x_Op c = OpPrewrite \<Longrightarrow> x_StartTS c \<noteq> ts"
      "x_Op c = OpCommitKey \<Longrightarrow> held m c \<or> commit_of m key (x_CommitTS c) = Some (x_StartTS c)"
      "x_Op c = OpRollbackKey \<Longrightarrow> commit_of m key (x_StartTS c) = None \<and> (\<forall>t. commit_of m key t \<noteq> Some (x_StartTS c))"
      using f c True by (auto simp: follows_def)
    show ?thesis
    proof (cases rule: txn_ops_cases [of m c, case_names nothing prewrite commit rollback decide mark])
      case (prewrite l)
      with prewrite_unseen [OF g _ _ True, of l] lens rules(1) True show ?thesis by simp
    next
      case commit
      with commit_unseen [OF g True] rules(2) True show ?thesis by auto
    next
      case rollback
      with rollback_unseen [OF g True] rules(3) True show ?thesis by auto
    next
      case nothing
      then show ?thesis by (intro same) simp
    next
      case (decide r)
      then show ?thesis by (intro same) auto
    next
      case mark
      then show ?thesis by (intro same) (auto split: option.splits)
    qed
  qed
qed

lemma snapshot_step:
  assumes g: "guarded key ts m" and len: "length key < 2 ^ 32" and f: "follows key ts m e"
    and owned: "desc_Contains (sm_desc (sm_step m e)) key"
  shows "same_snapshot key ts m (sm_step m e) \<and> guarded key ts (sm_step m e)"
proof -
  have wf: "sm_wf m" "read_at m key ts" using g by (auto simp: guarded_def)
  note ok = sm_wf_ok [OF wf(1)]
  have "same_snapshot key ts m (sm_step m e) \<and> (\<forall>l. lock_of (sm_step m e) key = Some l \<longrightarrow> ts < l_StartTS l) \<and>
    (\<forall>t st. commit_of (sm_step m e) key t = Some st \<longrightarrow> st \<le> t)"
  proof (cases rule: sm_step_cases [of m e, case_names same txn split gc put])
    case same
    then show ?thesis using g by (simp add: same_snapshot_refl guarded_def)
  next
    case (txn c)
    with txn_unseen [OF g len txn(2) f] show ?thesis by simp
  next
    case (split spec)
    have left: "desc_Contains (sp_Left spec) key" using owned split(4) by simp
    show ?thesis
      unfolding split(4) using sm_split_keeps [OF ok _ left] UserKeyOf_keys(1-3) [OF len, of "bare m"]
      by (intro untouched [OF g sm_split_look(2) [OF ok]]) simp_all
  next
    case (gc k v at)
    then show ?thesis using f by (simp add: follows_def)
  next
    case (put k v at)
    have "EncodeKey (sm_ns m) key st \<noteq> EncodeKey (sm_ns m) k at" if "commit_of m key t = Some st" for t st
      using f put(1,4,5) that keys_inject(4) [OF len decodeCmd_key [OF put(1)]] by (auto simp: follows_def)
    then show ?thesis
      unfolding put(3) using sm_put_look [OF ok] by (intro untouched [OF g]) simp_all
  qed
  moreover have "sm_wf (sm_step m e)" using f by (intro sm_wf_step wf(1)) (simp add: follows_def)
  moreover have "read_at (sm_step m e) key ts" by (rule read_at_step [OF wf(1) len wf(2) owned])
  ultimately show ?thesis by (simp add: guarded_def)
qed

lemma snapshot_log:
  assumes "guarded key ts m" "length key < 2 ^ 32" "follows_log key ts m es" "owns_throughout key m es"
  shows "same_snapshot key ts m (foldl sm_step m es) \<and> guarded key ts (foldl sm_step m es)"
  using assms
proof (induction es arbitrary: m)
  case (Cons e es)
  have "same_snapshot key ts m (sm_step m e) \<and> guarded key ts (sm_step m e)"
    using Cons.prems owns_throughout_first [of key "sm_step m e" es] by (intro snapshot_step) auto
  with Cons.IH [of "sm_step m e"] Cons.prems show ?case by (auto intro: same_snapshot_trans)
qed (simp add: same_snapshot_refl)

lemma same_snapshot_read:
  assumes g: "guarded key ts m" "guarded key ts m'" and len: "length key < 2 ^ 32" and s: "same_snapshot key ts m m'"
  shows "fst (GetTxn (mem (sm_es m')) key ts ts (bare m')) = fst (GetTxn (mem (sm_es m)) key ts ts (bare m))"
proof -
  have wf: "sm_wf m" "sm_wf m'" using g by (auto simp: guarded_def)
  have rd: "fst (GetTxn (mem (sm_es x)) key ts ts (bare x)) = (if \<not> IsSet ts then Inl ErrUnsetTimestamp
      else if ts \<le> sm_mark x then Inl ErrBelowGCMark
      else reveal (mem (sm_es x)) (bare x) key ts r)"
    if "guarded key ts x" "snapshot_answer (commit_of x key) ts ts r" for x r
  proof -
    have "store_ok (st_ns (bare x)) (content (mem (sm_es x)))" using that(1) by (simp add: guarded_def sm_wf_def)
    from GetTxn_answer [OF this len _ _ _ that(2)] show ?thesis
      using that(1) by (auto simp: GetTxn_def Let_def guarded_def)
  qed
  obtain r where r: "snapshot_answer (commit_of m key) ts ts r"
    using getTxn_loop_snapshot [of "bare m" "mem (sm_es m)" key ts ts] wf(1) len by (auto simp: sm_wf_def)
  have low: "commit_of m' key c = commit_of m key c" if "c \<le> ts" for c using s that by (simp add: same_snapshot_def)
  have r': "snapshot_answer (commit_of m' key) ts ts r"
    using r low by (auto simp: snapshot_answer_def split: sum.splits option.splits)
  have "reveal (mem (sm_es m')) (bare m') key ts r = reveal (mem (sm_es m)) (bare m) key ts r"
    using r s sm_wf_ok [OF wf(1)] sm_wf_ok [OF wf(2)]
    by (auto simp: reveal_def snapshot_answer_def same_snapshot_def Get_mem split: sum.splits option.splits)
  with rd [OF g(1) r] rd [OF g(2) r'] s show ?thesis by (simp add: same_snapshot_def)
qed

lemma get_leaves:
  assumes "sm_ok m" "x_Op c = OpTxnGet" "\<And>t. k \<noteq> ReadMarkKey (sm_ns m) (x_Key c) t"
  shows "look (sm_txn c m) k = look m k"
  unfolding sm_txn_look(1) [OF assms(1)] using assms(2,3)
  by (cases rule: txn_ops_cases [of m c, case_names nothing prewrite commit rollback decide mark])
     (auto split: option.splits)

text \<open>C3: Snapshots are repeatable.  A snapshot read is applied where no lock at or below its
  timestamp blocks it; after that, whatever entries follow the protocol, prewrites, commits,
  rollbacks and resolutions of other transactions, plain writes and splits, a read of the key at the
  same timestamp gives the same answer at every later position, for as long as the range owns the
  key.  (Collection is excluded: it can take the version away.)\<close>

theorem snapshot_repeatable:
  assumes wf: "sm_wf m" and e: "isTxnCommand (e_Data e)" "decodeTxnCommand (e_Data e) = Some g" "x_Op g = OpTxnGet" "IsSet (x_ReadTS g)"
    and unlocked: "\<forall>l. lock_of m (x_Key g) = Some l \<longrightarrow> x_ReadTS g < l_StartTS l"
    and sane: "\<forall>c st. commit_of m (x_Key g) c = Some st \<longrightarrow> st \<le> c"
    and log: "owns_throughout (x_Key g) m (e # es)" "stamps_ok e" "follows_log (x_Key g) (x_ReadTS g) (sm_step m e) es"
  shows "fst (GetTxn (mem (sm_es (foldl sm_step m (e # es)))) (x_Key g) (x_ReadTS g) (x_ReadTS g) (bare (foldl sm_step m (e # es)))) =
    fst (GetTxn (mem (sm_es (sm_step m e))) (x_Key g) (x_ReadTS g) (x_ReadTS g) (bare (sm_step m e)))"
proof -
  have len: "length (x_Key g) < 2 ^ 32" using decodeTxnCommand_key [OF e(2)] by simp
  note ok = sm_wf_ok [OF wf]
  have "length (e_Data e) \<noteq> 0" using e(1) by (simp add: isTxnCommand_def)
  then have step: "sm_step m e = sm_txn g m" using e(1,2) log(1) by (simp add: sm_step_def)
  have "lock_of (sm_txn g m) (x_Key g) = lock_of m (x_Key g)"
    "commit_of (sm_txn g m) (x_Key g) t = commit_of m (x_Key g) t" for t
    using get_leaves [OF ok e(3)] sm_txn_look(2) [OF ok]
    by (intro lock_of_step commit_of_step ok; simp)+
  then have "guarded (x_Key g) (x_ReadTS g) (sm_step m e)"
    using read_at_noted [OF wf len e(3,4)] sm_wf_step [OF wf log(2)] unlocked sane by (simp add: guarded_def step)
  moreover from snapshot_log [OF this len log(3)] log(1)
  have "same_snapshot (x_Key g) (x_ReadTS g) (sm_step m e) (foldl sm_step m (e # es)) \<and>
      guarded (x_Key g) (x_ReadTS g) (foldl sm_step m (e # es))" by simp
  ultimately show ?thesis using same_snapshot_read [OF _ _ len] by blast
qed

theorem snapshot_repeatable_witness:
  "fst (GetTxn (mem (sm_es (foldl sm_step bank_sm [txn_entry get_60, txn_entry (prewrite_at 110)]))) [7] (Timestamp 60 0) (Timestamp 60 0)
     (bare (foldl sm_step bank_sm [txn_entry get_60, txn_entry (prewrite_at 110)]))) =
   fst (GetTxn (mem (sm_es (sm_step bank_sm (txn_entry get_60)))) [7] (Timestamp 60 0) (Timestamp 60 0)
     (bare (sm_step bank_sm (txn_entry get_60))))"
proof -
  have k: "x_Key get_60 = [7]" "x_ReadTS get_60 = Timestamp 60 0" by (simp_all add: demo_txn_def)
  have "follows [7] (Timestamp 60 0) (sm_step bank_sm (txn_entry get_60)) (txn_entry (prewrite_at 110))"
    by (simp add: follows_def stamps_ok_def demo_entries) (simp add: demo_txn_def ts_ok_def zeroTS_def)
  moreover have "\<forall>c st. commit_of bank_sm [7] c = Some st \<longrightarrow> st \<le> c"
    by (simp add: bank_sm_facts(5) bank_committed ts_eval)
  ultimately show ?thesis
    using snapshot_repeatable [OF bank_sm_facts(1) demo_entries(1,2), of "[txn_entry (prewrite_at 110)]"] bank_sm_facts(2-4)
    unfolding k by (simp add: txn_entry_desc ts_eval)
qed

end
