(* ===== verification/Ledger.thy ===== *)
theory Ledger
  imports Raft_Ops Hlc
begin

text \<open>
  The run ledger of \<^verbatim>\<open>raftcheck/ledger.go\<close>: what the drivers witnessed, per range, in the order it
  happened.  A node is its ordinal, an index into the per-node slices; an ordinal outside them is
  the panic \<open>None\<close>.  An instant of the run's global time is an unbounded integer.
\<close>

section \<open>Witnessed facts\<close>

type_synonym instant = int
type_synonym ordinal = nat

record WriteRecord =
  wr_Range :: u64
  wr_Node :: ordinal
  wr_Index :: nat
  wr_Key :: bytes
  wr_AckedAt :: instant

record ReadRecord =
  rr_Range :: u64
  rr_Node :: ordinal
  rr_Index :: nat
  rr_Key :: bytes
  rr_At :: timestamp
  rr_Value :: bytes
  rr_Found :: bool
  rr_Refused :: bool
  rr_AppliedAt :: nat
  rr_IssuedAt :: instant
  rr_OffLog :: bool
  rr_When :: instant

record LedgerTxn =
  lt_ID :: int
  lt_StartTS :: timestamp
  lt_CommitTS :: timestamp
  lt_Primary :: bytes
  lt_Keys :: "bytes list"
  lt_Began :: instant
  lt_Decided :: instant
  lt_Reached :: bool
  lt_Restarts :: nat

record TxnReadRecord =
  tr_Range :: u64
  tr_Node :: ordinal
  tr_Index :: nat
  tr_Key :: bytes
  tr_At :: timestamp
  tr_StartTS :: timestamp
  tr_Value :: bytes
  tr_Found :: bool
  tr_Locked :: bool
  tr_LockPrimary :: bytes
  tr_LockStartTS :: timestamp
  tr_Uncertain :: bool
  tr_CommitTS :: timestamp
  tr_RestartAt :: timestamp
  tr_Ceiling :: timestamp
  tr_Refused :: bool
  tr_When :: instant

record AuditRecord =
  au_ReadTS :: timestamp
  au_Total :: int
  au_Accounts :: int
  au_When :: instant

record ConfOrder =
  co_Node :: int
  co_At :: instant

record MoveRecord =
  mv_Range :: u64
  mv_From :: NodeID
  mv_To :: NodeID
  mv_At :: instant

record TxnCommitRecord =
  tc_ID :: int
  tc_CommitTS :: timestamp
  tc_At :: instant

record TxnRestartRecord =
  ts_ID :: int
  ts_StartTS :: timestamp
  ts_At :: instant

record DurableState =
  ds_HardState :: HardState
  ds_Snapshot :: SnapshotMeta
  ds_Log :: "Entry list"

record hsRecord =
  hr_node :: ordinal
  hr_hs :: HardState
  hr_at :: instant

record leaderRecord =
  ld_term :: nat
  ld_node :: ordinal
  ld_at :: instant
  ld_log :: "Entry list"
  ld_snap :: SnapshotMeta

record commitRecord =
  cr_entry :: Entry
  cr_node :: ordinal
  cr_at :: instant

record sentRecord =
  se_node :: ordinal
  se_msg :: Message
  se_durableTerm :: nat
  se_durableVote :: NodeID
  se_durableLast :: nat
  se_at :: instant

record SnapshotRecord =
  sn_Index :: nat
  sn_Term :: nat
  sn_Digest :: u64
  sn_Taken :: bool

record snapRecord =
  sr_node :: ordinal
  sr_rec :: SnapshotRecord
  sr_at :: instant

section \<open>The ledger of one range\<close>

text \<open>A base that was never recorded is the empty slice.\<close>

record rangeLedger =
  rl_id :: u64
  rl_base :: bytes
  rl_birthConf :: bytes
  rl_durableHS :: "hsRecord list"
  rl_durableLog :: "Entry list list"
  rl_durableSnap :: "SnapshotMeta list"
  rl_ledIn :: "leaderRecord list"
  rl_committed :: "commitRecord list"
  rl_applied :: "Entry list list"
  rl_sent :: "sentRecord list"
  rl_recv :: "sentRecord list"
  rl_snaps :: "snapRecord list"
  rl_nodes :: nat

definition zeroHS :: HardState where
  "zeroHS = \<lparr>hs_Term = 0, hs_Vote = 0\<rparr>"

definition zeroMeta :: SnapshotMeta where
  "zeroMeta = \<lparr>sm_Index = 0, sm_Term = 0, sm_Conf = \<lparr>Voters = [], Learners = []\<rparr>\<rparr>"

definition new_range :: "u64 \<Rightarrow> nat \<Rightarrow> rangeLedger" where
  "new_range i n =
     \<lparr>rl_id = i, rl_base = [], rl_birthConf = [], rl_durableHS = [], rl_durableLog = replicate n [],
      rl_durableSnap = replicate n zeroMeta, rl_ledIn = [], rl_committed = [], rl_applied = replicate n [],
      rl_sent = [], rl_recv = [], rl_snaps = [], rl_nodes = n\<rparr>"

definition lastIndexOf :: "Entry list \<Rightarrow> nat" where
  "lastIndexOf es = (if length es = 0 then 0 else e_Index (es ! (length es - 1)))"

definition durableHardState :: "rangeLedger \<Rightarrow> ordinal \<Rightarrow> HardState" where
  "durableHardState l node = foldl (\<lambda>hs r. if hr_node r = node then hr_hs r else hs) zeroHS (rl_durableHS l)"

definition durableLast :: "rangeLedger \<Rightarrow> ordinal \<Rightarrow> nat option" where
  "durableLast l node = do {
     sn \<leftarrow> slice_get (rl_durableSnap l) node;
     lg \<leftarrow> slice_get (rl_durableLog l) node;
     Some (if lastIndexOf lg > sm_Index sn then lastIndexOf lg else sm_Index sn) }"

definition isCommitted :: "rangeLedger \<Rightarrow> nat \<Rightarrow> bool" where
  "isCommitted l i = list_ex (\<lambda>c. e_Index (cr_entry c) = i) (rl_committed l)"

definition Committed :: "rangeLedger \<Rightarrow> Entry list" where
  "Committed l = map cr_entry (rl_committed l)"

definition noteLeader :: "nat \<Rightarrow> ordinal \<Rightarrow> instant \<Rightarrow> rangeLedger \<Rightarrow> rangeLedger option" where
  "noteLeader term node at l =
     (if list_ex (\<lambda>r. ld_term r = term \<and> ld_node r = node) (rl_ledIn l) then Some l
      else do {
        lg \<leftarrow> slice_get (rl_durableLog l) node;
        sn \<leftarrow> slice_get (rl_durableSnap l) node;
        Some (l\<lparr>rl_ledIn := rl_ledIn l @ [\<lparr>ld_term = term, ld_node = node, ld_at = at, ld_log = lg, ld_snap = sn\<rparr>]\<rparr>) })"

definition rl_RecordDurable :: "ordinal \<Rightarrow> DurableState \<Rightarrow> instant \<Rightarrow> rangeLedger \<Rightarrow> rangeLedger option" where
  "rl_RecordDurable node st at l = do {
     logs \<leftarrow> slice_set (rl_durableLog l) node (ds_Log st);
     snaps \<leftarrow> slice_set (rl_durableSnap l) node (ds_Snapshot st);
     Some (l\<lparr>rl_durableHS := rl_durableHS l @ [\<lparr>hr_node = node, hr_hs = ds_HardState st, hr_at = at\<rparr>],
             rl_durableLog := logs, rl_durableSnap := snaps\<rparr>) }"

definition rl_RecordSent :: "ordinal \<Rightarrow> Message \<Rightarrow> instant \<Rightarrow> rangeLedger \<Rightarrow> rangeLedger option" where
  "rl_RecordSent node m at l = do {
     last \<leftarrow> durableLast l node;
     let hs = durableHardState l node;
     let l1 = l\<lparr>rl_sent := rl_sent l @ [\<lparr>se_node = node, se_msg = m, se_durableTerm = hs_Term hs,
                  se_durableVote = hs_Vote hs, se_durableLast = last, se_at = at\<rparr>]\<rparr>;
     if m_Type m = MsgApp then noteLeader (m_Term m) node at l1 else Some l1 }"

definition rl_RecordReceived :: "ordinal \<Rightarrow> Message \<Rightarrow> instant \<Rightarrow> rangeLedger \<Rightarrow> rangeLedger" where
  "rl_RecordReceived node m at l =
     l\<lparr>rl_recv := rl_recv l @ [\<lparr>se_node = node, se_msg = m, se_durableTerm = 0, se_durableVote = 0,
         se_durableLast = 0, se_at = at\<rparr>]\<rparr>"

definition note_commit :: "ordinal \<Rightarrow> instant \<Rightarrow> rangeLedger \<Rightarrow> Entry \<Rightarrow> rangeLedger" where
  "note_commit node at l e =
     (if \<not> isCommitted l (e_Index e)
      then l\<lparr>rl_committed := rl_committed l @ [\<lparr>cr_entry = e, cr_node = node, cr_at = at\<rparr>]\<rparr> else l)"

definition rl_RecordApplied :: "ordinal \<Rightarrow> Entry list \<Rightarrow> instant \<Rightarrow> rangeLedger \<Rightarrow> rangeLedger option" where
  "rl_RecordApplied node es at l = do {
     cur \<leftarrow> slice_get (rl_applied l) node;
     app \<leftarrow> slice_set (rl_applied l) node (cur @ es);
     Some (foldl (note_commit node at) (l\<lparr>rl_applied := app\<rparr>) es) }"

definition rl_RecordSnapshot :: "ordinal \<Rightarrow> SnapshotRecord \<Rightarrow> instant \<Rightarrow> rangeLedger \<Rightarrow> rangeLedger" where
  "rl_RecordSnapshot node r at l = l\<lparr>rl_snaps := rl_snaps l @ [\<lparr>sr_node = node, sr_rec = r, sr_at = at\<rparr>]\<rparr>"

definition rl_RecordRangeBase :: "bytes \<Rightarrow> bytes \<Rightarrow> rangeLedger \<Rightarrow> rangeLedger" where
  "rl_RecordRangeBase data conf l =
     (if rl_base l = [] then l\<lparr>rl_base := data, rl_birthConf := conf\<rparr> else l)"

section \<open>Questions about a range\<close>

definition last_at :: "nat \<Rightarrow> Entry list \<Rightarrow> Entry option" where
  "last_at i es = map_of (rev (map (\<lambda>e. (e_Index e, e)) es)) i"

definition committedPrefix :: "rangeLedger \<Rightarrow> nat \<Rightarrow> Entry list option" where
  "committedPrefix l through =
     (if through = 0 then Some []
      else those (map (\<lambda>i. last_at i (filter (\<lambda>e. e_Index e \<le> through) (Committed l))) [1..<Suc through]))"

definition conf_step :: "Configuration \<Rightarrow> Entry \<Rightarrow> Configuration" where
  "conf_step c e =
     (if e_Type e \<noteq> EntryConfChange then c
      else (case ApplyConfEntry c (e_Data e) of Inl err \<Rightarrow> c | Inr next \<Rightarrow> next))"

definition CommittedConfig :: "rangeLedger \<Rightarrow> Configuration option" where
  "CommittedConfig l =
     (case DecodeConfiguration (rl_birthConf l) of
        None \<Rightarrow> None
      | Some conf \<Rightarrow> Some (foldl conf_step conf (sort_key e_Index (Committed l))))"

definition conf_in_window :: "instant \<Rightarrow> instant \<Rightarrow> commitRecord \<Rightarrow> bool" where
  "conf_in_window since until rec \<longleftrightarrow>
     \<not> (e_Type (cr_entry rec) \<noteq> EntryConfChange \<or> cr_at rec < since \<or> cr_at rec \<ge> until)"

definition foreignConfChange :: "rangeLedger \<Rightarrow> instant \<Rightarrow> instant \<Rightarrow> NodeID \<Rightarrow> NodeID \<Rightarrow> bool" where
  "foreignConfChange l since until from to =
     list_ex (\<lambda>rec. conf_in_window since until rec \<and>
        (case DecodeConfChange (e_Data (cr_entry rec)) of
           None \<Rightarrow> False
         | Some cc \<Rightarrow> list_ex (\<lambda>ch. ch_Node ch \<noteq> from \<and> ch_Node ch \<noteq> to) (cc_Changes cc))) (rl_committed l)"

definition names_change :: "byte \<Rightarrow> NodeID \<Rightarrow> Entry \<Rightarrow> bool" where
  "names_change kind node e =
     (case DecodeConfChange (e_Data e) of
        None \<Rightarrow> False
      | Some cc \<Rightarrow> length (cc_Changes cc) = 1 \<and> ch_Type (cc_Changes cc ! 0) = kind \<and>
          ch_Node (cc_Changes cc ! 0) = node)"

definition firstConfChange :: "rangeLedger \<Rightarrow> instant \<Rightarrow> instant \<Rightarrow> byte \<Rightarrow> NodeID \<Rightarrow> nat option" where
  "firstConfChange l since until kind node =
     foldl (\<lambda>best rec.
        if \<not> conf_in_window since until rec \<or> \<not> names_change kind node (cr_entry rec) then best
        else (case best of
                None \<Rightarrow> Some (e_Index (cr_entry rec))
              | Some b \<Rightarrow> if e_Index (cr_entry rec) < b then Some (e_Index (cr_entry rec)) else best))
       None (rl_committed l)"

definition rl_SnapshotsTaken :: "rangeLedger \<Rightarrow> nat" where
  "rl_SnapshotsTaken l = length (filter (\<lambda>s. sn_Taken (sr_rec s)) (rl_snaps l))"

definition rl_SnapshotsInstalled :: "rangeLedger \<Rightarrow> nat" where
  "rl_SnapshotsInstalled l = length (rl_snaps l) - rl_SnapshotsTaken l"

definition InstallsBy :: "rangeLedger \<Rightarrow> ordinal \<Rightarrow> nat list" where
  "InstallsBy l node =
     map (\<lambda>s. sn_Index (sr_rec s)) (filter (\<lambda>s. sr_node s = node \<and> \<not> sn_Taken (sr_rec s)) (rl_snaps l))"

record TransferRecord =
  tf_From :: NodeID
  tf_To :: NodeID
  tf_At :: instant
  tf_Campaigned :: instant
  tf_Won :: instant
  tf_PreVotedAt :: instant
  tf_PreVoted :: bool

definition transfer_step :: "instant \<Rightarrow> TransferRecord \<Rightarrow> sentRecord \<Rightarrow> TransferRecord" where
  "transfer_step at t x =
     (if se_at x < at \<or> m_From (se_msg x) \<noteq> tf_To t then t
      else if m_Type (se_msg x) = MsgPreVote then
        (if tf_Campaigned t = 0 then t\<lparr>tf_PreVoted := True, tf_PreVotedAt := se_at x\<rparr> else t)
      else if m_Type (se_msg x) = MsgVote then
        (if tf_Campaigned t = 0 then t\<lparr>tf_Campaigned := se_at x\<rparr> else t)
      else if m_Type (se_msg x) = MsgApp then
        (if tf_Campaigned t \<noteq> 0 \<and> tf_Won t = 0 then t\<lparr>tf_Won := se_at x\<rparr> else t)
      else t)"

definition rl_Transfers :: "rangeLedger \<Rightarrow> TransferRecord list" where
  "rl_Transfers l =
     map (\<lambda>d. foldl (transfer_step (se_at d))
            \<lparr>tf_From = m_From (se_msg d), tf_To = m_To (se_msg d), tf_At = se_at d, tf_Campaigned = 0, tf_Won = 0,
             tf_PreVotedAt = 0, tf_PreVoted = False\<rparr> (rl_sent l))
       (filter (\<lambda>d. m_Type (se_msg d) = MsgTimeoutNow) (rl_recv l))"

record Census =
  cn_Terms :: nat
  cn_ElectionsStart :: nat
  cn_ElectionsWon :: nat
  cn_SplitVotes :: nat
  cn_Leaders :: nat

text \<open>The census maps its terms to candidates; a set keyed by term is kept as the list of its pairs.\<close>

definition census_step :: "Census \<times> nat list \<times> nat list \<times> (nat \<times> ordinal) list \<Rightarrow> sentRecord \<Rightarrow>
    Census \<times> nat list \<times> nat list \<times> (nat \<times> ordinal) list" where
  "census_step st s =
     (case st of (c0, started, won, cands) \<Rightarrow>
       let t = m_Term (se_msg s);
           c = (if t > cn_Terms c0 then c0\<lparr>cn_Terms := t\<rparr> else c0)
       in if m_Type (se_msg s) = MsgVote then
            (if t \<notin> set started then c\<lparr>cn_ElectionsStart := cn_ElectionsStart c + 1\<rparr> else c,
             List.insert t started, won, List.insert (t, se_node s) cands)
          else if m_Type (se_msg s) = MsgApp then
            (if t \<notin> set won then c\<lparr>cn_ElectionsWon := cn_ElectionsWon c + 1\<rparr> else c,
             started, List.insert t won, cands)
          else (c, started, won, cands))"

definition rl_Census :: "rangeLedger \<Rightarrow> Census" where
  "rl_Census l =
     (case foldl census_step
             (\<lparr>cn_Terms = 0, cn_ElectionsStart = 0, cn_ElectionsWon = 0, cn_SplitVotes = 0, cn_Leaders = 0\<rparr>, [], [], [])
             (rl_sent l) of
        (c, started, won, cands) \<Rightarrow>
          c\<lparr>cn_Leaders := length (rl_ledIn l),
            cn_SplitVotes := length (filter (\<lambda>t. length (filter (\<lambda>p. fst p = t) cands) > 1) (remdups (map fst cands)))\<rparr>)"

section \<open>The ledger\<close>

record Ledger =
  lg_ranges :: "rangeLedger list"
  lg_nodes :: nat
  lg_rev :: nat
  lg_reads :: "ReadRecord list"
  lg_writes :: "WriteRecord list"
  lg_txnReads :: "TxnReadRecord list"
  lg_audits :: "AuditRecord list"
  lg_confOrders :: "ConfOrder list"
  lg_txns :: "LedgerTxn list"
  lg_txnRestarts :: nat
  lg_moves :: "MoveRecord list"

definition NewLedger :: "nat \<Rightarrow> Ledger" where
  "NewLedger n = \<lparr>lg_ranges = [], lg_nodes = n, lg_rev = 0, lg_reads = [], lg_writes = [], lg_txnReads = [],
     lg_audits = [], lg_confOrders = [], lg_txns = [], lg_txnRestarts = 0, lg_moves = []\<rparr>"

definition rangeByID :: "Ledger \<Rightarrow> u64 \<Rightarrow> rangeLedger option" where
  "rangeByID l i = find (\<lambda>r. rl_id r = i) (lg_ranges l)"

text \<open>A new range is appended and moved down to its place by exchanging neighbours.\<close>

fun sink :: "('a \<Rightarrow> 'b::linorder) \<Rightarrow> nat \<Rightarrow> 'a list \<Rightarrow> 'a list" where
  "sink k 0 xs = xs"
| "sink k (Suc i) xs = (if k (xs ! i) > k (xs ! Suc i) then sink k i (xs[i := xs ! Suc i, Suc i := xs ! i]) else xs)"

definition forRange :: "u64 \<Rightarrow> Ledger \<Rightarrow> rangeLedger \<times> Ledger" where
  "forRange i l =
     (case rangeByID l i of
        Some r \<Rightarrow> (r, l)
      | None \<Rightarrow>
          let r = new_range i (lg_nodes l)
          in (r, l\<lparr>lg_ranges := sink rl_id (length (lg_ranges l)) (lg_ranges l @ [r])\<rparr>))"

text \<open>The pointer the range ledger is reached through: the change replaces the entry of that id.\<close>

definition put_range :: "rangeLedger \<Rightarrow> Ledger \<Rightarrow> Ledger" where
  "put_range r l = l\<lparr>lg_ranges := map (\<lambda>x. if rl_id x = rl_id r then r else x) (lg_ranges l)\<rparr>"

definition on_range :: "u64 \<Rightarrow> (rangeLedger \<Rightarrow> rangeLedger option) \<Rightarrow> Ledger \<Rightarrow> Ledger option" where
  "on_range i f l =
     (case forRange i (l\<lparr>lg_rev := lg_rev l + 1\<rparr>) of (r, l1) \<Rightarrow> map_option (\<lambda>r'. put_range r' l1) (f r))"

definition set_txn :: "(LedgerTxn \<Rightarrow> bool) \<Rightarrow> (LedgerTxn \<Rightarrow> LedgerTxn) \<Rightarrow> LedgerTxn list \<Rightarrow> LedgerTxn list" where
  "set_txn P f ts = takeWhile (\<lambda>t. \<not> P t) ts @ (case dropWhile (\<lambda>t. \<not> P t) ts of [] \<Rightarrow> [] | t # us \<Rightarrow> f t # us)"

text \<open>One constructor per recording method.\<close>

datatype ledger_event =
    RecordDurable u64 ordinal DurableState instant
  | RecordSent u64 ordinal Message instant
  | RecordReceived u64 ordinal Message instant
  | RecordApplied u64 ordinal "Entry list" instant
  | RecordSnapshot u64 ordinal SnapshotRecord instant
  | RecordRangeBase u64 bytes bytes
  | RecordRead ReadRecord
  | RecordWrite WriteRecord
  | RecordTxnRead TxnReadRecord
  | RecordAudit AuditRecord
  | RecordConfOrder ConfOrder
  | RecordMove MoveRecord
  | RecordTxnBegin LedgerTxn
  | RecordTxnCommit TxnCommitRecord
  | RecordTxnRestart TxnRestartRecord

fun record_event :: "ledger_event \<Rightarrow> Ledger \<Rightarrow> Ledger option" where
  "record_event (RecordDurable i node st at) l = on_range i (rl_RecordDurable node st at) l"
| "record_event (RecordSent i node m at) l = on_range i (rl_RecordSent node m at) l"
| "record_event (RecordReceived i node m at) l = on_range i (\<lambda>r. Some (rl_RecordReceived node m at r)) l"
| "record_event (RecordApplied i node es at) l = on_range i (rl_RecordApplied node es at) l"
| "record_event (RecordSnapshot i node r at) l = on_range i (\<lambda>x. Some (rl_RecordSnapshot node r at x)) l"
| "record_event (RecordRangeBase i data conf) l = on_range i (\<lambda>r. Some (rl_RecordRangeBase data conf r)) l"
| "record_event (RecordRead r) l = Some (l\<lparr>lg_rev := lg_rev l + 1, lg_reads := lg_reads l @ [r]\<rparr>)"
| "record_event (RecordWrite r) l = Some (l\<lparr>lg_writes := lg_writes l @ [r]\<rparr>)"
| "record_event (RecordTxnRead r) l = Some (l\<lparr>lg_rev := lg_rev l + 1, lg_txnReads := lg_txnReads l @ [r]\<rparr>)"
| "record_event (RecordAudit r) l = Some (l\<lparr>lg_rev := lg_rev l + 1, lg_audits := lg_audits l @ [r]\<rparr>)"
| "record_event (RecordConfOrder r) l = Some (l\<lparr>lg_rev := lg_rev l + 1, lg_confOrders := lg_confOrders l @ [r]\<rparr>)"
| "record_event (RecordMove r) l = Some (l\<lparr>lg_rev := lg_rev l + 1, lg_moves := lg_moves l @ [r]\<rparr>)"
| "record_event (RecordTxnBegin r) l = Some (l\<lparr>lg_rev := lg_rev l + 1, lg_txns := lg_txns l @ [r]\<rparr>)"
| "record_event (RecordTxnCommit c) l =
     Some (l\<lparr>lg_rev := lg_rev l + 1, lg_txns := set_txn (\<lambda>t. lt_ID t = tc_ID c)
        (\<lambda>t. t\<lparr>lt_CommitTS := tc_CommitTS c, lt_Decided := tc_At c, lt_Reached := True\<rparr>) (lg_txns l)\<rparr>)"
| "record_event (RecordTxnRestart c) l =
     Some (l\<lparr>lg_rev := lg_rev l + 1, lg_txnRestarts := lg_txnRestarts l + 1, lg_txns := set_txn (\<lambda>t. lt_ID t = ts_ID c)
        (\<lambda>t. t\<lparr>lt_StartTS := ts_StartTS c, lt_Restarts := lt_Restarts t + 1\<rparr>) (lg_txns l)\<rparr>)"

fun record_events :: "ledger_event list \<Rightarrow> Ledger \<Rightarrow> Ledger option" where
  "record_events [] l = Some l"
| "record_events (e # es) l = do { l' \<leftarrow> record_event e l; record_events es l' }"

section \<open>Questions about a run\<close>

definition ReadsRefused :: "Ledger \<Rightarrow> nat" where
  "ReadsRefused l = length (filter rr_Refused (lg_reads l))"

definition churnTouched :: "Ledger \<Rightarrow> int \<Rightarrow> instant \<Rightarrow> instant \<Rightarrow> bool" where
  "churnTouched l n from to = list_ex (\<lambda>x. co_Node x = n \<and> co_At x \<ge> from \<and> co_At x \<le> to) (lg_confOrders l)"

definition moveEnds :: "Ledger \<Rightarrow> nat \<Rightarrow> instant" where
  "moveEnds l i =
     (case find (\<lambda>m. mv_Range m = mv_Range (lg_moves l ! i)) (drop (i + 1) (lg_moves l)) of
        Some m \<Rightarrow> mv_At m | None \<Rightarrow> 2 ^ 63 - 1)"

definition MovesCompleted :: "Ledger \<Rightarrow> nat" where
  "MovesCompleted l =
     length (filter (\<lambda>(i, m).
       (case rangeByID l (mv_Range m) of
          None \<Rightarrow> False
        | Some rl \<Rightarrow> firstConfChange rl (mv_At m) (moveEnds l i) ConfChangeRemoveNode (mv_From m) \<noteq> None))
       (List.enumerate 0 (lg_moves l)))"

definition MovesRacingUnrelatedChanges :: "Ledger \<Rightarrow> nat" where
  "MovesRacingUnrelatedChanges l =
     length (filter (\<lambda>(i, m).
       (case rangeByID l (mv_Range m) of
          None \<Rightarrow> False
        | Some rl \<Rightarrow> foreignConfChange rl (mv_At m) (moveEnds l i) (mv_From m) (mv_To m)))
       (List.enumerate 0 (lg_moves l)))"

definition census_add :: "Census \<Rightarrow> Census \<Rightarrow> Census" where
  "census_add out c =
     \<lparr>cn_Terms = (if cn_Terms c > cn_Terms out then cn_Terms c else cn_Terms out),
      cn_ElectionsStart = cn_ElectionsStart out + cn_ElectionsStart c,
      cn_ElectionsWon = cn_ElectionsWon out + cn_ElectionsWon c,
      cn_SplitVotes = cn_SplitVotes out + cn_SplitVotes c,
      cn_Leaders = cn_Leaders out + cn_Leaders c\<rparr>"

definition lg_Census :: "Ledger \<Rightarrow> Census" where
  "lg_Census l =
     foldl census_add \<lparr>cn_Terms = 0, cn_ElectionsStart = 0, cn_ElectionsWon = 0, cn_SplitVotes = 0, cn_Leaders = 0\<rparr>
       (map rl_Census (lg_ranges l))"

definition lg_Transfers :: "Ledger \<Rightarrow> TransferRecord list" where
  "lg_Transfers l = concat (map rl_Transfers (lg_ranges l))"

end
