(* ===== verification/Driver_State.thy ===== *)
theory Driver_State
  imports Ledger Replay
begin

text \<open>
  The state of the driver, \<^verbatim>\<open>store/node.go\<close> and \<^verbatim>\<open>store/machine.go\<close>: a machine (\<open>Node\<close>) hosts one
  replica per range over one engine.  What the driver hands to the outside (messages, completions
  it schedules, answers to clients, facts for the ledger) is appended to the machine's output.
  The physical clock and the election jitter are parameters of the configuration: the answer of the
  k-th call.
\<close>

section \<open>Epochs (sim/epoch.go) and the tracked engine (store/engine.go)\<close>

record EpochGuard =
  eg_current :: u64
  eg_dropped :: nat

definition NewEpochGuard :: EpochGuard where
  "NewEpochGuard = \<lparr>eg_current = 1, eg_dropped = 0\<rparr>"

definition eg_Advance :: "EpochGuard \<Rightarrow> EpochGuard" where
  "eg_Advance g = g\<lparr>eg_current := eg_current g + 1\<rparr>"

definition eg_Accept :: "u64 \<Rightarrow> EpochGuard \<Rightarrow> bool \<times> EpochGuard" where
  "eg_Accept e g = (if e = eg_current g \<and> e \<noteq> 0 then (True, g) else (False, g\<lparr>eg_dropped := eg_dropped g + 1\<rparr>))"

record tracked =
  tk_db :: DB
  tk_visible :: nat

definition tk_Apply :: "Batch \<Rightarrow> bool \<Rightarrow> tracked \<Rightarrow> (engine_error + nat) \<times> tracked" where
  "tk_Apply b sync t =
     (case Apply (tk_db t) (Some b) sync of
        (Inl err, db) \<Rightarrow> (Inl err, t\<lparr>tk_db := db\<rparr>)
      | (Inr sq, db) \<Rightarrow> (Inr sq, \<lparr>tk_db = db, tk_visible = sq\<rparr>))"

definition tk_Crash :: "tracked \<Rightarrow> tracked" where
  "tk_Crash t = (let db = Crash (tk_db t) in \<lparr>tk_db = db, tk_visible = DurableSeq db\<rparr>)"

section \<open>Configuration\<close>

record NodeConfig =
  nc_ID :: NodeID
  nc_Peers :: "NodeID list"
  nc_Ordinal :: ordinal
  nc_Election :: int
  nc_Heartbeat :: int
  nc_SyncLatency :: instant
  nc_Transport :: bool
  nc_Clock :: "(nat \<Rightarrow> wall) option"
  nc_MaxOffset :: duration
  nc_OnTxnApplied :: bool
  nc_Ledger :: bool
  nc_Unobserved :: bool
  nc_Learners :: "NodeID list"
  nc_PromotionLag :: nat
  nc_Nodes :: nat
  nc_SplitThreshold :: nat
  nc_GCRetention :: duration
  nc_GCUnthrottled :: bool
  nc_PreVote :: bool
  nc_ReadIndex :: bool
  nc_SnapshotThreshold :: nat
  nc_ElectionJitter :: "(nat \<Rightarrow> int) option"

definition raft_cfg :: "NodeConfig \<Rightarrow> Config" where
  "raft_cfg c = \<lparr>cfg_ID = nc_ID c, cfg_Peers = nc_Peers c, cfg_ElectionTimeout = nc_Election c,
     cfg_HeartbeatTimeout = nc_Heartbeat c, cfg_Learners = nc_Learners c, cfg_PromotionLag = nc_PromotionLag c,
     cfg_PreVote = nc_PreVote c\<rparr>"

datatype store_error =
    NeedsTransport | NoLedger | LedgerAndUnobserved | NoSyncLatency | EngineHasState | EngineIsEmpty
  | RaftRefused raft_error | ClockRefused hlc_error

definition checkLedger :: "NodeConfig \<Rightarrow> store_error option" where
  "checkLedger c =
     (if \<not> nc_Ledger c \<and> \<not> nc_Unobserved c then Some NoLedger
      else if nc_Ledger c \<and> nc_Unobserved c then Some LedgerAndUnobserved
      else None)"

section \<open>Requests, answers and writes in flight\<close>

record Request =
  rq_Client :: int
  rq_Seq :: u64
  rq_Op :: bytes
  rq_Key :: bytes
  rq_Value :: bytes
  rq_HistIdx :: int
  rq_AnyReplica :: bool
  rq_ReadTS :: timestamp
  rq_Txn :: "TxnCommand option"
  rq_Range :: RangeID
  rq_Epoch :: u64

record TxnResult =
  tx_Value :: bytes
  tx_Found :: bool
  tx_Locked :: bool
  tx_LockPrimary :: bytes
  tx_LockStartTS :: timestamp
  tx_LockDeadline :: timestamp
  tx_Decided :: bool
  tx_Rollback :: bool
  tx_Uncertain :: bool
  tx_CommitTS :: timestamp
  tx_RestartAt :: timestamp
  tx_Refused :: bool
  tx_Ceiling :: timestamp
  tx_Rejected :: bool

definition noResult :: TxnResult where
  "noResult = \<lparr>tx_Value = [], tx_Found = False, tx_Locked = False, tx_LockPrimary = [], tx_LockStartTS = zeroTS,
     tx_LockDeadline = zeroTS, tx_Decided = False, tx_Rollback = False, tx_Uncertain = False, tx_CommitTS = zeroTS,
     tx_RestartAt = zeroTS, tx_Refused = False, tx_Ceiling = zeroTS, tx_Rejected = False\<rparr>"

record pendingWrite =
  pw_seq :: nat
  pw_mark :: nat
  pw_hs :: "HardState option"
  pw_entries :: "Entry list"
  pw_snapMark :: nat
  pw_snap :: "SnapshotMeta option"
  pw_snapVersions :: "Record list"
  pw_snapMarkTS :: timestamp
  pw_clearAllLog :: bool
  pw_clearBelow :: nat
  pw_clearAbove :: nat

definition noWrite :: pendingWrite where
  "noWrite = \<lparr>pw_seq = 0, pw_mark = 0, pw_hs = None, pw_entries = [], pw_snapMark = 0, pw_snap = None,
     pw_snapVersions = [], pw_snapMarkTS = zeroTS, pw_clearAllLog = False, pw_clearBelow = 0, pw_clearAbove = 0\<rparr>"

record pendingRead =
  pr_ctx :: bytes
  pr_histIdx :: int
  pr_key :: bytes
  pr_issuedAt :: instant
  pr_anyReplica :: bool
  pr_index :: nat
  pr_viaFollower :: bool

record clientOp =
  co_id :: ProposalID
  co_histIdx :: int
  co_value :: bytes
  co_op :: bytes
  co_key :: bytes
  co_readTS :: timestamp

datatype ResponseKind = RespOK | RespError

datatype effect =
    Send ordinal ordinal bytes
  | At_Durable instant ordinal u64 nat
  | At_Client instant ordinal Request
  | History_End int instant ResponseKind bytes
  | OnTxnApplied TxnCommand TxnResult instant
  | Witnessed ledger_event

section \<open>The replica and its machine\<close>

record Replica =
  n_rng :: RangeID
  n_desc :: RangeDescriptor
  n_raft :: Raft
  n_pending :: "pendingWrite list"
  n_durHS :: HardState
  n_durLog :: "Entry list"
  n_durSnap :: SnapshotMeta
  n_durRecorded :: bool
  n_adoptions :: nat
  n_ackedSeq :: nat
  n_crossChecks :: nat
  n_crossChecksDeclined :: nat
  n_writtenLast :: nat
  n_mvcc :: Store
  n_hlc :: Clock
  n_snapshotsTaken :: nat
  n_snapshotsApplied :: nat
  n_transfersAsked :: nat
  n_confProposed :: nat
  n_confRefused :: nat
  n_lagRefused :: nat
  n_confRecoveries :: nat
  n_confCrossChecks :: nat
  n_confErr :: "raft_error option"
  n_splitPending :: bool
  n_splitsProposed :: nat
  n_staleSplits :: nat
  n_propSeq :: u64
  n_inflight :: "clientOp list"
  n_noopsApplied :: nat
  n_noopReachedArm :: nat
  n_noopAnswered :: nat
  n_applied :: nat
  n_readsServed :: nat
  n_followerReads :: nat
  n_readSeq :: u64
  n_pendingReads :: "pendingRead list"
  n_readsOutOfExtent :: nat
  n_outOfExtent :: nat
  n_writesRefused :: nat
  n_readsRefused :: nat
  n_gcPending :: bool
  n_gcProposed :: nat
  n_gcApplied :: nat
  n_versionsCollected :: nat
  n_writeConflicts :: nat
  n_prewriteBlocked :: nat
  n_txnCommitted :: nat
  n_txnRolledBack :: nat
  n_txnRaceLost :: nat
  n_txnRefused :: nat
  n_resolveWaits :: nat
  n_resolveAlreadyDecided :: nat
  n_resolveDeclaredDead :: nat
  n_resolveNoLock :: nat
  n_envelopeRefusals :: nat
  n_down :: bool

record Node =
  nd_cfg :: NodeConfig
  nd_db :: tracked
  nd_epoch :: EpochGuard
  nd_replicas :: "Replica list"
  nd_nextRange :: RangeID
  nd_down :: bool
  nd_staleEpochs :: nat
  nd_splits :: nat
  nd_reads :: nat
  nd_jitters :: nat
  nd_out :: "effect list"

abbreviation node_db :: "Node \<Rightarrow> DB" where
  "node_db m \<equiv> tk_db (nd_db m)"

definition emit :: "effect \<Rightarrow> Node \<Rightarrow> Node" where
  "emit x m = m\<lparr>nd_out := nd_out m @ [x]\<rparr>"

text \<open>A nil ledger takes every fact and keeps none.\<close>

definition witness :: "ledger_event \<Rightarrow> Node \<Rightarrow> Node" where
  "witness ev m = (if nc_Ledger (nd_cfg m) then emit (Witnessed ev) m else m)"

text \<open>The next reading of the physical clock.\<close>

definition phys_Wall :: "Node \<Rightarrow> wall \<times> Node" where
  "phys_Wall m =
     (case nc_Clock (nd_cfg m) of
        None \<Rightarrow> (0, m)
      | Some f \<Rightarrow> (f (nd_reads m), m\<lparr>nd_reads := nd_reads m + 1\<rparr>))"

definition hlc_Now :: "Replica \<Rightarrow> Node \<Rightarrow> timestamp \<times> Replica \<times> Node" where
  "hlc_Now n m =
     (case phys_Wall m of (w, m1) \<Rightarrow> (case clk_Now w (n_hlc n) of (t, c) \<Rightarrow> (t, n\<lparr>n_hlc := c\<rparr>, m1)))"

definition hlc_Update :: "timestamp \<Rightarrow> Replica \<Rightarrow> Node \<Rightarrow> Replica \<times> Node" where
  "hlc_Update ts n m =
     (case phys_Wall m of (w, m1) \<Rightarrow>
       (case clk_Update w (nc_MaxOffset (nd_cfg m)) ts (n_hlc n) of
          (None, c) \<Rightarrow> (n\<lparr>n_hlc := c\<rparr>, m1)
        | (Some err, c) \<Rightarrow> (n\<lparr>n_hlc := c, n_envelopeRefusals := n_envelopeRefusals n + 1\<rparr>, m1)))"

definition jitter :: "Replica \<Rightarrow> Node \<Rightarrow> Replica \<times> Node" where
  "jitter n m =
     (case nc_ElectionJitter (nd_cfg m) of
        None \<Rightarrow> (n, m)
      | Some f \<Rightarrow> (n\<lparr>n_raft := SetElectionTimeout (f (nd_jitters m)) (n_raft n)\<rparr>, m\<lparr>nd_jitters := nd_jitters m + 1\<rparr>))"

definition replica_apply :: "Batch \<Rightarrow> bool \<Rightarrow> Node \<Rightarrow> (engine_error + nat) \<times> Node" where
  "replica_apply b sync m = (case tk_Apply b sync (nd_db m) of (r, t) \<Rightarrow> (r, m\<lparr>nd_db := t\<rparr>))"

definition at_durable :: "instant \<Rightarrow> nat \<Rightarrow> Node \<Rightarrow> Node" where
  "at_durable at sq m =
     emit (At_Durable (at + nc_SyncLatency (nd_cfg m)) (nc_Ordinal (nd_cfg m)) (eg_current (nd_epoch m)) sq) m"

definition IsLeader :: "Replica \<Rightarrow> bool" where
  "IsLeader n \<longleftrightarrow> \<not> n_down n \<and> r_role (n_raft n) = RoleLeader"

definition ordinalOf :: "NodeID \<Rightarrow> NodeConfig \<Rightarrow> ordinal" where
  "ordinalOf i c = (case index_of (nc_Peers c) i of Some k \<Rightarrow> k | None \<Rightarrow> 0)"

section \<open>Construction\<close>

text \<open>A replica as \<^verbatim>\<open>newReplica\<close> and \<^verbatim>\<open>newReplicaFor\<close> build it: every other field is its zero value.\<close>

definition blank_replica :: "RangeDescriptor \<Rightarrow> Raft \<Rightarrow> Clock \<Rightarrow> Replica" where
  "blank_replica d r c =
     \<lparr>n_rng = d_ID d, n_desc = desc_Clone d, n_raft = r, n_pending = [], n_durHS = zeroHS, n_durLog = [],
      n_durSnap = zeroMeta, n_durRecorded = False, n_adoptions = 0, n_ackedSeq = 0, n_crossChecks = 0,
      n_crossChecksDeclined = 0, n_writtenLast = 0, n_mvcc = NewStore (rangePrefix (d_ID d)), n_hlc = c,
      n_snapshotsTaken = 0, n_snapshotsApplied = 0, n_transfersAsked = 0, n_confProposed = 0, n_confRefused = 0,
      n_lagRefused = 0, n_confRecoveries = 0, n_confCrossChecks = 0, n_confErr = None, n_splitPending = False,
      n_splitsProposed = 0, n_staleSplits = 0, n_propSeq = 0, n_inflight = [], n_noopsApplied = 0,
      n_noopReachedArm = 0, n_noopAnswered = 0, n_applied = 0, n_readsServed = 0, n_followerReads = 0,
      n_readSeq = 0, n_pendingReads = [], n_readsOutOfExtent = 0, n_outOfExtent = 0, n_writesRefused = 0,
      n_readsRefused = 0, n_gcPending = False, n_gcProposed = 0, n_gcApplied = 0, n_versionsCollected = 0,
      n_writeConflicts = 0, n_prewriteBlocked = 0, n_txnCommitted = 0, n_txnRolledBack = 0, n_txnRaceLost = 0,
      n_txnRefused = 0, n_resolveWaits = 0, n_resolveAlreadyDecided = 0, n_resolveDeclaredDead = 0,
      n_resolveNoLock = 0, n_envelopeRefusals = 0, n_down = False\<rparr>"

definition config_error :: "NodeConfig \<Rightarrow> store_error option" where
  "config_error c =
     (if \<not> nc_Transport c then Some NeedsTransport
      else (case checkLedger c of
              Some err \<Rightarrow> Some err
            | None \<Rightarrow> if nc_SyncLatency c \<le> 0 then Some NoSyncLatency else None))"

definition newReplicaFor :: "RangeDescriptor \<Rightarrow> Node \<Rightarrow> (store_error + Replica) \<times> Node" where
  "newReplicaFor d m =
     (case config_error (nd_cfg m) of
        Some err \<Rightarrow> (Inl err, m)
      | None \<Rightarrow>
          (case Raft_Ops.New (raft_cfg (nd_cfg m)) of
             Inl err \<Rightarrow> (Inl (RaftRefused err), m)
           | Inr r \<Rightarrow>
               (case jitter (blank_replica d r \<lparr>c_last = zeroTS, c_id = 0, updatesRefused = 0, physRegressions = 0\<rparr>) m of (n0, m1) \<Rightarrow>
                  (case hlc_New (nc_Clock (nd_cfg m)) (of_nat (nc_Ordinal (nd_cfg m))) of
                     Inl err \<Rightarrow> (Inl (ClockRefused err), m1)
                   | Inr c \<Rightarrow> (Inr (n0\<lparr>n_hlc := c\<rparr>), m1)))))"

definition newMachine :: "NodeConfig \<Rightarrow> store_error + Node" where
  "newMachine c =
     (case config_error c of
        Some err \<Rightarrow> Inl err
      | None \<Rightarrow> Inr \<lparr>nd_cfg = c, nd_db = \<lparr>tk_db = Engine.New, tk_visible = 0\<rparr>, nd_epoch = NewEpochGuard,
          nd_replicas = [], nd_nextRange = of_nat (2 + nc_Ordinal c), nd_down = False, nd_staleEpochs = 0,
          nd_splits = 0, nd_reads = 0, nd_jitters = 0, nd_out = []\<rparr>)"

definition engineHasState :: "Node \<Rightarrow> bool" where
  "engineHasState m \<longleftrightarrow> iter_Key (First (fst (NewIter (node_db m) None None))) \<noteq> None"

definition initialConf :: "NodeConfig \<Rightarrow> Configuration" where
  "initialConf c =
     \<lparr>Voters = filter (\<lambda>p. \<not> contains (nc_Learners c) p) (nc_Peers c),
      Learners = filter (contains (nc_Learners c)) (nc_Peers c)\<rparr>"

section \<open>The replicas of a machine\<close>

definition replicaFor :: "bytes \<Rightarrow> Node \<Rightarrow> Replica option" where
  "replicaFor key m = find (\<lambda>r. desc_Contains (n_desc r) key) (nd_replicas m)"

definition replicaOf :: "RangeID \<Rightarrow> Node \<Rightarrow> Replica option" where
  "replicaOf i m = find (\<lambda>r. n_rng r = i) (nd_replicas m)"

definition addReplica :: "Replica \<Rightarrow> Node \<Rightarrow> Node" where
  "addReplica r m = m\<lparr>nd_replicas := sink n_rng (length (nd_replicas m)) (nd_replicas m @ [r])\<rparr>"

text \<open>
  A machine holds its replicas by pointer.  An operation on one of them takes the replica and the
  machine around it; its result is put back under its range.
\<close>

definition put_replica :: "Replica \<Rightarrow> Node \<Rightarrow> Node" where
  "put_replica r m = m\<lparr>nd_replicas := map (\<lambda>x. if n_rng x = n_rng r then r else x) (nd_replicas m)\<rparr>"

definition nextRangeID :: "Node \<Rightarrow> RangeID \<times> Node" where
  "nextRangeID m = (nd_nextRange m, m\<lparr>nd_nextRange := nd_nextRange m + of_nat (nc_Nodes (nd_cfg m))\<rparr>)"

end
