(* ===== verification/Driver_Apply.thy ===== *)
theory Driver_Apply
  imports Driver_State
begin

text \<open>
  How a replica applies committed entries (\<^verbatim>\<open>drain\<close>'s third step), answers the clients that wait on
  them, splits its range and proposes collections, splits and snapshots: \<^verbatim>\<open>store/node.go\<close>,
  \<^verbatim>\<open>store/txnapply.go\<close> and the split of \<^verbatim>\<open>store/machine.go\<close>.  \<open>None\<close> is a panic.
\<close>

section \<open>Ingesting records\<close>

definition opGet :: bytes where "opGet = [0x67, 0x65, 0x74]"
definition opTxn :: bytes where "opTxn = [0x74, 0x78, 0x6E]"

definition staleRetryDelay :: instant where "staleRetryDelay = 10000000"

definition flushApply :: "Batch \<Rightarrow> Node \<Rightarrow> (Batch \<times> Node) option" where
  "flushApply b m =
     (if batch_Empty b then Some (b, m)
      else (case replica_apply b False m of
              (Inl err, m') \<Rightarrow> None
            | (Inr sq, m') \<Rightarrow> Some ([], m')))"

definition maxVersionTimestamp :: "bytes \<Rightarrow> Record list \<Rightarrow> timestamp" where
  "maxVersionTimestamp ns rs =
     foldl (\<lambda>hi rec. case TimestampOf ns (fst rec) of
              Some ts \<Rightarrow> if Less hi ts then ts else hi
            | None \<Rightarrow> hi) zeroTS rs"

definition seedClockAtLeast :: "timestamp \<Rightarrow> Replica \<Rightarrow> Node \<Rightarrow> Replica \<times> Node" where
  "seedClockAtLeast ts n m = (if \<not> IsSet ts then (n, m) else hlc_Update ts n m)"

definition ingest :: "Record list \<Rightarrow> timestamp \<Rightarrow> Replica \<Rightarrow> Node \<Rightarrow> (Replica \<times> Node) option" where
  "ingest rs mark n m =
     (case IngestRecordsInto NewBatch rs mark (n_mvcc n) of (b, s) \<Rightarrow>
       (case replica_apply b False m of
          (Inl err, m1) \<Rightarrow> None
        | (Inr sq, m1) \<Rightarrow> Some (seedClockAtLeast (maxVersionTimestamp (st_ns s) rs) (n\<lparr>n_mvcc := s\<rparr>) m1)))"

definition machine_versions :: "Replica \<Rightarrow> Node \<Rightarrow> Record list" where
  "machine_versions n m = Records (node_db m) (n_mvcc n)"

section \<open>Transaction steps (store/txnapply.go)\<close>

definition declareDead :: "DB \<Rightarrow> Batch \<Rightarrow> bytes \<Rightarrow> timestamp \<Rightarrow> Replica \<Rightarrow> Batch \<times> Replica" where
  "declareDead db b primary startTS n =
     (case PutTxnInto db b primary \<lparr>t_Status = TxnRolledBack, t_StartTS = startTS, t_CommitTS = zeroTS\<rparr> (n_mvcc n) of
        (None, b') \<Rightarrow> (b', n\<lparr>n_txnRolledBack := n_txnRolledBack n + 1\<rparr>)
      | (Some (ErrTxnAlreadyDecided p r), b') \<Rightarrow> (b', n\<lparr>n_txnRaceLost := n_txnRaceLost n + 1\<rparr>)
      | (Some err, b') \<Rightarrow> (b', n\<lparr>n_txnRefused := n_txnRefused n + 1\<rparr>))"

definition apply_prewrite :: "DB \<Rightarrow> Batch \<Rightarrow> TxnCommand \<Rightarrow> Replica \<Rightarrow> TxnResult \<times> Batch \<times> Replica" where
  "apply_prewrite db b c n =
     (case PrewriteInto db b (x_Key c)
             \<lparr>l_Primary = x_Primary c, l_StartTS = x_StartTS c, l_Deadline = x_Deadline c\<rparr> (x_Value c) (n_mvcc n) of
        (None, b', s) \<Rightarrow> (noResult, b', n\<lparr>n_mvcc := s\<rparr>)
      | (Some (ErrWriteConflict k t u), b', s) \<Rightarrow>
          (noResult\<lparr>tx_Rejected := True\<rparr>, b', n\<lparr>n_mvcc := s, n_writeConflicts := n_writeConflicts n + 1\<rparr>)
      | (Some (ErrKeyIsLocked k t), b', s) \<Rightarrow>
          (noResult\<lparr>tx_Rejected := True\<rparr>, b', n\<lparr>n_mvcc := s, n_prewriteBlocked := n_prewriteBlocked n + 1\<rparr>)
      | (Some err, b', s) \<Rightarrow>
          (noResult\<lparr>tx_Rejected := True\<rparr>, b', n\<lparr>n_mvcc := s, n_txnRefused := n_txnRefused n + 1\<rparr>))"

definition apply_putTxn :: "DB \<Rightarrow> Batch \<Rightarrow> TxnCommand \<Rightarrow> Replica \<Rightarrow> TxnResult \<times> Batch \<times> Replica" where
  "apply_putTxn db b c n =
     (case PutTxnInto db b (x_Key c)
             \<lparr>t_Status = x_Status c, t_StartTS = x_StartTS c, t_CommitTS = x_CommitTS c\<rparr> (n_mvcc n) of
        (None, b') \<Rightarrow>
          (noResult, b', if x_Status c = TxnCommitted then n\<lparr>n_txnCommitted := n_txnCommitted n + 1\<rparr>
                         else n\<lparr>n_txnRolledBack := n_txnRolledBack n + 1\<rparr>)
      | (Some (ErrTxnAlreadyDecided p r), b') \<Rightarrow>
          (noResult\<lparr>tx_Rejected := True\<rparr>, b', n\<lparr>n_txnRaceLost := n_txnRaceLost n + 1\<rparr>)
      | (Some err, b') \<Rightarrow> (noResult\<lparr>tx_Rejected := True\<rparr>, b', n\<lparr>n_txnRefused := n_txnRefused n + 1\<rparr>))"

definition apply_effect :: "DB \<Rightarrow> Batch \<Rightarrow> TxnCommand \<Rightarrow> Replica \<Rightarrow> Batch \<times> Replica" where
  "apply_effect db b c n = (case applyTxnTo db (n_mvcc n) b c (n_desc n) of (b', s) \<Rightarrow> (b', n\<lparr>n_mvcc := s\<rparr>))"

definition apply_resolve :: "DB \<Rightarrow> Batch \<Rightarrow> TxnCommand \<Rightarrow> Replica \<Rightarrow> TxnResult \<times> Batch \<times> Replica" where
  "apply_resolve db b c n =
     (case (case store_Txn db (x_Key c) (x_StartTS c) (n_mvcc n) of
              Some rec \<Rightarrow>
                (noResult\<lparr>tx_Decided := True, tx_Rollback := t_Status rec \<noteq> TxnCommitted, tx_CommitTS := t_CommitTS rec\<rparr>,
                 b, n\<lparr>n_resolveAlreadyDecided := n_resolveAlreadyDecided n + 1\<rparr>)
            | None \<Rightarrow>
                if LessEq (x_ExpireAt c) (x_Deadline c)
                then (noResult, b, n\<lparr>n_resolveWaits := n_resolveWaits n + 1\<rparr>)
                else (case declareDead db b (x_Key c) (x_StartTS c) n of (b1, n1) \<Rightarrow>
                        (noResult\<lparr>tx_Decided := True, tx_Rollback := True\<rparr>, b1,
                         n1\<lparr>n_resolveDeclaredDead := n_resolveDeclaredDead n1 + 1\<rparr>))) of
        (res, b1, n1) \<Rightarrow> (res, apply_effect db b1 c n1))"

definition applyTxn :: "DB \<Rightarrow> Batch \<Rightarrow> TxnCommand \<Rightarrow> Replica \<Rightarrow> TxnResult \<times> Batch \<times> Replica" where
  "applyTxn db b c n =
     (if x_Op c = OpPrewrite then apply_prewrite db b c n
      else if x_Op c = OpPutTxnRecord then apply_putTxn db b c n
      else if x_Op c = OpResolveStatus then apply_resolve db b c n
      else if x_Op c = OpApplyResolution then
        (case apply_effect db b c n of (b', n') \<Rightarrow>
           (noResult, b',
            if rollForwards (n_mvcc n') + rollBacks (n_mvcc n') = rollForwards (n_mvcc n) + rollBacks (n_mvcc n)
            then n'\<lparr>n_resolveNoLock := n_resolveNoLock n' + 1\<rparr> else n'))
      else (noResult, apply_effect db b c n))"

section \<open>Answers\<close>

definition read_record :: "Entry \<Rightarrow> bytes \<Rightarrow> timestamp \<Rightarrow> instant \<Rightarrow> kv_error + bytes option \<Rightarrow> Replica \<Rightarrow> Node \<Rightarrow> ReadRecord" where
  "read_record e key readTS at r n m =
     \<lparr>rr_Range = n_rng n, rr_Node = nc_Ordinal (nd_cfg m), rr_Index = e_Index e, rr_Key = key, rr_At = readTS,
      rr_Value = (case r of Inr (Some v) \<Rightarrow> v | _ \<Rightarrow> []),
      rr_Found = (case r of Inr (Some v) \<Rightarrow> True | _ \<Rightarrow> False), rr_Refused = isl r,
      rr_AppliedAt = 0, rr_IssuedAt = 0, rr_OffLog = False, rr_When = at\<rparr>"

definition history_end :: "int \<Rightarrow> instant \<Rightarrow> ResponseKind \<Rightarrow> bytes \<Rightarrow> Node \<Rightarrow> Node" where
  "history_end idx at kind val m = (if idx \<ge> 0 then emit (History_End idx at kind val) m else m)"

definition answer_op :: "Entry \<Rightarrow> bytes \<Rightarrow> bytes \<Rightarrow> timestamp \<Rightarrow> instant \<Rightarrow> Replica \<times> Node \<Rightarrow> clientOp \<Rightarrow> Replica \<times> Node" where
  "answer_op e op key readTS at st c =
     (case st of (n, m) \<Rightarrow>
        if op = opGet then
          (case ReadAt (node_db m) key readTS (n_mvcc n) of (r, s) \<Rightarrow>
             let n1 = n\<lparr>n_mvcc := s\<rparr>; m1 = witness (RecordRead (read_record e key readTS at r n m)) m
             in (case r of
                   Inl err \<Rightarrow> (n1\<lparr>n_readsRefused := n_readsRefused n1 + 1\<rparr>, history_end (co_histIdx c) at RespError [] m1)
                 | Inr v \<Rightarrow> (n1, history_end (co_histIdx c) at RespOK (case v of Some x \<Rightarrow> x | None \<Rightarrow> []) m1)))
        else (let m1 = history_end (co_histIdx c) at RespOK [] m
              in (n, if op = opPut
                     then witness (RecordWrite \<lparr>wr_Range = n_rng n, wr_Node = nc_Ordinal (nd_cfg m),
                            wr_Index = e_Index e, wr_Key = key, wr_AckedAt = at\<rparr>) m1
                     else m1)))"

definition answerAt :: "Entry \<Rightarrow> bytes \<Rightarrow> bytes \<Rightarrow> timestamp \<Rightarrow> instant \<Rightarrow> Replica \<Rightarrow> Node \<Rightarrow> Replica \<times> Node" where
  "answerAt e op key readTS at n m =
     (if pid_Zero (e_ID e) then (n, m)
      else (case foldl (answer_op e op key readTS at) (n, m) (filter (\<lambda>c. co_id c = e_ID e) (n_inflight n)) of
              (n', m') \<Rightarrow> (n'\<lparr>n_inflight := filter (\<lambda>c. co_id c \<noteq> e_ID e) (n_inflight n)\<rparr>, m')))"

definition txn_result :: "timestamp \<Rightarrow> kv_error + bytes option \<Rightarrow> TxnResult" where
  "txn_result ceiling r =
     (let res = noResult\<lparr>tx_Ceiling := ceiling\<rparr>
      in (case r of
            Inr None \<Rightarrow> res
          | Inr (Some v) \<Rightarrow> res\<lparr>tx_Value := v, tx_Found := True\<rparr>
          | Inl (LockedError k l) \<Rightarrow> res\<lparr>tx_Locked := True, tx_LockPrimary := l_Primary l,
              tx_LockStartTS := l_StartTS l, tx_LockDeadline := l_Deadline l\<rparr>
          | Inl (UncertaintyError k t c) \<Rightarrow> res\<lparr>tx_Uncertain := True, tx_CommitTS := c, tx_RestartAt := RestartAt c\<rparr>
          | Inl err \<Rightarrow> res\<lparr>tx_Refused := True\<rparr>))"

definition readTxn :: "TxnCommand \<Rightarrow> Entry \<Rightarrow> instant \<Rightarrow> Replica \<Rightarrow> Node \<Rightarrow> TxnResult \<times> Replica \<times> Node" where
  "readTxn c e at n m =
     (let ceiling = (if IsSet (x_MaxTS c) then x_MaxTS c else UncertaintyCeiling (x_ReadTS c) (nc_MaxOffset (nd_cfg m)))
      in (case GetTxn (node_db m) (x_Key c) (x_ReadTS c) ceiling (n_mvcc n) of (r, s) \<Rightarrow>
            let res = txn_result ceiling r; n1 = n\<lparr>n_mvcc := s\<rparr>;
                n2 = (if tx_Refused res then n1\<lparr>n_readsRefused := n_readsRefused n1 + 1\<rparr> else n1)
            in (res, n2,
                witness (RecordTxnRead \<lparr>tr_Range = n_rng n, tr_Node = nc_Ordinal (nd_cfg m), tr_Index = e_Index e,
                  tr_Key = x_Key c, tr_At = x_ReadTS c, tr_StartTS = x_StartTS c, tr_Value = tx_Value res,
                  tr_Found = tx_Found res, tr_Locked = tx_Locked res, tr_LockPrimary = tx_LockPrimary res,
                  tr_LockStartTS = tx_LockStartTS res, tr_Uncertain = tx_Uncertain res, tr_CommitTS = tx_CommitTS res,
                  tr_RestartAt = tx_RestartAt res, tr_Ceiling = ceiling, tr_Refused = tx_Refused res, tr_When = at\<rparr>) m)))"

definition answerTxn :: "Entry \<Rightarrow> TxnCommand \<Rightarrow> TxnResult \<Rightarrow> instant \<Rightarrow> Replica \<Rightarrow> Node \<Rightarrow> Replica \<times> Node" where
  "answerTxn e c res at n m =
     (if pid_Zero (e_ID e) \<or> \<not> nc_OnTxnApplied (nd_cfg m) then (n, m)
      else (let n1 = n\<lparr>n_inflight := filter (\<lambda>p. co_id p \<noteq> e_ID e) (n_inflight n)\<rparr>
            in if \<not> list_ex (\<lambda>p. co_id p = e_ID e) (n_inflight n) then (n1, m)
               else (case (if x_Op c = OpTxnGet then readTxn c e at n1 m else (res, n1, m)) of
                       (res', n2, m2) \<Rightarrow> (n2, emit (OnTxnApplied c res' at) m2))))"

definition reissue :: "bytes \<Rightarrow> bytes \<Rightarrow> bytes \<Rightarrow> clientOp \<Rightarrow> Request" where
  "reissue op key val c =
     \<lparr>rq_Client = 0, rq_Seq = 0, rq_Op = op, rq_Key = key, rq_Value = val, rq_HistIdx = co_histIdx c,
      rq_AnyReplica = False, rq_ReadTS = co_readTS c, rq_Txn = None, rq_Range = 0, rq_Epoch = 0\<rparr>"

definition rerouteAt :: "Entry \<Rightarrow> bytes \<Rightarrow> bytes \<Rightarrow> bytes \<Rightarrow> instant \<Rightarrow> Replica \<Rightarrow> Node \<Rightarrow> Replica \<times> Node" where
  "rerouteAt e op key val at n m =
     (let n1 = n\<lparr>n_outOfExtent := n_outOfExtent n + 1\<rparr>
      in if pid_Zero (e_ID e) then (n1, m)
         else (n1\<lparr>n_inflight := filter (\<lambda>c. co_id c \<noteq> e_ID e) (n_inflight n)\<rparr>,
               foldl (\<lambda>m c. emit (At_Client (at + staleRetryDelay) (nc_Ordinal (nd_cfg m)) (reissue op key val c)) m) m
                 (filter (\<lambda>c. co_id c = e_ID e) (n_inflight n))))"

section \<open>Splitting\<close>

definition reNamespace :: "bytes \<Rightarrow> bytes \<Rightarrow> Record \<Rightarrow> Record" where
  "reNamespace from to r =
     (if length (fst r) < length from then r else (to @ drop (length from) (fst r), snd r))"

fun partition_records :: "SplitSpec \<Rightarrow> Store \<Rightarrow> Record list \<Rightarrow> (Record list \<times> Record list) option" where
  "partition_records spec s [] = Some ([], [])"
| "partition_records spec s (rec # rs) =
     (case UserKeyOf s (fst rec) of
        None \<Rightarrow> partition_records spec s rs
      | Some key \<Rightarrow>
          if desc_Contains (sp_Right spec) key
          then map_option (\<lambda>(ls, vs). (ls, reNamespace (st_ns s) (rangePrefix (d_ID (sp_Right spec))) rec # vs))
                 (partition_records spec s rs)
          else if desc_Contains (sp_Left spec) key
          then map_option (\<lambda>(ls, vs). (rec # ls, vs)) (partition_records spec s rs)
          else None)"

definition adoptSnapshot :: "SnapshotMeta \<Rightarrow> Record list \<Rightarrow> timestamp \<Rightarrow> Replica \<Rightarrow> Node \<Rightarrow> (Replica \<times> Node) option" where
  "adoptSnapshot meta vs mark n m =
     (case Restore (raft_cfg (nd_cfg m)) zeroHS meta [] of
        Inl err \<Rightarrow> None
      | Inr r \<Rightarrow> do {
          (n1, m1) \<leftarrow> ingest vs mark (n\<lparr>n_raft := r\<rparr>) m;
          let n2 = (if sm_Index meta > n_applied n1 then n1\<lparr>n_applied := sm_Index meta\<rparr> else n1);
          Some (jitter (n2\<lparr>n_durSnap := meta\<rparr>) m1) })"

definition meta_snapshot :: "SnapshotMeta \<Rightarrow> bytes \<Rightarrow> Snapshot" where
  "meta_snapshot meta data = \<lparr>s_Index = sm_Index meta, s_Term = sm_Term meta, s_Data = data, s_Conf = sm_Conf meta\<rparr>"

definition birth_batch :: "RangeDescriptor \<Rightarrow> SnapshotMeta \<Rightarrow> bytes \<Rightarrow> Batch" where
  "birth_batch d meta data =
     Set (Set NewBatch (keyDescOf (d_ID d)) (encodeDesc d)) (keySnapshotOf (d_ID d)) (encodeSnapshot (meta_snapshot meta data))"

definition bear_right :: "Replica \<Rightarrow> SplitSpec \<Rightarrow> Record list \<Rightarrow> timestamp \<Rightarrow> nat \<Rightarrow> instant \<Rightarrow> Node \<Rightarrow> Node option" where
  "bear_right left spec rightVs mark index at m =
     (case newReplicaFor (sp_Right spec) m of
        (Inl err, m1) \<Rightarrow> None
      | (Inr r, m1) \<Rightarrow> do {
          (r1, m2) \<leftarrow> ingest rightVs mark r m1;
          cr \<leftarrow> ConfigurationAt (n_raft left) index;
          (case cr of
             Inl err \<Rightarrow> None
           | Inr conf \<Rightarrow> do {
               let meta = \<lparr>sm_Index = 0, sm_Term = 0, sm_Conf = conf\<rparr>;
               let data = encodeMachine (sp_Right spec) mark rightVs;
               let (r2, m3) = (case replica_apply (birth_batch (sp_Right spec) meta data) True m2 of
                    (Inl err, m3) \<Rightarrow> (r1, m3)
                  | (Inr sq, m3) \<Rightarrow> (r1\<lparr>n_durSnap := meta\<rparr>, at_durable at sq m3));
               let m4 = witness (RecordRangeBase (d_ID (sp_Right spec)) data (EncodeConfiguration conf)) m3;
               (r3, m5) \<leftarrow> adoptSnapshot meta rightVs mark r2 m4;
               Some ((addReplica r3 m5)\<lparr>nd_splits := nd_splits m5 + 1\<rparr>) }) })"

definition applySplit :: "SplitSpec \<Rightarrow> nat \<Rightarrow> instant \<Rightarrow> Replica \<Rightarrow> Node \<Rightarrow> (Replica \<times> Node) option" where
  "applySplit spec index at left m =
     (if \<not> split_matches spec (n_desc left) then Some (left\<lparr>n_staleSplits := n_staleSplits left + 1\<rparr>, m)
      else do {
        (leftKept, rightVs) \<leftarrow> partition_records spec (n_mvcc left) (machine_versions left m);
        let mark = gcMark (n_mvcc left);
        (l1, m1) \<leftarrow> ingest leftKept mark left m;
        let l2 = l1\<lparr>n_desc := desc_Clone (sp_Left spec)\<rparr>;
        if replicaOf (d_ID (sp_Right spec)) m1 \<noteq> None then Some (l2, m1)
        else do {
          m2 \<leftarrow> bear_right l2 spec rightVs mark index at m1;
          Some (l2, m2) } })"

section \<open>Applying one entry\<close>

text \<open>
  The end of a loop iteration: an owned entry answers its client at its position, one outside the
  extent sends its client back.
\<close>

definition settle_entry :: "instant \<Rightarrow> Entry \<Rightarrow> bool \<Rightarrow> bytes \<Rightarrow> bytes \<Rightarrow> bytes \<Rightarrow> timestamp \<Rightarrow>
    Replica \<times> Batch \<times> Node \<Rightarrow> (Replica \<times> Batch \<times> Node) option" where
  "settle_entry at e owned op k v cmdTS st =
     (case st of (n, mb, m) \<Rightarrow>
        if owned then do {
          (mb1, m1) \<leftarrow> (if op = opGet then flushApply mb m else Some (mb, m));
          let (n1, m2) = answerAt e op k cmdTS at n m1;
          Some (if length (e_Data e) = 0 \<and> pid_Zero (e_ID e) \<and> length (n_inflight n1) \<noteq> length (n_inflight n)
                then n1\<lparr>n_noopAnswered := n_noopAnswered n1 + 1\<rparr> else n1, mb1, m2) }
        else (case rerouteAt e op k v at n m of (n1, m1) \<Rightarrow> Some (n1, mb, m1)))"

definition arm_count :: "Entry \<Rightarrow> Replica \<Rightarrow> Replica" where
  "arm_count e n = (if length (e_Data e) = 0 \<and> pid_Zero (e_ID e) then n\<lparr>n_noopReachedArm := n_noopReachedArm n + 1\<rparr> else n)"

definition apply_txn_entry :: "instant \<Rightarrow> Entry \<Rightarrow> Replica \<times> Batch \<times> Node \<Rightarrow> (Replica \<times> Batch \<times> Node) option" where
  "apply_txn_entry at e st =
     (case st of (n, mb, m) \<Rightarrow>
        (case decodeTxnCommand (e_Data e) of
           None \<Rightarrow> settle_entry at e True [] [] [] zeroTS (n, mb, m)
         | Some c \<Rightarrow>
             if desc_Contains (n_desc n) (x_Key c) then do {
               (mb1, m1) \<leftarrow> flushApply mb m;
               let (res, mb2, n1) = applyTxn (node_db m1) mb1 c n;
               (mb3, m2) \<leftarrow> flushApply mb2 m1;
               let (n2, m3) = answerTxn e c res at n1 m2;
               settle_entry at e True opTxn (x_Key c) [] zeroTS (n2, mb3, m3) }
             else settle_entry at e False opTxn (x_Key c) [] zeroTS (n, mb, m)))"

definition apply_split_entry :: "instant \<Rightarrow> Entry \<Rightarrow> Replica \<times> Batch \<times> Node \<Rightarrow> (Replica \<times> Batch \<times> Node) option" where
  "apply_split_entry at e st =
     (case st of (n, mb, m) \<Rightarrow> do {
        (mb1, m1) \<leftarrow> flushApply mb m;
        (case decodeSplitCommand (e_Data e) of
           None \<Rightarrow> settle_entry at e True [] [] [] zeroTS (n, mb1, m1)
         | Some spec \<Rightarrow> do {
             (n1, m2) \<leftarrow> applySplit spec (e_Index e) at n m1;
             settle_entry at e True [] [] [] zeroTS (n1\<lparr>n_splitPending := False\<rparr>, mb1, m2) }) })"

definition apply_gc_entry :: "instant \<Rightarrow> Entry \<Rightarrow> timestamp \<Rightarrow> Replica \<times> Batch \<times> Node \<Rightarrow> (Replica \<times> Batch \<times> Node) option" where
  "apply_gc_entry at e cmdTS st =
     (case st of (n, mb, m) \<Rightarrow> do {
        (mb1, m1) \<leftarrow> flushApply mb m;
        let n0 = n\<lparr>n_gcPending := False\<rparr>;
        (n1, m2) \<leftarrow> (case AdvanceGCInto (node_db m1) NewBatch cmdTS (n_mvcc n0) of
            (Inl err, b, s) \<Rightarrow> Some (n0\<lparr>n_mvcc := s\<rparr>, m1)
          | (Inr removed, b, s) \<Rightarrow> do {
              (b1, m2) \<leftarrow> flushApply b m1;
              Some (n0\<lparr>n_mvcc := s, n_gcApplied := n_gcApplied n0 + 1,
                       n_versionsCollected := n_versionsCollected n0 + removed\<rparr>, m2) });
        let (n2, m3) = answerAt e [] [] cmdTS at n1 m2;
        Some (n2, mb1, m3) })"

definition apply_cmd_entry :: "instant \<Rightarrow> Entry \<Rightarrow> Replica \<times> Batch \<times> Node \<Rightarrow> (Replica \<times> Batch \<times> Node) option" where
  "apply_cmd_entry at e st =
     (case st of (n, mb, m) \<Rightarrow>
        (case decodeCmd (e_Data e) of (op, k, v, cmdTS) \<Rightarrow>
           if op = opGC then apply_gc_entry at e cmdTS (n, mb, m)
           else if desc_Contains (n_desc n) k \<and> op = opPut then
             (case PutInto mb k cmdTS v (n_mvcc n) of
                (None, mb1, s) \<Rightarrow> settle_entry at e True op k v cmdTS (n\<lparr>n_mvcc := s\<rparr>, mb1, m)
              | (Some err, mb1, s) \<Rightarrow>
                  settle_entry at e False op k v cmdTS
                    (n\<lparr>n_mvcc := s, n_writesRefused := n_writesRefused n + 1\<rparr>, mb1, m))
           else settle_entry at e (desc_Contains (n_desc n) k) op k v cmdTS (n, mb, m)))"

definition apply_entry :: "instant \<Rightarrow> Entry \<Rightarrow> Replica \<times> Batch \<times> Node \<Rightarrow> (Replica \<times> Batch \<times> Node) option" where
  "apply_entry at e st =
     (case st of (n0, mb, m) \<Rightarrow>
        let n = (if length (e_Data e) = 0 \<and> pid_Zero (e_ID e) then n0\<lparr>n_noopsApplied := n_noopsApplied n0 + 1\<rparr> else n0)
        in if isTxnCommand (e_Data e) then apply_txn_entry at e (arm_count e n, mb, m)
           else if isSplitCommand (e_Data e) then apply_split_entry at e (arm_count e n, mb, m)
           else if length (e_Data e) > 0 then apply_cmd_entry at e (arm_count e n, mb, m)
           else settle_entry at e True [] [] [] zeroTS (n, mb, m))"

fun apply_entries :: "instant \<Rightarrow> Entry list \<Rightarrow> Replica \<times> Batch \<times> Node \<Rightarrow> (Replica \<times> Batch \<times> Node) option" where
  "apply_entries at [] st = Some st"
| "apply_entries at (e # es) st = do { st' \<leftarrow> apply_entry at e st; apply_entries at es st' }"

section \<open>What a leader proposes\<close>

definition propose :: "bytes \<Rightarrow> Replica \<Rightarrow> NodeConfig \<Rightarrow> (bool \<times> ProposalID \<times> Replica) option" where
  "propose data n c = do {
     let sq = n_propSeq n + 1;
     let pid = \<lparr>pid_Node = nc_ID c, pid_Seq = sq\<rparr>;
     (err, r) \<leftarrow> Propose pid data (n_raft n);
     Some (err = None, pid, n\<lparr>n_propSeq := sq, n_raft := r\<rparr>) }"

definition quarter :: "duration \<Rightarrow> duration" where
  "quarter d = (if 0 \<le> sint d then word_of_int (sint d div 4) else word_of_int (- ((- sint d) div 4)))"

definition maybeGC :: "Replica \<Rightarrow> Node \<Rightarrow> (Replica \<times> Node) option" where
  "maybeGC n m =
     (let c = nd_cfg m
      in if nc_GCRetention c = 0 \<or> n_gcPending n \<or> \<not> IsLeader n then Some (n, m)
         else (case hlc_Now n m of (now, n1, m1) \<Rightarrow>
           let to = Timestamp (Wall_Add (Wall now) (- nc_GCRetention c)) 0
           in if \<not> IsSet to then Some (n1, m1)
              else if \<not> nc_GCUnthrottled c \<and>
                \<not> sint (Wall_Add (Wall (gcMark (n_mvcc n1))) (quarter (nc_GCRetention c))) < sint (Wall to)
              then Some (n1, m1)
              else do {
                (ok, pid, n2) \<leftarrow> propose (encodeCmd opGC [] [] to) n1 c;
                Some (if ok then n2\<lparr>n_gcProposed := n_gcProposed n2 + 1, n_gcPending := True\<rparr> else n2, m1) }))"

definition clone_bound :: "bytes option \<Rightarrow> bytes option" where
  "clone_bound x = (case x of None \<Rightarrow> None | Some e \<Rightarrow> if e = [] then None else Some e)"

definition split_spec :: "RangeDescriptor \<Rightarrow> bytes \<Rightarrow> RangeID \<Rightarrow> SplitSpec" where
  "split_spec d key i =
     \<lparr>sp_Key = key,
      sp_Left = (desc_Clone d)\<lparr>d_End := clone_bound (Some key), d_Epoch := d_Epoch d + 1\<rparr>,
      sp_Right = \<lparr>d_ID = i, d_Start = key, d_End = clone_bound (d_End d), d_Epoch = 1\<rparr>\<rparr>"

definition maybeSplit :: "Replica \<Rightarrow> Node \<Rightarrow> (Replica \<times> Node) option" where
  "maybeSplit n m =
     (let c = nd_cfg m; keys = Keys (node_db m) (n_mvcc n)
      in if nc_SplitThreshold c = 0 \<or> n_splitPending n \<or> \<not> IsLeader n then Some (n, m)
         else if length keys < nc_SplitThreshold c then Some (n, m)
         else (case splitKeyFor keys of
                 None \<Rightarrow> Some (n, m)
               | Some key \<Rightarrow>
                   (case nextRangeID m of (i, m1) \<Rightarrow> do {
                      (ok, pid, n1) \<leftarrow> propose (encodeSplitCommand (split_spec (n_desc n) key i)) n c;
                      Some (if ok then n1\<lparr>n_splitPending := True, n_splitsProposed := n_splitsProposed n1 + 1\<rparr> else n1, m1) })))"

definition digest :: "bytes \<Rightarrow> u64" where
  "digest b = foldl (\<lambda>h c. (h XOR ucast c) * 1099511628211) 14695981039346656037 b"

definition StateDigest :: "RangeDescriptor \<Rightarrow> timestamp \<Rightarrow> Record list \<Rightarrow> u64" where
  "StateDigest desc mark rs = digest (encodeMachine desc mark rs)"

definition compaction_batch :: "RangeID \<Rightarrow> SnapshotMeta \<Rightarrow> bytes \<Rightarrow> Batch" where
  "compaction_batch i meta data =
     DeleteRange (Set NewBatch (keySnapshotOf i) (encodeSnapshot (meta_snapshot meta data)))
       (Some (logPrefixOf i)) (Some (logKeyOf i (sm_Index meta + 1)))"

definition maybeSnapshot :: "instant \<Rightarrow> Replica \<Rightarrow> Node \<Rightarrow> (Replica \<times> Node) option" where
  "maybeSnapshot at n m =
     (let applied = r_appliedIdx (n_raft n)
      in if nc_SnapshotThreshold (nd_cfg m) = 0 then Some (n, m)
         else if applied < r_snapIndex (n_raft n) + nc_SnapshotThreshold (nd_cfg m) then Some (n, m)
         else do {
           (res, r) \<leftarrow> Compact applied (n_raft n);
           (case res of
              Inl err \<Rightarrow> Some (n\<lparr>n_raft := r\<rparr>, m)
            | Inr (term, conf) \<Rightarrow>
                let n1 = n\<lparr>n_raft := r\<rparr>;
                    meta = \<lparr>sm_Index = applied, sm_Term = term, sm_Conf = conf\<rparr>;
                    data = encodeMachine (n_desc n) (gcMark (n_mvcc n)) (machine_versions n m)
                in (case replica_apply (compaction_batch (n_rng n) meta data) True m of
                      (Inl err, m1) \<Rightarrow> Some (n1, m1)
                    | (Inr sq, m1) \<Rightarrow>
                        Some (n1\<lparr>n_pending := n_pending n1 @ [noWrite\<lparr>pw_seq := sq, pw_snap := Some meta, pw_clearBelow := applied\<rparr>],
                                 n_snapshotsTaken := n_snapshotsTaken n1 + 1\<rparr>,
                              witness (RecordSnapshot (n_rng n) (nc_Ordinal (nd_cfg m))
                                \<lparr>sn_Index = applied, sn_Term = term, sn_Digest = digest data, sn_Taken = True\<rparr> at)
                                (at_durable at sq m1)))) })"

end
