(* ===== verification/Frames.thy ===== *)
theory Frames
  imports Wire Hlc
begin

text \<open>
  The frames that cross a wire: the envelope codec of \<^verbatim>\<open>sim/codec.go\<close>, reading and writing frames
  on a byte stream (\<^verbatim>\<open>net/frame.go\<close>), the client protocol of \<^verbatim>\<open>net/clientwire.go\<close> and the range
  header a machine puts before a message (\<^verbatim>\<open>store/machine.go\<close>).  A stream is the list of bytes it
  still holds.
\<close>

section \<open>Envelopes (sim/codec.go)\<close>

record Envelope =
  ev_From :: u32
  ev_To :: u32
  ev_RangeID :: u64
  ev_Kind :: "16 word"
  ev_Body :: bytes

datatype frame_error =
    ErrShortFrame | ErrWireVersion byte | ErrBodyTooLarge nat | ErrTrailingData nat
  | ErrFrameTooLarge nat | StreamEOF | StreamUnexpectedEOF

definition wireVersion :: byte where "wireVersion = 1"
definition maxBodyBytes :: nat where "maxBodyBytes = 2 ^ 24"
definition frameHeaderBytes :: nat where "frameHeaderBytes = 1 + 4 + 4 + 8 + 2 + 4"

definition Encode :: "Envelope \<Rightarrow> frame_error + bytes" where
  "Encode e =
     (if length (ev_Body e) > maxBodyBytes then Inl (ErrBodyTooLarge (length (ev_Body e)))
      else Inr (wireVersion # be_bytes 4 (ev_From e) @ be_bytes 4 (ev_To e) @ be_bytes 8 (ev_RangeID e) @
                be_bytes 2 (ev_Kind e) @ be_bytes 4 (of_nat (length (ev_Body e)) :: u32) @ ev_Body e))"

definition body_length :: "bytes \<Rightarrow> nat" where
  "body_length buf = unat (be_val (take 4 (drop 19 buf)) :: u32)"

definition Decode :: "bytes \<Rightarrow> frame_error + Envelope" where
  "Decode buf =
     (if length buf < frameHeaderBytes then Inl ErrShortFrame
      else if hd buf \<noteq> wireVersion then Inl (ErrWireVersion (hd buf))
      else if body_length buf > maxBodyBytes then Inl (ErrBodyTooLarge (body_length buf))
      else if length buf < frameHeaderBytes + body_length buf then Inl ErrShortFrame
      else if length buf > frameHeaderBytes + body_length buf
      then Inl (ErrTrailingData (length buf - frameHeaderBytes - body_length buf))
      else Inr \<lparr>ev_From = be_val (take 4 (drop 1 buf)), ev_To = be_val (take 4 (drop 5 buf)),
                ev_RangeID = be_val (take 8 (drop 9 buf)), ev_Kind = be_val (take 2 (drop 17 buf)),
                ev_Body = drop frameHeaderBytes buf\<rparr>)"

section \<open>Frames on a stream (net/frame.go)\<close>

definition netMaxBodyBytes :: nat where "netMaxBodyBytes = 2 ^ 22"

text \<open>\<^verbatim>\<open>io.ReadFull\<close>: the bytes asked for, or the error for a stream that ends before or within them.\<close>

definition ReadFull :: "nat \<Rightarrow> bytes \<Rightarrow> frame_error + bytes \<times> bytes" where
  "ReadFull n s =
     (if length s < n then Inl (if length s = 0 then StreamEOF else StreamUnexpectedEOF)
      else Inr (take n s, drop n s))"

definition ReadFrame :: "bytes \<Rightarrow> frame_error + Envelope \<times> bytes" where
  "ReadFrame s =
     (case ReadFull frameHeaderBytes s of
        Inl err \<Rightarrow> Inl err
      | Inr (head, s1) \<Rightarrow>
          if body_length head > netMaxBodyBytes then Inl (ErrFrameTooLarge (body_length head))
          else (case (if body_length head > 0 then ReadFull (body_length head) s1 else Inr ([], s1)) of
                  Inl err \<Rightarrow> Inl err
                | Inr (body, s2) \<Rightarrow>
                    (case Decode (head @ body) of Inl err \<Rightarrow> Inl err | Inr e \<Rightarrow> Inr (e, s2))))"

definition WriteFrame :: "Envelope \<Rightarrow> bytes \<Rightarrow> frame_error + bytes" where
  "WriteFrame e s = (case Encode e of Inl err \<Rightarrow> Inl err | Inr buf \<Rightarrow> Inr (s @ buf))"

section \<open>The client protocol (net/clientwire.go)\<close>

definition KindRequest :: "16 word" where "KindRequest = 40"
definition KindResponse :: "16 word" where "KindResponse = 41"
definition OpGet :: byte where "OpGet = 1"
definition OpPut :: byte where "OpPut = 2"
definition StatusOK :: byte where "StatusOK = 1"
definition StatusNotFound :: byte where "StatusNotFound = 2"
definition StatusError :: byte where "StatusError = 3"
definition maxFieldBytes :: nat where "maxFieldBytes = 2 ^ 20"

datatype client_error =
    ErrShortRequest | ErrShortResponse | ErrBadOp byte | ErrBadStatus byte | ErrTrailing nat | ErrFieldTooLarge

record ClientRequest =
  cl_Op :: byte
  cl_Seq :: u64
  cl_Key :: bytes
  cl_Value :: bytes

record ClientResponse =
  cp_Seq :: u64
  cp_Status :: byte
  cp_Value :: bytes

definition EncodeRequest :: "ClientRequest \<Rightarrow> client_error + bytes" where
  "EncodeRequest r =
     (if cl_Op r \<noteq> OpGet \<and> cl_Op r \<noteq> OpPut then Inl (ErrBadOp (cl_Op r))
      else if length (cl_Key r) > maxFieldBytes \<or> length (cl_Value r) > maxFieldBytes then Inl ErrFieldTooLarge
      else Inr (cl_Op r # be_bytes 8 (cl_Seq r) @ be_bytes 4 (of_nat (length (cl_Key r)) :: u32) @ cl_Key r @
                be_bytes 4 (of_nat (length (cl_Value r)) :: u32) @ cl_Value r))"

definition length_at :: "nat \<Rightarrow> bytes \<Rightarrow> nat" where
  "length_at off b = unat (be_val (take 4 (drop off b)) :: u32)"

definition DecodeRequest :: "bytes \<Rightarrow> client_error + ClientRequest" where
  "DecodeRequest b =
     (if length b < 17 then Inl ErrShortRequest
      else if hd b \<noteq> OpGet \<and> hd b \<noteq> OpPut then Inl (ErrBadOp (hd b))
      else (let kl = length_at 9 b
            in if kl > maxFieldBytes then Inl ErrFieldTooLarge
               else if length b < 13 + kl + 4 then Inl ErrShortRequest
               else (let vl = length_at (13 + kl) b; off = 13 + kl + 4
                     in if vl > maxFieldBytes then Inl ErrFieldTooLarge
                        else if length b < off + vl then Inl ErrShortRequest
                        else if length b > off + vl then Inl (ErrTrailing (length b - off - vl))
                        else Inr \<lparr>cl_Op = hd b, cl_Seq = be_val (take 8 (drop 1 b)), cl_Key = take kl (drop 13 b),
                                  cl_Value = take vl (drop off b)\<rparr>)))"

definition EncodeResponse :: "ClientResponse \<Rightarrow> client_error + bytes" where
  "EncodeResponse r =
     (if cp_Status r \<noteq> StatusOK \<and> cp_Status r \<noteq> StatusNotFound \<and> cp_Status r \<noteq> StatusError
      then Inl (ErrBadStatus (cp_Status r))
      else if length (cp_Value r) > maxFieldBytes then Inl ErrFieldTooLarge
      else Inr (be_bytes 8 (cp_Seq r) @ [cp_Status r] @ be_bytes 4 (of_nat (length (cp_Value r)) :: u32) @ cp_Value r))"

definition DecodeResponse :: "bytes \<Rightarrow> client_error + ClientResponse" where
  "DecodeResponse b =
     (if length b < 13 then Inl ErrShortResponse
      else if b ! 8 \<noteq> StatusOK \<and> b ! 8 \<noteq> StatusNotFound \<and> b ! 8 \<noteq> StatusError then Inl (ErrBadStatus (b ! 8))
      else (let vl = length_at 9 b
            in if vl > maxFieldBytes then Inl ErrFieldTooLarge
               else if length b < 13 + vl then Inl ErrShortResponse
               else if length b > 13 + vl then Inl (ErrTrailing (length b - 13 - vl))
               else Inr \<lparr>cp_Seq = be_val (take 8 b), cp_Status = b ! 8, cp_Value = take vl (drop 13 b)\<rparr>))"

section \<open>The range header of a message (store/machine.go)\<close>

definition putRange :: "u64 \<Rightarrow> timestamp \<Rightarrow> bytes \<Rightarrow> bytes" where
  "putRange i at body = be_bytes 8 i @ be_bytes 8 (Wall at) @ be_bytes 4 (Logical at) @ body"

definition takeRange :: "bytes \<Rightarrow> (u64 \<times> timestamp \<times> bytes) option" where
  "takeRange b =
     (if length b < 20 then None
      else Some (be_val (take 8 b), Timestamp (be_val (take 8 (drop 8 b))) (be_val (take 4 (drop 16 b))), drop 20 b))"

section \<open>Decoding is the inverse of encoding\<close>

lemma be_val_length:
  assumes "n < 2 ^ 32"
  shows "unat (be_val (be_bytes 4 (of_nat n :: u32)) :: u32) = n"
  using assms by (simp add: be_val_be_bytes unat_of_nat take_bit_nat_eq_self)

lemma be_bytes_field:
  assumes "off + n \<le> length b" "8 * n = LENGTH('a)"
  shows "be_bytes n (be_val (take n (drop off b)) :: 'a::len word) = take n (drop off b)"
  using assms by (intro be_bytes_be_val) simp_all

lemma of_nat_field:
  "off + 4 \<le> length b \<Longrightarrow> be_bytes 4 (of_nat (length_at off b) :: u32) = take 4 (drop off b)"
  by (simp add: length_at_def be_bytes_field)

text \<open>Cutting a string into consecutive fields and gluing them gives it back.\<close>

lemma glue: "take n (drop k b) @ drop (k + n) b = drop k b"
  by (metis append_take_drop_id drop_drop add.commute)

lemma hd_glue: "b \<noteq> [] \<Longrightarrow> hd b # drop 1 b = b"
  by (cases b) simp_all

lemma takeRange_putRange: "takeRange (putRange i at body) = Some (i, at, body)"
  by (cases at) (simp add: takeRange_def putRange_def be_val_be_bytes)

lemma body_length_at: "body_length = length_at 19"
  by (simp add: fun_eq_iff body_length_def length_at_def)

lemma frame_fields:
  assumes "length a = 4" "length b = 4" "length c = 8" "length d = 2" "length n = 4"
    "buf = v # a @ b @ c @ d @ n @ body"
  shows "hd buf = v" "take 4 (drop 1 buf) = a" "take 4 (drop 5 buf) = b" "take 8 (drop 9 buf) = c"
    "take 2 (drop 17 buf) = d" "take 4 (drop 19 buf) = n" "drop 23 buf = body" "length buf = 23 + length body"
  using assms by (simp_all add: numeral_eq_Suc)

lemma Decode_Encode:
  assumes "Encode e = Inr buf"
  shows "Decode buf = Inr e"
proof -
  have small: "length (ev_Body e) \<le> maxBodyBytes"
    and buf: "buf = wireVersion # be_bytes 4 (ev_From e) @ be_bytes 4 (ev_To e) @ be_bytes 8 (ev_RangeID e) @
                be_bytes 2 (ev_Kind e) @ be_bytes 4 (of_nat (length (ev_Body e)) :: u32) @ ev_Body e"
    using assms by (simp_all add: Encode_def split: if_splits)
  note f = frame_fields [OF length_be_bytes length_be_bytes length_be_bytes length_be_bytes length_be_bytes buf]
  have "length (ev_Body e) < 2 ^ 32" using small unfolding maxBodyBytes_def by (rule le_less_trans) simp
  then have "body_length buf = length (ev_Body e)" unfolding body_length_def f by (rule be_val_length)
  then show ?thesis
    using small unfolding Decode_def frameHeaderBytes_def by (simp add: f f(2) [simplified] be_val_be_bytes)
qed

lemma Encode_Decode: 
  assumes "Decode buf = Inr e"
  shows "Encode e = Inr buf"
proof -
  let ?n = "length_at 19 buf"
  have b: "length buf = 23 + ?n" "hd buf = wireVersion" "\<not> ?n > maxBodyBytes"
    and e: "e = \<lparr>ev_From = be_val (take 4 (drop 1 buf)), ev_To = be_val (take 4 (drop 5 buf)),
                ev_RangeID = be_val (take 8 (drop 9 buf)), ev_Kind = be_val (take 2 (drop 17 buf)),
                ev_Body = drop 23 buf\<rparr>"
    using assms by (auto simp: Decode_def body_length_at frameHeaderBytes_def split: if_splits)
  have "buf \<noteq> []" using b(1) by auto
  then show ?thesis
    using b e of_nat_field [of 19 buf] be_bytes_field [of 1 4 buf, where ?'a = 32] be_bytes_field [of 5 4 buf, where ?'a = 32]
      be_bytes_field [of 9 8 buf, where ?'a = 64] be_bytes_field [of 17 2 buf, where ?'a = 16]
      glue [of 4 1 buf] glue [of 4 5 buf] glue [of 8 9 buf] glue [of 2 17 buf] glue [of 4 19 buf] hd_glue [of buf]
    by (simp add: Encode_def)
qed

text \<open>C39: The frame codec is exact: a buffer decodes to an envelope precisely when it is that envelope's
  encoding, so decoding after encoding gives the envelope back and no second buffer is accepted for it.\<close>

theorem frame_codec_exact: "Decode buf = Inr e \<longleftrightarrow> Encode e = Inr buf"
  using Decode_Encode Encode_Decode by blast

subsection \<open>Frames one after another\<close>

definition read_frame :: "bytes \<Rightarrow> (Envelope \<times> bytes) option" where
  "read_frame s = (case ReadFrame s of Inl err \<Rightarrow> None | Inr r \<Rightarrow> Some r)"

definition frame_of :: "Envelope \<Rightarrow> bytes" where
  "frame_of e = (case Encode e of Inl err \<Rightarrow> [] | Inr buf \<Rightarrow> buf)"

lemma netMax_le: "netMaxBodyBytes \<le> maxBodyBytes"
  by (simp add: netMaxBodyBytes_def maxBodyBytes_def)

lemma Encode_length: "Encode e = Inr buf \<Longrightarrow> length buf = 23 + length (ev_Body e)"
  by (auto simp: Encode_def split: if_splits)

lemma Encode_body_length:
  assumes "Encode e = Inr buf"
  shows "body_length buf = length (ev_Body e)"
proof -
  from Decode_Encode [OF assms] have "length buf = 23 + body_length buf"
    by (auto simp: Decode_def frameHeaderBytes_def split: if_splits)
  with Encode_length [OF assms] show ?thesis by simp
qed

lemma ReadFrame_Encode:
  assumes "Encode e = Inr buf"
  shows "ReadFrame (buf @ rest) =
    (if length (ev_Body e) > netMaxBodyBytes then Inl (ErrFrameTooLarge (length (ev_Body e))) else Inr (e, rest))"
proof -
  note len = Encode_length [OF assms]
  have head: "body_length (take 23 buf) = length (ev_Body e)"
    using Encode_body_length [OF assms] by (simp add: body_length_def drop_take)
  have body: "drop 23 buf @ rest = drop 23 (buf @ rest)" "length (drop 23 buf) = length (ev_Body e)" using len by simp_all
  have "take 23 buf @ take (length (ev_Body e)) (drop 23 buf @ rest) = buf" using len by simp
  then show ?thesis
    using len head Decode_Encode [OF assms] by (simp add: ReadFrame_def ReadFull_def frameHeaderBytes_def)
qed

interpretation frame_wire: wire_format frame_of read_frame "\<lambda>e. length (ev_Body e) \<le> netMaxBodyBytes"
proof
  fix e :: Envelope and rest
  assume small: "length (ev_Body e) \<le> netMaxBodyBytes"
  then obtain buf where buf: "Encode e = Inr buf" using netMax_le by (auto simp: Encode_def)
  show "read_frame (frame_of e @ rest) = Some (e, rest)"
    using ReadFrame_Encode [OF buf, of rest] small buf by (simp add: read_frame_def frame_of_def)
qed

text \<open>Frames written one after another on a stream are read back one after another, whatever follows
  them, as long as no body passes the reader's limit.\<close>

theorem frames_on_a_stream:
  fixes es :: "Envelope list"
  assumes "list_all (\<lambda>e. length (ev_Body e) \<le> netMaxBodyBytes) es"
  shows "take_many read_frame (length es) (concat (map frame_of es) @ rest) = Some (es, rest)"
  by (rule frame_wire.take_many_put [OF assms])

theorem frames_on_a_stream_witness:
  "take_many read_frame 1 (frame_of \<lparr>ev_From = 1, ev_To = 2, ev_RangeID = 7, ev_Kind = 1, ev_Body = [3, 4]\<rparr> @ [9]) =
    Some ([\<lparr>ev_From = 1, ev_To = 2, ev_RangeID = 7, ev_Kind = 1, ev_Body = [3, 4]\<rparr>], [9])"
  using frames_on_a_stream [of "[\<lparr>ev_From = 1, ev_To = 2, ev_RangeID = 7, ev_Kind = 1, ev_Body = [3, 4]\<rparr>]" "[9]"]
  by (simp add: netMaxBodyBytes_def)

text \<open>C40: The two ends of a connection disagree about the largest frame: a body above four mebibytes and
  up to sixteen is encoded, written and accepted by the decoder, and refused by the reader.\<close>

theorem reader_refuses_written_frame:
  fixes e :: Envelope
  assumes "netMaxBodyBytes < length (ev_Body e)" "length (ev_Body e) \<le> maxBodyBytes"
  shows "\<exists>buf. WriteFrame e [] = Inr buf \<and> Decode buf = Inr e \<and>
    ReadFrame buf = Inl (ErrFrameTooLarge (length (ev_Body e)))"
proof -
  obtain buf where buf: "Encode e = Inr buf" using assms(2) by (simp add: Encode_def)
  then show ?thesis
    using Decode_Encode [OF buf] ReadFrame_Encode [OF buf, of "[]"] assms(1) by (simp add: WriteFrame_def)
qed

theorem reader_refuses_written_frame_witness:
  "\<exists>e buf. WriteFrame e [] = Inr buf \<and> Decode buf = Inr e \<and> ReadFrame buf = Inl (ErrFrameTooLarge (2 ^ 23))"
proof -
  let ?e = "\<lparr>ev_From = 0, ev_To = 1, ev_RangeID = 0, ev_Kind = 1, ev_Body = replicate (2 ^ 23) 0\<rparr>"
  have "netMaxBodyBytes < length (ev_Body ?e)" "length (ev_Body ?e) \<le> maxBodyBytes"
    by (simp_all add: netMaxBodyBytes_def maxBodyBytes_def)
  from reader_refuses_written_frame [OF this] show ?thesis by auto
qed

subsection \<open>Requests and responses\<close>

lemma field_small: "length v \<le> maxFieldBytes \<Longrightarrow> length v < 2 ^ 32"
  by (simp add: maxFieldBytes_def)

lemma request_fields:
  assumes "length s = 8" "length kn = 4" "length vn = 4" "b = p # s @ kn @ k @ vn @ v"
  shows "hd b = p" "take 8 (drop 1 b) = s" "take 4 (drop 9 b) = kn" "take (length k) (drop 13 b) = k"
    "take 4 (drop (13 + length k) b) = vn" "drop (17 + length k) b = v" "length b = 17 + length k + length v"
  using assms by (simp_all add: numeral_eq_Suc)

lemma DecodeRequest_Encode:
  assumes "EncodeRequest r = Inr b"
  shows "DecodeRequest b = Inr r"
proof -
  have ok: "cl_Op r = OpGet \<or> cl_Op r = OpPut" "length (cl_Key r) \<le> maxFieldBytes" "length (cl_Value r) \<le> maxFieldBytes"
    and b: "b = cl_Op r # be_bytes 8 (cl_Seq r) @ be_bytes 4 (of_nat (length (cl_Key r)) :: u32) @ cl_Key r @
                be_bytes 4 (of_nat (length (cl_Value r)) :: u32) @ cl_Value r"
    using assms by (auto simp: EncodeRequest_def split: if_splits)
  note f = request_fields [OF length_be_bytes length_be_bytes length_be_bytes b]
  have "length_at 9 b = length (cl_Key r)" "length_at (13 + length (cl_Key r)) b = length (cl_Value r)"
    unfolding length_at_def f using ok(2,3) by (simp_all only: be_val_length field_small)
  then show ?thesis
    using ok unfolding DecodeRequest_def by (simp add: f f(2) [simplified] be_val_be_bytes Let_def)
qed

lemma EncodeRequest_Decode:
  assumes "DecodeRequest b = Inr r"
  shows "EncodeRequest r = Inr b"
proof -
  define kl where "kl = length_at 9 b"
  define vl where "vl = length_at (13 + kl) b"
  have b: "length b = 17 + kl + vl" "hd b = OpGet \<or> hd b = OpPut" "kl \<le> maxFieldBytes" "vl \<le> maxFieldBytes"
    and r: "r = \<lparr>cl_Op = hd b, cl_Seq = be_val (take 8 (drop 1 b)), cl_Key = take kl (drop 13 b),
                                  cl_Value = take vl (drop (17 + kl) b)\<rparr>"
    using assms by (auto simp: DecodeRequest_def Let_def kl_def vl_def split: if_splits)
  have "b \<noteq> []" using b(1) by auto
  moreover have "be_bytes 4 (of_nat kl :: u32) = take 4 (drop 9 b)"
    unfolding kl_def using of_nat_field [of 9 b] b(1) by simp
  moreover have "be_bytes 4 (of_nat vl :: u32) = take 4 (drop (13 + kl) b)"
    unfolding vl_def using of_nat_field [of "13 + kl" b] b(1) by simp
  ultimately show ?thesis
    using b r be_bytes_field [of 1 8 b, where ?'a = 64] glue [of 8 1 b] glue [of 4 9 b] glue [of kl 13 b]
      glue [of 4 "13 + kl" b] hd_glue [of b]
    by (simp add: EncodeRequest_def add.commute add.left_commute)
qed

lemma response_fields:
  assumes "length s = 8" "length vn = 4" "b = s @ [p] @ vn @ v"
  shows "take 8 b = s" "b ! 8 = p" "take 4 (drop 9 b) = vn" "drop 13 b = v" "length b = 13 + length v"
  using assms by (simp_all add: nth_append)

lemma DecodeResponse_Encode:
  assumes "EncodeResponse r = Inr b"
  shows "DecodeResponse b = Inr r"
proof -
  have ok: "cp_Status r = StatusOK \<or> cp_Status r = StatusNotFound \<or> cp_Status r = StatusError"
      "length (cp_Value r) \<le> maxFieldBytes"
    and b: "b = be_bytes 8 (cp_Seq r) @ [cp_Status r] @ be_bytes 4 (of_nat (length (cp_Value r)) :: u32) @ cp_Value r"
    using assms by (auto simp: EncodeResponse_def split: if_splits)
  note f = response_fields [OF length_be_bytes length_be_bytes b]
  have "length_at 9 b = length (cp_Value r)"
    unfolding length_at_def f using ok(2) by (simp only: be_val_length field_small)
  then show ?thesis using ok unfolding DecodeResponse_def by (simp add: f be_val_be_bytes Let_def)
qed

lemma EncodeResponse_Decode:
  assumes "DecodeResponse b = Inr r"
  shows "EncodeResponse r = Inr b"
proof -
  define vl where "vl = length_at 9 b"
  have b: "length b = 13 + vl" "b ! 8 = StatusOK \<or> b ! 8 = StatusNotFound \<or> b ! 8 = StatusError" "vl \<le> maxFieldBytes"
    and r: "r = \<lparr>cp_Seq = be_val (take 8 b), cp_Status = b ! 8, cp_Value = take vl (drop 13 b)\<rparr>"
    using assms by (auto simp: DecodeResponse_def Let_def vl_def split: if_splits)
  have "be_bytes 4 (of_nat vl :: u32) = take 4 (drop 9 b)"
    unfolding vl_def using of_nat_field [of 9 b] b(1) by simp
  moreover have "be_bytes 8 (be_val (take 8 b) :: u64) = take 8 b" using b(1) by (intro be_bytes_be_val) simp_all
  moreover have "take 8 b @ b ! 8 # drop 9 b = b" using b(1) id_take_nth_drop [of 8 b] by simp
  ultimately show ?thesis using b r glue [of 4 9 b] by (simp add: EncodeResponse_def)
qed

text \<open>The client protocol is exact in both directions: a request or a response decodes precisely from
  its own encoding; unknown operations, unknown statuses, oversized fields, truncated and overlong
  buffers are all refused.\<close>

theorem client_codec_exact:
  "(DecodeRequest b = Inr r \<longleftrightarrow> EncodeRequest r = Inr b) \<and> (DecodeResponse b = Inr s \<longleftrightarrow> EncodeResponse s = Inr b)"
  using DecodeRequest_Encode EncodeRequest_Decode DecodeResponse_Encode EncodeResponse_Decode by blast

end
