(* ===== verification/Driver_Node.thy ===== *)
theory Driver_Node
  imports Driver_Apply Frames
begin

text \<open>
  The event handlers of the driver: draining what raft has ready, completions of engine writes,
  crash and recovery, client requests and messages (\<^verbatim>\<open>store/node.go\<close>, \<^verbatim>\<open>store/machine.go\<close>).  \<open>None\<close> is
  a panic, or a drain that would not end.
\<close>

section \<open>Reads off the log\<close>

fun set_read_index :: "ReadState \<Rightarrow> pendingRead list \<Rightarrow> pendingRead list" where
  "set_read_index st [] = []"
| "set_read_index st (q # qs) =
     (if pr_ctx q = rs_Ctx st then q\<lparr>pr_index := rs_Index st\<rparr> # qs else q # set_read_index st qs)"

definition takeReadStates :: "ReadState list \<Rightarrow> Replica \<Rightarrow> Replica" where
  "takeReadStates states n = n\<lparr>n_pendingReads := foldl (\<lambda>qs st. set_read_index st qs) (n_pendingReads n) states\<rparr>"

definition rerouteReadAt :: "pendingRead \<Rightarrow> instant \<Rightarrow> Replica \<Rightarrow> Node \<Rightarrow> Replica \<times> Node" where
  "rerouteReadAt q at n m =
     (n\<lparr>n_readsOutOfExtent := n_readsOutOfExtent n + 1\<rparr>,
      emit (At_Client (at + staleRetryDelay) (nc_Ordinal (nd_cfg m))
        \<lparr>rq_Client = 0, rq_Seq = 0, rq_Op = opGet, rq_Key = pr_key q, rq_Value = [], rq_HistIdx = pr_histIdx q,
         rq_AnyReplica = pr_anyReplica q, rq_ReadTS = zeroTS, rq_Txn = None, rq_Range = 0, rq_Epoch = 0\<rparr>) m)"

definition off_log_record :: "pendingRead \<Rightarrow> bytes option \<Rightarrow> instant \<Rightarrow> Replica \<Rightarrow> Node \<Rightarrow> ReadRecord" where
  "off_log_record q v at n m =
     \<lparr>rr_Range = n_rng n, rr_Node = nc_Ordinal (nd_cfg m), rr_Index = pr_index q, rr_Key = pr_key q, rr_At = zeroTS,
      rr_Value = (case v of Some x \<Rightarrow> x | None \<Rightarrow> []), rr_Found = (v \<noteq> None), rr_Refused = False,
      rr_AppliedAt = n_applied n, rr_IssuedAt = pr_issuedAt q, rr_OffLog = True, rr_When = at\<rparr>"

definition serve_read :: "instant \<Rightarrow> pendingRead list \<times> Replica \<times> Node \<Rightarrow> pendingRead \<Rightarrow> pendingRead list \<times> Replica \<times> Node" where
  "serve_read at st q =
     (case st of (kept, n, m) \<Rightarrow>
        if pr_index q = 0 \<or> n_applied n < pr_index q then (kept @ [q], n, m)
        else if \<not> desc_Contains (n_desc n) (pr_key q) then (kept, rerouteReadAt q at n m)
        else (case ReadLatest (node_db m) (pr_key q) (n_mvcc n) of (v, s) \<Rightarrow>
                (kept,
                 n\<lparr>n_mvcc := s, n_readsServed := n_readsServed n + 1,
                   n_followerReads := (if pr_viaFollower q then n_followerReads n + 1 else n_followerReads n)\<rparr>,
                 history_end (pr_histIdx q) at RespOK (case v of Some x \<Rightarrow> x | None \<Rightarrow> [])
                   (witness (RecordRead (off_log_record q v at n m)) m))))"

definition serveReadyReads :: "instant \<Rightarrow> Replica \<Rightarrow> Node \<Rightarrow> Replica \<times> Node" where
  "serveReadyReads at n m =
     (case foldl (serve_read at) ([], n, m) (n_pendingReads n) of (kept, n1, m1) \<Rightarrow> (n1\<lparr>n_pendingReads := kept\<rparr>, m1))"

section \<open>Draining a Ready\<close>

definition install_batch :: "RangeID \<Rightarrow> SnapshotMeta \<Rightarrow> bytes \<Rightarrow> Batch" where
  "install_batch i meta data =
     DeleteRange (Set NewBatch (keySnapshotOf i) (encodeSnapshot (meta_snapshot meta data)))
       (Some (logPrefixOf i)) (Some (logUpperOf i))"

definition write_install :: "instant \<Rightarrow> nat \<Rightarrow> SnapshotMeta \<Rightarrow> bytes \<Rightarrow> Record list \<Rightarrow> timestamp \<Rightarrow> Replica \<Rightarrow> Node \<Rightarrow> Replica \<times> Node" where
  "write_install at snapMark meta data vs mark n m =
     (case replica_apply (install_batch (n_rng n) meta data) True m of
        (Inl err, m1) \<Rightarrow> (n, m1)
      | (Inr sq, m1) \<Rightarrow>
          (n\<lparr>n_pending := n_pending n @ [noWrite\<lparr>pw_seq := sq, pw_snapMark := snapMark, pw_snap := Some meta,
               pw_snapVersions := vs, pw_snapMarkTS := mark, pw_clearAllLog := True\<rparr>]\<rparr>, at_durable at sq m1))"

definition drain_snapshot :: "instant \<Rightarrow> Ready \<Rightarrow> Replica \<Rightarrow> Node \<Rightarrow> (Replica \<times> Node) option" where
  "drain_snapshot at rd n m =
     (case rd_Snapshot rd of
        None \<Rightarrow> Some (n, m)
      | Some sn \<Rightarrow>
          (case decodeMachine (s_Data sn) of
             None \<Rightarrow> None
           | Some (desc, mark, vs) \<Rightarrow> do {
               let meta = \<lparr>sm_Index = s_Index sn, sm_Term = s_Term sn, sm_Conf = s_Conf sn\<rparr>;
               let (n1, m1) = write_install at (rd_SnapMark rd) meta (s_Data sn) vs mark n m;
               (n2, m2) \<leftarrow> ingest vs mark (n1\<lparr>n_writtenLast := sm_Index meta\<rparr>) m1;
               let n3 = n2\<lparr>n_desc := desc\<rparr>;
               let n4 = (if sm_Index meta > n_applied n3
                         then n3\<lparr>n_applied := sm_Index meta, n_raft := AckApplied (sm_Index meta) (n_raft n3)\<rparr> else n3);
               Some (n4\<lparr>n_snapshotsApplied := n_snapshotsApplied n4 + 1\<rparr>,
                     witness (RecordSnapshot (n_rng n) (nc_Ordinal (nd_cfg m))
                       \<lparr>sn_Index = sm_Index meta, sn_Term = sm_Term meta, sn_Digest = digest (s_Data sn), sn_Taken = False\<rparr> at) m2) }))"

definition hs_batch :: "RangeID \<Rightarrow> HardState option \<Rightarrow> Batch" where
  "hs_batch i h = (case h of None \<Rightarrow> NewBatch | Some hs \<Rightarrow> Set NewBatch (keyHardStateOf i) (encodeHardState hs))"

definition log_batch :: "RangeID \<Rightarrow> bool \<Rightarrow> Entry list \<Rightarrow> Batch \<Rightarrow> Batch" where
  "log_batch i clear es b =
     foldl (\<lambda>b e. Set b (logKeyOf i (e_Index e)) (encodeEntry e))
       (if clear then DeleteRange b (Some (logKeyOf i (lastIndexOf es + 1))) (Some (logUpperOf i)) else b) es"

definition persist_write :: "Ready \<Rightarrow> Replica \<Rightarrow> Batch \<times> pendingWrite" where
  "persist_write rd n =
     (let es = rd_Entries rd; clear = (es \<noteq> [] \<and> e_Index (hd es) \<le> n_writtenLast n)
      in (log_batch (n_rng n) clear es (hs_batch (n_rng n) (rd_HardState rd)),
          noWrite\<lparr>pw_mark := rd_Mark rd, pw_hs := rd_HardState rd, pw_entries := es,
            pw_clearAbove := (if clear then lastIndexOf es else 0)\<rparr>))"

definition drain_persist :: "instant \<Rightarrow> Ready \<Rightarrow> Replica \<Rightarrow> Node \<Rightarrow> Replica \<times> Node" where
  "drain_persist at rd n m =
     (if rd_HardState rd = None \<and> rd_Entries rd = [] then (n, m)
      else (case persist_write rd n of (b, w) \<Rightarrow>
              let n1 = (if rd_Entries rd = [] then n else n\<lparr>n_writtenLast := lastIndexOf (rd_Entries rd)\<rparr>)
              in (case replica_apply b True m of
                    (Inl err, m1) \<Rightarrow> (n1, m1)
                  | (Inr sq, m1) \<Rightarrow> (n1\<lparr>n_pending := n_pending n1 @ [w\<lparr>pw_seq := sq\<rparr>]\<rparr>, at_durable at sq m1))))"

definition storedSnapshot :: "Replica \<Rightarrow> Node \<Rightarrow> Snapshot option" where
  "storedSnapshot n m = do { v \<leftarrow> Get (node_db m) (keySnapshotOf (n_rng n)); decodeSnapshot v }"

definition send_message :: "instant \<Rightarrow> Replica \<times> Node \<Rightarrow> Message \<Rightarrow> Replica \<times> Node" where
  "send_message at st msg =
     (case st of (n, m) \<Rightarrow>
        let m1 = witness (RecordSent (n_rng n) (nc_Ordinal (nd_cfg m)) msg at) m
        in (case hlc_Now n m1 of (t, n1, m2) \<Rightarrow>
              (n1, emit (Send (nc_Ordinal (nd_cfg m)) (ordinalOf (m_To msg) (nd_cfg m)) (putRange (n_rng n) t (encodeMessage msg))) m2)))"

definition send_snapshot_to :: "instant \<Rightarrow> Replica \<times> Node \<Rightarrow> NodeID \<Rightarrow> Replica \<times> Node" where
  "send_snapshot_to at st to =
     (case st of (n, m) \<Rightarrow>
        (case storedSnapshot n m of
           None \<Rightarrow> (n, m)
         | Some sn \<Rightarrow>
             send_message at (n, m)
               ((new_msg MsgSnap (nc_ID (nd_cfg m)) to (r_term (n_raft n)))\<lparr>m_SnapIndex := s_Index sn, m_SnapTerm := s_Term sn,
                  m_SnapData := s_Data sn, m_SnapConf := EncodeConfiguration (s_Conf sn)\<rparr>)))"

definition drain_apply :: "instant \<Rightarrow> Entry list \<Rightarrow> Replica \<Rightarrow> Node \<Rightarrow> (Replica \<times> Node) option" where
  "drain_apply at es n m =
     (if es = [] then Some (n, m)
      else do {
        (n1, mb, m1) \<leftarrow> apply_entries at es (n, NewBatch, m);
        (mb', m2) \<leftarrow> flushApply mb m1;
        (n2, m3) \<leftarrow> maybeGC n1 m2;
        let m4 = witness (RecordApplied (n_rng n2) (nc_Ordinal (nd_cfg m3)) es at) m3;
        let n3 = n2\<lparr>n_applied := lastIndexOf es, n_raft := AckApplied (lastIndexOf es) (n_raft n2)\<rparr>;
        (n4, m5) \<leftarrow> maybeSnapshot at n3 m4;
        maybeSplit n4 m5 })"

definition drain_once :: "instant \<Rightarrow> Replica \<times> Node \<Rightarrow> (Replica \<times> Node) option" where
  "drain_once at st =
     (case st of (n, m) \<Rightarrow> do {
        (rd, r) \<leftarrow> ready (n_raft n);
        (n1, m1) \<leftarrow> drain_snapshot at rd (n\<lparr>n_raft := r\<rparr>) m;
        let (n2, m2) = drain_persist at rd n1 m1;
        let (n3, m3) = foldl (send_snapshot_to at) (n2, m2) (rd_SnapshotTo rd);
        let (n4, m4) = foldl (send_message at) (n3, m3) (rd_Messages rd);
        if rd_Mark rd \<noteq> 0 \<and> rd_HardState rd = None \<and> rd_Entries rd = [] then None
        else do {
          (n5, m5) \<leftarrow> drain_apply at (rd_Committed rd) n4 m4;
          Some (serveReadyReads at (takeReadStates (rd_ReadStates rd) n5) m5) } })"

partial_function (option) drain_loop :: "instant \<Rightarrow> Replica \<times> Node \<Rightarrow> (Replica \<times> Node) option" where
  "drain_loop at st =
     (if HasReady (n_raft (fst st)) then Option.bind (drain_once at st) (\<lambda>st'. drain_loop at st') else Some st)"

definition drain :: "instant \<Rightarrow> Replica \<Rightarrow> Node \<Rightarrow> (Replica \<times> Node) option" where
  "drain at n m =
     map_option (\<lambda>(n1, m1).
        (if n_confErr n1 = None then n1\<lparr>n_confErr := AssertConfConsistent (n_raft n1)\<rparr> else n1, m1))
       (drain_loop at (n, m))"

section \<open>Durability\<close>

record recovered =
  rc_hs :: HardState
  rc_snap :: SnapshotMeta
  rc_entries :: "Entry list"
  rc_versions :: "Record list"
  rc_mark :: timestamp
  rc_desc :: "RangeDescriptor option"

definition read_snapshot :: "RangeID \<Rightarrow> DB \<Rightarrow> SnapshotMeta \<times> (RangeDescriptor \<times> timestamp \<times> Record list) option" where
  "read_snapshot i db =
     (case Get db (keySnapshotOf i) of
        None \<Rightarrow> (zeroMeta, None)
      | Some v \<Rightarrow>
          (case decodeSnapshot v of
             None \<Rightarrow> (zeroMeta, None)
           | Some sn \<Rightarrow> (\<lparr>sm_Index = s_Index sn, sm_Term = s_Term sn, sm_Conf = s_Conf sn\<rparr>, decodeMachine (s_Data sn))))"

definition read_log :: "RangeID \<Rightarrow> DB \<Rightarrow> Entry list" where
  "read_log i db =
     List.map_filter (\<lambda>e. decodeEntry (snd e))
       (iter_rest (First (fst (NewIter db (Some (logPrefixOf i)) (Some (logUpperOf i))))))"

definition read_back :: "RangeID \<Rightarrow> DB \<Rightarrow> recovered" where
  "read_back i db =
     (case read_snapshot i db of (meta, st) \<Rightarrow>
        \<lparr>rc_hs = (case Get db (keyHardStateOf i) of None \<Rightarrow> zeroHS | Some v \<Rightarrow> decodeHardState v),
         rc_snap = meta, rc_entries = read_log i db,
         rc_versions = (case st of None \<Rightarrow> [] | Some (d, t, vs) \<Rightarrow> vs),
         rc_mark = (case st of None \<Rightarrow> zeroTS | Some (d, t, vs) \<Rightarrow> t),
         rc_desc = (case st of None \<Rightarrow> None | Some (d, t, vs) \<Rightarrow> Some d)\<rparr>)"

definition readDurable :: "Replica \<Rightarrow> Node \<Rightarrow> recovered option" where
  "readDurable n m =
     (if tk_visible (nd_db m) \<noteq> DurableSeq (node_db m) then None else Some (read_back (n_rng n) (node_db m)))"

definition same_entry :: "Entry \<Rightarrow> Entry \<Rightarrow> bool" where
  "same_entry a b \<longleftrightarrow> e_Index a = e_Index b \<and> e_Term a = e_Term b \<and> e_ID a = e_ID b \<and> e_Data a = e_Data b"

definition sameDurableState :: "HardState \<Rightarrow> SnapshotMeta \<Rightarrow> Entry list \<Rightarrow> recovered \<Rightarrow> bool" where
  "sameDurableState hs snap log got \<longleftrightarrow>
     hs = rc_hs got \<and> sm_Index snap = sm_Index (rc_snap got) \<and> sm_Term snap = sm_Term (rc_snap got) \<and>
     conf_Equal (sm_Conf snap) (sm_Conf (rc_snap got)) \<and> list_all2 same_entry log (rc_entries got)"

definition fold_entry :: "nat \<Rightarrow> Entry list \<Rightarrow> Entry \<Rightarrow> Entry list option" where
  "fold_entry base log e =
     (if e_Index e < base + 1 then None
      else (let p = e_Index e - base - 1 in if p < length log then Some (log[p := e]) else Some (log @ [e])))"

fun fold_entries :: "nat \<Rightarrow> Entry list \<Rightarrow> Entry list \<Rightarrow> Entry list option" where
  "fold_entries base log [] = Some log"
| "fold_entries base log (e # es) = do { log' \<leftarrow> fold_entry base log e; fold_entries base log' es }"

definition fold_write :: "pendingWrite \<Rightarrow> Replica \<Rightarrow> Replica option" where
  "fold_write w n = do {
     let n1 = n\<lparr>n_durRecorded := True,
                n_durHS := (case pw_hs w of Some hs \<Rightarrow> hs | None \<Rightarrow> n_durHS n),
                n_durSnap := (case pw_snap w of Some sn \<Rightarrow> sn | None \<Rightarrow> n_durSnap n)\<rparr>;
     let log1 = (if pw_clearAllLog w then [] else n_durLog n1);
     let log2 = (if pw_clearBelow w > 0 then filter (\<lambda>e. e_Index e > pw_clearBelow w) log1 else log1);
     log3 \<leftarrow> fold_entries (sm_Index (n_durSnap n1)) log2 (pw_entries w);
     let log4 = (if pw_clearAbove w > 0 \<and> pw_clearAbove w \<ge> sm_Index (n_durSnap n1)
                 then take (pw_clearAbove w - sm_Index (n_durSnap n1)) log3 else log3);
     Some (n1\<lparr>n_durLog := log4\<rparr>) }"

fun fold_pending :: "nat \<Rightarrow> pendingWrite list \<Rightarrow> Replica \<Rightarrow> Replica option" where
  "fold_pending sq [] n = Some n"
| "fold_pending sq (w # ws) n = (if pw_seq w \<le> sq then do { n' \<leftarrow> fold_write w n; fold_pending sq ws n' } else fold_pending sq ws n)"

definition top_mark :: "(pendingWrite \<Rightarrow> nat) \<Rightarrow> nat \<Rightarrow> pendingWrite list \<Rightarrow> nat" where
  "top_mark f sq ws = foldl (\<lambda>mk w. if pw_seq w \<le> sq \<and> f w > mk then f w else mk) 0 ws"

definition closed_mark :: "nat \<Rightarrow> pendingWrite list \<Rightarrow> nat" where
  "closed_mark mark kept = (case kept of [] \<Rightarrow> mark | w # _ \<Rightarrow> if pw_mark w \<noteq> 0 \<and> pw_mark w \<le> mark then pw_mark w - 1 else mark)"

definition cross_check :: "Replica \<Rightarrow> Node \<Rightarrow> Replica option" where
  "cross_check n m =
     (let dur = DurableSeq (node_db m)
      in if tk_visible (nd_db m) = dur \<and> n_ackedSeq n = dur \<and> n_pending n = [] then do {
           st \<leftarrow> readDurable n m;
           if sameDurableState (n_durHS n) (n_durSnap n) (n_durLog n) st
           then Some (n\<lparr>n_crossChecks := n_crossChecks n + 1\<rparr>) else None }
         else Some (n\<lparr>n_crossChecksDeclined := n_crossChecksDeclined n + 1\<rparr>))"

definition replica_onDurable :: "nat \<Rightarrow> instant \<Rightarrow> Replica \<Rightarrow> Node \<Rightarrow> (Replica \<times> Node) option" where
  "replica_onDurable sq at n m = do {
     n1 \<leftarrow> fold_pending sq (n_pending n) n;
     let kept = filter (\<lambda>w. \<not> pw_seq w \<le> sq) (n_pending n);
     let mark = closed_mark (top_mark pw_mark sq (n_pending n)) kept;
     let snapMark = top_mark pw_snapMark sq (n_pending n);
     n2 \<leftarrow> cross_check (n1\<lparr>n_pending := kept, n_ackedSeq := (if sq > n_ackedSeq n1 then sq else n_ackedSeq n1)\<rparr>) m;
     let m1 = witness (RecordDurable (n_rng n2) (nc_Ordinal (nd_cfg m))
                \<lparr>ds_HardState = n_durHS n2, ds_Snapshot = n_durSnap n2, ds_Log = n_durLog n2\<rparr> at) m;
     r1 \<leftarrow> (if mark \<noteq> 0 then AckPersisted mark (n_raft n2) else Some (n_raft n2));
     Some (n2\<lparr>n_raft := (if snapMark \<noteq> 0 then AckSnapshot snapMark r1 else r1)\<rparr>, m1) }"

section \<open>Crash and recovery\<close>

definition lastLogIndex :: "Entry list \<Rightarrow> nat" where
  "lastLogIndex es = (if length es = 0 then 0 else e_Index (es ! (length es - 1)))"

definition written_through :: "Replica \<Rightarrow> nat" where
  "written_through n =
     (if lastLogIndex (n_durLog n) > sm_Index (n_durSnap n) then lastLogIndex (n_durLog n) else sm_Index (n_durSnap n))"

definition onCrash :: "Replica \<Rightarrow> Replica" where
  "onCrash n = n\<lparr>n_down := True, n_inflight := [], n_pending := [], n_writtenLast := written_through n\<rparr>"

definition derivedConf :: "recovered \<Rightarrow> Configuration option" where
  "derivedConf st =
     (if length (Voters (sm_Conf (rc_snap st))) = 0 then None
      else Some (foldl conf_step (sm_Conf (rc_snap st)) (rc_entries st)))"

definition record_or_adopt :: "recovered \<Rightarrow> Replica \<Rightarrow> Replica option" where
  "record_or_adopt st n =
     (if n_durRecorded n
      then (if sameDurableState (n_durHS n) (n_durSnap n) (n_durLog n) st
            then Some (n\<lparr>n_crossChecks := n_crossChecks n + 1\<rparr>) else None)
      else Some (n\<lparr>n_adoptions := n_adoptions n + 1, n_durHS := rc_hs st, n_durSnap := rc_snap st,
                   n_durLog := rc_entries st, n_durRecorded := True\<rparr>))"

definition check_conf :: "recovered \<Rightarrow> Replica \<Rightarrow> Replica option" where
  "check_conf st n =
     (let n1 = (if list_ex (\<lambda>e. e_Type e = EntryConfChange) (rc_entries st)
                then n\<lparr>n_confRecoveries := n_confRecoveries n + 1\<rparr> else n)
      in (case derivedConf st of
            None \<Rightarrow> Some n1
          | Some want \<Rightarrow> if conf_Equal (r_conf (n_raft n1)) want
                         then Some (n1\<lparr>n_confCrossChecks := n_confCrossChecks n1 + 1\<rparr>) else None))"

definition recovered_extent :: "recovered \<Rightarrow> Replica \<Rightarrow> RangeDescriptor option" where
  "recovered_extent st n =
     (case rc_desc st of
        Some d \<Rightarrow> Some d
      | None \<Rightarrow> if n_rng n = FirstRange then Some FirstRangeDescriptor else None)"

definition restartFrom :: "recovered \<Rightarrow> Replica \<Rightarrow> Node \<Rightarrow> (Replica \<times> Node) option" where
  "restartFrom st n m = do {
     n1 \<leftarrow> record_or_adopt st n;
     r \<leftarrow> (case Restore (raft_cfg (nd_cfg m)) (rc_hs st) (rc_snap st) (rc_entries st) of Inl err \<Rightarrow> None | Inr r \<Rightarrow> Some r);
     n2 \<leftarrow> check_conf st (n1\<lparr>n_raft := r\<rparr>);
     (n3, m1) \<leftarrow> ingest (rc_versions st) (rc_mark st) n2 m;
     let n4 = (if sm_Index (rc_snap st) > n_applied n3 then n3\<lparr>n_applied := sm_Index (rc_snap st)\<rparr> else n3);
     d \<leftarrow> recovered_extent st n4;
     Some (jitter (n4\<lparr>n_desc := d, n_down := False, n_writtenLast := written_through n4\<rparr>) m1) }"

definition readRecovered :: "Replica \<Rightarrow> Node \<Rightarrow> (recovered \<times> Replica) option" where
  "readRecovered n m = do {
     let n1 = n\<lparr>n_pending := [], n_inflight := []\<rparr>;
     st \<leftarrow> readDurable n1 m;
     Some (st, n1) }"

definition isDescKey :: "bytes \<Rightarrow> bool" where
  "isDescKey k \<longleftrightarrow> \<not> (length k < 15 \<or> drop 10 k \<noteq> [0x2F, 0x64, 0x65, 0x73, 0x63])"

definition readDescriptors :: "Node \<Rightarrow> RangeDescriptor list" where
  "readDescriptors m =
     (let ds = List.map_filter (\<lambda>e. if isDescKey (fst e) then decodeDesc (snd e) else None)
                 (iter_rest (First (fst (NewIter (node_db m) (Some [0x72, 0x2F]) (Some [0x72, 0x30])))))
      in if list_ex (\<lambda>d. d_ID d = FirstRange) ds then ds else FirstRangeDescriptor # ds)"

text \<open>
  The rebuilt list of replicas shares its backing array with the old one while the old one is still
  being searched, so each replica kept overwrites the old list at its position.  Descriptors are
  stored under their own range, so the ranges read back are distinct and no replica is kept twice.
\<close>

fun keep_replicas :: "RangeDescriptor list \<Rightarrow> Replica list \<Rightarrow> Replica list \<Rightarrow> Node \<Rightarrow> (Replica list \<times> Node) option" where
  "keep_replicas [] kept old m = Some (kept, m)"
| "keep_replicas (d # ds) kept old m = do {
     (r, m1) \<leftarrow> (case find (\<lambda>r. n_rng r = d_ID d) old of
                   Some r \<Rightarrow> Some (r, m)
                 | None \<Rightarrow> (case newReplicaFor d m of (Inl err, m1) \<Rightarrow> None | (Inr r, m1) \<Rightarrow> Some (r, m1)));
     let r' = r\<lparr>n_desc := d\<rparr>;
     keep_replicas ds (kept @ [r']) (old[length kept := r']) m1 }"

fun read_all_recovered :: "Replica list \<Rightarrow> Node \<Rightarrow> (recovered \<times> Replica) list option" where
  "read_all_recovered [] m = Some []"
| "read_all_recovered (n # ns) m = do {
     x \<leftarrow> readRecovered n m;
     xs \<leftarrow> read_all_recovered ns m;
     Some (x # xs) }"

fun restart_all :: "(recovered \<times> Replica) list \<Rightarrow> Node \<Rightarrow> (Replica list \<times> Node) option" where
  "restart_all [] m = Some ([], m)"
| "restart_all ((st, n) # xs) m = do {
     (n1, m1) \<leftarrow> restartFrom st n m;
     (ns, m2) \<leftarrow> restart_all xs m1;
     Some (n1 # ns, m2) }"

definition Recover :: "Node \<Rightarrow> Node option" where
  "Recover m = do {
     (kept, m1) \<leftarrow> keep_replicas (readDescriptors m) [] (nd_replicas m) m;
     let m2 = (foldl (\<lambda>m r. addReplica r m) (m1\<lparr>nd_replicas := []\<rparr>) kept)\<lparr>nd_down := False\<rparr>;
     states \<leftarrow> read_all_recovered (nd_replicas m2) m2;
     (ns, m3) \<leftarrow> restart_all states m2;
     Some (m3\<lparr>nd_replicas := ns\<rparr>) }"

definition crash :: "Node \<Rightarrow> Node" where
  "crash m = m\<lparr>nd_epoch := eg_Advance (nd_epoch m), nd_db := tk_Crash (nd_db m), nd_down := True,
               nd_replicas := map onCrash (nd_replicas m)\<rparr>"

definition restart :: "Node \<Rightarrow> Node option" where
  "restart m = (let m1 = (if nd_down m then m else crash m) in Recover (m1\<lparr>nd_epoch := eg_Advance (nd_epoch m1)\<rparr>))"

section \<open>Clients\<close>

definition replica_onClient :: "Request \<Rightarrow> instant \<Rightarrow> Replica \<Rightarrow> Node \<Rightarrow> (Replica \<times> Node) option" where
  "replica_onClient req arrivedAt n m =
     (let c = nd_cfg m;
          plainRead = (nc_ReadIndex c \<and> rq_Op req = opGet \<and> \<not> IsSet (rq_ReadTS req) \<and> rq_Txn req = None)
      in if r_role (n_raft n) \<noteq> RoleLeader \<and> \<not> (rq_AnyReplica req \<and> plainRead) then Some (n, m)
         else (case rq_Txn req of
           Some t \<Rightarrow> do {
             (ok, pid, n1) \<leftarrow> propose (encodeTxnCommand t) n c;
             Some (if ok then n1\<lparr>n_inflight := n_inflight n1 @ [\<lparr>co_id = pid, co_histIdx = rq_HistIdx req, co_value = rq_Value req,
                     co_op = rq_Op req, co_key = rq_Key req, co_readTS = zeroTS\<rparr>]\<rparr> else n1, m) }
         | None \<Rightarrow>
             (case hlc_Now n m of (now, n1, m1) \<Rightarrow>
               if plainRead then do {
                 let n2 = n1\<lparr>n_readSeq := n_readSeq n1 + 1\<rparr>;
                 let ctx = encodeReadCtx (nc_ID c) (n_readSeq n2);
                 (err, r) \<leftarrow> ReadIndex ctx (n_raft n2);
                 let n3 = n2\<lparr>n_raft := r\<rparr>;
                 Some (if err = None
                       then n3\<lparr>n_pendingReads := n_pendingReads n3 @ [\<lparr>pr_ctx = ctx, pr_histIdx = rq_HistIdx req, pr_key = rq_Key req,
                              pr_issuedAt = arrivedAt, pr_anyReplica = rq_AnyReplica req, pr_index = 0,
                              pr_viaFollower = (r_role r \<noteq> RoleLeader)\<rparr>]\<rparr>
                       else n3, m1) }
               else do {
                 let at = (if IsSet (rq_ReadTS req) \<and> rq_Op req = opGet then rq_ReadTS req else now);
                 (ok, pid, n2) \<leftarrow> propose (encodeCmd (rq_Op req) (rq_Key req) (rq_Value req) at) n1 c;
                 Some (if ok then n2\<lparr>n_inflight := n_inflight n2 @ [\<lparr>co_id = pid, co_histIdx = rq_HistIdx req, co_value = rq_Value req,
                         co_op = rq_Op req, co_key = rq_Key req, co_readTS = rq_ReadTS req\<rparr>]\<rparr> else n2, m1) })))"

definition on_replica :: "(Replica \<Rightarrow> Node \<Rightarrow> (Replica \<times> Node) option) \<Rightarrow> Replica \<Rightarrow> Node \<Rightarrow> Node option" where
  "on_replica f n m = map_option (\<lambda>(n1, m1). put_replica n1 m1) (f n m)"

definition node_onClient :: "Request \<Rightarrow> instant \<Rightarrow> Node \<Rightarrow> Node option" where
  "node_onClient req at m =
     (case replicaFor (rq_Key req) m of
        None \<Rightarrow> Some m
      | Some n \<Rightarrow>
          if rq_Epoch req \<noteq> 0 \<and> (rq_Range req \<noteq> n_rng n \<or> rq_Epoch req < d_Epoch (n_desc n))
          then Some (emit (At_Client (at + staleRetryDelay) (nc_Ordinal (nd_cfg m))
                 (req\<lparr>rq_Range := n_rng n, rq_Epoch := d_Epoch (n_desc n)\<rparr>)) (m\<lparr>nd_staleEpochs := nd_staleEpochs m + 1\<rparr>))
          else on_replica (replica_onClient req at) n m)"

section \<open>Orders\<close>

definition proposeConf :: "ConfChangeSingle \<Rightarrow> Replica \<Rightarrow> NodeConfig \<Rightarrow> (bool \<times> Replica) option" where
  "proposeConf ch n c = do {
     let sq = n_propSeq n + 1;
     (err, r) \<leftarrow> ProposeConfChange \<lparr>pid_Node = nc_ID c, pid_Seq = sq\<rparr>
                  \<lparr>cc_Changes = [ch], cc_Transition = ConfChangeSimple\<rparr> (n_raft n);
     let n1 = n\<lparr>n_propSeq := sq, n_raft := r\<rparr>;
     Some (case err of
             Some x \<Rightarrow> (False, n1\<lparr>n_confRefused := n_confRefused n1 + 1,
                                 n_lagRefused := (case x of ErrLearnerLagging a \<Rightarrow> n_lagRefused n1 + 1 | _ \<Rightarrow> n_lagRefused n1)\<rparr>)
           | None \<Rightarrow> (True, n1\<lparr>n_confProposed := n_confProposed n1 + 1\<rparr>)) }"

definition RequestTransfer :: "NodeID \<Rightarrow> Replica \<Rightarrow> NodeConfig \<Rightarrow> (bool \<times> Replica) option" where
  "RequestTransfer target n c =
     (if \<not> IsLeader n \<or> target = nc_ID c then Some (False, n)
      else do {
        r \<leftarrow> TransferLeadership target (n_raft n);
        Some (True, n\<lparr>n_raft := r, n_transfersAsked := n_transfersAsked n + 1\<rparr>) })"

definition RequestConfChange :: "NodeID \<Rightarrow> Replica \<Rightarrow> NodeConfig \<Rightarrow> Replica option" where
  "RequestConfChange target n c =
     (if \<not> IsLeader n \<or> target = nc_ID c then Some n
      else (let conf = r_conf (n_raft n);
                t = (if IsLearner conf target then ConfChangeAddVoter
                     else if IsVoter conf target then ConfChangeRemoveNode else ConfChangeAddLearner)
            in map_option snd (proposeConf \<lparr>ch_Type = t, ch_Node = target\<rparr> n c)))"

definition RequestMove :: "NodeID \<Rightarrow> NodeID \<Rightarrow> bool \<Rightarrow> Replica \<Rightarrow> NodeConfig \<Rightarrow> (bool \<times> Replica) option" where
  "RequestMove from to begin n c =
     (let conf = r_conf (n_raft n); propose = (\<lambda>t x. proposeConf \<lparr>ch_Type = t, ch_Node = x\<rparr> n c)
      in if \<not> IsLeader n \<or> from = to then Some (False, n)
         else if begin then
           (if IsVoter conf to \<or> IsLearner conf to \<or> \<not> IsVoter conf from \<or> length (Voters conf) < 2 then Some (False, n)
            else propose ConfChangeAddLearner to)
         else if \<not> IsVoter conf from \<and> \<not> IsLearner conf from then Some (False, n)
         else if \<not> IsVoter conf to \<and> \<not> IsLearner conf to then propose ConfChangeAddLearner to
         else if IsLearner conf to then propose ConfChangeAddVoter to
         else if from = nc_ID c then
           (case find (\<lambda>v. v \<noteq> from) (Voters conf) of
              Some v \<Rightarrow> map_option (\<lambda>(ok, n1). (True, n1)) (RequestTransfer v n c)
            | None \<Rightarrow> Some (False, n))
         else propose ConfChangeRemoveNode from)"

definition leaderReplica :: "Node \<Rightarrow> Replica option" where
  "leaderReplica m = find IsLeader (nd_replicas m)"

definition node_RequestTransfer :: "NodeID \<Rightarrow> Node \<Rightarrow> (bool \<times> Node) option" where
  "node_RequestTransfer target m =
     (case leaderReplica m of
        None \<Rightarrow> Some (False, m)
      | Some n \<Rightarrow> map_option (\<lambda>(ok, n1). (ok, put_replica n1 m)) (RequestTransfer target n (nd_cfg m)))"

definition node_RequestConfChange :: "NodeID \<Rightarrow> Node \<Rightarrow> Node option" where
  "node_RequestConfChange target m =
     (case leaderReplica m of
        None \<Rightarrow> Some m | Some n \<Rightarrow> map_option (\<lambda>n1. put_replica n1 m) (RequestConfChange target n (nd_cfg m)))"

definition node_RequestMove :: "RangeID \<Rightarrow> NodeID \<Rightarrow> NodeID \<Rightarrow> bool \<Rightarrow> Node \<Rightarrow> (bool \<times> Node) option" where
  "node_RequestMove rng from to begin m =
     (case replicaOf rng m of
        None \<Rightarrow> Some (False, m)
      | Some n \<Rightarrow> map_option (\<lambda>(ok, n1). (ok, put_replica n1 m)) (RequestMove from to begin n (nd_cfg m)))"

definition node_Now :: "Node \<Rightarrow> timestamp option \<times> Node" where
  "node_Now m =
     (if nd_down m then (None, m)
      else (case nd_replicas m of
              [] \<Rightarrow> (None, m)
            | n # _ \<Rightarrow> (case hlc_Now n m of (t, n1, m1) \<Rightarrow> (Some t, put_replica n1 m1))))"

definition NowAbove :: "timestamp \<Rightarrow> Node \<Rightarrow> timestamp option \<times> Node" where
  "NowAbove lb m =
     (if nd_down m then (None, m)
      else (case nd_replicas m of
              [] \<Rightarrow> (None, m)
            | n # _ \<Rightarrow>
                (case (if IsSet lb then hlc_Update lb n m else (n, m)) of (n1, m1) \<Rightarrow>
                   (case hlc_Now n1 m1 of (t, n2, m2) \<Rightarrow> (Some t, put_replica n2 m2)))))"

definition replica_AssertQuiescent :: "Replica \<Rightarrow> bool" where
  "replica_AssertQuiescent n \<longleftrightarrow>
     n_down n \<or> (n_confErr n = None \<and> (n_pending n \<noteq> [] \<or> AssertQuiescent (n_raft n)))"

definition node_AssertQuiescent :: "Node \<Rightarrow> bool" where
  "node_AssertQuiescent m \<longleftrightarrow> list_all replica_AssertQuiescent (nd_replicas m)"

definition node_sum :: "(Replica \<Rightarrow> nat) \<Rightarrow> Node \<Rightarrow> nat" where
  "node_sum f m = foldl (\<lambda>k r. k + f r) 0 (nd_replicas m)"

definition node_IsLeader :: "Node \<Rightarrow> bool" where
  "node_IsLeader m \<longleftrightarrow> list_ex IsLeader (nd_replicas m)"

section \<open>Events\<close>

datatype event =
    KindTick | KindDeliver bytes | KindDurable u64 nat | KindCrash | KindRestart | KindClient Request | KindAction

fun tick_all :: "Replica list \<Rightarrow> Replica list option" where
  "tick_all [] = Some []"
| "tick_all (n # ns) = do { r \<leftarrow> Tick (n_raft n); ns' \<leftarrow> tick_all ns; Some (n\<lparr>n_raft := r\<rparr> # ns') }"

fun durable_all :: "nat \<Rightarrow> instant \<Rightarrow> Replica list \<Rightarrow> Node \<Rightarrow> (Replica list \<times> Node) option" where
  "durable_all sq at [] m = Some ([], m)"
| "durable_all sq at (n # ns) m = do {
     (n1, m1) \<leftarrow> replica_onDurable sq at n m;
     (ns1, m2) \<leftarrow> durable_all sq at ns m1;
     Some (n1 # ns1, m2) }"

text \<open>
  A frame that decodes to nothing, or names a range this machine does not host, makes the handler
  return before the final drain: \<open>Inl\<close>.  \<open>Inr\<close> goes on to the drain.
\<close>

definition step_replica :: "Message \<Rightarrow> timestamp \<Rightarrow> instant \<Rightarrow> Replica \<Rightarrow> Node \<Rightarrow> (Replica \<times> Node) option" where
  "step_replica msg senderTS at n m =
     (case hlc_Update senderTS n m of (n1, m1) \<Rightarrow> do {
        let m2 = witness (RecordReceived (n_rng n) (nc_Ordinal (nd_cfg m)) msg at) m1;
        (err, r) \<leftarrow> Step msg (n_raft n1);
        Some (n1\<lparr>n_raft := r\<rparr>, m2) })"

definition deliver :: "bytes \<Rightarrow> instant \<Rightarrow> Node \<Rightarrow> (Node + Node) option" where
  "deliver frame at m =
     (case Decode frame of
        Inl err \<Rightarrow> Some (Inl m)
      | Inr env \<Rightarrow>
          (case takeRange (ev_Body env) of
             None \<Rightarrow> Some (Inl m)
           | Some (i, senderTS, body) \<Rightarrow>
               (case decodeMessage body of
                  None \<Rightarrow> Some (Inl m)
                | Some msg \<Rightarrow>
                    (case replicaOf i m of
                       None \<Rightarrow> Some (Inl m)
                     | Some n \<Rightarrow> map_option Inr (on_replica (step_replica msg senderTS at) n m)))))"

partial_function (option) drain_from :: "nat \<Rightarrow> instant \<Rightarrow> Node \<Rightarrow> Node option" where
  "drain_from i at m =
     (if i < length (nd_replicas m)
      then Option.bind (on_replica (drain at) (nd_replicas m ! i) m) (\<lambda>m'. drain_from (i + 1) at m')
      else Some m)"

definition drainAll :: "instant \<Rightarrow> Node \<Rightarrow> Node option" where
  "drainAll at m = (if nd_down m then Some m else drain_from 0 at m)"

definition node_durable :: "nat \<Rightarrow> instant \<Rightarrow> Node \<Rightarrow> Node option" where
  "node_durable sq at m =
     (case AdvanceDurable (node_db m) sq of
        None \<Rightarrow> None
      | Some (db, calls) \<Rightarrow> do {
          (ns, m1) \<leftarrow> durable_all sq at (nd_replicas m) (m\<lparr>nd_db := (nd_db m)\<lparr>tk_db := db\<rparr>\<rparr>);
          Some (m1\<lparr>nd_replicas := ns\<rparr>) })"

definition handle_kind :: "event \<Rightarrow> instant \<Rightarrow> Node \<Rightarrow> (Node + Node) option" where
  "handle_kind ev at m =
     (case ev of
        KindTick \<Rightarrow> if nd_down m then Some (Inl m)
                    else map_option (\<lambda>ns. Inr (m\<lparr>nd_replicas := ns\<rparr>)) (tick_all (nd_replicas m))
      | KindDeliver frame \<Rightarrow> if nd_down m then Some (Inl m) else deliver frame at m
      | KindDurable epoch sq \<Rightarrow>
          if nd_down m then Some (Inl m)
          else (case eg_Accept epoch (nd_epoch m) of
                  (False, g) \<Rightarrow> Some (Inl (m\<lparr>nd_epoch := g\<rparr>))
                | (True, g) \<Rightarrow> map_option Inr (node_durable sq at (m\<lparr>nd_epoch := g\<rparr>)))
      | KindClient req \<Rightarrow> if nd_down m then Some (Inl m) else map_option Inr (node_onClient req at m)
      | KindCrash \<Rightarrow> Some (Inl (crash m))
      | KindRestart \<Rightarrow> map_option Inl (restart m)
      | KindAction \<Rightarrow> Some (Inr m))"

definition Handle :: "event \<Rightarrow> instant \<Rightarrow> Node \<Rightarrow> Node option" where
  "Handle ev at m = do {
     x \<leftarrow> handle_kind ev at m;
     (case x of Inl m1 \<Rightarrow> Some m1 | Inr m1 \<Rightarrow> drainAll at m1) }"

section \<open>Starting a machine\<close>

definition node_New :: "NodeConfig \<Rightarrow> DB \<Rightarrow> store_error + Node" where
  "node_New c db =
     (case newMachine c of
        Inl err \<Rightarrow> Inl err
      | Inr m0 \<Rightarrow>
          let m = m0\<lparr>nd_db := \<lparr>tk_db = db, tk_visible = 0\<rparr>\<rparr>
          in if engineHasState m then Inl EngineHasState
             else (case newReplicaFor FirstRangeDescriptor m of
                     (Inl err, m1) \<Rightarrow> Inl err
                   | (Inr r, m1) \<Rightarrow>
                       Inr (witness (RecordRangeBase FirstRange (encodeMachine FirstRangeDescriptor zeroTS [])
                              (EncodeConfiguration (initialConf c))) (m1\<lparr>nd_replicas := [r]\<rparr>))))"

definition node_Open :: "NodeConfig \<Rightarrow> DB \<Rightarrow> (store_error + Node) option" where
  "node_Open c db =
     (case newMachine c of
        Inl err \<Rightarrow> Some (Inl err)
      | Inr m0 \<Rightarrow>
          let m = m0\<lparr>nd_db := \<lparr>tk_db = db, tk_visible = 0\<rparr>\<rparr>
          in if \<not> engineHasState m then Some (Inl EngineIsEmpty) else map_option Inr (Recover m))"

end
