(* ===== verification/Driver_Refine.thy ===== *)
theory Driver_Refine
  imports Driver_Node
begin

text \<open>
  The apply path of the driver implements the replay of the log: the replica's extent, collection
  mark and records after a run of committed entries are those the state machine of the replay has.
\<close>

section \<open>Batches inside and outside a store\<close>

definition stays :: "Store \<Rightarrow> Batch \<Rightarrow> bool" where
  "stays s ops \<longleftrightarrow> (\<forall>op \<in> set ops. \<forall>k. touches op k \<longrightarrow> owns s k)"

definition avoids :: "Store \<Rightarrow> Batch \<Rightarrow> bool" where
  "avoids s ops \<longleftrightarrow> (\<forall>op \<in> set ops. \<forall>k. touches op k \<longrightarrow> \<not> owns s k)"

lemma stays_simps [simp]: "stays s []" "stays s (op # ops) \<longleftrightarrow> (\<forall>k. touches op k \<longrightarrow> owns s k) \<and> stays s ops"
  "stays s (a @ b) \<longleftrightarrow> stays s a \<and> stays s b"
  by (auto simp: stays_def)

lemma avoids_simps [simp]: "avoids s []" "avoids s (op # ops) \<longleftrightarrow> (\<forall>k. touches op k \<longrightarrow> \<not> owns s k) \<and> avoids s ops"
  "avoids s (a @ b) \<longleftrightarrow> avoids s a \<and> avoids s b"
  by (auto simp: avoids_def)

lemma stays_ns: "st_ns s' = st_ns s \<Longrightarrow> stays s' = stays s"
  by (simp add: stays_def owns_ns [of s' s] fun_eq_iff)

lemma owned_part_ns: "st_ns s' = st_ns s \<Longrightarrow> owned_part s' = owned_part s"
  by (simp add: owned_part_def owns_ns [of s' s] fun_eq_iff)

lemma map_of_owned: "map_of (owned_part s es) k = (if owns s k then map_of es k else None)"
  unfolding owned_part_def by (rule map_of_filter_fst)

lemma owned_sorted: "keys_sorted es \<Longrightarrow> keys_sorted (owned_part s es)"
  unfolding owned_part_def by (rule keys_sorted_filter)

lemma owned_idem [simp]: "owned_part s (owned_part s es) = owned_part s es"
  by (simp add: owned_part_def)

lemma op_meaning_owned:
  "(\<And>k. touches op k \<Longrightarrow> owns s k) \<Longrightarrow>
     op_meaning (\<lambda>k. if owns s k then m k else None) op = (\<lambda>k. if owns s k then op_meaning m op k else None)"
  by (cases op) (auto simp: fun_eq_iff)

lemma owned_stays:
  assumes "keys_sorted es" "stays s ops"
  shows "owned_part s (foldl apply_op es ops) = foldl apply_op (owned_part s es) ops"
  using assms
proof (induction ops arbitrary: es)
  case (Cons op ops)
  have "owned_part s (apply_op es op) = apply_op (owned_part s es) op"
  proof (rule keys_sorted_ext)
    show "keys_sorted (owned_part s (apply_op es op))" "keys_sorted (apply_op (owned_part s es) op)"
      using Cons.prems(1) by (simp_all add: owned_sorted apply_op_sorted)
    have m: "map_of (owned_part s es') = (\<lambda>k. if owns s k then map_of es' k else None)" for es'
      by (simp add: fun_eq_iff map_of_owned)
    show "map_of (owned_part s (apply_op es op)) = map_of (apply_op (owned_part s es) op)"
      unfolding m map_of_apply_op [OF Cons.prems(1)] map_of_apply_op [OF owned_sorted [OF Cons.prems(1)]]
      by (rule op_meaning_owned [symmetric]) (use Cons.prems(2) in simp)
  qed
  with Cons show ?case by (simp add: apply_op_sorted)
qed simp

lemma owned_avoids:
  assumes "keys_sorted es" "avoids s ops"
  shows "owned_part s (foldl apply_op es ops) = owned_part s es"
proof (rule keys_sorted_ext)
  show "keys_sorted (owned_part s (foldl apply_op es ops))" "keys_sorted (owned_part s es)"
    using assms(1) by (simp_all add: owned_sorted model_keyspace.ok_batch)
  have "map_of (foldl apply_op es ops) k = map_of es k" if "owns s k" for k
    using that assms(2) by (intro model_keyspace.view_untouched [OF assms(1)]) (auto simp: avoids_def list_all_iff)
  then show "map_of (owned_part s (foldl apply_op es ops)) = map_of (owned_part s es)"
    by (simp add: fun_eq_iff map_of_owned)
qed

section \<open>What the store stages\<close>

lemma PutInto_stays: "stays s b \<Longrightarrow> stays s (fst (snd (PutInto b k t v s)))"
  by (simp add: PutInto_def Set_def)

lemma releaseLockOf_stays: "stays s b \<Longrightarrow> stays s (fst (releaseLockOf db b key t s))"
  by (simp add: releaseLockOf_def Delete_def split: option.splits)

lemma refuse_ns: "refuseIfReadAbove db key t s = (e, s') \<Longrightarrow> st_ns s' = st_ns s"
  using refuse_keeps(1) [of db key t s] by simp

lemma PrewriteInto_stays: "stays s b \<Longrightarrow> stays s (fst (snd (PrewriteInto db b key l v s)))"
  by (auto simp: PrewriteInto_def Set_def dest: refuse_ns split: option.splits prod.splits)

lemma CommitInto_stays: "stays s b \<Longrightarrow> stays s (fst (snd (CommitInto db b key st ct s)))"
  using releaseLockOf_stays [of s "Set b (WriteKey (st_ns s) key ct) (encodeWrite st False)" db key st]
  by (auto simp: CommitInto_def Set_def split: prod.splits)

lemma RollbackInto_stays: "stays s b \<Longrightarrow> stays s (fst (snd (RollbackInto db b key st s)))"
  using releaseLockOf_stays [of s "Set b (WriteKey (st_ns s) key st) (encodeWrite st True)" db key st]
    releaseLockOf_batch(2) [of db key st s] releaseLockOf_batch(1) [of db "Set b (WriteKey (st_ns s) key st) (encodeWrite st True)" key st s]
  by (auto simp: RollbackInto_def Set_def Delete_def split: prod.splits)

lemma PutTxnInto_stays: "stays s b \<Longrightarrow> stays s (snd (PutTxnInto db b key r s))"
  by (simp add: PutTxnInto_def Set_def split: option.splits)

lemma NoteReadInto_stays: "stays s b \<Longrightarrow> stays s (fst (snd (NoteReadInto db b key t s)))"
  by (simp add: NoteReadInto_def Set_def Delete_def split: option.splits)

lemma ApplyResolutionInto_stays: "stays s b \<Longrightarrow> stays s (fst (snd (ApplyResolutionInto db b key l r ct s)))"
  using CommitInto_stays [of "s\<lparr>rollForwards := rollForwards s + 1\<rparr>" b db key "l_StartTS l" ct]
    RollbackInto_stays [of "s\<lparr>rollBacks := rollBacks s + 1\<rparr>" b db key "l_StartTS l"]
    stays_ns [of "s\<lparr>rollForwards := rollForwards s + 1\<rparr>" s] stays_ns [of "s\<lparr>rollBacks := rollBacks s + 1\<rparr>" s]
  by (simp add: ApplyResolutionInto_def split: Resolution.splits)

lemmas stays_rules = PrewriteInto_stays CommitInto_stays RollbackInto_stays PutTxnInto_stays NoteReadInto_stays
  ApplyResolutionInto_stays

lemma applyTxnTo_stays: "stays s b \<Longrightarrow> stays s (fst (applyTxnTo db s b c d))"
  unfolding applyTxnTo_def Let_def using stays_rules by (auto split: option.splits)

lemma gc_loop_stays:
  "stays s b \<Longrightarrow> \<forall>e \<in> set es. owns s (fst e) \<Longrightarrow> stays s (fst (gc_loop ns to es cur kept b k))"
  by (induction es arbitrary: cur kept b k) (simp_all add: Delete_def Let_def split: option.splits prod.splits)

lemma AdvanceGCInto_stays:
  assumes "keys_sorted (content db)" "stays s b"
  shows "stays s (fst (snd (AdvanceGCInto db b to s)))"
proof -
  have "\<forall>e \<in> set (iter_rest (First (prefix_iter db (st_ns s @ [dataPrefix])))). owns s (fst e)"
    unfolding prefix_iter_rest(1) [OF assms(1)] owns_prefix by auto
  from gc_loop_stays [OF assms(2) this, of "st_ns s" to "[]" False 0] show ?thesis
    using assms(2) by (auto simp: AdvanceGCInto_def split: prod.splits)
qed

lemma Ingest_stays:
  assumes "\<forall>r \<in> set rs. owns s (fst r)"
  shows "stays s (fst (IngestRecordsInto [] rs mark s))"
  using assms
  by (auto simp: IngestRecordsInto_def Set_fold DeleteRange_def stays_def prefixEnd_InRange owns_prefix)

section \<open>The abstraction\<close>

text \<open>The state machine of a replica in the middle of an apply: what its batch still holds counts.\<close>

definition view_of :: "Replica \<Rightarrow> Batch \<Rightarrow> Node \<Rightarrow> sm" where
  "view_of n mb m = \<lparr>sm_desc = n_desc n, sm_ns = st_ns (n_mvcc n), sm_mark = gcMark (n_mvcc n),
     sm_es = owned_part (n_mvcc n) (foldl apply_op (content (node_db m)) mb)\<rparr>"

definition apply_ok :: "Replica \<Rightarrow> Batch \<Rightarrow> Node \<Rightarrow> bool" where
  "apply_ok n mb m \<longleftrightarrow> \<not> closed (node_db m) \<and> keys_sorted (content (node_db m)) \<and> stays (n_mvcc n) mb \<and>
     st_ns (n_mvcc n) = rangePrefix (n_rng n) \<and> n_rng n \<in> n_rng ` set (nd_replicas m)"

text \<open>What answering a client leaves alone.\<close>

definition quiet :: "Replica \<times> Node \<Rightarrow> Replica \<times> Node \<Rightarrow> bool" where
  "quiet x y \<longleftrightarrow> n_rng (fst y) = n_rng (fst x) \<and> n_desc (fst y) = n_desc (fst x) \<and> n_raft (fst y) = n_raft (fst x) \<and>
     st_ns (n_mvcc (fst y)) = st_ns (n_mvcc (fst x)) \<and> gcMark (n_mvcc (fst y)) = gcMark (n_mvcc (fst x)) \<and>
     nd_db (snd y) = nd_db (snd x) \<and> nd_cfg (snd y) = nd_cfg (snd x) \<and> nd_replicas (snd y) = nd_replicas (snd x)"

lemma quiet_refl [simp]: "quiet x x"
  by (simp add: quiet_def)

lemma quiet_trans: "quiet x y \<Longrightarrow> quiet y z \<Longrightarrow> quiet x z"
  by (simp add: quiet_def)

lemma quiet_foldl:
  assumes "\<And>x c. quiet x (f x c)"
  shows "quiet x (foldl f x cs)"
proof (induction cs arbitrary: x)
  case (Cons c cs)
  show ?case using quiet_trans [OF assms Cons.IH] by simp
qed simp

lemma quiet_view:
  assumes "quiet (n, m) (n', m')"
  shows "view_of n' mb m' = view_of n mb m" "apply_ok n' mb m' \<longleftrightarrow> apply_ok n mb m"
  using assms owned_part_ns [of "n_mvcc n'" "n_mvcc n"] stays_ns [of "n_mvcc n'" "n_mvcc n"]
  by (simp_all add: quiet_def view_of_def apply_ok_def)

lemma emit_simps [simp]: "nd_db (emit x m) = nd_db m" "nd_cfg (emit x m) = nd_cfg m" "nd_replicas (emit x m) = nd_replicas m"
  by (simp_all add: emit_def)

lemma witness_simps [simp]:
  "nd_db (witness x m) = nd_db m" "nd_cfg (witness x m) = nd_cfg m" "nd_replicas (witness x m) = nd_replicas m"
  by (simp_all add: witness_def)

lemma history_end_simps [simp]:
  "nd_db (history_end i at k v m) = nd_db m" "nd_cfg (history_end i at k v m) = nd_cfg m"
  "nd_replicas (history_end i at k v m) = nd_replicas m"
  by (simp_all add: history_end_def)

lemma ReadAt_keeps: "ReadAt db key ts s = (r, s') \<Longrightarrow> st_ns s' = st_ns s \<and> gcMark s' = gcMark s"
  by (auto simp: ReadAt_def Let_def split: if_splits option.splits prod.splits)

lemma GetTxn_keeps: "GetTxn db key t c s = (r, s') \<Longrightarrow> st_ns s' = st_ns s \<and> gcMark s' = gcMark s"
  using GetTxn_store [of db key t c s] by simp

lemma answer_op_quiet: "quiet x (answer_op e op key ts at x c)"
  by (cases x) (auto simp: quiet_def answer_op_def Let_def split: prod.split sum.split dest: ReadAt_keeps)

lemma answerAt_quiet: "answerAt e op key ts at n m = (n', m') \<Longrightarrow> quiet (n, m) (n', m')"
  using quiet_foldl [where f = "answer_op e op key ts at", OF answer_op_quiet, of "(n, m)" "filter (\<lambda>c. co_id c = e_ID e) (n_inflight n)"]
  by (auto simp: answerAt_def quiet_def split: if_splits prod.splits)

lemma readTxn_quiet: "readTxn c e at n m = (res, n', m') \<Longrightarrow> quiet (n, m) (n', m')"
  by (auto simp: readTxn_def Let_def quiet_def split: prod.splits if_splits dest: GetTxn_keeps)

lemma answerTxn_quiet:
  assumes "answerTxn e c res at n m = (n', m')"
  shows "quiet (n, m) (n', m')"
proof -
  let ?n = "n\<lparr>n_inflight := filter (\<lambda>p. co_id p \<noteq> e_ID e) (n_inflight n)\<rparr>"
  have "quiet (n, m) (?n, m)" by (simp add: quiet_def)
  moreover have "quiet (?n, m) (n2, emit x m2)" if "readTxn c e at ?n m = (res', n2, m2)" for res' n2 m2 x
    using readTxn_quiet [OF that] by (simp add: quiet_def)
  ultimately show ?thesis
    using assms by (auto simp: answerTxn_def Let_def split: if_splits prod.splits intro: quiet_trans) (simp_all add: quiet_def)
qed

lemma reissue_quiet: "quiet (n, m) (n, foldl (\<lambda>m c. emit (f m c) m) m cs)"
  by (induction cs arbitrary: m) (auto simp: quiet_def)

lemma rerouteAt_quiet: "rerouteAt e op key v at n m = (n', m') \<Longrightarrow> quiet (n, m) (n', m')"
  using reissue_quiet [of n m "\<lambda>m c. At_Client (at + staleRetryDelay) (nc_Ordinal (nd_cfg m)) (reissue op key v c)"]
  by (auto simp: rerouteAt_def Let_def quiet_def split: if_splits)

section \<open>Flushing\<close>

definition with_db :: "Node \<Rightarrow> Node \<Rightarrow> bool" where
  "with_db m m' \<longleftrightarrow> (\<exists>d. m' = m\<lparr>nd_db := d\<rparr>)"

lemma with_db_refl [simp]: "with_db m m"
  unfolding with_db_def by (rule exI [of _ "nd_db m"]) simp

lemma replica_apply_content:
  assumes "\<not> closed (node_db m)" "keys_sorted (content (node_db m))"
  obtains sq m' where "replica_apply b sync m = (Inr sq, m')" "content (node_db m') = foldl apply_op (content (node_db m)) b"
    "\<not> closed (node_db m')" "keys_sorted (content (node_db m'))" "with_db m m'"
proof -
  obtain sq db where a: "Apply (node_db m) (Some b) sync = (Inr sq, db)"
    using assms(1) by (cases "b = []") (simp_all add: Apply_def Let_def)
  have db: "content db = foldl apply_op (content (node_db m)) b" "\<not> closed db" "keys_sorted (content db)"
    using Apply_content [OF assms(1), of b sync] Apply_closed [of "node_db m" "Some b" sync]
      Apply_sorted [OF assms, of b sync] assms(1) by (simp_all add: a)
  show ?thesis
  proof (rule that)
    show "replica_apply b sync m = (Inr sq, m\<lparr>nd_db := \<lparr>tk_db = db, tk_visible = sq\<rparr>\<rparr>)"
      by (simp add: replica_apply_def tk_Apply_def a)
    show "with_db m (m\<lparr>nd_db := \<lparr>tk_db = db, tk_visible = sq\<rparr>\<rparr>)" unfolding with_db_def by (rule exI) (rule refl)
  qed (use db in simp_all)
qed

lemma flushApply_view:
  assumes "apply_ok n mb m"
  obtains m' where "flushApply mb m = Some ([], m')" "apply_ok n [] m'" "view_of n [] m' = view_of n mb m" "with_db m m'"
    "content (node_db m') = foldl apply_op (content (node_db m)) mb"
proof (cases "mb = []")
  case True
  then show ?thesis using assms by (intro that [of m]) (simp_all add: flushApply_def batch_Empty_def)
next
  case False
  have ok: "\<not> closed (node_db m)" "keys_sorted (content (node_db m))" using assms by (simp_all add: apply_ok_def)
  obtain sq m' where m': "replica_apply mb False m = (Inr sq, m')" "content (node_db m') = foldl apply_op (content (node_db m)) mb"
    "\<not> closed (node_db m')" "keys_sorted (content (node_db m'))" "with_db m m'"
    by (rule replica_apply_content [OF ok])
  show ?thesis
  proof (rule that)
    show "flushApply mb m = Some ([], m')" using False m'(1) by (simp add: flushApply_def batch_Empty_def)
    show "apply_ok n [] m'" using assms m'(3-5) by (auto simp: apply_ok_def with_db_def)
    show "view_of n [] m' = view_of n mb m" using m'(2) by (simp add: view_of_def)
  qed (use m' in auto)
qed

lemma with_db_simps: "with_db m m' \<Longrightarrow> nd_cfg m' = nd_cfg m \<and> nd_replicas m' = nd_replicas m"
  by (auto simp: with_db_def)

text \<open>The replica's store and engine show the view the abstract machine shows.\<close>

lemma same_view_of:
  assumes "apply_ok n [] m"
  shows "same_view (node_db m) (n_mvcc n) (mem (sm_es (view_of n [] m))) (bare (view_of n [] m))"
  using assms by (simp add: same_view_def view_of_def apply_ok_def owned_sorted)

section \<open>Transaction steps\<close>

lemma set_twice: "keys_sorted es \<Longrightarrow> foldl apply_op es [OpSet k v, OpSet k v] = foldl apply_op es [OpSet k v]"
  by (rule keys_sorted_ext) (simp_all add: apply_op_sorted map_of_apply_op del: apply_op.simps)

definition like :: "Replica \<Rightarrow> Replica \<Rightarrow> bool" where
  "like n n' \<longleftrightarrow> n_rng n' = n_rng n \<and> n_desc n' = n_desc n \<and> n_raft n' = n_raft n \<and>
     st_ns (n_mvcc n') = st_ns (n_mvcc n) \<and> gcMark (n_mvcc n') = gcMark (n_mvcc n)"

lemma applyTxnTo_keeps:
  "keys_sorted (content db) \<Longrightarrow> applyTxnTo db s b c d = (b', s') \<Longrightarrow> st_ns s' = st_ns s \<and> gcMark s' = gcMark s"
  using applyTxnTo_stages [of db s db s b c d d] by (simp add: same_view_def stages_def)

lemma apply_effect_like:
  assumes "keys_sorted (content db)" "apply_effect db b c n = (b', n')"
  shows "b' = fst (applyTxnTo db (n_mvcc n) b c (n_desc n))" "like n n'"
  using assms(2) applyTxnTo_keeps [OF assms(1)] by (auto simp: apply_effect_def like_def split: prod.splits)

lemma PrewriteInto_keeps:
  "PrewriteInto db b key l v s = (x, b', s') \<Longrightarrow> st_ns s' = st_ns s \<and> gcMark s' = gcMark s"
  using refuse_keeps [of db key "l_StartTS l" s]
  by (auto simp: PrewriteInto_def split: if_splits option.splits prod.splits)

lemma apply_prewrite_effect:
  assumes "apply_prewrite db b c n = (res, b', n')" "x_Op c = OpPrewrite"
  shows "b' = fst (applyTxnTo db (n_mvcc n) b c (n_desc n))" "like n n'"
  using assms unfolding apply_prewrite_def
  by (auto simp: applyTxnTo_def like_def split: prod.splits option.splits kv_error.splits dest: PrewriteInto_keeps)

lemma apply_putTxn_effect:
  assumes "apply_putTxn db b c n = (res, b', n')" "x_Op c = OpPutTxnRecord"
  shows "b' = fst (applyTxnTo db (n_mvcc n) b c (n_desc n))" "like n n'"
  using assms unfolding apply_putTxn_def
  by (auto simp: applyTxnTo_def like_def OpPutTxnRecord_def OpCommitKey_def OpRollbackKey_def OpPrewrite_def
      split: prod.splits option.splits kv_error.splits if_splits)

text \<open>
  A resolve that declares its transaction dead stages the verdict itself and then runs the shared
  effect, which stages it again: the second write is the first.
\<close>

lemma declareDead_effect:
  assumes "declareDead db b key t n = (b', n')"
  shows "b' = snd (PutTxnInto db b key \<lparr>t_Status = TxnRolledBack, t_StartTS = t, t_CommitTS = zeroTS\<rparr> (n_mvcc n))"
    "like n n'" "n_mvcc n' = n_mvcc n"
  using assms unfolding declareDead_def
  by (auto simp: like_def split: prod.splits option.splits kv_error.splits)

lemma resolve_effect:
  assumes "x_Op c = OpResolveStatus"
  shows "fst (applyTxnTo db s b c d) =
     (if store_Txn db (x_Key c) (x_StartTS c) s \<noteq> None \<or> LessEq (x_ExpireAt c) (x_Deadline c) then b
      else snd (PutTxnInto db b (x_Key c) \<lparr>t_Status = TxnRolledBack, t_StartTS = x_StartTS c, t_CommitTS = zeroTS\<rparr> s))"
  using assms
  by (auto simp: applyTxnTo_def ResolveLock_def OpResolveStatus_def OpPrewrite_def OpCommitKey_def OpRollbackKey_def
      OpPutTxnRecord_def OpTxnGet_def split: option.splits)

lemma apply_resolve_effect:
  assumes "keys_sorted (content db)" "apply_resolve db [] c n = (res, b', n')" "x_Op c = OpResolveStatus" "keys_sorted es"
  shows "foldl apply_op es b' = foldl apply_op es (fst (applyTxnTo db (n_mvcc n) [] c (n_desc n)))" "like n n'"
    "stays (n_mvcc n) b'"
proof -
  let ?dead = "\<lparr>t_Status = TxnRolledBack, t_StartTS = x_StartTS c, t_CommitTS = zeroTS\<rparr>"
  obtain r1 b1 n1 where v: "(case store_Txn db (x_Key c) (x_StartTS c) (n_mvcc n) of
              Some rec \<Rightarrow>
                (noResult\<lparr>tx_Decided := True, tx_Rollback := t_Status rec \<noteq> TxnCommitted, tx_CommitTS := t_CommitTS rec\<rparr>,
                 [], n\<lparr>n_resolveAlreadyDecided := n_resolveAlreadyDecided n + 1\<rparr>)
            | None \<Rightarrow>
                if LessEq (x_ExpireAt c) (x_Deadline c)
                then (noResult, [], n\<lparr>n_resolveWaits := n_resolveWaits n + 1\<rparr>)
                else (case declareDead db [] (x_Key c) (x_StartTS c) n of (b1, n1) \<Rightarrow>
                        (noResult\<lparr>tx_Decided := True, tx_Rollback := True\<rparr>, b1,
                         n1\<lparr>n_resolveDeclaredDead := n_resolveDeclaredDead n1 + 1\<rparr>))) = (r1, b1, n1)"
    by (rule prod_cases3)
  have a: "apply_effect db b1 c n1 = (b', n')" using assms(2) unfolding apply_resolve_def v by simp
  obtain b2 n2 where d: "declareDead db [] (x_Key c) (x_StartTS c) n = (b2, n2)" by (meson surj_pair)
  note n2 = declareDead_effect [OF d]
  have n1: "like n n1" "n_mvcc n1 = n_mvcc n"
    and b1: "b1 = (if store_Txn db (x_Key c) (x_StartTS c) (n_mvcc n) \<noteq> None \<or> LessEq (x_ExpireAt c) (x_Deadline c) then []
       else snd (PutTxnInto db [] (x_Key c) ?dead (n_mvcc n)))"
    using v [symmetric] n2 by (auto simp: d like_def split: option.splits if_splits)
  note e = apply_effect_like [OF assms(1) a, unfolded n1(2)]
  have "foldl apply_op es (snd (PutTxnInto db (snd (PutTxnInto db [] (x_Key c) ?dead s)) (x_Key c) ?dead s)) =
      foldl apply_op es (snd (PutTxnInto db [] (x_Key c) ?dead s))" for s
    using set_twice [OF assms(4)] by (simp add: PutTxnInto_def Set_def split: option.splits)
  then show "foldl apply_op es b' = foldl apply_op es (fst (applyTxnTo db (n_mvcc n) [] c (n_desc n)))"
    unfolding e(1) resolve_effect [OF assms(3)] b1 by simp
  show "like n n'" using e(2) n1(1) by (simp add: like_def)
  show "stays (n_mvcc n) b'"
    unfolding e(1) using PutTxnInto_stays [of "n_mvcc n" "[]"] by (intro applyTxnTo_stays) (simp add: b1)
qed

lemma applyTxn_effect:
  assumes "keys_sorted (content db)" "applyTxn db [] c n = (res, b', n')" "keys_sorted es"
  shows "foldl apply_op es b' = foldl apply_op es (fst (applyTxnTo db (n_mvcc n) [] c (n_desc n)))" "like n n'"
    "stays (n_mvcc n) b'"
proof -
  note t = applyTxnTo_stays [of "n_mvcc n" "[]" db c "n_desc n"]
  have "foldl apply_op es b' = foldl apply_op es (fst (applyTxnTo db (n_mvcc n) [] c (n_desc n))) \<and> like n n' \<and> stays (n_mvcc n) b'"
  proof -
    consider "x_Op c = OpPrewrite" "apply_prewrite db [] c n = (res, b', n')"
      | "x_Op c = OpPutTxnRecord" "apply_putTxn db [] c n = (res, b', n')"
      | "x_Op c = OpResolveStatus" "apply_resolve db [] c n = (res, b', n')"
      | n1 where "apply_effect db [] c n = (b', n1)" "like n1 n'"
      using assms(2) unfolding applyTxn_def by (auto simp: like_def split: if_splits prod.splits)
    then show ?thesis
    proof cases
      case 1 then show ?thesis using apply_prewrite_effect [OF 1(2,1)] t by simp
    next
      case 2 then show ?thesis using apply_putTxn_effect [OF 2(2,1)] t by simp
    next
      case 3 then show ?thesis using apply_resolve_effect [OF assms(1) 3(2,1) assms(3)] by simp
    next
      case 4 then show ?thesis using apply_effect_like [OF assms(1) 4(1)] t by (simp add: like_def)
    qed
  qed
  then show "foldl apply_op es b' = foldl apply_op es (fst (applyTxnTo db (n_mvcc n) [] c (n_desc n)))" "like n n'"
    "stays (n_mvcc n) b'" by blast+
qed

section \<open>One entry\<close>

definition runs :: "(Replica \<times> Batch \<times> Node) option \<Rightarrow> sm \<Rightarrow> bool" where
  "runs r v \<longleftrightarrow> (\<exists>n mb m. r = Some (n, mb, m) \<and> apply_ok n mb m \<and> view_of n mb m = v)"

definition follows :: "(Replica \<times> Batch \<times> Node) option \<Rightarrow> sm \<Rightarrow> bool" where
  "follows r v \<longleftrightarrow> (\<forall>n mb m. r = Some (n, mb, m) \<longrightarrow> apply_ok n mb m \<and> view_of n mb m = v)"

lemma runs_follows: "runs r v \<Longrightarrow> follows r v"
  by (auto simp: runs_def follows_def)

lemma like_view:
  assumes "like n n'"
  shows "view_of n' mb m = view_of n mb m" "apply_ok n' mb m \<longleftrightarrow> apply_ok n mb m"
  using assms owned_part_ns [of "n_mvcc n'" "n_mvcc n"] stays_ns [of "n_mvcc n'" "n_mvcc n"]
  by (simp_all add: like_def view_of_def apply_ok_def)

lemma settle_entry_runs:
  assumes "apply_ok n mb m"
  shows "runs (settle_entry at e own op k v ts (n, mb, m)) (view_of n mb m)"
proof (cases own)
  case True
  obtain mb1 m1 where f: "(if op = opGet then flushApply mb m else Some (mb, m)) = Some (mb1, m1)"
    "apply_ok n mb1 m1" "view_of n mb1 m1 = view_of n mb m"
    using assms by (cases "op = opGet") (auto elim: flushApply_view)
  obtain n1 m2 where a: "answerAt e op k ts at n m1 = (n1, m2)" by (meson surj_pair)
  let ?n = "if length (e_Data e) = 0 \<and> pid_Zero (e_ID e) \<and> length (n_inflight n1) \<noteq> length (n_inflight n)
    then n1\<lparr>n_noopAnswered := n_noopAnswered n1 + 1\<rparr> else n1"
  have "settle_entry at e own op k v ts (n, mb, m) = Some (?n, mb1, m2)"
    using True unfolding settle_entry_def by (simp only: prod.case if_True f(1) Option.bind.bind_lunit a Let_def)
  moreover have "like n1 ?n" by (simp add: like_def)
  ultimately show ?thesis
    unfolding runs_def using like_view [of n1 ?n] quiet_view [OF answerAt_quiet [OF a], of mb1] f(2,3) by simp
next
  case False
  obtain n1 m1 where a: "rerouteAt e op k v at n m = (n1, m1)" by (meson surj_pair)
  then have "settle_entry at e own op k v ts (n, mb, m) = Some (n1, mb, m1)" using False by (simp add: settle_entry_def)
  then show ?thesis unfolding runs_def using quiet_view [OF rerouteAt_quiet [OF a], of mb] assms by simp
qed

lemma arm_count_like: "like n (arm_count e n)"
  by (simp add: arm_count_def like_def)

lemma txn_view:
  assumes "apply_ok n [] m" "applyTxn (node_db m) [] c n = (res, b, n')"
  shows "apply_ok n' b m" "view_of n' b m = sm_txn c (view_of n [] m)"
proof -
  have srt: "keys_sorted (content (node_db m))" using assms(1) by (simp add: apply_ok_def)
  note e = applyTxn_effect [OF srt assms(2) owned_sorted [OF srt]]
  have ops: "fst (applyTxnTo (node_db m) (n_mvcc n) [] c d) =
      fst (applyTxnTo (mem (sm_es (view_of n [] m))) (bare (view_of n [] m)) [] c d')" for d d'
    using applyTxnTo_stages [OF same_view_of [OF assms(1)], of "[]" c d' d] by (simp add: stages_def)
  have "apply_ok n b m" using assms(1) e(3) by (simp add: apply_ok_def)
  then show "apply_ok n' b m" by (simp add: like_view(2) [OF e(2)])
  have "view_of n b m = sm_txn c (view_of n [] m)"
    unfolding sm_txn_def sm_apply_def ops [of "n_desc n", symmetric]
    by (simp add: view_of_def owned_stays [OF srt e(3)] e(1))
  then show "view_of n' b m = sm_txn c (view_of n [] m)" by (simp add: like_view(1) [OF e(2)])
qed

lemma apply_txn_entry_runs:
  assumes "apply_ok n mb m" "\<And>c. decodeTxnCommand (e_Data e) = Some c \<Longrightarrow>
      v = (if desc_Contains (n_desc n) (x_Key c) then sm_txn c (view_of n mb m) else view_of n mb m)"
    "decodeTxnCommand (e_Data e) = None \<Longrightarrow> v = view_of n mb m"
  shows "runs (apply_txn_entry at e (n, mb, m)) v"
proof (cases "decodeTxnCommand (e_Data e)")
  case None
  then show ?thesis using settle_entry_runs [OF assms(1)] assms(3) by (simp add: apply_txn_entry_def)
next
  case (Some c)
  show ?thesis
  proof (cases "desc_Contains (n_desc n) (x_Key c)")
    case False
    then show ?thesis using Some settle_entry_runs [OF assms(1)] assms(2) by (simp add: apply_txn_entry_def)
  next
    case True
    obtain m1 where m1: "flushApply mb m = Some ([], m1)" "apply_ok n [] m1" "view_of n [] m1 = view_of n mb m"
      by (rule flushApply_view [OF assms(1)])
    obtain res b n1 where t: "applyTxn (node_db m1) [] c n = (res, b, n1)" by (rule prod_cases3)
    note v = txn_view [OF m1(2) t]
    obtain m2 where m2: "flushApply b m1 = Some ([], m2)" "apply_ok n1 [] m2" "view_of n1 [] m2 = view_of n1 b m1"
      by (rule flushApply_view [OF v(1)])
    obtain n2 m3 where a: "answerTxn e c res at n1 m2 = (n2, m3)" by (meson surj_pair)
    note q = quiet_view [OF answerTxn_quiet [OF a], of "[]"]
    have "apply_txn_entry at e (n, mb, m) = settle_entry at e True opTxn (x_Key c) [] zeroTS (n2, [], m3)"
      using True Some m1(1) t m2(1) a by (simp add: apply_txn_entry_def)
    then show ?thesis
      using settle_entry_runs [of n2 "[]" m3] q m2(2,3) v(2) m1(3) assms(2) [OF Some] True by simp
  qed
qed

end
