(* ===== verification/Driver_Log.thy ===== *)
theory Driver_Log
  imports Driver_Refine
begin

text \<open>
  The remaining commands of the apply path, splits included, and the refinement of a whole run of
  committed entries.
\<close>

section \<open>Collections and writes\<close>

lemma gc_view:
  assumes "apply_ok n [] m" "AdvanceGCInto (node_db m) [] ts (n_mvcc n) = (x, b, s)"
  shows "apply_ok (n\<lparr>n_mvcc := s\<rparr>) b m" "isl x \<Longrightarrow> b = []"
    "view_of (n\<lparr>n_mvcc := s\<rparr>) b m = sm_gc ts (view_of n [] m)"
proof -
  let ?v = "view_of n [] m"
  have srt: "keys_sorted (content (node_db m))" using assms(1) by (simp add: apply_ok_def)
  obtain t where t: "AdvanceGCInto (mem (sm_es ?v)) [] ts (bare ?v) = (x, b, t)" "gcMark t = gcMark s"
    "st_ns s = st_ns (n_mvcc n)" "isl x \<Longrightarrow> s = n_mvcc n \<and> b = []"
    by (rule AdvanceGC_view [OF same_view_of [OF assms(1)] assms(2)], erule that) simp_all
  have st: "stays (n_mvcc n) b" using AdvanceGCInto_stays [OF srt, of "n_mvcc n" "[]" ts] assms(2) by simp
  then show "apply_ok (n\<lparr>n_mvcc := s\<rparr>) b m"
    using assms(1) stays_ns [OF t(3)] t(3) by (simp add: apply_ok_def)
  show "isl x \<Longrightarrow> b = []" using t(4) by simp
  show "view_of (n\<lparr>n_mvcc := s\<rparr>) b m = sm_gc ts ?v"
  proof (cases x)
    case (Inl err)
    with t(4) have "s = n_mvcc n" "b = []" by simp_all
    then show ?thesis using Inl t(1) by (simp add: sm_gc_def view_of_def)
  next
    case (Inr k)
    then show ?thesis
      using t owned_part_ns [OF t(3)] owned_stays [OF srt st] by (simp add: sm_gc_def sm_apply_def view_of_def)
  qed
qed

lemma apply_gc_entry_runs:
  assumes "apply_ok n mb m"
  shows "runs (apply_gc_entry at e ts (n, mb, m)) (sm_gc ts (view_of n mb m))"
proof -
  obtain m1 where m1: "flushApply mb m = Some ([], m1)" "apply_ok n [] m1" "view_of n [] m1 = view_of n mb m"
    by (rule flushApply_view [OF assms])
  let ?n = "n\<lparr>n_gcPending := False\<rparr>"
  have "like n ?n" by (simp add: like_def)
  note l = like_view [OF this]
  obtain x b s where a: "AdvanceGCInto (node_db m1) [] ts (n_mvcc ?n) = (x, b, s)" by (rule prod_cases3)
  note v = gc_view [OF l(2) [THEN iffD2, OF m1(2)] a]
  obtain m2 where m2: "flushApply b m1 = Some ([], m2)" "apply_ok (?n\<lparr>n_mvcc := s\<rparr>) [] m2"
    "view_of (?n\<lparr>n_mvcc := s\<rparr>) [] m2 = view_of (?n\<lparr>n_mvcc := s\<rparr>) b m1"
    by (rule flushApply_view [OF v(1)])
  obtain n1 m3 where step: "(case (x, b, s) of
            (Inl err, b, s) \<Rightarrow> Some (?n\<lparr>n_mvcc := s\<rparr>, m1)
          | (Inr removed, b, s) \<Rightarrow> do {
              (b1, m2) \<leftarrow> flushApply b m1;
              Some (?n\<lparr>n_mvcc := s, n_gcApplied := n_gcApplied ?n + 1,
                       n_versionsCollected := n_versionsCollected ?n + removed\<rparr>, m2) }) = Some (n1, m3)"
    "apply_ok n1 [] m3" "view_of n1 [] m3 = sm_gc ts (view_of n mb m)"
  proof (cases x)
    case (Inl err)
    with v have "b = []" by simp
    then show ?thesis using Inl v l(1) m1(3) by (intro that [of "?n\<lparr>n_mvcc := s\<rparr>" m1]) simp_all
  next
    case (Inr k)
    let ?q = "?n\<lparr>n_mvcc := s, n_gcApplied := n_gcApplied ?n + 1, n_versionsCollected := n_versionsCollected ?n + k\<rparr>"
    have "like (?n\<lparr>n_mvcc := s\<rparr>) ?q" by (simp add: like_def)
    from like_view [OF this] show ?thesis using Inr m2 v(3) l(1) m1(3) by (intro that [of ?q m2]) simp_all
  qed
  obtain n2 m4 where an: "answerAt e [] [] ts at n1 m3 = (n2, m4)" by (meson surj_pair)
  have "apply_gc_entry at e ts (n, mb, m) = Some (n2, [], m4)"
    using step(1) unfolding apply_gc_entry_def NewBatch_def Let_def prod.case m1(1) Option.bind.bind_lunit a an
    by (simp add: an)
  then show ?thesis unfolding runs_def using quiet_view [OF answerAt_quiet [OF an], of "[]"] step(2,3) by simp
qed

lemma put_view:
  assumes "apply_ok n mb m" "PutInto mb k ts v (n_mvcc n) = (err, mb', s)"
  shows "apply_ok (n\<lparr>n_mvcc := s\<rparr>) mb' m" "view_of (n\<lparr>n_mvcc := s\<rparr>) mb' m = sm_put k ts v (view_of n mb m)"
proof -
  have srt: "keys_sorted (content (node_db m))" "stays (n_mvcc n) mb" using assms(1) by (simp_all add: apply_ok_def)
  have s: "st_ns s = st_ns (n_mvcc n)" "gcMark s = gcMark (n_mvcc n)"
    using assms(2) by (auto simp: PutInto_def split: if_splits)
  define ops where "ops = fst (snd (PutInto [] k ts v (bare (view_of n mb m))))"
  have mb': "mb' = mb @ ops"
    using assms(2) by (auto simp: ops_def PutInto_def view_of_def bare_def Set_def split: if_splits)
  have st: "stays (n_mvcc n) mb'" using PutInto_stays [OF srt(2), of k ts v] assms(2) by simp
  then show "apply_ok (n\<lparr>n_mvcc := s\<rparr>) mb' m" using assms(1) s stays_ns [OF s(1)] by (simp add: apply_ok_def)
  have "sm_put k ts v (view_of n mb m) = sm_apply ops (view_of n mb m)" by (simp add: sm_put_def ops_def)
  also have "\<dots> = view_of (n\<lparr>n_mvcc := s\<rparr>) mb' m"
    using owned_stays [OF model_keyspace.ok_batch [OF srt(1)], of "n_mvcc n" ops mb] st owned_part_ns [OF s(1)] s
    by (simp add: sm_apply_def view_of_def mb')
  finally show "view_of (n\<lparr>n_mvcc := s\<rparr>) mb' m = sm_put k ts v (view_of n mb m)" by simp
qed

definition sm_cmd :: "bytes \<Rightarrow> bytes \<Rightarrow> bytes \<Rightarrow> timestamp \<Rightarrow> sm \<Rightarrow> sm" where
  "sm_cmd op k v at m =
     (if op = opGC then sm_gc at m
      else if op = opPut then (if desc_Contains (sm_desc m) k then sm_put k at v m else m) else m)"

lemma apply_cmd_entry_runs:
  assumes "apply_ok n mb m" "decodeCmd (e_Data e) = (op, k, v, ts)"
  shows "runs (apply_cmd_entry at e (n, mb, m)) (sm_cmd op k v ts (view_of n mb m))"
proof -
  have d: "sm_desc (view_of n mb m) = n_desc n" by (simp add: view_of_def)
  obtain err mb1 s where p: "PutInto mb k ts v (n_mvcc n) = (err, mb1, s)" by (rule prod_cases3)
  note pv = put_view [OF assms(1) p]
  let ?n = "n\<lparr>n_mvcc := s, n_writesRefused := n_writesRefused n + 1\<rparr>"
  have "like (n\<lparr>n_mvcc := s\<rparr>) ?n" by (simp add: like_def)
  note l = like_view [OF this]
  show ?thesis
    using apply_gc_entry_runs [OF assms(1)] settle_entry_runs [OF assms(1)] settle_entry_runs [OF pv(1)]
      settle_entry_runs [of ?n mb1 m] pv l
    by (auto simp: apply_cmd_entry_def assms(2) sm_cmd_def d p split: option.splits)
qed

section \<open>Ingesting records\<close>

lemma hlc_Update_quiet: "hlc_Update ts n m = (n', m') \<Longrightarrow> quiet (n, m) (n', m')"
  by (auto simp: hlc_Update_def phys_Wall_def quiet_def split: option.splits prod.splits)

lemma seedClock_quiet: "seedClockAtLeast ts n m = (n', m') \<Longrightarrow> quiet (n, m) (n', m')"
  by (auto simp: seedClockAtLeast_def hlc_Update_quiet split: if_splits)

lemma ingest_run:
  assumes "\<not> closed (node_db m)" "keys_sorted (content (node_db m))"
  obtains n' m' where "ingest rs mark n m = Some (n', m')"
    "content (node_db m') = foldl apply_op (content (node_db m)) (fst (IngestRecordsInto [] rs mark (n_mvcc n)))"
    "\<not> closed (node_db m')" "keys_sorted (content (node_db m'))" "n_rng n' = n_rng n" "n_desc n' = n_desc n"
    "st_ns (n_mvcc n') = st_ns (n_mvcc n)" "gcMark (n_mvcc n') = mark" "nd_cfg m' = nd_cfg m" "nd_replicas m' = nd_replicas m"
proof -
  obtain b s where i: "IngestRecordsInto [] rs mark (n_mvcc n) = (b, s)" by (meson surj_pair)
  then have s: "st_ns s = st_ns (n_mvcc n)" "gcMark s = mark" by (auto simp: IngestRecordsInto_def Let_def)
  obtain sq m1 where m1: "replica_apply b False m = (Inr sq, m1)" "content (node_db m1) = foldl apply_op (content (node_db m)) b"
    "\<not> closed (node_db m1)" "keys_sorted (content (node_db m1))" "with_db m m1"
    by (rule replica_apply_content [OF assms])
  obtain n' m' where c: "seedClockAtLeast (maxVersionTimestamp (st_ns s) rs) (n\<lparr>n_mvcc := s\<rparr>) m1 = (n', m')" by (meson surj_pair)
  note q = seedClock_quiet [OF c, unfolded quiet_def fst_conv snd_conv]
  show ?thesis
  proof (rule that)
    show "ingest rs mark n m = Some (n', m')" by (simp add: ingest_def NewBatch_def i m1(1) c)
  qed (use q m1 s with_db_simps [OF m1(5)] in \<open>simp_all add: i\<close>)
qed

lemma ingest_view:
  assumes "apply_ok n [] m" "\<forall>r \<in> set rs. owns (n_mvcc n) (fst r)" "ingest rs mark n m = Some (n', m')"
  shows "apply_ok n' [] m'" "n_rng n' = n_rng n" "nd_replicas m' = nd_replicas m" "gcMark (n_mvcc n') = mark"
    "st_ns (n_mvcc n') = st_ns (n_mvcc n)" "n_desc n' = n_desc n"
    "view_of n' [] m' = (sm_apply (fst (IngestRecordsInto [] rs mark (n_mvcc n))) (view_of n [] m))\<lparr>sm_mark := mark\<rparr>"
proof -
  have ok: "\<not> closed (node_db m)" "keys_sorted (content (node_db m))" using assms(1) by (simp_all add: apply_ok_def)
  obtain n1 m1 where r: "ingest rs mark n m = Some (n1, m1)"
    "content (node_db m1) = foldl apply_op (content (node_db m)) (fst (IngestRecordsInto [] rs mark (n_mvcc n)))"
    "\<not> closed (node_db m1)" "keys_sorted (content (node_db m1))" "n_rng n1 = n_rng n" "n_desc n1 = n_desc n"
    "st_ns (n_mvcc n1) = st_ns (n_mvcc n)" "gcMark (n_mvcc n1) = mark" "nd_cfg m1 = nd_cfg m" "nd_replicas m1 = nd_replicas m"
    by (rule ingest_run [OF ok])
  have e: "n' = n1" "m' = m1" using r(1) assms(3) by simp_all
  show "apply_ok n' [] m'" using assms(1) r by (simp add: apply_ok_def e)
  show "view_of n' [] m' = (sm_apply (fst (IngestRecordsInto [] rs mark (n_mvcc n))) (view_of n [] m))\<lparr>sm_mark := mark\<rparr>"
    using owned_stays [OF ok(2) Ingest_stays [OF assms(2), of mark]] owned_part_ns [OF r(7)]
    by (simp add: view_of_def sm_apply_def e r(2,6,7,8))
  show "n_rng n' = n_rng n" "nd_replicas m' = nd_replicas m" "gcMark (n_mvcc n') = mark"
    "st_ns (n_mvcc n') = st_ns (n_mvcc n)" "n_desc n' = n_desc n" by (simp_all add: e r(5-10))
qed

section \<open>Splits\<close>

text \<open>
  The two halves of a split meet at a nonempty key.  This is what a leader proposes: its cut is not
  the first key of the range.
\<close>

definition halves_meet :: "SplitSpec \<Rightarrow> bool" where
  "halves_meet spec \<longleftrightarrow> d_End (sp_Left spec) = Some (d_Start (sp_Right spec)) \<and> d_Start (sp_Right spec) \<noteq> []"

lemma halves_meetD:
  assumes "halves_meet spec"
  shows "desc_Clone (sp_Left spec) = sp_Left spec" "desc_Contains (sp_Right spec) k \<Longrightarrow> \<not> desc_Contains (sp_Left spec) k"
  using assms by (auto simp: halves_meet_def desc_Clone_def desc_Contains_def split: if_splits)

lemma partition_records_split:
  assumes "halves_meet spec" "partition_records spec s rs = Some (ls, vs)"
  shows "ls = filter (kept_by s (sp_Left spec)) rs \<and>
    vs = map (reNamespace (st_ns s) (rangePrefix (d_ID (sp_Right spec)))) (filter (kept_by s (sp_Right spec)) rs)"
  using assms(2) halves_meetD(2) [OF assms(1)]
  by (induction rs arbitrary: ls vs) (auto simp: kept_by_def split: option.splits if_splits)

lemma other_range_avoids:
  assumes "i \<noteq> j" "st_ns s = rangePrefix i" "\<And>op k. op \<in> set ops \<Longrightarrow> touches op k \<Longrightarrow> prefix (rangePrefix j) k"
  shows "avoids s ops"
  using assms owns_in_namespace [of s] rangePrefix_unique [of i _ j] unfolding avoids_def by metis

lemma ingest_touches:
  assumes "op \<in> set (fst (IngestRecordsInto [] rs mark s))" "touches op k" "\<forall>r \<in> set rs. prefix (st_ns s) (fst r)"
  shows "prefix (st_ns s) k"
proof -
  have "prefix (st_ns s) k" if "prefix (st_ns s @ x) k" for x using that by (auto simp: prefix_def)
  then show ?thesis using assms by (auto simp: IngestRecordsInto_def Set_fold DeleteRange_def prefixEnd_InRange)
qed

lemma newReplicaFor_facts:
  assumes "newReplicaFor d m = (Inr r, m')"
  shows "n_rng r = d_ID d" "st_ns (n_mvcc r) = rangePrefix (d_ID d)" "nd_db m' = nd_db m" "nd_replicas m' = nd_replicas m"
  using assms
  by (auto simp: newReplicaFor_def jitter_def blank_replica_def split: option.splits sum.splits prod.splits)

lemma addReplica_ids: "n_rng ` set (nd_replicas (addReplica r m)) = insert (n_rng r) (n_rng ` set (nd_replicas m))"
proof -
  have s: "mset (sink k i xs) = mset xs" if "i < length xs" for k :: "Replica \<Rightarrow> u64" and i xs
    using that
  proof (induction k i xs rule: sink.induct)
    case (2 k i xs)
    then show ?case by (simp add: mset_swap [of "Suc i" xs i])
  qed simp
  have "set (sink n_rng (length xs) (xs @ [r])) = set (xs @ [r])" for xs
    using s [of "length xs" "xs @ [r]" n_rng] by (metis length_append_singleton lessI set_mset_mset)
  then show ?thesis by (auto simp: addReplica_def)
qed

text \<open>Writes under another range leave a store's records alone.\<close>

definition frame :: "Store \<Rightarrow> Node \<Rightarrow> Node \<Rightarrow> bool" where
  "frame s m m' \<longleftrightarrow> (\<not> closed (node_db m) \<and> keys_sorted (content (node_db m)) \<longrightarrow>
     \<not> closed (node_db m') \<and> keys_sorted (content (node_db m')) \<and>
     owned_part s (content (node_db m')) = owned_part s (content (node_db m))) \<and>
     n_rng ` set (nd_replicas m) \<subseteq> n_rng ` set (nd_replicas m')"

lemma frame_trans: "frame s m m1 \<Longrightarrow> frame s m1 m2 \<Longrightarrow> frame s m m2"
  by (auto simp: frame_def)

lemma frame_same: "nd_db m' = nd_db m \<Longrightarrow> n_rng ` set (nd_replicas m) \<subseteq> n_rng ` set (nd_replicas m') \<Longrightarrow> frame s m m'"
  by (simp add: frame_def)

lemma ingest_frame:
  assumes "ingest rs mark r m = Some (r', m')" "st_ns (n_mvcc r) = rangePrefix j" "i \<noteq> j" "st_ns s = rangePrefix i"
    "\<forall>x \<in> set rs. prefix (rangePrefix j) (fst x)"
  shows "frame s m m'"
  unfolding frame_def
proof (intro conjI impI; (elim conjE)?)
  let ?b = "fst (IngestRecordsInto [] rs mark (n_mvcc r))"
  have "avoids s ?b"
    using ingest_touches [of _ rs mark "n_mvcc r"] assms(2,5) by (intro other_range_avoids [OF assms(3,4)]) auto
  note av = owned_avoids [OF _ this]
  assume ok: "\<not> closed (node_db m)" "keys_sorted (content (node_db m))"
  obtain n1 m1 where r: "ingest rs mark r m = Some (n1, m1)"
    "content (node_db m1) = foldl apply_op (content (node_db m)) ?b"
    "\<not> closed (node_db m1)" "keys_sorted (content (node_db m1))"
    by (rule ingest_run [OF ok])
  then show "\<not> closed (node_db m')" "keys_sorted (content (node_db m'))"
    "owned_part s (content (node_db m')) = owned_part s (content (node_db m))"
    using assms(1) av [OF ok(2)] by auto
next
  obtain b s' where b: "IngestRecordsInto NewBatch rs mark (n_mvcc r) = (b, s')" by (meson surj_pair)
  obtain x m1 where x: "replica_apply b False m = (x, m1)" by (meson surj_pair)
  then have "nd_replicas m1 = nd_replicas m" by (auto simp: replica_apply_def split: prod.splits)
  moreover have "nd_replicas m' = nd_replicas m1"
    using assms(1) seedClock_quiet by (auto simp: ingest_def b x quiet_def split: sum.splits)
  ultimately show "n_rng ` set (nd_replicas m) \<subseteq> n_rng ` set (nd_replicas m')" by simp
qed

lemma apply_frame:
  assumes "replica_apply b sync m = (x, m')" "avoids s b"
  shows "frame s m m'"
proof -
  have "nd_replicas m' = nd_replicas m" using assms(1) by (auto simp: replica_apply_def split: prod.splits)
  moreover have "\<not> closed (node_db m') \<and> keys_sorted (content (node_db m')) \<and>
     owned_part s (content (node_db m')) = owned_part s (content (node_db m))"
    if ok: "\<not> closed (node_db m)" "keys_sorted (content (node_db m))"
    by (rule replica_apply_content [OF ok, of b sync]) (use assms(1) owned_avoids [OF ok(2) assms(2)] in auto)
  ultimately show ?thesis by (simp add: frame_def)
qed

lemma jitter_db: "jitter n m = (n', m') \<Longrightarrow> nd_db m' = nd_db m \<and> nd_replicas m' = nd_replicas m \<and> n_rng n' = n_rng n"
  by (auto simp: jitter_def split: option.splits)

lemma adoptSnapshot_frame:
  assumes "adoptSnapshot meta rs mark r m = Some (r', m')" "st_ns (n_mvcc r) = rangePrefix j" "i \<noteq> j" "st_ns s = rangePrefix i"
    "\<forall>x \<in> set rs. prefix (rangePrefix j) (fst x)"
  shows "frame s m m'"
proof -
  obtain q n1 m1 n2 where a: "ingest rs mark (r\<lparr>n_raft := q\<rparr>) m = Some (n1, m1)" "jitter n2 m1 = (r', m')"
    using assms(1) by (auto simp: adoptSnapshot_def Let_def split: sum.splits bind_splits)
  have "frame s m m1" by (rule ingest_frame [OF a(1) _ assms(3-5)]) (simp add: assms(2))
  moreover have "frame s m1 m'" using jitter_db [OF a(2)] by (intro frame_same) simp_all
  ultimately show ?thesis by (rule frame_trans)
qed

lemma at_durable_simps [simp]: "nd_db (at_durable at sq m) = nd_db m" "nd_replicas (at_durable at sq m) = nd_replicas m"
  by (simp_all add: at_durable_def)

lemma birth_batch_avoids:
  assumes "i \<noteq> d_ID d" "st_ns s = rangePrefix i"
  shows "avoids s (birth_batch d meta data)"
  by (rule other_range_avoids [OF assms])
    (auto simp: birth_batch_def Set_def NewBatch_def keyDescOf_def keySnapshotOf_def)

lemma bear_right_frame:
  assumes "bear_right left spec rs mark index at m = Some m'" "i \<noteq> d_ID (sp_Right spec)" "st_ns s = rangePrefix i"
    "\<forall>x \<in> set rs. prefix (rangePrefix (d_ID (sp_Right spec))) (fst x)"
  shows "frame s m m'"
proof -
  let ?j = "d_ID (sp_Right spec)"
  obtain r m1 where r: "newReplicaFor (sp_Right spec) m = (Inr r, m1)"
    using assms(1) by (auto simp: bear_right_def split: prod.splits sum.splits)
  obtain r1 m2 where i: "ingest rs mark r m1 = Some (r1, m2)"
    using assms(1) by (auto simp: bear_right_def r split: bind_splits)
  obtain conf where c: "ConfigurationAt (n_raft left) index = Some (Inr conf)"
    using assms(1) by (auto simp: bear_right_def r i split: bind_splits sum.splits)
  define meta where "meta = \<lparr>sm_Index = 0, sm_Term = 0, sm_Conf = conf\<rparr>"
  define data where "data = encodeMachine (sp_Right spec) mark rs"
  obtain x m3 where a: "replica_apply (birth_batch (sp_Right spec) meta data) True m2 = (x, m3)" by (meson surj_pair)
  define r2 where "r2 = (case x of Inl err \<Rightarrow> r1 | Inr sq \<Rightarrow> r1\<lparr>n_durSnap := meta\<rparr>)"
  define m4 where "m4 = witness (RecordRangeBase ?j data (EncodeConfiguration conf))
    (case x of Inl err \<Rightarrow> m3 | Inr sq \<Rightarrow> at_durable at sq m3)"
  have "bear_right left spec rs mark index at m =
      do { (r3, m5) \<leftarrow> adoptSnapshot meta rs mark r2 m4; Some ((addReplica r3 m5)\<lparr>nd_splits := nd_splits m5 + 1\<rparr>) }"
    using a unfolding meta_def data_def by (cases x) (simp_all add: bear_right_def r i c r2_def m4_def Let_def meta_def data_def)
  then obtain r3 m5 where ad: "adoptSnapshot meta rs mark r2 m4 = Some (r3, m5)"
    "m' = (addReplica r3 m5)\<lparr>nd_splits := nd_splits m5 + 1\<rparr>"
    using assms(1) by (auto split: bind_splits)
  have ns: "st_ns (n_mvcc r1) = rangePrefix ?j"
    using i newReplicaFor_facts(2) [OF r] seedClock_quiet
    by (auto simp: ingest_def IngestRecordsInto_def Let_def quiet_def split: prod.splits sum.splits)
  have "frame s m m1" using newReplicaFor_facts [OF r] by (intro frame_same) simp_all
  moreover have "frame s m1 m2" by (rule ingest_frame [OF i newReplicaFor_facts(2) [OF r] assms(2-4)])
  moreover have "frame s m2 m3" by (rule apply_frame [OF a birth_batch_avoids [OF assms(2,3)]])
  moreover have "frame s m3 m4" by (intro frame_same) (simp_all add: m4_def split: sum.splits)
  moreover have "frame s m4 m5"
    by (rule adoptSnapshot_frame [OF ad(1) _ assms(2-4)]) (simp add: r2_def ns split: sum.splits)
  moreover have "frame s m5 m'"
    using addReplica_ids [of r3 m5] by (intro frame_same) (auto simp: ad(2) addReplica_def)
  ultimately show ?thesis by (meson frame_trans)
qed

lemma frame_view:
  assumes "frame (n_mvcc n) m m'" "apply_ok n [] m"
  shows "apply_ok n [] m'" "view_of n [] m' = view_of n [] m"
  using assms by (auto simp: frame_def apply_ok_def view_of_def)

lemma Records_owns: "keys_sorted (content db) \<Longrightarrow> r \<in> set (Records db s) \<Longrightarrow> owns s (fst r)"
  by (auto simp: Records_owned owned_part_def)

lemma reNamespace_prefix: "length from \<le> length (fst r) \<Longrightarrow> prefix to (fst (reNamespace from to r))"
  by (simp add: reNamespace_def)

lemma applySplit_view:
  assumes "apply_ok n [] m" "halves_meet spec" "applySplit spec idx at n m = Some (n', m')"
  shows "apply_ok n' [] m'"
    "view_of n' [] m' = (if split_matches spec (n_desc n) then sm_split spec (view_of n [] m) else view_of n [] m)"
proof -
  let ?v = "view_of n [] m" and ?s = "n_mvcc n"
  have srt: "keys_sorted (content (node_db m))" using assms(1) by (simp add: apply_ok_def)
  show "apply_ok n' [] m'" and
    "view_of n' [] m' = (if split_matches spec (n_desc n) then sm_split spec ?v else ?v)"
  proof (atomize (full), cases "split_matches spec (n_desc n)")
    case False
    then have e: "n' = n\<lparr>n_staleSplits := n_staleSplits n + 1\<rparr>" "m' = m" using assms(3) by (simp_all add: applySplit_def)
    have "like n n'" by (simp add: e(1) like_def)
    from like_view [OF this] show "apply_ok n' [] m' \<and> view_of n' [] m' = (if split_matches spec (n_desc n) then sm_split spec ?v else ?v)"
      using assms(1) False e(2) by simp
  next
    case True
    obtain ls vs where p: "partition_records spec ?s (Records (node_db m) ?s) = Some (ls, vs)"
      using assms(3) True by (auto simp: applySplit_def machine_versions_def split: bind_splits)
    note ps = partition_records_split [OF assms(2) p]
    obtain l1 m1 where i: "ingest ls (gcMark ?s) n m = Some (l1, m1)"
      using assms(3) True p by (auto simp: applySplit_def machine_versions_def Let_def split: bind_splits)
    define l2 where "l2 = l1\<lparr>n_desc := desc_Clone (sp_Left spec)\<rparr>"
    have own: "\<forall>r \<in> set ls. owns ?s (fst r)" using Records_owns [OF srt] ps by auto
    note iv = ingest_view [OF assms(1) own i]
    have kept: "ls = filter (kept_by (bare ?v) (sp_Left spec)) (Records (mem (sm_es ?v)) (bare ?v))"
      using ps kept_by_view [of "bare ?v" ?s] same_view_reads(6) [OF same_view_of [OF assms(1)]]
      by (simp add: view_of_def)
    have "apply_ok l2 [] m1" using iv(1) by (simp add: apply_ok_def l2_def)
    moreover have "view_of l2 [] m1 = sm_split spec ?v"
    proof -
      have "view_of l2 [] m1 = (view_of l1 [] m1)\<lparr>sm_desc := sp_Left spec\<rparr>"
        using halves_meetD(1) [OF assms(2)] by (simp add: l2_def view_of_def)
      also have "\<dots> = sm_split spec ?v"
        unfolding iv(7) sm_split_def Let_def kept [symmetric]
        using IngestRecords_view [of "bare ?v" ?s "[]" ls "gcMark ?s"] by (simp add: view_of_def sm_apply_def)
      finally show ?thesis .
    qed
    moreover have "n' = l2 \<and> frame ?s m1 m'"
    proof (cases "replicaOf (d_ID (sp_Right spec)) m1 = None")
      case False
      then show ?thesis
        using assms(3) True p i by (auto simp: applySplit_def machine_versions_def Let_def l2_def intro: frame_same)
    next
      case None: True
      then have "n_rng n \<noteq> d_ID (sp_Right spec)"
        using iv(1-3) by (auto simp: replicaOf_def find_None_iff apply_ok_def)
      moreover have "st_ns ?s = rangePrefix (n_rng n)" using assms(1) by (simp add: apply_ok_def)
      moreover have "\<forall>x \<in> set vs. prefix (rangePrefix (d_ID (sp_Right spec))) (fst x)"
      proof -
        have "length (st_ns ?s) \<le> length (fst r)" if "r \<in> set (Records (node_db m) ?s)" for r
          using Records_owns [OF srt that] by (simp add: owns_def)
        then show ?thesis using ps reNamespace_prefix by auto
      qed
      moreover have "n' = l2 \<and> bear_right l2 spec vs (gcMark ?s) idx at m1 = Some m'"
        using assms(3) True p i None
        by (auto simp: applySplit_def machine_versions_def Let_def l2_def split: bind_splits)
      ultimately show ?thesis using bear_right_frame [of l2 spec vs "gcMark ?s" idx at m1 m'] by blast
    qed
    moreover have "frame (n_mvcc l2) m1 m'" if "frame ?s m1 m'"
      using that owned_part_ns [of "n_mvcc l2" ?s] iv(5) by (simp add: frame_def l2_def)
    ultimately show "apply_ok n' [] m' \<and> view_of n' [] m' = (if split_matches spec (n_desc n) then sm_split spec ?v else ?v)"
      using True frame_view by auto
  qed
qed

lemma apply_split_entry_follows:
  assumes "apply_ok n mb m" "\<And>spec. decodeSplitCommand (e_Data e) = Some spec \<Longrightarrow> halves_meet spec"
  shows "follows (apply_split_entry at e (n, mb, m))
    (case decodeSplitCommand (e_Data e) of
       None \<Rightarrow> view_of n mb m
     | Some spec \<Rightarrow> if split_matches spec (n_desc n) then sm_split spec (view_of n mb m) else view_of n mb m)"
proof -
  obtain m1 where m1: "flushApply mb m = Some ([], m1)" "apply_ok n [] m1" "view_of n [] m1 = view_of n mb m"
    by (rule flushApply_view [OF assms(1)])
  show ?thesis
  proof (cases "decodeSplitCommand (e_Data e)")
    case None
    then show ?thesis
      using settle_entry_runs [OF m1(2)] m1 by (simp add: apply_split_entry_def runs_follows)
  next
    case (Some spec)
    show ?thesis
    proof (cases "applySplit spec (e_Index e) at n m1")
      case None
      then show ?thesis using Some m1(1) by (simp add: apply_split_entry_def follows_def)
    next
      case sp: (Some x)
      obtain n1 m2 where x: "x = (n1, m2)" by (meson surj_pair)
      note v = applySplit_view [OF m1(2) assms(2) [OF Some] sp [unfolded x], unfolded m1(3)]
      let ?n = "n1\<lparr>n_splitPending := False\<rparr>"
      have "like n1 ?n" by (simp add: like_def)
      note l = like_view [OF this]
      have "apply_split_entry at e (n, mb, m) = settle_entry at e True [] [] [] zeroTS (?n, [], m2)"
        using Some m1(1) sp x by (simp add: apply_split_entry_def)
      then show ?thesis
        using runs_follows [OF settle_entry_runs, of ?n "[]" m2 at e True "[]" "[]" "[]" zeroTS] l v m1(3) Some by simp
    qed
  qed
qed

section \<open>A run of entries\<close>

definition splits_meet :: "Entry list \<Rightarrow> bool" where
  "splits_meet es \<longleftrightarrow> (\<forall>e \<in> set es. \<forall>spec.
     \<not> isTxnCommand (e_Data e) \<and> isSplitCommand (e_Data e) \<and> decodeSplitCommand (e_Data e) = Some spec \<longrightarrow> halves_meet spec)"

lemma view_step_cases:
  "sm_step m e =
     (if e_Data e = [] then m
      else if isTxnCommand (e_Data e) then
        (case decodeTxnCommand (e_Data e) of
           None \<Rightarrow> m | Some c \<Rightarrow> if desc_Contains (sm_desc m) (x_Key c) then sm_txn c m else m)
      else if isSplitCommand (e_Data e) then
        (case decodeSplitCommand (e_Data e) of
           None \<Rightarrow> m | Some spec \<Rightarrow> if split_matches spec (sm_desc m) then sm_split spec m else m)
      else (case decodeCmd (e_Data e) of (op, k, v, at) \<Rightarrow> sm_cmd op k v at m))"
  by (simp add: sm_step_def sm_cmd_def split: option.splits)

lemma no_command_in_nothing: "\<not> isTxnCommand []" "\<not> isSplitCommand []"
  by (simp_all add: isTxnCommand_def isSplitCommand_def)

lemma apply_entry_follows:
  assumes "apply_ok n mb m" "splits_meet [e]"
  shows "follows (apply_entry at e (n, mb, m)) (sm_step (view_of n mb m) e)"
    "isTxnCommand (e_Data e) \<or> \<not> isSplitCommand (e_Data e) \<Longrightarrow> runs (apply_entry at e (n, mb, m)) (sm_step (view_of n mb m) e)"
proof -
  define n1 where "n1 = (if length (e_Data e) = 0 \<and> pid_Zero (e_ID e) then n\<lparr>n_noopsApplied := n_noopsApplied n + 1\<rparr> else n)"
  define n2 where "n2 = arm_count e n1"
  have l1: "like n n1" by (simp add: n1_def like_def)
  have l2: "like n n2" using l1 arm_count_like [of n1 e] by (simp add: n2_def like_def)
  note v1 = like_view [OF l1] and v2 = like_view [OF l2]
  have d: "n_desc n2 = sm_desc (view_of n mb m)" using l2 by (simp add: like_def view_of_def)
  have ok: "apply_ok n1 mb m" "apply_ok n2 mb m" using assms(1) v1 v2 by simp_all
  have body: "apply_entry at e (n, mb, m) =
      (if isTxnCommand (e_Data e) then apply_txn_entry at e (n2, mb, m)
       else if isSplitCommand (e_Data e) then apply_split_entry at e (n2, mb, m)
       else if length (e_Data e) > 0 then apply_cmd_entry at e (n2, mb, m)
       else settle_entry at e True [] [] [] zeroTS (n1, mb, m))"
    unfolding apply_entry_def prod.case Let_def n1_def [symmetric] n2_def [symmetric] by (rule refl)
  obtain op k v ts where cmd: "decodeCmd (e_Data e) = (op, k, v, ts)" by (rule prod_cases4)
  show runs: "runs (apply_entry at e (n, mb, m)) (sm_step (view_of n mb m) e)"
    if "isTxnCommand (e_Data e) \<or> \<not> isSplitCommand (e_Data e)"
    using that no_command_in_nothing settle_entry_runs [OF ok(1), of at e True "[]" "[]" "[]" zeroTS]
      apply_cmd_entry_runs [OF ok(2) cmd, of at] apply_txn_entry_runs [OF ok(2), of e "sm_step (view_of n mb m) e" at]
    unfolding body view_step_cases v1 v2 d cmd prod.case by (cases "e_Data e = []") auto
  show "follows (apply_entry at e (n, mb, m)) (sm_step (view_of n mb m) e)"
  proof (cases "isTxnCommand (e_Data e) \<or> \<not> isSplitCommand (e_Data e)")
    case True then show ?thesis by (intro runs_follows runs)
  next
    case False
    then have "e_Data e \<noteq> []" using no_command_in_nothing by auto
    moreover have "halves_meet spec" if "decodeSplitCommand (e_Data e) = Some spec" for spec
      using assms(2) False that by (simp add: splits_meet_def)
    ultimately show ?thesis
      using False apply_split_entry_follows [OF ok(2), of e at] unfolding body view_step_cases v2 d by simp
  qed
qed

lemma apply_entries_follows:
  "apply_ok n mb m \<Longrightarrow> splits_meet es \<Longrightarrow> follows (apply_entries at es (n, mb, m)) (foldl sm_step (view_of n mb m) es)"
proof (induction es arbitrary: n mb m)
  case Nil
  then show ?case by (simp add: follows_def)
next
  case (Cons e es)
  have f: "follows (apply_entry at e (n, mb, m)) (sm_step (view_of n mb m) e)"
    using Cons.prems by (intro apply_entry_follows(1)) (simp_all add: splits_meet_def)
  show ?case
  proof (cases "apply_entry at e (n, mb, m)")
    case (Some x)
    obtain n1 mb1 m1 where x: "x = (n1, mb1, m1)" by (rule prod_cases3)
    then have "apply_ok n1 mb1 m1" "view_of n1 mb1 m1 = sm_step (view_of n mb m) e"
      using f Some by (simp_all add: follows_def)
    with Cons.IH [of n1 mb1 m1] Cons.prems(2) show ?thesis by (simp add: Some x splits_meet_def)
  qed (simp add: follows_def)
qed

lemma apply_entries_runs:
  "apply_ok n mb m \<Longrightarrow> \<forall>e \<in> set es. isTxnCommand (e_Data e) \<or> \<not> isSplitCommand (e_Data e) \<Longrightarrow>
     runs (apply_entries at es (n, mb, m)) (foldl sm_step (view_of n mb m) es)"
proof (induction es arbitrary: n mb m)
  case Nil
  then show ?case by (simp add: runs_def)
next
  case (Cons e es)
  then obtain n1 mb1 m1 where "apply_entry at e (n, mb, m) = Some (n1, mb1, m1)" "apply_ok n1 mb1 m1"
    "view_of n1 mb1 m1 = sm_step (view_of n mb m) e"
    using apply_entry_follows(2) [OF Cons.prems(1), of e at] by (auto simp: splits_meet_def runs_def)
  with Cons.IH [of n1 mb1 m1] Cons.prems(2) show ?case by simp
qed

section \<open>The replay starts where a replica stands\<close>

lemma NewReplay_sm:
  assumes "decodeMachine base = Some (d, t, rs)" "keys_sorted rs" "\<forall>r \<in> set rs. owns (NewStore (rangePrefix (d_ID d))) (fst r)"
  shows "\<exists>r. NewReplay base = Some r \<and> sm_of r = \<lparr>sm_desc = d, sm_ns = rangePrefix (d_ID d), sm_mark = t, sm_es = rs\<rparr>"
proof -
  let ?s = "NewStore (rangePrefix (d_ID d))"
  obtain b s' where i: "IngestRecordsInto [] rs t ?s = (b, s')" by (meson surj_pair)
  then have s': "st_ns s' = rangePrefix (d_ID d)" "gcMark s' = t" by (auto simp: IngestRecordsInto_def Let_def)
  have n: "\<not> closed Engine.New" "keys_sorted (content Engine.New)" "content Engine.New = []"
    by (simp_all add: Engine.New_def visible_def)
  obtain sq db where a: "Apply Engine.New (Some b) False = (Inr sq, db)"
    using n(1) by (cases "b = []") (simp_all add: Apply_def Let_def)
  have c: "content db = foldl apply_op [] b" using Apply_content [OF n(1), of b False] by (simp add: a n(3))
  have "foldl apply_op [] b = rs"
  proof (rule keys_sorted_ext)
    show "keys_sorted (foldl apply_op [] b)" by (rule model_keyspace.ok_batch) simp
    have "map_of (foldl apply_op [] b) = foldl op_meaning (map_of []) b" by (rule model_keyspace.view_batch) simp
    also have "\<dots> = (\<lambda>k. if owns ?s k then None else map_of [] k) ++ map_of rs"
      using ingest_meaning [OF keys_sorted_distinct [OF assms(2)], of "map_of []" t ?s] by (simp only: i fst_conv)
    finally show "map_of (foldl apply_op [] b) = map_of rs" by (simp add: map_add_def fun_eq_iff split: option.splits)
  qed (rule assms(2))
  then show ?thesis using s' c by (simp add: NewReplay_def assms(1) NewBatch_def i a sm_of_def Let_def)
qed

lemma Records_view: "keys_sorted es \<Longrightarrow> Records (mem es) s = owned_part s es"
  by (simp add: Records_owned)

lemma ReplayMachine_sm:
  assumes "NewReplay base = Some r"
  shows "ReplayMachine base es =
    (let v = foldl sm_step (sm_of r) es in Some (sm_desc v, sm_mark v, Records (mem (sm_es v)) (bare v)))"
proof -
  note ok = NewReplay_ok [OF assms]
  obtain q where q: "replay_Apply r es = Some q" "replay_ok q" "sm_of q = foldl sm_step (sm_of r) (drop (rp_next r) es)"
    using replay_Apply_refines [OF ok(1), of es] by blast
  then show ?thesis using ok(2) replay_State_sm [OF q(2)] by (simp add: ReplayMachine_def assms Let_def)
qed

lemma replica_base:
  assumes "apply_ok n [] m" "d_ID (n_desc n) = n_rng n"
    "decodeMachine base = Some (n_desc n, gcMark (n_mvcc n), machine_versions n m)"
  shows "\<exists>r. NewReplay base = Some r \<and> sm_of r = view_of n [] m"
proof -
  have srt: "keys_sorted (content (node_db m))" and ns: "st_ns (n_mvcc n) = rangePrefix (n_rng n)"
    using assms(1) by (simp_all add: apply_ok_def)
  have rs: "machine_versions n m = owned_part (n_mvcc n) (content (node_db m))"
    by (simp add: machine_versions_def Records_owned [OF srt])
  have "\<forall>r \<in> set (machine_versions n m). owns (NewStore (rangePrefix (d_ID (n_desc n)))) (fst r)"
    using owns_ns [of "NewStore (rangePrefix (n_rng n))" "n_mvcc n"] ns assms(2) by (auto simp: rs owned_part_def)
  from NewReplay_sm [OF assms(3) _ this] show ?thesis
    using owned_sorted [OF srt] ns assms(2) by (simp add: view_of_def rs)
qed

lemma flush_versions:
  assumes "apply_ok n mb m"
  obtains m' where "flushApply mb m = Some ([], m')"
    "machine_versions n m' = Records (mem (sm_es (view_of n mb m))) (bare (view_of n mb m))"
proof -
  obtain m' where m': "flushApply mb m = Some ([], m')" "apply_ok n [] m'" "view_of n [] m' = view_of n mb m"
    by (rule flushApply_view [OF assms])
  from same_view_reads(6) [OF same_view_of [OF m'(2)]] show ?thesis
    by (intro that [OF m'(1)]) (simp add: machine_versions_def m'(3))
qed

text \<open>C4: A replica's apply path and the replay of its log are the same function.  Whatever a replica
  starts from, the extent, the collection mark and the records it holds after applying a run of
  committed entries (its batching, flushing, splits into a second range and client answers included) are those
  the replay computes from the serialised start and the same entries; and a run without split entries
  never panics.  Split entries are those whose halves meet, as proposed.\<close>

theorem replica_applies_the_log:
  assumes "apply_ok n [] m" "d_ID (n_desc n) = n_rng n" "splits_meet es"
    "decodeMachine base = Some (n_desc n, gcMark (n_mvcc n), machine_versions n m)"
  shows "(\<forall>n' mb m'. apply_entries at es (n, NewBatch, m) = Some (n', mb, m') \<longrightarrow>
      (\<exists>m''. flushApply mb m' = Some ([], m'') \<and>
         ReplayMachine base es = Some (n_desc n', gcMark (n_mvcc n'), machine_versions n' m''))) \<and>
    ((\<forall>e \<in> set es. isTxnCommand (e_Data e) \<or> \<not> isSplitCommand (e_Data e)) \<longrightarrow>
      apply_entries at es (n, NewBatch, m) \<noteq> None)"
proof (intro conjI allI impI)
  obtain r where r: "NewReplay base = Some r" "sm_of r = view_of n [] m"
    using replica_base [OF assms(1,2,4)] by blast
  fix n' mb m'
  assume run: "apply_entries at es (n, NewBatch, m) = Some (n', mb, m')"
  then have v: "apply_ok n' mb m'" "view_of n' mb m' = foldl sm_step (view_of n [] m) es"
    using apply_entries_follows [OF assms(1,3), of at] by (simp_all add: follows_def NewBatch_def)
  obtain m'' where m'': "flushApply mb m' = Some ([], m'')"
    "machine_versions n' m'' = Records (mem (sm_es (view_of n' mb m'))) (bare (view_of n' mb m'))"
    by (rule flush_versions [OF v(1)])
  have "ReplayMachine base es = Some (n_desc n', gcMark (n_mvcc n'), machine_versions n' m'')"
    unfolding ReplayMachine_sm [OF r(1)] r(2) v(2) [symmetric] m''(2) Let_def by (simp add: view_of_def)
  with m''(1) show "\<exists>m''. flushApply mb m' = Some ([], m'') \<and>
      ReplayMachine base es = Some (n_desc n', gcMark (n_mvcc n'), machine_versions n' m'')" by blast
next
  assume "\<forall>e \<in> set es. isTxnCommand (e_Data e) \<or> \<not> isSplitCommand (e_Data e)"
  from apply_entries_runs [OF assms(1) this, of at] show "apply_entries at es (n, NewBatch, m) \<noteq> None"
    by (auto simp: runs_def NewBatch_def)
qed

text \<open>What a replica holds determines its view.\<close>

lemma view_of_state:
  assumes "apply_ok n [] m" "apply_ok p [] q" "n_rng p = n_rng n" "n_desc p = n_desc n"
    "gcMark (n_mvcc p) = gcMark (n_mvcc n)" "machine_versions p q = machine_versions n m"
  shows "view_of p [] q = view_of n [] m"
  using assms by (simp add: view_of_def apply_ok_def machine_versions_def Records_owned)

lemma apply_and_flush:
  assumes "apply_ok n [] m" "splits_meet es" "apply_entries at es (n, NewBatch, m) = Some (n1, mb, m1)"
    "flushApply mb m1 = Some (mb', m2)"
  shows "apply_ok n1 [] m2" "view_of n1 [] m2 = foldl sm_step (view_of n [] m) es"
proof -
  have v: "apply_ok n1 mb m1" "view_of n1 mb m1 = foldl sm_step (view_of n [] m) es"
    using apply_entries_follows [OF assms(1,2), of at] assms(3) by (simp_all add: follows_def NewBatch_def)
  show "apply_ok n1 [] m2" "view_of n1 [] m2 = foldl sm_step (view_of n [] m) es"
    by (rule flushApply_view [OF v(1)]; use v(2) assms(4) in auto)+
qed

lemma state_of_view:
  assumes "apply_ok n [] m" "apply_ok p [] q" "view_of p [] q = view_of n [] m"
  shows "n_desc p = n_desc n \<and> gcMark (n_mvcc p) = gcMark (n_mvcc n) \<and> machine_versions p q = machine_versions n m"
  using assms by (simp add: view_of_def apply_ok_def machine_versions_def Records_owned)

lemma sm_ns_step: "sm_ns (foldl sm_step v es) = sm_ns v"
proof (induction es arbitrary: v)
  case (Cons e es)
  have "sm_ns (sm_step v e) = sm_ns v"
    by (auto simp: sm_step_def sm_txn_def sm_split_def sm_gc_def sm_put_def sm_apply_def Let_def
        split: option.splits prod.splits sum.splits)
  with Cons show ?case by simp
qed simp

lemma same_range:
  assumes "apply_ok n [] m" "apply_ok n1 [] m1" "view_of n1 [] m1 = foldl sm_step (view_of n [] m) es"
  shows "n_rng n1 = n_rng n"
proof -
  have "rangePrefix (n_rng n1) = rangePrefix (n_rng n)"
    using arg_cong [OF assms(3), of sm_ns] assms(1,2) by (simp add: sm_ns_step) (simp add: view_of_def apply_ok_def)
  then show ?thesis using rangePrefix_unique [of "n_rng n1" "rangePrefix (n_rng n)" "n_rng n"] by simp
qed

text \<open>C9: Snapshot plus tail is the whole log.  A replica that starts from the state another replica of
  its range had after a prefix of the log, and applies the rest, ends in the state a replica that applied
  every entry ends in: the same extent, collection mark and records, and so the same digest, however
  the entries were batched on each side.\<close>

theorem snapshot_equivalence:
  assumes "apply_ok n [] m" "apply_ok p [] q" "n_rng p = n_rng n" "splits_meet (xs @ ys)"
    "apply_entries at xs (n, NewBatch, m) = Some (n1, b1, m1)" "flushApply b1 m1 = Some (c1, m1')"
    "n_desc p = n_desc n1" "gcMark (n_mvcc p) = gcMark (n_mvcc n1)" "machine_versions p q = machine_versions n1 m1'"
    "apply_entries at' ys (p, NewBatch, q) = Some (p1, b2, q1)" "flushApply b2 q1 = Some (c2, q1')"
    "apply_entries at'' (xs @ ys) (n, NewBatch, m) = Some (n2, b3, m2)" "flushApply b3 m2 = Some (c3, m2')"
  shows "n_desc p1 = n_desc n2 \<and> gcMark (n_mvcc p1) = gcMark (n_mvcc n2) \<and> machine_versions p1 q1' = machine_versions n2 m2' \<and>
    StateDigest (n_desc p1) (gcMark (n_mvcc p1)) (machine_versions p1 q1') =
    StateDigest (n_desc n2) (gcMark (n_mvcc n2)) (machine_versions n2 m2')"
proof -
  have sp: "splits_meet xs" "splits_meet ys" using assms(4) by (auto simp: splits_meet_def)
  note a = apply_and_flush [OF assms(1) sp(1) assms(5,6)]
  note b = apply_and_flush [OF assms(2) sp(2) assms(10,11)]
  note c = apply_and_flush [OF assms(1,4) assms(12,13)]
  have "view_of p [] q = view_of n1 [] m1'"
    using assms(3) same_range [OF assms(1) a(1) a(2)] by (intro view_of_state [OF a(1) assms(2) _ assms(7-9)]) simp
  then have "view_of p1 [] q1' = view_of n2 [] m2'" by (simp add: a(2) b(2) c(2))
  from state_of_view [OF c(1) b(1) this] show ?thesis by simp
qed

section \<open>A machine that has just started\<close>

definition demo_config :: NodeConfig where
  "demo_config = \<lparr>nc_ID = 1, nc_Peers = [1, 2, 3], nc_Ordinal = 0, nc_Election = 10, nc_Heartbeat = 2,
     nc_SyncLatency = 5, nc_Transport = True, nc_Clock = Some (\<lambda>k. of_nat k + 1), nc_MaxOffset = 100,
     nc_OnTxnApplied = True, nc_Ledger = True, nc_Unobserved = False, nc_Learners = [], nc_PromotionLag = 0,
     nc_Nodes = 3, nc_SplitThreshold = 0, nc_GCRetention = 0, nc_GCUnthrottled = False, nc_PreVote = True,
     nc_ReadIndex = True, nc_SnapshotThreshold = 0, nc_ElectionJitter = None\<rparr>"

definition demo_machine :: Node where
  "demo_machine = (case node_New demo_config Engine.New of Inr m \<Rightarrow> m)"

definition demo_replica :: Replica where
  "demo_replica = hd (nd_replicas demo_machine)"

definition demo_put :: Entry where
  "demo_put = \<lparr>e_Type = EntryNormal, e_Term = 1, e_Index = 1, e_ID = \<lparr>pid_Node = 1, pid_Seq = 1\<rparr>,
     e_Data = encodeCmd opPut [7] [1] (Timestamp 5 0)\<rparr>"

lemma demo_state:
  "\<not> closed (node_db demo_machine)" "content (node_db demo_machine) = []"
  "st_ns (n_mvcc demo_replica) = rangePrefix (n_rng demo_replica)" "n_rng demo_replica = 1"
  "map n_rng (nd_replicas demo_machine) = [1]" "n_desc demo_replica = FirstRangeDescriptor"
  "gcMark (n_mvcc demo_replica) = zeroTS"
  by code_simp+

lemma demo_ok: "apply_ok demo_replica [] demo_machine"
proof -
  have "n_rng ` set (nd_replicas demo_machine) = {1}" using arg_cong [OF demo_state(5), of set] by simp
  then show ?thesis using demo_state by (simp add: apply_ok_def)
qed

lemma demo_put_plain: "\<not> isTxnCommand (e_Data demo_put)" "\<not> isSplitCommand (e_Data demo_put)"
  by code_simp+

lemma demo_versions: "machine_versions demo_replica demo_machine = []"
  using demo_state(2) by (simp add: machine_versions_def Records_owned owned_part_def)

theorem replica_applies_the_log_witness:
  "\<exists>n mb m m'. apply_entries 0 [demo_put] (demo_replica, NewBatch, demo_machine) = Some (n, mb, m) \<and>
     flushApply mb m = Some ([], m') \<and>
     ReplayMachine birth [demo_put] = Some (n_desc n, gcMark (n_mvcc n), machine_versions n m')"
proof -
  have base: "decodeMachine birth = Some (n_desc demo_replica, gcMark (n_mvcc demo_replica), machine_versions demo_replica demo_machine)"
    unfolding demo_state(6,7) demo_versions by (rule birth_decodes)
  have "d_ID (n_desc demo_replica) = n_rng demo_replica"
    by (simp add: demo_state FirstRangeDescriptor_def FirstRange_def)
  from replica_applies_the_log [OF demo_ok this _ base, of "[demo_put]" 0] show ?thesis
    using demo_put_plain by (cases "apply_entries 0 [demo_put] (demo_replica, NewBatch, demo_machine)")
      (auto simp: splits_meet_def)
qed

lemma demo_put_run:
  assumes "apply_ok n [] m" "set es \<subseteq> {demo_put}"
  shows "\<exists>n1 b m1 m2. apply_entries at es (n, NewBatch, m) = Some (n1, b, m1) \<and> flushApply b m1 = Some ([], m2)"
proof -
  obtain n1 b m1 where r: "apply_entries at es (n, NewBatch, m) = Some (n1, b, m1)" "apply_ok n1 b m1"
    using apply_entries_runs [OF assms(1), of es at] demo_put_plain assms(2) by (auto simp: runs_def NewBatch_def)
  then show ?thesis by (metis flushApply_view)
qed

theorem snapshot_equivalence_witness:
  "\<exists>n1 b1 m1 q p1 b2 q1 q2 n2 b3 m2 m3.
     apply_entries 0 [demo_put] (demo_replica, NewBatch, demo_machine) = Some (n1, b1, m1) \<and> flushApply b1 m1 = Some ([], q) \<and>
     apply_entries 5 [demo_put] (n1, NewBatch, q) = Some (p1, b2, q1) \<and> flushApply b2 q1 = Some ([], q2) \<and>
     apply_entries 9 [demo_put, demo_put] (demo_replica, NewBatch, demo_machine) = Some (n2, b3, m2) \<and>
     flushApply b3 m2 = Some ([], m3) \<and> machine_versions p1 q2 = machine_versions n2 m3"
proof -
  have sp: "splits_meet [demo_put]" "splits_meet ([demo_put] @ [demo_put])"
    using demo_put_plain by (simp_all add: splits_meet_def)
  obtain n1 b1 m1 q where a: "apply_entries 0 [demo_put] (demo_replica, NewBatch, demo_machine) = Some (n1, b1, m1)"
    "flushApply b1 m1 = Some ([], q)" using demo_put_run [OF demo_ok, of "[demo_put]" 0] by auto
  note ok = apply_and_flush [OF demo_ok sp(1) a]
  obtain p1 b2 q1 q2 where b: "apply_entries 5 [demo_put] (n1, NewBatch, q) = Some (p1, b2, q1)" "flushApply b2 q1 = Some ([], q2)"
    using demo_put_run [OF ok(1), of "[demo_put]" 5] by auto
  obtain n2 b3 m2 m3 where c: "apply_entries 9 ([demo_put] @ [demo_put]) (demo_replica, NewBatch, demo_machine) = Some (n2, b3, m2)"
    "flushApply b3 m2 = Some ([], m3)" using demo_put_run [OF demo_ok, of "[demo_put] @ [demo_put]" 9] by auto
  from snapshot_equivalence [OF demo_ok ok(1) same_range [OF demo_ok ok] sp(2) a refl refl refl b c] show ?thesis
    using a b c by auto
qed

end
