(* ===== verification/Driver_Split.thy ===== *)
theory Driver_Split
  imports Driver_Log Txn_Log
begin

text \<open>
  What a split does to the data: every record goes to the half that owns its key, and versioned reads of a
  key are answered after the split as they were before.
\<close>

section \<open>Records in another namespace\<close>

lemma reNamespace_form: "fst r = ns @ x \<Longrightarrow> reNamespace ns ns' r = (ns' @ x, snd r)"
  by (simp add: reNamespace_def)

lemma owned_form:
  assumes "owns s k"
  obtains kind x where "kind \<in> {dataPrefix, lockPrefix, writePrefix, txnPrefix, readPrefix}" "k = st_ns s @ kind # x"
proof -
  obtain kind where kind: "kind \<in> {dataPrefix, lockPrefix, writePrefix, txnPrefix, readPrefix}" "prefix (st_ns s @ [kind]) k"
    using assms unfolding owns_prefix by blast
  then show ?thesis using that [OF kind(1)] by (auto simp: prefix_def)
qed

lemma reNamespace_sorted:
  assumes "keys_sorted rs" "\<forall>r \<in> set rs. owns s (fst r)"
  shows "keys_sorted (map (reNamespace (st_ns s) ns') rs)"
  using assms
proof (induction rs)
  case (Cons r rs)
  have "fst (reNamespace (st_ns s) ns' r) < fst (reNamespace (st_ns s) ns' q)" if q: "q \<in> set rs" for q
  proof -
    have own: "owns s (fst r)" "owns s (fst q)" using Cons.prems(2) q by auto
    obtain k x where x: "fst r = st_ns s @ k # x" by (rule owned_form [OF own(1)])
    obtain l y where y: "fst q = st_ns s @ l # y" by (rule owned_form [OF own(2)])
    have "fst r < fst q" using Cons.prems(1) q by (simp add: keys_sorted_Cons)
    then show ?thesis by (simp add: reNamespace_form [OF x] reNamespace_form [OF y] x y)
  qed
  with Cons show ?case by (auto simp: keys_sorted_Cons)
qed simp

lemma reNamespace_owned:
  assumes "owns s (fst r)" "st_ns s' = ns'"
  shows "owns s' (fst (reNamespace (st_ns s) ns' r))"
proof -
  obtain kind x where k: "kind \<in> {dataPrefix, lockPrefix, writePrefix, txnPrefix, readPrefix}" "fst r = st_ns s @ kind # x"
    by (rule owned_form [OF assms(1)])
  then show ?thesis using owns_kind [OF k(1), of s' x] by (simp add: reNamespace_form [OF k(2)] assms(2))
qed

lemma ingest_owned:
  assumes "ingest rs mark r m = Some (r', m')" "\<not> closed (node_db m)" "keys_sorted (content (node_db m))"
    "keys_sorted rs" "\<forall>x \<in> set rs. owns (n_mvcc r) (fst x)"
  shows "owned_part (n_mvcc r) (content (node_db m')) = rs" "\<not> closed (node_db m')" "keys_sorted (content (node_db m'))"
    "gcMark (n_mvcc r') = mark" "st_ns (n_mvcc r') = st_ns (n_mvcc r)" "n_rng r' = n_rng r" "n_desc r' = n_desc r"
    "nd_replicas m' = nd_replicas m"
proof -
  let ?s = "n_mvcc r" and ?b = "fst (IngestRecordsInto [] rs mark (n_mvcc r))"
  obtain n1 m1 where i: "ingest rs mark r m = Some (n1, m1)"
    "content (node_db m1) = foldl apply_op (content (node_db m)) ?b"
    "\<not> closed (node_db m1)" "keys_sorted (content (node_db m1))" "n_rng n1 = n_rng r" "n_desc n1 = n_desc r"
    "st_ns (n_mvcc n1) = st_ns ?s" "gcMark (n_mvcc n1) = mark" "nd_replicas m1 = nd_replicas m"
    by (rule ingest_run [OF assms(2,3)])
  have e: "r' = n1" "m' = m1" using i(1) assms(1) by simp_all
  show "owned_part ?s (content (node_db m')) = rs"
  proof (rule keys_sorted_ext [OF owned_sorted assms(4)])
    show "keys_sorted (content (node_db m'))" by (simp add: e i(4))
    have "map_of (content (node_db m')) = (\<lambda>k. if owns ?s k then None else map_of (content (node_db m)) k) ++ map_of rs"
      unfolding e i(2) model_keyspace.view_batch [OF assms(3)] ingest_meaning [OF keys_sorted_distinct [OF assms(4)]] by (rule refl)
    moreover have "map_of rs k = None" if "\<not> owns ?s k" for k
      using assms(5) that by (auto simp: map_of_eq_None_iff)
    ultimately show "map_of (owned_part ?s (content (node_db m'))) = map_of rs"
      by (auto simp: fun_eq_iff map_of_owned map_add_def split: option.splits)
  qed
  show "\<not> closed (node_db m')" "keys_sorted (content (node_db m'))" "gcMark (n_mvcc r') = mark"
    "st_ns (n_mvcc r') = st_ns (n_mvcc r)" "n_rng r' = n_rng r" "n_desc r' = n_desc r" "nd_replicas m' = nd_replicas m"
    using i by (simp_all add: e)
qed

lemma birth_batch_unowned: "st_ns s = rangePrefix (d_ID d) \<Longrightarrow> avoids s (birth_batch d meta data)"
  by (auto simp: birth_batch_def Set_def NewBatch_def keyDescOf_def keySnapshotOf_def owns_def nth_append
      dataPrefix_def lockPrefix_def writePrefix_def txnPrefix_def readPrefix_def)

section \<open>The right-hand range is born\<close>

lemma sink_mset: "i < length xs \<Longrightarrow> mset (sink k i xs) = mset xs"
proof (induction k i xs rule: sink.induct)
  case (2 k i xs)
  then show ?case by (cases "k (xs ! i) > k (xs ! Suc i)") (simp_all add: mset_swap [of "Suc i" xs i])
qed simp

lemma find_only: "\<forall>x \<in> set xs. P x \<longleftrightarrow> x = r \<Longrightarrow> r \<in> set xs \<Longrightarrow> find P xs = Some r"
  by (induction xs) auto

lemma addReplica_find:
  assumes "replicaOf (n_rng r) m = None"
  shows "replicaOf (n_rng r) (addReplica r m) = Some r"
proof -
  have "set (nd_replicas (addReplica r m)) = insert r (set (nd_replicas m))"
    using arg_cong [OF sink_mset [of "length (nd_replicas m)" "nd_replicas m @ [r]" n_rng], of set_mset]
    by (simp add: addReplica_def)
  moreover have "n_rng x \<noteq> n_rng r" if "x \<in> set (nd_replicas m)" for x
    using assms that by (auto simp: replicaOf_def find_None_iff)
  ultimately have "\<forall>x \<in> set (nd_replicas (addReplica r m)). n_rng x = n_rng r \<longleftrightarrow> x = r" "r \<in> set (nd_replicas (addReplica r m))"
    by auto
  then show ?thesis unfolding replicaOf_def by (rule find_only)
qed

lemma jitter_keeps:
  "jitter n m = (n', m') \<Longrightarrow> n_mvcc n' = n_mvcc n \<and> n_desc n' = n_desc n \<and> n_rng n' = n_rng n \<and> nd_db m' = nd_db m \<and>
     nd_replicas m' = nd_replicas m"
  by (auto simp: jitter_def split: option.splits)

lemma newReplicaFor_desc: "newReplicaFor d m = (Inr r, m') \<Longrightarrow> n_desc r = desc_Clone d"
  by (auto simp: newReplicaFor_def jitter_def blank_replica_def split: option.splits sum.splits prod.splits)

lemma adoptSnapshot_owned:
  assumes "adoptSnapshot meta rs mark r m = Some (r', m')" "\<not> closed (node_db m)" "keys_sorted (content (node_db m))"
    "keys_sorted rs" "\<forall>x \<in> set rs. owns (n_mvcc r) (fst x)"
  shows "owned_part (n_mvcc r) (content (node_db m')) = rs" "gcMark (n_mvcc r') = mark" "st_ns (n_mvcc r') = st_ns (n_mvcc r)"
    "n_rng r' = n_rng r" "n_desc r' = n_desc r" "nd_replicas m' = nd_replicas m" "keys_sorted (content (node_db m'))"
proof -
  obtain q n1 m1 n2 where a: "ingest rs mark (r\<lparr>n_raft := q\<rparr>) m = Some (n1, m1)" "jitter n2 m1 = (r', m')"
    "n_mvcc n2 = n_mvcc n1" "n_rng n2 = n_rng n1" "n_desc n2 = n_desc n1"
    using assms(1) by (fastforce simp: adoptSnapshot_def Let_def split: sum.splits bind_splits if_splits)
  note i = ingest_owned [OF a(1) assms(2-4)] and j = jitter_keeps [OF a(2)]
  show "owned_part (n_mvcc r) (content (node_db m')) = rs" "gcMark (n_mvcc r') = mark" "st_ns (n_mvcc r') = st_ns (n_mvcc r)"
    "n_rng r' = n_rng r" "n_desc r' = n_desc r" "nd_replicas m' = nd_replicas m" "keys_sorted (content (node_db m'))"
    using i j assms(5) a(3-5) by simp_all
qed

lemma bear_right_owned:
  assumes "bear_right left spec rs mark index at m = Some m'" "\<not> closed (node_db m)" "keys_sorted (content (node_db m))"
    "keys_sorted rs" "\<forall>x \<in> set rs. owns (NewStore (rangePrefix (d_ID (sp_Right spec)))) (fst x)"
    "replicaOf (d_ID (sp_Right spec)) m = None"
  obtains r where "replicaOf (d_ID (sp_Right spec)) m' = Some r" "n_desc r = desc_Clone (sp_Right spec)"
    "gcMark (n_mvcc r) = mark" "st_ns (n_mvcc r) = rangePrefix (d_ID (sp_Right spec))" "machine_versions r m' = rs"
    "keys_sorted (content (node_db m'))"
proof -
  let ?j = "d_ID (sp_Right spec)"
  obtain r m1 where r: "newReplicaFor (sp_Right spec) m = (Inr r, m1)"
    using assms(1) by (auto simp: bear_right_def split: prod.splits sum.splits)
  note rf = newReplicaFor_facts [OF r] newReplicaFor_desc [OF r]
  have own: "\<forall>x \<in> set rs. owns q (fst x)" if "st_ns q = rangePrefix ?j" for q
    using assms(5) owns_ns [of q "NewStore (rangePrefix ?j)"] that by simp
  obtain r1 m2 where i: "ingest rs mark r m1 = Some (r1, m2)"
    using assms(1) by (auto simp: bear_right_def r split: bind_splits)
  note io = ingest_owned [OF i _ _ assms(4) own [OF rf(2)], unfolded rf(3), OF assms(2,3)]
  obtain conf where c: "ConfigurationAt (n_raft left) index = Some (Inr conf)"
    using assms(1) by (auto simp: bear_right_def r i split: bind_splits sum.splits)
  define meta where "meta = \<lparr>sm_Index = 0, sm_Term = 0, sm_Conf = conf\<rparr>"
  define data where "data = encodeMachine (sp_Right spec) mark rs"
  obtain sq m3 where a: "replica_apply (birth_batch (sp_Right spec) meta data) True m2 = (Inr sq, m3)"
    "\<not> closed (node_db m3)" "keys_sorted (content (node_db m3))" "with_db m2 m3"
    by (rule replica_apply_content [OF io(2,3)])
  define r2 where "r2 = r1\<lparr>n_durSnap := meta\<rparr>"
  define m4 where "m4 = witness (RecordRangeBase ?j data (EncodeConfiguration conf)) (at_durable at sq m3)"
  have "bear_right left spec rs mark index at m =
      do { (r3, m5) \<leftarrow> adoptSnapshot meta rs mark r2 m4; Some ((addReplica r3 m5)\<lparr>nd_splits := nd_splits m5 + 1\<rparr>) }"
    using a(1) unfolding meta_def data_def by (simp add: bear_right_def r i c r2_def m4_def Let_def meta_def data_def)
  then obtain r3 m5 where ad: "adoptSnapshot meta rs mark r2 m4 = Some (r3, m5)"
    "m' = (addReplica r3 m5)\<lparr>nd_splits := nd_splits m5 + 1\<rparr>"
    using assms(1) by (auto split: bind_splits)
  have r2: "st_ns (n_mvcc r2) = rangePrefix ?j" "n_rng r2 = ?j" "n_desc r2 = desc_Clone (sp_Right spec)"
    using io rf by (simp_all add: r2_def)
  have m4: "\<not> closed (node_db m4)" "keys_sorted (content (node_db m4))" "nd_replicas m4 = nd_replicas m"
    using a(2,3) with_db_simps [OF a(4)] io(8) rf(4) by (simp_all add: m4_def)
  note ao = adoptSnapshot_owned [OF ad(1) m4(1,2) assms(4) own [OF r2(1)]]
  have none: "replicaOf (n_rng r3) m5 = None" using assms(6) ao r2 m4 by (simp add: replicaOf_def)
  show ?thesis
  proof (rule that)
    show "replicaOf ?j m' = Some r3"
      using addReplica_find [OF none] ao(4) r2(2) by (simp add: ad(2) replicaOf_def)
    show "machine_versions r3 m' = rs"
      using ao(1,7) owned_part_ns [of "n_mvcc r3" "n_mvcc r2"] ao(3)
      by (simp add: machine_versions_def ad(2) addReplica_def Records_owned)
    show "keys_sorted (content (node_db m'))" using ao(7) by (simp add: ad(2) addReplica_def)
  qed (use ao r2 in simp_all)
qed

section \<open>Reads of a key in another namespace\<close>

lemma EncodeKey_tail: "EncodeKey ns key ts = ns @ EncodeKey [] key ts" "KeyPrefix ns key = ns @ KeyPrefix [] key"
  by (simp_all add: EncodeKey_metaKey KeyPrefix_metaKey metaKey_def appendInvertedTS_def appendU32_def)

lemma DecodeKey_moved: "DecodeKey ns' (ns' @ x) = DecodeKey ns (ns @ x)"
proof -
  have "DecodeKey ns' (ns' @ x) = Some p \<longleftrightarrow> DecodeKey ns (ns @ x) = Some p" for p
    by (cases p) (simp add: DecodeKey_iff EncodeKey_tail(1) [of ns] EncodeKey_tail(1) [of ns'])
  then show ?thesis by (metis not_Some_eq)
qed

lemma first_entry_map: "first_entry (map f es) = map_option f (first_entry es)"
  by (cases es) simp_all

abbreviation key_chain :: "DB \<Rightarrow> Store \<Rightarrow> bytes \<Rightarrow> entry list" where
  "key_chain db s key \<equiv> filter (\<lambda>e. prefix (KeyPrefix (st_ns s) key) (fst e)) (content db)"

lemma ReadAt_moved:
  assumes "keys_sorted (content db)" "keys_sorted (content db')" "gcMark s' = gcMark s"
    "key_chain db' s' key = map (reNamespace (st_ns s) (st_ns s')) (key_chain db s key)"
  shows "fst (ReadAt db' key ts s') = fst (ReadAt db key ts s)"
proof -
  let ?f = "reNamespace (st_ns s) (st_ns s')"
  have form: "\<exists>x. fst e = st_ns s @ x \<and> ?f e = (st_ns s' @ x, snd e)" if "e \<in> set (key_chain db s key)" for e
    using that reNamespace_form [of e "st_ns s" _ "st_ns s'"] by (auto simp: EncodeKey_tail(2) [of "st_ns s"] prefix_def)
  define E where "E = first_entry (filter (\<lambda>e. EncodeKey (st_ns s) key ts \<le> fst e) (key_chain db s key))"
  have "filter (\<lambda>e. EncodeKey (st_ns s') key ts \<le> fst e) (key_chain db' s' key) =
      map ?f (filter (\<lambda>e. EncodeKey (st_ns s) key ts \<le> fst e) (key_chain db s key))"
    unfolding assms(4) filter_map
  proof (rule arg_cong [where f = "map ?f"], rule filter_cong [OF refl])
    fix e assume "e \<in> set (key_chain db s key)"
    then obtain x where x: "fst e = st_ns s @ x" "?f e = (st_ns s' @ x, snd e)" using form by blast
    then show "((\<lambda>e. EncodeKey (st_ns s') key ts \<le> fst e) \<circ> ?f) e = (EncodeKey (st_ns s) key ts \<le> fst e)"
      by (simp add: EncodeKey_tail(1) [of "st_ns s"] EncodeKey_tail(1) [of "st_ns s'"] flip: not_less)
  qed
  then have E': "first_entry (filter (\<lambda>e. EncodeKey (st_ns s') key ts \<le> fst e) (key_chain db' s' key)) = map_option ?f E"
    by (simp only: E_def first_entry_map)
  have h: "iter_Key (SeekGE (prefix_iter d (KeyPrefix (st_ns q) key)) (EncodeKey (st_ns q) key ts)) =
        map_option fst (first_entry (filter (\<lambda>e. EncodeKey (st_ns q) key ts \<le> fst e) (key_chain d q key)))"
      "iter_Value (SeekGE (prefix_iter d (KeyPrefix (st_ns q) key)) (EncodeKey (st_ns q) key ts)) =
        map_option snd (first_entry (filter (\<lambda>e. EncodeKey (st_ns q) key ts \<le> fst e) (key_chain d q key)))"
    if "keys_sorted (content d)" for d q
    using SeekGE_head [OF that] by (simp_all add: conj_commute)
  show ?thesis
  proof (cases E)
    case None
    then show ?thesis
      using h [OF assms(1), of s] h [OF assms(2), of s'] E' assms(3) by (simp add: ReadAt_def Let_def E_def)
  next
    case (Some e)
    then have "e \<in> set (key_chain db s key)"
      using first_entry_filter(2) [OF keys_sorted_filter [OF assms(1)]] unfolding E_def by blast
    then obtain x where "fst e = st_ns s @ x" "?f e = (st_ns s' @ x, snd e)" using form by blast
    then show ?thesis
      using h [OF assms(1), of s] h [OF assms(2), of s'] E' assms(3) Some DecodeKey_moved [of "st_ns s'" x "st_ns s"]
      by (simp add: ReadAt_def Let_def E_def split: option.splits)
  qed
qed

text \<open>The records of a key go, all of them, to the half that holds the key.\<close>

lemma key_chain_owned: "key_chain db s key = filter (\<lambda>e. prefix (KeyPrefix (st_ns s) key) (fst e)) (owned_part s (content db))"
  unfolding owned_part_def filter_filter
proof (rule filter_cong [OF refl])
  fix e
  have "owns s (fst e)" if "prefix (KeyPrefix (st_ns s) key) (fst e)"
    using metaKey_prefix_kind [OF that [unfolded KeyPrefix_metaKey]] unfolding owns_prefix by blast
  then show "prefix (KeyPrefix (st_ns s) key) (fst e) = (owns s (fst e) \<and> prefix (KeyPrefix (st_ns s) key) (fst e))" by blast
qed

lemma key_chain_kept:
  assumes "length key < 2 ^ 32" "desc_Contains d key"
    "owned_part s' (content db') = map (reNamespace (st_ns s) (st_ns s')) (filter (kept_by s d) (owned_part s (content db)))"
  shows "key_chain db' s' key = map (reNamespace (st_ns s) (st_ns s')) (key_chain db s key)"
proof -
  have "prefix (KeyPrefix (st_ns s') key) (fst (reNamespace (st_ns s) (st_ns s') e)) \<and> kept_by s d e \<longleftrightarrow>
      prefix (KeyPrefix (st_ns s) key) (fst e)" if "e \<in> set (owned_part s (content db))" for e
  proof -
    have "owns s (fst e)" using that by (simp add: owned_part_def)
    then obtain kind x where x: "fst e = st_ns s @ kind # x" by (rule owned_form)
    have "kept_by s d e" if p: "prefix (KeyPrefix (st_ns s) key) (fst e)"
      using p UserKeyOf_key [OF assms(1), of dataPrefix s] assms(2)
      by (auto simp: kept_by_def KeyPrefix_metaKey prefix_def)
    then show ?thesis
      using x by (auto simp: reNamespace_form [OF x] EncodeKey_tail(2) [of "st_ns s"] EncodeKey_tail(2) [of "st_ns s'"])
  qed
  then show ?thesis unfolding key_chain_owned assms(3) filter_map filter_filter o_def
    by (intro arg_cong [where f = "map _"] filter_cong) auto
qed

section \<open>Both halves of a split\<close>

lemma machine_versions_owned:
  "keys_sorted (content (node_db m)) \<Longrightarrow> machine_versions n m = owned_part (n_mvcc n) (content (node_db m))"
  by (simp add: machine_versions_def Records_owned)

lemma applySplit_halves:
  assumes "apply_ok n [] m" "halves_meet spec" "split_matches spec (n_desc n)" "replicaOf (d_ID (sp_Right spec)) m = None"
    "applySplit spec idx at n m = Some (n', m')"
  obtains r where "replicaOf (d_ID (sp_Right spec)) m' = Some r" "n_desc n' = sp_Left spec" "n_desc r = desc_Clone (sp_Right spec)"
    "gcMark (n_mvcc n') = gcMark (n_mvcc n)" "gcMark (n_mvcc r) = gcMark (n_mvcc n)"
    "st_ns (n_mvcc n') = st_ns (n_mvcc n)" "st_ns (n_mvcc r) = rangePrefix (d_ID (sp_Right spec))"
    "keys_sorted (content (node_db m'))"
    "machine_versions n' m' = filter (kept_by (n_mvcc n) (sp_Left spec)) (machine_versions n m)"
    "machine_versions r m' = map (reNamespace (st_ns (n_mvcc n)) (rangePrefix (d_ID (sp_Right spec))))
       (filter (kept_by (n_mvcc n) (sp_Right spec)) (machine_versions n m))"
proof -
  let ?s = "n_mvcc n" and ?j = "d_ID (sp_Right spec)"
  have ok: "\<not> closed (node_db m)" "keys_sorted (content (node_db m))" "st_ns ?s = rangePrefix (n_rng n)"
    "n_rng n \<in> n_rng ` set (nd_replicas m)" using assms(1) by (simp_all add: apply_ok_def)
  obtain ls vs where p: "partition_records spec ?s (machine_versions n m) = Some (ls, vs)"
    using assms(3,5) by (auto simp: applySplit_def split: bind_splits)
  note ps = partition_records_split [OF assms(2) p]
  obtain l1 m1 where i: "ingest ls (gcMark ?s) n m = Some (l1, m1)"
    using assms(3,5) p by (auto simp: applySplit_def Let_def split: bind_splits)
  have own: "\<forall>x \<in> set (machine_versions n m). owns ?s (fst x)" and srt: "keys_sorted (machine_versions n m)"
    using ok(2) by (simp_all add: machine_versions_owned owned_sorted) (simp add: owned_part_def)
  then have ls: "\<forall>x \<in> set ls. owns ?s (fst x)" "keys_sorted ls" using ps by (simp_all add: keys_sorted_filter)
  note io = ingest_owned [OF i ok(1,2) ls(2,1)]
  have none: "replicaOf ?j m1 = None" using assms(4) io(8) by (simp add: replicaOf_def)
  define l2 where "l2 = l1\<lparr>n_desc := desc_Clone (sp_Left spec)\<rparr>"
  have b: "n' = l2" "bear_right l2 spec vs (gcMark ?s) idx at m1 = Some m'"
    using assms(3,5) p i none by (auto simp: applySplit_def Let_def l2_def split: bind_splits)
  have "n_rng n \<noteq> ?j" using ok(4) assms(4) by (auto simp: replicaOf_def find_None_iff)
  moreover have "length (st_ns ?s) \<le> length (fst x)" if "x \<in> set (machine_versions n m)" for x
    using own that by (auto simp: owns_def)
  then have "\<forall>x \<in> set vs. prefix (rangePrefix ?j) (fst x)" using ps reNamespace_prefix by auto
  ultimately have fr: "frame ?s m1 m'" using bear_right_frame [OF b(2) _ ok(3)] by blast
  have vs: "keys_sorted vs" "\<forall>x \<in> set vs. owns (NewStore (rangePrefix ?j)) (fst x)"
    using ps own srt reNamespace_owned [of ?s _ "NewStore (rangePrefix ?j)" "rangePrefix ?j"]
    by (auto simp: NewStore_def intro!: reNamespace_sorted keys_sorted_filter)
  obtain r where r: "replicaOf ?j m' = Some r" "n_desc r = desc_Clone (sp_Right spec)" "gcMark (n_mvcc r) = gcMark ?s"
    "st_ns (n_mvcc r) = rangePrefix ?j" "machine_versions r m' = vs" "keys_sorted (content (node_db m'))"
    by (rule bear_right_owned [OF b(2) io(2,3) vs none])
  show ?thesis
  proof (rule that [OF r(1) _ r(2) _ r(3) _ r(4,6)])
    show "n_desc n' = sp_Left spec" using halves_meetD(1) [OF assms(2)] by (simp add: b(1) l2_def)
    show "machine_versions n' m' = filter (kept_by ?s (sp_Left spec)) (machine_versions n m)"
      using io(1-3,5) fr ps r(6) owned_part_ns [of "n_mvcc l2" ?s] by (simp add: machine_versions_owned b(1) l2_def frame_def)
  qed (use io ps r(5) in \<open>simp_all add: b(1) l2_def\<close>)
qed

lemma halves_cover:
  assumes "halves_meet spec" "split_matches spec d" "d_End (sp_Right spec) \<noteq> Some []" "desc_Contains d key"
  shows "desc_Contains (sp_Left spec) key \<longleftrightarrow> \<not> desc_Contains (sp_Right spec) key"
    "desc_Clone (sp_Right spec) = sp_Right spec"
  using assms by (auto simp: halves_meet_def split_matches_def desc_Contains_def end_bytes_def desc_Clone_def split: option.splits if_splits)

lemma owned_renamed_id: "map (reNamespace (st_ns s) (st_ns s)) (owned_part s es) = owned_part s es"
proof (rule map_idI)
  fix e assume "e \<in> set (owned_part s es)"
  then have "owns s (fst e)" by (simp add: owned_part_def)
  then obtain kind x where x: "fst e = st_ns s @ kind # x" by (rule owned_form)
  show "reNamespace (st_ns s) (st_ns s) e = e" by (simp add: reNamespace_form [OF x] flip: x)
qed


definition demo_loaded :: Node where
  "demo_loaded = snd (replica_apply (Set (Set NewBatch (EncodeKey (rangePrefix 1) [7] (Timestamp 5 0)) [1])
     (EncodeKey (rangePrefix 1) [2] (Timestamp 6 0)) [9]) True demo_machine)"

definition demo_spec :: SplitSpec where
  "demo_spec = \<lparr>sp_Key = [5], sp_Left = \<lparr>d_ID = 1, d_Start = [], d_End = Some [5], d_Epoch = d_Epoch FirstRangeDescriptor + 1\<rparr>,
     sp_Right = \<lparr>d_ID = 2, d_Start = [5], d_End = None, d_Epoch = 1\<rparr>\<rparr>"

lemma demo_loaded_ok: "apply_ok demo_replica [] demo_loaded" "replicaOf 2 demo_loaded = None"
proof -
  obtain sq where "with_db demo_machine demo_loaded" "\<not> closed (node_db demo_loaded)" "keys_sorted (content (node_db demo_loaded))"
    unfolding demo_loaded_def
    by (rule replica_apply_content [OF demo_state(1), of "Set (Set NewBatch (EncodeKey (rangePrefix 1) [7] (Timestamp 5 0)) [1])
     (EncodeKey (rangePrefix 1) [2] (Timestamp 6 0)) [9]" True]) (simp_all add: demo_state(2))
  note w = this with_db_simps [OF this(1)]
  then show "apply_ok demo_replica [] demo_loaded" using demo_ok by (simp add: apply_ok_def)
  have "2 \<notin> set (map n_rng (nd_replicas demo_loaded))" using w demo_state(5) by simp
  then show "replicaOf 2 demo_loaded = None" by (auto simp: replicaOf_def find_None_iff)
qed

lemma demo_split: "applySplit demo_spec 0 7 demo_replica demo_loaded \<noteq> None"
  "fst (ReadAt (node_db demo_loaded) [7] (Timestamp 9 0) (n_mvcc demo_replica)) = Inr (Some [1])"
  by code_simp+


end
