(* ===== verification/Driver_Inv.thy ===== *)
theory Driver_Inv
  imports Driver_Split
begin

text \<open>
  The well-formedness of a machine and its preservation by every event and order: the engine is the
  outcome of the batches applied to it, the replicas stand in ascending order of their ranges, and
  each replica's store lives in the namespace of its own range.  No event but a restart makes a machine
  host a range twice, and a restart hosts the ranges whose descriptors it reads back.
\<close>

section \<open>Well-formed machines\<close>

abbreviation node_ranges :: "Node \<Rightarrow> u64 list" where
  "node_ranges m \<equiv> map n_rng (nd_replicas m)"

definition at_home :: "Replica \<Rightarrow> bool" where
  "at_home n \<longleftrightarrow> st_ns (n_mvcc n) = rangePrefix (n_rng n)"

definition engine_wf :: "tracked \<Rightarrow> bool" where
  "engine_wf t \<longleftrightarrow> (\<exists>bs k. db_rel (tk_db t) (bs, k)) \<and> tk_visible t = VisibleSeq (tk_db t)"

definition node_wf :: "Node \<Rightarrow> bool" where
  "node_wf m \<longleftrightarrow> engine_wf (nd_db m) \<and> sorted (node_ranges m) \<and> list_all at_home (nd_replicas m)"

definition grows :: "Node \<Rightarrow> Node \<Rightarrow> bool" where
  "grows m m' \<longleftrightarrow> (node_wf m \<longrightarrow> node_wf m' \<and> set (node_ranges m) \<subseteq> set (node_ranges m') \<and>
     (distinct (node_ranges m) \<longrightarrow> distinct (node_ranges m')))"

definition steady :: "Replica \<times> Node \<Rightarrow> Replica \<times> Node \<Rightarrow> bool" where
  "steady x y \<longleftrightarrow> n_rng (fst y) = n_rng (fst x) \<and> st_ns (n_mvcc (fst y)) = st_ns (n_mvcc (fst x)) \<and> grows (snd x) (snd y)"

lemma grows_trans: "grows m m1 \<Longrightarrow> grows m1 m2 \<Longrightarrow> grows m m2"
  by (auto simp: grows_def)

lemma grows_same: "nd_db m' = nd_db m \<Longrightarrow> nd_replicas m' = nd_replicas m \<Longrightarrow> grows m m'"
  by (simp add: grows_def node_wf_def)

lemma grows_refl [simp]: "grows m m"
  by (simp add: grows_same)

lemma steady_refl [simp]: "steady x x"
  by (simp add: steady_def)

lemma steady_trans: "steady x y \<Longrightarrow> steady y z \<Longrightarrow> steady x z"
  by (auto simp: steady_def intro: grows_trans)

lemma steady_foldl: "(\<And>x a. steady x (f x a)) \<Longrightarrow> steady x (foldl f x as)"
  by (induction as arbitrary: x) (simp, metis foldl_Cons steady_trans)

lemma steady_grows: "grows m m' \<Longrightarrow> n_rng n' = n_rng n \<Longrightarrow> st_ns (n_mvcc n') = st_ns (n_mvcc n) \<Longrightarrow> steady (n, m) (n', m')"
  by (simp add: steady_def)

lemma quiet_steady: "quiet x y \<Longrightarrow> steady x y"
  by (auto simp: quiet_def steady_def intro!: grows_same)

section \<open>The engine\<close>

lemma engine_wfI: "db_rel (tk_db t) (bs, k) \<Longrightarrow> tk_visible t = length bs \<Longrightarrow> engine_wf t"
  unfolding engine_wf_def using db_rel_observed(4) by metis

lemma tk_Apply_wf: "engine_wf t \<Longrightarrow> tk_Apply b sync t = (r, t') \<Longrightarrow> engine_wf t' \<and> (\<exists>sq. r = Inr sq)"
proof -
  assume a: "engine_wf t" "tk_Apply b sync t = (r, t')"
  obtain bs k where rel: "db_rel (tk_db t) (bs, k)" using a(1) by (auto simp: engine_wf_def)
  obtain db where ap: "Apply (tk_db t) (Some b) sync = (Inr (db_seq (tk_db t) + 1), db)"
    using rel by (simp add: Apply_def db_rel_def Let_def)
  have "db_rel db (bs @ [b], k)" using db_rel_apply [OF rel, of "Some b" sync] ap by simp
  moreover have "db_seq (tk_db t) + 1 = length (bs @ [b])" using rel by (simp add: db_rel_def)
  ultimately show ?thesis
    using a(2) ap by (auto simp: tk_Apply_def intro: engine_wfI)
qed

lemma tk_Crash_wf: "engine_wf t \<Longrightarrow> engine_wf (tk_Crash t)"
proof -
  assume "engine_wf t"
  then obtain bs k where rel: "db_rel (tk_db t) (bs, k)" by (auto simp: engine_wf_def)
  then have c: "db_rel (Crash (tk_db t)) (take k bs, k)" "k \<le> length bs"
    using db_rel_step [OF rel, of EvCrash] by (simp_all add: db_rel_def)
  show ?thesis by (rule engine_wfI [of _ "take k bs" k]) (use c db_rel_observed(3) [OF c(1)] in \<open>simp_all add: tk_Crash_def Let_def\<close>)
qed

lemma AdvanceDurable_wf:
  assumes "engine_wf t" "AdvanceDurable (tk_db t) sq = Some (db, calls)"
  shows "engine_wf (t\<lparr>tk_db := db\<rparr>)"
proof -
  obtain bs k where rel: "db_rel (tk_db t) (bs, k)" using assms(1) by (auto simp: engine_wf_def)
  then have r': "db_rel db (bs, max k sq)"
    using db_rel_step [OF rel, of "EvAdvance sq"] assms(2) by (auto split: if_splits)
  show ?thesis
    using r' assms(1) db_rel_observed(4) [OF rel] by (intro engine_wfI [of _ bs]) (auto simp: engine_wf_def)
qed

lemma replica_apply_grows: "replica_apply b sync m = (r, m') \<Longrightarrow> grows m m'"
  by (auto simp: replica_apply_def grows_def node_wf_def dest: tk_Apply_wf split: prod.splits)

lemma replica_apply_keeps: "replica_apply b sync m = (r, m') \<Longrightarrow> nd_replicas m' = nd_replicas m \<and> nd_cfg m' = nd_cfg m"
  by (auto simp: replica_apply_def split: prod.splits)

lemma flushApply_grows: "flushApply b m = Some (b', m') \<Longrightarrow> grows m m'"
  by (auto simp: flushApply_def intro: replica_apply_grows split: if_splits prod.splits sum.splits)

section \<open>Replicas come and go back to their places\<close>

lemma put_replica_grows:
  assumes "steady (n, m) (n1, m1)" "n \<in> set (nd_replicas m)"
  shows "grows m (put_replica n1 m1)"
  unfolding grows_def
proof
  assume wf: "node_wf m"
  then have "node_wf m1" "at_home n" "set (node_ranges m) \<subseteq> set (node_ranges m1)" "distinct (node_ranges m) \<longrightarrow> distinct (node_ranges m1)"
    using assms by (auto simp: steady_def grows_def node_wf_def list_all_iff)
  moreover have "node_ranges (put_replica n1 m1) = node_ranges m1" by (auto simp: put_replica_def)
  moreover have "at_home n1" using \<open>at_home n\<close> assms(1) by (simp add: at_home_def steady_def)
  moreover have "nd_db (put_replica n1 m1) = nd_db m1" "set (nd_replicas (put_replica n1 m1)) \<subseteq> insert n1 (set (nd_replicas m1))"
    by (auto simp: put_replica_def)
  ultimately show "node_wf (put_replica n1 m1) \<and> set (node_ranges m) \<subseteq> set (node_ranges (put_replica n1 m1)) \<and>
      (distinct (node_ranges m) \<longrightarrow> distinct (node_ranges (put_replica n1 m1)))"
    unfolding node_wf_def list_all_iff by (metis insertE subsetD)
qed

lemma on_replica_grows:
  assumes "on_replica f n m = Some m'" "n \<in> set (nd_replicas m)" "\<And>n1 m1. f n m = Some (n1, m1) \<Longrightarrow> steady (n, m) (n1, m1)"
  shows "grows m m'"
  using assms put_replica_grows by (auto simp: on_replica_def)

lemma sink_sorted:
  fixes k :: "'a \<Rightarrow> 'k :: linorder"
  assumes "sorted (map k (a @ b))" "\<forall>x \<in> set b. k r \<le> k x"
  shows "sorted (map k (sink k (length a) (a @ r # b)))"
  using assms
proof (induction a arbitrary: b rule: rev_induct)
  case (snoc x a)
  have at: "(a @ x # r # b) ! length a = x" "(a @ x # r # b) ! Suc (length a) = r"
    "(a @ x # r # b)[length a := r, Suc (length a) := x] = a @ r # x # b"
    by (simp_all add: nth_append list_update_append)
  show ?case
  proof (cases "k x > k r")
    case True
    then show ?thesis using snoc.IH [of "x # b"] snoc.prems at by (auto simp: sorted_append)
  next
    case False
    then show ?thesis using snoc.prems at by (auto simp: sorted_append intro: order_trans)
  qed
qed (auto simp: sorted_append)

lemma addReplica_ranges: "mset (node_ranges (addReplica r m)) = add_mset (n_rng r) (mset (node_ranges m))"
  using arg_cong [OF sink_mset [of "length (nd_replicas m)" "nd_replicas m @ [r]" n_rng], of "image_mset n_rng"]
  by (simp add: addReplica_def)

lemma distinct_ranges: "distinct (node_ranges (addReplica r m)) \<longleftrightarrow> n_rng r \<notin> set (node_ranges m) \<and> distinct (node_ranges m)"
  using mset_eq_imp_distinct_iff [of "node_ranges (addReplica r m)" "n_rng r # node_ranges m"] addReplica_ranges [of r m] by simp

lemma addReplica_wf:
  assumes "at_home r" "node_wf m"
  shows "node_wf (addReplica r m) \<and> set (node_ranges m) \<subseteq> set (node_ranges (addReplica r m))"
proof -
  have s: "set (nd_replicas (addReplica r m)) = insert r (set (nd_replicas m))"
    using arg_cong [OF sink_mset [of "length (nd_replicas m)" "nd_replicas m @ [r]" n_rng], of set_mset]
    by (simp add: addReplica_def)
  have "sorted (node_ranges (addReplica r m))"
    using sink_sorted [of n_rng "nd_replicas m" "[]" r] assms(2) by (simp add: addReplica_def node_wf_def)
  then show ?thesis
    using assms s by (auto simp: node_wf_def list_all_iff) (simp add: addReplica_def)
qed

lemma addReplica_grows: "at_home r \<Longrightarrow> n_rng r \<notin> set (node_ranges m) \<Longrightarrow> grows m (addReplica r m)"
  using addReplica_wf distinct_ranges by (simp add: grows_def)

lemma newReplicaFor_home: "newReplicaFor d m = (Inr r, m') \<Longrightarrow> at_home r \<and> n_rng r = d_ID d"
  using newReplicaFor_facts by (simp add: at_home_def)

lemma newReplicaFor_grows: "newReplicaFor d m = (x, m') \<Longrightarrow> grows m m'"
  by (auto simp: newReplicaFor_def jitter_def intro!: grows_same split: option.splits sum.splits prod.splits)

lemma jitter_steady: "jitter n m = (n', m') \<Longrightarrow> steady (n, m) (n', m')"
  by (auto dest!: jitter_keeps intro!: steady_grows grows_same)

lemma ingest_steady: "ingest rs mark n m = Some (n', m') \<Longrightarrow> steady (n, m) (n', m')"
proof -
  assume a: "ingest rs mark n m = Some (n', m')"
  obtain b s sq m1 where b: "IngestRecordsInto NewBatch rs mark (n_mvcc n) = (b, s)" "replica_apply b False m = (Inr sq, m1)"
    "seedClockAtLeast (maxVersionTimestamp (st_ns s) rs) (n\<lparr>n_mvcc := s\<rparr>) m1 = (n', m')"
    using a by (auto simp: ingest_def split: prod.splits sum.splits)
  have "steady (n, m) (n\<lparr>n_mvcc := s\<rparr>, m1)"
    using b(1) replica_apply_grows [OF b(2)] by (auto simp: IngestRecordsInto_def Let_def intro!: steady_grows)
  then show ?thesis using quiet_steady [OF seedClock_quiet [OF b(3)]] steady_trans by blast
qed

lemma ingest_keeps: "ingest rs mark n m = Some (n', m') \<Longrightarrow> nd_replicas m' = nd_replicas m"
  using replica_apply_keeps seedClock_quiet
  by (fastforce simp: ingest_def quiet_def split: prod.splits sum.splits)

lemma adoptSnapshot_steady: "adoptSnapshot meta vs mark n m = Some (n', m') \<Longrightarrow> steady (n, m) (n', m')"
proof -
  assume a: "adoptSnapshot meta vs mark n m = Some (n', m')"
  obtain q n1 m1 n2 where "ingest vs mark (n\<lparr>n_raft := q\<rparr>) m = Some (n1, m1)" "jitter n2 m1 = (n', m')"
    "n_mvcc n2 = n_mvcc n1" "n_rng n2 = n_rng n1"
    using a by (fastforce simp: adoptSnapshot_def Let_def split: sum.splits bind_splits if_splits)
  with ingest_steady [OF this(1)] jitter_steady [OF this(2)] show ?thesis
    by (auto simp: steady_def intro: grows_trans)
qed

section \<open>Applying entries\<close>

lemma adoptSnapshot_keeps: "adoptSnapshot meta vs mark n m = Some (n', m') \<Longrightarrow> nd_replicas m' = nd_replicas m"
  by (auto simp: adoptSnapshot_def Let_def dest!: ingest_keeps jitter_keeps split: sum.splits bind_splits)

lemma bear_right_grows:
  assumes "bear_right left spec rs mark index at m = Some m'" "replicaOf (d_ID (sp_Right spec)) m = None"
  shows "grows m m'"
proof -
  obtain r m1 r1 m2 where r: "newReplicaFor (sp_Right spec) m = (Inr r, m1)" "ingest rs mark r m1 = Some (r1, m2)"
    using assms(1) by (auto simp: bear_right_def split: prod.splits sum.splits bind_splits)
  obtain conf where c: "ConfigurationAt (n_raft left) index = Some (Inr conf)"
    using assms(1) by (auto simp: bear_right_def r split: bind_splits sum.splits)
  define meta where "meta = \<lparr>sm_Index = 0, sm_Term = 0, sm_Conf = conf\<rparr>"
  define data where "data = encodeMachine (sp_Right spec) mark rs"
  obtain x m3 where a: "replica_apply (birth_batch (sp_Right spec) meta data) True m2 = (x, m3)" by (meson surj_pair)
  define r2 where "r2 = (case x of Inl err \<Rightarrow> r1 | Inr sq \<Rightarrow> r1\<lparr>n_durSnap := meta\<rparr>)"
  define m4 where "m4 = witness (RecordRangeBase (d_ID (sp_Right spec)) data (EncodeConfiguration conf))
    (case x of Inl err \<Rightarrow> m3 | Inr sq \<Rightarrow> at_durable at sq m3)"
  have "bear_right left spec rs mark index at m =
      do { (r3, m5) \<leftarrow> adoptSnapshot meta rs mark r2 m4; Some ((addReplica r3 m5)\<lparr>nd_splits := nd_splits m5 + 1\<rparr>) }"
    using a unfolding meta_def data_def by (cases x) (simp_all add: bear_right_def r c r2_def m4_def Let_def meta_def data_def)
  then obtain r3 m5 where ad: "adoptSnapshot meta rs mark r2 m4 = Some (r3, m5)"
    "m' = (addReplica r3 m5)\<lparr>nd_splits := nd_splits m5 + 1\<rparr>"
    using assms(1) by (auto split: bind_splits)
  have "steady (r, m1) (r1, m2)" by (rule ingest_steady [OF r(2)])
  moreover have "grows m2 m4"
    using replica_apply_grows [OF a] by (rule grows_trans) (simp add: m4_def grows_same split: sum.splits)
  then have "steady (r1, m2) (r2, m4)" by (rule steady_grows) (simp_all add: r2_def split: sum.splits)
  moreover have "steady (r2, m4) (r3, m5)" by (rule adoptSnapshot_steady [OF ad(1)])
  ultimately have st: "steady (r, m1) (r3, m5)" by (meson steady_trans)
  have "at_home r3" "n_rng r3 = d_ID (sp_Right spec)"
    using newReplicaFor_home [OF r(1)] st by (simp_all add: steady_def at_home_def)
  moreover have "nd_replicas m5 = nd_replicas m"
    using adoptSnapshot_keeps [OF ad(1)] replica_apply_keeps [OF a] ingest_keeps [OF r(2)] newReplicaFor_facts(4) [OF r(1)]
    by (simp add: m4_def split: sum.splits)
  ultimately have "grows m5 (addReplica r3 m5)"
    using assms(2) by (intro addReplica_grows) (auto simp: replicaOf_def find_None_iff)
  moreover have "grows (addReplica r3 m5) m'" by (simp add: ad(2) grows_same)
  moreover have "grows m1 m5" using st by (simp add: steady_def)
  ultimately show ?thesis using newReplicaFor_grows [OF r(1)] by (meson grows_trans)
qed

lemma applySplit_steady: "applySplit spec index at n m = Some (n', m') \<Longrightarrow> steady (n, m) (n', m')"
proof -
  assume a: "applySplit spec index at n m = Some (n', m')"
  show ?thesis
  proof (cases "split_matches spec (n_desc n)")
    case False
    then show ?thesis using a by (auto simp: applySplit_def intro!: steady_grows)
  next
    case True
    obtain ls vs l1 m1 where i: "partition_records spec (n_mvcc n) (machine_versions n m) = Some (ls, vs)"
      "ingest ls (gcMark (n_mvcc n)) n m = Some (l1, m1)"
      using a True by (auto simp: applySplit_def Let_def split: bind_splits)
    define l2 where "l2 = l1\<lparr>n_desc := desc_Clone (sp_Left spec)\<rparr>"
    have "n' = l2 \<and> grows m1 m'"
      using a True i bear_right_grows by (auto simp: applySplit_def Let_def l2_def split: bind_splits if_splits)
    then show ?thesis using ingest_steady [OF i(2)] by (auto simp: steady_def l2_def intro: grows_trans)
  qed
qed

lemma settle_entry_steady:
  "settle_entry at e ow op k v ts (n, mb, m) = Some (n', mb', m') \<Longrightarrow> steady (n, m) (n', m')"
proof (cases ow)
  case False
  assume "settle_entry at e ow op k v ts (n, mb, m) = Some (n', mb', m')"
  with False show ?thesis
    by (auto simp: settle_entry_def split: prod.splits intro: quiet_steady rerouteAt_quiet)
next
  case True
  assume a: "settle_entry at e ow op k v ts (n, mb, m) = Some (n', mb', m')"
  obtain mb1 m1 where f: "(if op = opGet then flushApply mb m else Some (mb, m)) = Some (mb1, m1)"
    using a True by (auto simp: settle_entry_def simp del: split_paired_Ex split: bind_splits if_splits)
  obtain n1 m2 where s: "answerAt e op k ts at n m1 = (n1, m2)" by (meson surj_pair)
  have e: "m' = m2" "n_rng n' = n_rng n1" "n_mvcc n' = n_mvcc n1"
    using a True f s by (auto simp: settle_entry_def)
  have "grows m m1" using f by (auto split: if_splits intro: flushApply_grows)
  then show ?thesis
    using quiet_steady [OF answerAt_quiet [OF s]] e by (auto simp: steady_def intro: grows_trans)
qed

lemma releaseLockOf_ns: "st_ns (snd (releaseLockOf db b key t s)) = st_ns s"
  by (auto simp: releaseLockOf_def split: option.splits)

lemma CommitInto_ns: "st_ns (snd (snd (CommitInto db b key st ct s))) = st_ns s"
  using releaseLockOf_ns by (auto simp: CommitInto_def split: prod.splits dest!: arg_cong [of "releaseLockOf _ _ _ _ _" _ "\<lambda>x. st_ns (snd x)"])

lemma RollbackInto_ns: "st_ns (snd (snd (RollbackInto db b key st s))) = st_ns s"
  using releaseLockOf_ns by (auto simp: RollbackInto_def split: prod.splits dest!: arg_cong [of "releaseLockOf _ _ _ _ _" _ "\<lambda>x. st_ns (snd x)"])

lemma PrewriteInto_ns: "st_ns (snd (snd (PrewriteInto db b key l v s))) = st_ns s"
  by (cases "PrewriteInto db b key l v s") (simp add: PrewriteInto_keeps)

lemma NoteReadInto_ns: "st_ns (snd (snd (NoteReadInto db b key t s))) = st_ns s"
  by (simp add: NoteReadInto_def split: option.splits)

lemma ApplyResolutionInto_ns: "st_ns (snd (snd (ApplyResolutionInto db b key l r ct s))) = st_ns s"
  by (cases r) (simp_all add: ApplyResolutionInto_def CommitInto_ns RollbackInto_ns)

lemma applyTxnTo_ns: "st_ns (snd (applyTxnTo db s b c d)) = st_ns s"
  by (simp add: applyTxnTo_def CommitInto_ns RollbackInto_ns PrewriteInto_ns NoteReadInto_ns ApplyResolutionInto_ns Let_def split: option.splits)

lemma apply_effect_ns: "apply_effect db b c n = (b', n') \<Longrightarrow> n_rng n' = n_rng n \<and> st_ns (n_mvcc n') = st_ns (n_mvcc n)"
  using applyTxnTo_ns [of db "n_mvcc n" b c "n_desc n"] by (auto simp: apply_effect_def split: prod.splits)

lemma declareDead_ns: "declareDead db b key t n = (b', n') \<Longrightarrow> n_rng n' = n_rng n \<and> n_mvcc n' = n_mvcc n"
  using declareDead_effect [of db b key t n b' n'] by (simp add: like_def)

lemma applyTxn_ns: "applyTxn db b c n = (res, b', n') \<Longrightarrow> n_rng n' = n_rng n \<and> st_ns (n_mvcc n') = st_ns (n_mvcc n)"
  unfolding applyTxn_def
  by (auto simp: apply_resolve_def split: if_splits option.splits prod.splits dest!: apply_effect_ns declareDead_ns
      dest: apply_prewrite_effect(2) apply_putTxn_effect(2) simp: like_def)

lemma apply_txn_entry_steady:
  assumes "apply_txn_entry at e (n, mb, m) = Some (n', mb', m')"
  shows "steady (n, m) (n', m')"
proof (cases "decodeTxnCommand (e_Data e)")
  case None
  then show ?thesis using assms by (simp add: apply_txn_entry_def settle_entry_steady)
next
  case (Some c)
  show ?thesis
  proof (cases "desc_Contains (n_desc n) (x_Key c)")
    case False
    then show ?thesis using assms Some by (simp add: apply_txn_entry_def settle_entry_steady)
  next
    case True
    obtain mb1 m1 where f: "flushApply mb m = Some (mb1, m1)"
      using assms Some True by (auto simp: apply_txn_entry_def split: bind_splits)
    obtain res mb2 n1 where t: "applyTxn (node_db m1) mb1 c n = (res, mb2, n1)" by (rule prod_cases3)
    obtain mb3 m2 where f2: "flushApply mb2 m1 = Some (mb3, m2)"
      using assms Some True by (auto simp: apply_txn_entry_def f t split: bind_splits)
    obtain n2 m3 where a: "answerTxn e c res at n1 m2 = (n2, m3)" by (meson surj_pair)
    have s: "settle_entry at e True opTxn (x_Key c) [] zeroTS (n2, mb3, m3) = Some (n', mb', m')"
      using assms Some True by (simp add: apply_txn_entry_def f t f2 a)
    have "steady (n, m) (n1, m2)"
      using grows_trans [OF flushApply_grows [OF f] flushApply_grows [OF f2]] applyTxn_ns [OF t] by (simp add: steady_def)
    then show ?thesis using quiet_steady [OF answerTxn_quiet [OF a]] settle_entry_steady [OF s] by (meson steady_trans)
  qed
qed

lemma apply_split_entry_steady:
  assumes "apply_split_entry at e (n, mb, m) = Some (n', mb', m')"
  shows "steady (n, m) (n', m')"
proof -
  obtain mb1 m1 where f: "flushApply mb m = Some (mb1, m1)"
    using assms by (auto simp: apply_split_entry_def split: bind_splits)
  have st: "steady (n, m) (n, m1)" using flushApply_grows [OF f] by (simp add: steady_def)
  show ?thesis
  proof (cases "decodeSplitCommand (e_Data e)")
    case None
    then show ?thesis
      using assms f settle_entry_steady by (auto simp: apply_split_entry_def intro: steady_trans [OF st])
  next
    case (Some spec)
    obtain n1 m2 where a: "applySplit spec (e_Index e) at n m1 = Some (n1, m2)"
      using assms Some f by (auto simp: apply_split_entry_def split: bind_splits)
    have "settle_entry at e True [] [] [] zeroTS (n1\<lparr>n_splitPending := False\<rparr>, mb1, m2) = Some (n', mb', m')"
      using assms Some f a by (simp add: apply_split_entry_def)
    from settle_entry_steady [OF this] have "steady (n1, m2) (n', m')" by (simp add: steady_def)
    then show ?thesis using st applySplit_steady [OF a] by (meson steady_trans)
  qed
qed

lemma AdvanceGCInto_ns: "AdvanceGCInto db b to s = (r, b', s') \<Longrightarrow> st_ns s' = st_ns s"
  by (auto simp: AdvanceGCInto_def split: if_splits prod.splits)

lemma apply_gc_entry_steady:
  assumes "apply_gc_entry at e ts (n, mb, m) = Some (n', mb', m')"
  shows "steady (n, m) (n', m')"
proof -
  obtain mb1 m1 where f: "flushApply mb m = Some (mb1, m1)"
    using assms by (auto simp: apply_gc_entry_def split: bind_splits)
  let ?n = "n\<lparr>n_gcPending := False\<rparr>"
  obtain r b s where g: "AdvanceGCInto (node_db m1) NewBatch ts (n_mvcc ?n) = (r, b, s)" by (rule prod_cases3)
  obtain n1 m2 where x: "steady (n, m1) (n1, m2)" "answerAt e [] [] ts at n1 m2 = (n', m')"
  proof (cases r)
    case (Inl err)
    then show ?thesis
      using assms g f AdvanceGCInto_ns [OF g] that [of "?n\<lparr>n_mvcc := s\<rparr>" m1]
      by (auto simp: apply_gc_entry_def steady_def split: prod.splits)
  next
    case (Inr k)
    obtain b1 m2 where f2: "flushApply b m1 = Some (b1, m2)"
      using assms g f Inr by (auto simp: apply_gc_entry_def split: bind_splits)
    show ?thesis
      using assms g f f2 Inr AdvanceGCInto_ns [OF g] flushApply_grows [OF f2]
        that [of "?n\<lparr>n_mvcc := s, n_gcApplied := n_gcApplied ?n + 1, n_versionsCollected := n_versionsCollected ?n + k\<rparr>" m2]
      by (auto simp: apply_gc_entry_def steady_def split: prod.splits)
  qed
  have "steady (n, m) (n, m1)" using flushApply_grows [OF f] by (simp add: steady_def)
  then show ?thesis using x(1) quiet_steady [OF answerAt_quiet [OF x(2)]] by (meson steady_trans)
qed

lemma steady_from: "steady (n1, m) y \<Longrightarrow> n_rng n1 = n_rng n \<Longrightarrow> st_ns (n_mvcc n1) = st_ns (n_mvcc n) \<Longrightarrow> steady (n, m) y"
  by (simp add: steady_def)

lemma apply_cmd_entry_steady:
  assumes "apply_cmd_entry at e (n, mb, m) = Some (n', mb', m')"
  shows "steady (n, m) (n', m')"
proof -
  have put: "PutInto mb k ts v s = (r, mb1, s') \<Longrightarrow> st_ns s' = st_ns s" for k ts v s r mb1 s'
    by (auto simp: PutInto_def split: if_splits)
  show ?thesis
    using assms unfolding apply_cmd_entry_def
    by (auto split: prod.splits if_splits option.splits dest!: apply_gc_entry_steady settle_entry_steady put simp: steady_def)
qed

lemma apply_entry_steady:
  assumes "apply_entry at e (n, mb, m) = Some (n', mb', m')"
  shows "steady (n, m) (n', m')"
proof -
  have "n_rng (arm_count e n) = n_rng n" "n_mvcc (arm_count e n) = n_mvcc n" for n by (simp_all add: arm_count_def)
  then show ?thesis
    using assms unfolding apply_entry_def Let_def
    by (auto split: if_splits intro: steady_from [OF apply_txn_entry_steady] steady_from [OF apply_split_entry_steady]
        steady_from [OF apply_cmd_entry_steady] steady_from [OF settle_entry_steady])
qed

lemma apply_entries_steady: "apply_entries at es (n, mb, m) = Some (n', mb', m') \<Longrightarrow> steady (n, m) (n', m')"
  by (induction es arbitrary: n mb m) (auto split: bind_splits dest!: apply_entry_steady intro: steady_trans)

section \<open>Draining\<close>

lemma hlc_Now_quiet: "hlc_Now n m = (t, n', m') \<Longrightarrow> quiet (n, m) (n', m')"
  by (auto simp: hlc_Now_def phys_Wall_def quiet_def split: prod.splits option.splits)

lemma grows_out [simp]:
  "grows m (at_durable at sq m1) = grows m m1" "grows m (witness ev m1) = grows m m1" "grows m (emit x m1) = grows m m1"
  "grows (at_durable at sq m) m1 = grows m m1" "grows (witness ev m) m1 = grows m m1" "grows (emit x m) m1 = grows m m1"
  by (simp_all add: grows_def node_wf_def)

lemma propose_keeps: "propose data n c = Some (ok, pid, n') \<Longrightarrow> n_rng n' = n_rng n \<and> n_mvcc n' = n_mvcc n"
  by (auto simp: propose_def Let_def split: bind_splits)

lemma maybeGC_steady: "maybeGC n m = Some (n', m') \<Longrightarrow> steady (n, m) (n', m')"
  unfolding maybeGC_def Let_def
  by (auto split: if_splits prod.splits bind_splits dest!: propose_keeps hlc_Now_quiet quiet_steady simp: steady_def)

lemma maybeSplit_steady: "maybeSplit n m = Some (n', m') \<Longrightarrow> steady (n, m) (n', m')"
  unfolding maybeSplit_def Let_def nextRangeID_def
  by (auto split: if_splits option.splits prod.splits bind_splits dest!: propose_keeps intro!: steady_grows grows_same)

lemma maybeSnapshot_steady: "maybeSnapshot at n m = Some (n', m') \<Longrightarrow> steady (n, m) (n', m')"
  unfolding maybeSnapshot_def Let_def
  by (auto split: if_splits sum.splits prod.splits bind_splits dest!: replica_apply_grows
      intro!: steady_grows)

lemma drain_apply_steady: "drain_apply at es n m = Some (n', m') \<Longrightarrow> steady (n, m) (n', m')"
proof (cases "es = []")
  case False
  assume a: "drain_apply at es n m = Some (n', m')"
  obtain n1 mb m1 where e: "apply_entries at es (n, NewBatch, m) = Some (n1, mb, m1)"
    using a False by (auto simp: drain_apply_def split: bind_splits)
  obtain mb' m2 where f: "flushApply mb m1 = Some (mb', m2)" using a False e by (auto simp: drain_apply_def split: bind_splits)
  obtain n2 m3 where g: "maybeGC n1 m2 = Some (n2, m3)" using a False e f by (auto simp: drain_apply_def split: bind_splits)
  define m4 where "m4 = witness (RecordApplied (n_rng n2) (nc_Ordinal (nd_cfg m3)) es at) m3"
  define n3 where "n3 = n2\<lparr>n_applied := lastIndexOf es, n_raft := AckApplied (lastIndexOf es) (n_raft n2)\<rparr>"
  obtain n4 m5 where s: "maybeSnapshot at n3 m4 = Some (n4, m5)"
    using a False e f g by (auto simp: drain_apply_def m4_def n3_def Let_def split: bind_splits)
  have "maybeSplit n4 m5 = Some (n', m')"
    using a False e f g s by (simp add: drain_apply_def m4_def n3_def)
  moreover have "steady (n1, m1) (n1, m2)" using flushApply_grows [OF f] by (simp add: steady_def)
  moreover have "steady (n2, m3) (n3, m4)" by (rule steady_grows) (simp_all add: m4_def n3_def)
  ultimately show ?thesis
    using apply_entries_steady [OF e] maybeGC_steady [OF g] maybeSnapshot_steady [OF s] maybeSplit_steady by (meson steady_trans)
qed (simp add: drain_apply_def)

lemma write_install_steady: "steady (n, m) (write_install at sm meta data vs mark n m)"
  by (auto simp: write_install_def split: prod.splits sum.splits dest!: replica_apply_grows intro!: steady_grows intro: grows_trans)

lemma drain_snapshot_steady: "drain_snapshot at rd n m = Some (n', m') \<Longrightarrow> steady (n, m) (n', m')"
proof (cases "rd_Snapshot rd")
  case (Some sn)
  assume a: "drain_snapshot at rd n m = Some (n', m')"
  obtain d t vs where d: "decodeMachine (s_Data sn) = Some (d, t, vs)" using a Some by (auto simp: drain_snapshot_def split: option.splits)
  define meta where "meta = \<lparr>sm_Index = s_Index sn, sm_Term = s_Term sn, sm_Conf = s_Conf sn\<rparr>"
  obtain n1 m1 where w: "write_install at (rd_SnapMark rd) meta (s_Data sn) vs t n m = (n1, m1)" by (meson surj_pair)
  obtain n2 m2 where i: "ingest vs t (n1\<lparr>n_writtenLast := sm_Index meta\<rparr>) m1 = Some (n2, m2)"
    using a Some d w unfolding drain_snapshot_def meta_def by (auto simp: Let_def split: bind_splits)
  have "n_rng n' = n_rng n2" "n_mvcc n' = n_mvcc n2" "grows m2 m'"
    using a Some d w i unfolding drain_snapshot_def meta_def by (auto simp: Let_def)
  then show ?thesis
    using write_install_steady [of n m at "rd_SnapMark rd" meta "s_Data sn" vs t] ingest_steady [OF i] w
    by (auto simp: steady_def intro: grows_trans)
qed (simp add: drain_snapshot_def)

lemma drain_persist_steady: "drain_persist at rd n m = (n', m') \<Longrightarrow> steady (n, m) (n', m')"
  by (auto simp: drain_persist_def Let_def split: if_splits prod.splits sum.splits dest!: replica_apply_grows
      intro!: steady_grows intro: grows_trans)

lemma send_message_steady: "steady x (send_message at x msg)"
  by (cases x) (auto simp: send_message_def Let_def steady_def split: prod.splits dest!: hlc_Now_quiet quiet_steady)

lemma send_snapshot_to_steady: "steady x (send_snapshot_to at x to)"
  by (cases x) (auto simp: send_snapshot_to_def send_message_steady split: option.splits)

lemma ReadLatest_ns: "ReadLatest db key s = (v, s') \<Longrightarrow> st_ns s' = st_ns s"
  by (auto simp: ReadLatest_def Let_def split: option.splits prod.splits)

lemma serve_read_steady: "steady (snd x) (snd (serve_read at x q))"
  by (cases x) (auto simp: serve_read_def rerouteReadAt_def steady_def split: prod.splits dest!: ReadLatest_ns intro!: grows_same)

lemma serveReadyReads_steady: "serveReadyReads at n m = (n', m') \<Longrightarrow> steady (n, m) (n', m')"
proof -
  assume a: "serveReadyReads at n m = (n', m')"
  have "steady (snd x) (snd (foldl (serve_read at) x qs))" for x qs
  proof (induction qs arbitrary: x)
    case (Cons q qs)
    show ?case using steady_trans [OF serve_read_steady [of x at q] Cons.IH [of "serve_read at x q"]] by simp
  qed simp
  from this [of "([], n, m)" "n_pendingReads n"] a show ?thesis
    by (auto simp: serveReadyReads_def steady_def split: prod.splits)
qed

lemma drain_once_steady: "drain_once at (n, m) = Some y \<Longrightarrow> steady (n, m) y"
proof -
  assume a: "drain_once at (n, m) = Some y"
  obtain rd r where rd: "ready (n_raft n) = Some (rd, r)" using a by (auto simp: drain_once_def split: bind_splits)
  obtain n1 m1 where s: "drain_snapshot at rd (n\<lparr>n_raft := r\<rparr>) m = Some (n1, m1)"
    using a rd by (auto simp: drain_once_def split: bind_splits)
  obtain n2 m2 where p: "drain_persist at rd n1 m1 = (n2, m2)" by (meson surj_pair)
  obtain n3 m3 where t: "foldl (send_snapshot_to at) (n2, m2) (rd_SnapshotTo rd) = (n3, m3)" by (meson surj_pair)
  obtain n4 m4 where g: "foldl (send_message at) (n3, m3) (rd_Messages rd) = (n4, m4)" by (meson surj_pair)
  obtain n5 m5 where d: "drain_apply at (rd_Committed rd) n4 m4 = Some (n5, m5)"
    "y = serveReadyReads at (takeReadStates (rd_ReadStates rd) n5) m5"
    using a rd s p t g by (auto simp: drain_once_def split: bind_splits if_splits)
  have "steady (n, m) (n1, m1)" using drain_snapshot_steady [OF s] by (simp add: steady_def)
  moreover have "steady (n1, m1) (n2, m2)" by (rule drain_persist_steady [OF p])
  moreover have "steady (n2, m2) (n3, m3)" using steady_foldl [of "send_snapshot_to at" "(n2, m2)"] send_snapshot_to_steady t by metis
  moreover have "steady (n3, m3) (n4, m4)" using steady_foldl [of "send_message at" "(n3, m3)"] send_message_steady g by metis
  moreover have "steady (n4, m4) (n5, m5)" by (rule drain_apply_steady [OF d(1)])
  moreover have "steady (n5, m5) y"
    using serveReadyReads_steady [of at "takeReadStates (rd_ReadStates rd) n5" m5 "fst y" "snd y"]
    by (simp add: d(2) steady_def takeReadStates_def)
  ultimately show ?thesis by (meson steady_trans)
qed

lemma drain_loop_steady:
  assumes "drain_loop at x = Some y"
  shows "steady x y"
proof (rule drain_loop.raw_induct [where P = "\<lambda>_. steady", OF _ assms])
  fix loop at st y
  assume IH: "\<And>at st y. loop at st = Some y \<Longrightarrow> steady st y"
    and e: "(if HasReady (n_raft (fst st)) then drain_once at st \<bind> loop at else Some st) = Some y"
  show "steady st y"
  proof (cases "HasReady (n_raft (fst st))")
    case True
    with e obtain st' where d: "drain_once at st = Some st'" "loop at st' = Some y" by (auto split: bind_splits)
    then have "steady st st'" using drain_once_steady [of at "fst st" "snd st" st'] by simp
    then show ?thesis using IH [OF d(2)] by (rule steady_trans)
  qed (use e in simp)
qed

lemma drain_steady:
  assumes "drain at n m = Some (n', m')"
  shows "steady (n, m) (n', m')"
proof -
  obtain n1 m1 where l: "drain_loop at (n, m) = Some (n1, m1)" using assms unfolding drain_def by (cases "drain_loop at (n, m)") auto
  have "m' = m1" "n_rng n' = n_rng n1" "n_mvcc n' = n_mvcc n1"
    using assms unfolding drain_def l by (auto split: if_splits)
  with drain_loop_steady [OF l] show ?thesis by (simp add: steady_def)
qed

lemma drain_from_grows:
  assumes "drain_from i at m = Some m'"
  shows "grows m m'"
proof (rule drain_from.raw_induct [where P = "\<lambda>_ _. grows", OF _ assms])
  fix loop i at m m'
  assume IH: "\<And>i at m m'. loop i at m = Some m' \<Longrightarrow> grows m m'"
    and e: "(if i < length (nd_replicas m) then on_replica (drain at) (nd_replicas m ! i) m \<bind> loop (i + 1) at else Some m) = Some m'"
  show "grows m m'"
  proof (cases "i < length (nd_replicas m)")
    case True
    with e obtain m1 where "on_replica (drain at) (nd_replicas m ! i) m = Some m1" "loop (i + 1) at m1 = Some m'"
      by (auto split: bind_splits)
    then show ?thesis
      using IH on_replica_grows [of "drain at" "nd_replicas m ! i" m m1] True drain_steady by (meson grows_trans nth_mem)
  qed (use e in simp)
qed

section \<open>Completions, messages and clients\<close>

lemma fold_write_keeps: "fold_write w n = Some n' \<Longrightarrow> n_rng n' = n_rng n \<and> n_mvcc n' = n_mvcc n"
  by (auto simp: fold_write_def Let_def split: bind_splits)

lemma fold_pending_keeps: "fold_pending sq ws n = Some n' \<Longrightarrow> n_rng n' = n_rng n \<and> n_mvcc n' = n_mvcc n"
  by (induction ws arbitrary: n) (auto split: if_splits bind_splits dest!: fold_write_keeps)

lemma cross_check_keeps: "cross_check n m = Some n' \<Longrightarrow> n_rng n' = n_rng n \<and> n_mvcc n' = n_mvcc n"
  by (auto simp: cross_check_def Let_def split: if_splits bind_splits)

lemma replica_onDurable_keeps:
  assumes "replica_onDurable sq at n m = Some (n', m')"
  shows "n_rng n' = n_rng n" "n_mvcc n' = n_mvcc n" "nd_db m' = nd_db m" "nd_replicas m' = nd_replicas m"
proof -
  obtain n1 where f: "fold_pending sq (n_pending n) n = Some n1" using assms by (auto simp: replica_onDurable_def split: bind_splits)
  let ?kept = "filter (\<lambda>w. \<not> pw_seq w \<le> sq) (n_pending n)"
  obtain n2 where c: "cross_check (n1\<lparr>n_pending := ?kept, n_ackedSeq := (if sq > n_ackedSeq n1 then sq else n_ackedSeq n1)\<rparr>) m = Some n2"
    using assms f by (auto simp: replica_onDurable_def Let_def split: bind_splits)
  have "n_rng n' = n_rng n2 \<and> n_mvcc n' = n_mvcc n2 \<and> nd_db m' = nd_db m \<and> nd_replicas m' = nd_replicas m"
    using assms f c by (auto simp: replica_onDurable_def Let_def split: bind_splits)
  then show "n_rng n' = n_rng n" "n_mvcc n' = n_mvcc n" "nd_db m' = nd_db m" "nd_replicas m' = nd_replicas m"
    using fold_pending_keeps [OF f] cross_check_keeps [OF c] by simp_all
qed

lemma durable_all_keeps:
  "durable_all sq at ns m = Some (ns', m') \<Longrightarrow> map n_rng ns' = map n_rng ns \<and> (list_all at_home ns \<longrightarrow> list_all at_home ns') \<and>
     nd_db m' = nd_db m \<and> nd_replicas m' = nd_replicas m"
proof (induction ns arbitrary: m ns')
  case (Cons n ns)
  obtain n1 m1 ns1 where d: "replica_onDurable sq at n m = Some (n1, m1)" "durable_all sq at ns m1 = Some (ns1, m')" "ns' = n1 # ns1"
    using Cons.prems by (auto split: bind_splits)
  then show ?case using Cons.IH [OF d(2)] replica_onDurable_keeps [OF d(1)] by (simp add: at_home_def)
qed simp

lemma node_durable_grows:
  assumes "node_durable sq at m = Some m'"
  shows "grows m m'"
proof -
  obtain db calls where a: "AdvanceDurable (node_db m) sq = Some (db, calls)"
    using assms by (auto simp: node_durable_def split: option.splits)
  obtain ns m1 where d: "durable_all sq at (nd_replicas m) (m\<lparr>nd_db := (nd_db m)\<lparr>tk_db := db\<rparr>\<rparr>) = Some (ns, m1)"
    "m' = m1\<lparr>nd_replicas := ns\<rparr>"
    using assms a by (auto simp: node_durable_def split: bind_splits)
  show ?thesis
    using durable_all_keeps [OF d(1)] AdvanceDurable_wf [OF _ a] arg_cong [of "map n_rng ns" _ set]
    by (auto simp: grows_def node_wf_def d(2))
qed

lemma tick_all_keeps: "tick_all ns = Some ns' \<Longrightarrow> map n_rng ns' = map n_rng ns \<and> map n_mvcc ns' = map n_mvcc ns"
  by (induction ns arbitrary: ns') (auto split: bind_splits)

lemma replicas_grow:
  assumes "map n_rng ns = node_ranges m" "list_all at_home (nd_replicas m) \<Longrightarrow> list_all at_home ns"
  shows "grows m (m\<lparr>nd_replicas := ns\<rparr>)"
  using assms by (auto simp: grows_def node_wf_def dest: arg_cong [of _ _ set])

lemma homes: "map n_rng ns' = map n_rng ns \<Longrightarrow> map n_mvcc ns' = map n_mvcc ns \<Longrightarrow> list_all at_home ns \<Longrightarrow> list_all at_home ns'"
proof (induction ns arbitrary: ns')
  case (Cons n ns)
  then show ?case by (cases ns') (auto simp: at_home_def)
qed simp

lemma step_replica_steady: "step_replica msg ts at n m = Some (n', m') \<Longrightarrow> steady (n, m) (n', m')"
  by (auto simp: step_replica_def Let_def split: prod.splits bind_splits dest!: hlc_Update_quiet quiet_steady simp: steady_def)

lemma replicaOf_member: "replicaOf i m = Some n \<Longrightarrow> n \<in> set (nd_replicas m)"
  unfolding replicaOf_def by (metis find_Some_iff nth_mem)

lemma replicaFor_member: "replicaFor k m = Some n \<Longrightarrow> n \<in> set (nd_replicas m)"
  unfolding replicaFor_def by (metis find_Some_iff nth_mem)

lemma leaderReplica_member: "leaderReplica m = Some n \<Longrightarrow> n \<in> set (nd_replicas m)"
  unfolding leaderReplica_def by (metis find_Some_iff nth_mem)

lemma deliver_grows: "deliver buf at m = Some x \<Longrightarrow> grows m (case x of Inl m1 \<Rightarrow> m1 | Inr m1 \<Rightarrow> m1)"
  by (auto simp: deliver_def split: sum.splits option.splits
      elim!: on_replica_grows dest: replicaOf_member step_replica_steady)

lemma replica_onClient_steady: "replica_onClient req at n m = Some (n', m') \<Longrightarrow> steady (n, m) (n', m')"
  unfolding replica_onClient_def Let_def
  by (auto split: if_splits option.splits prod.splits bind_splits dest!: propose_keeps hlc_Now_quiet quiet_steady simp: steady_def)

lemma node_onClient_grows: "node_onClient req at m = Some m' \<Longrightarrow> grows m m'"
  by (auto simp: node_onClient_def split: option.splits if_splits
      elim!: on_replica_grows dest: replicaFor_member replica_onClient_steady intro: grows_same)

section \<open>Crash and recovery\<close>

lemma crash_grows: "grows m (crash m)"
  using tk_Crash_wf homes [of "map onCrash (nd_replicas m)" "nd_replicas m"]
  by (auto simp: grows_def node_wf_def crash_def onCrash_def comp_def)

lemma restartFrom_steady:
  assumes "restartFrom st n m = Some (n', m')"
  shows "steady (n, m) (n', m')"
proof -
  obtain n1 where a: "record_or_adopt st n = Some n1" using assms by (auto simp: restartFrom_def split: bind_splits)
  obtain r n2 where c: "check_conf st (n1\<lparr>n_raft := r\<rparr>) = Some n2" "restartFrom st n m = do {
     (n3, m1) \<leftarrow> ingest (rc_versions st) (rc_mark st) n2 m;
     let n4 = (if sm_Index (rc_snap st) > n_applied n3 then n3\<lparr>n_applied := sm_Index (rc_snap st)\<rparr> else n3);
     d \<leftarrow> recovered_extent st n4;
     Some (jitter (n4\<lparr>n_desc := d, n_down := False, n_writtenLast := written_through n4\<rparr>) m1) }"
    using assms a by (auto simp: restartFrom_def split: bind_splits)
  have k: "n_rng n2 = n_rng n" "n_mvcc n2 = n_mvcc n"
    using a c(1) by (auto simp: record_or_adopt_def check_conf_def Let_def split: if_splits option.splits)
  obtain n3 m1 where i: "ingest (rc_versions st) (rc_mark st) n2 m = Some (n3, m1)"
    using assms c(2) by (auto split: bind_splits)
  obtain n5 where j: "jitter n5 m1 = (n', m')" "n_rng n5 = n_rng n3" "n_mvcc n5 = n_mvcc n3"
    using assms c(2) i by (fastforce simp: Let_def split: bind_splits if_splits)
  show ?thesis
    using ingest_steady [OF i] jitter_steady [OF j(1)] k j(2,3) by (auto simp: steady_def intro: grows_trans)
qed

lemma restart_all_keeps:
  "restart_all xs m = Some (ns, m') \<Longrightarrow> map n_rng ns = map (\<lambda>x. n_rng (snd x)) xs \<and>
     (list_all (\<lambda>x. at_home (snd x)) xs \<longrightarrow> list_all at_home ns) \<and> grows m m'"
proof (induction xs arbitrary: m ns)
  case (Cons x xs)
  obtain st n where x: "x = (st, n)" by (cases x)
  obtain n1 m1 ns1 where r: "restartFrom st n m = Some (n1, m1)" "restart_all xs m1 = Some (ns1, m')" "ns = n1 # ns1"
    using Cons.prems x by (auto split: bind_splits)
  then show ?case
    using Cons.IH [OF r(2)] restartFrom_steady [OF r(1)] x by (auto simp: steady_def at_home_def intro: grows_trans)
qed simp

lemma read_all_keeps:
  "read_all_recovered ns m = Some xs \<Longrightarrow> map (\<lambda>x. n_rng (snd x)) xs = map n_rng ns \<and>
     (list_all at_home ns \<longrightarrow> list_all (\<lambda>x. at_home (snd x)) xs)"
  by (induction ns arbitrary: xs) (auto simp: readRecovered_def Let_def at_home_def split: bind_splits)

lemma find_member: "find P xs = Some x \<Longrightarrow> x \<in> set xs \<and> P x"
  by (induction xs) (auto split: if_splits)

lemma keep_replicas_home:
  assumes "keep_replicas ds kept old m = Some (kept', m')" "list_all at_home kept" "list_all at_home old"
  shows "list_all at_home kept' \<and> map n_rng kept' = map n_rng kept @ map d_ID ds \<and> nd_db m' = nd_db m"
  using assms
proof (induction ds kept old m rule: keep_replicas.induct)
  case (2 d ds kept old m)
  obtain r m1 where r: "(case find (\<lambda>r. n_rng r = d_ID d) old of Some r \<Rightarrow> Some (r, m)
      | None \<Rightarrow> (case newReplicaFor d m of (Inl err, m1) \<Rightarrow> None | (Inr r, m1) \<Rightarrow> Some (r, m1))) = Some (r, m1)"
    "keep_replicas ds (kept @ [r\<lparr>n_desc := d\<rparr>]) (old[length kept := r\<lparr>n_desc := d\<rparr>]) m1 = Some (kept', m')"
    using 2(2) by (auto simp: Let_def split: bind_splits)
  have h: "at_home r \<and> n_rng r = d_ID d \<and> nd_db m1 = nd_db m"
  proof (cases "find (\<lambda>r. n_rng r = d_ID d) old")
    case None
    then show ?thesis using r(1) newReplicaFor_home newReplicaFor_facts(3) by (auto split: prod.splits sum.splits)
  next
    case (Some x)
    then show ?thesis using r(1) 2(4) find_member [OF Some] by (auto simp: list_all_iff)
  qed
  then have "at_home (r\<lparr>n_desc := d\<rparr>)" by (simp add: at_home_def)
  then have "list_all at_home (kept @ [r\<lparr>n_desc := d\<rparr>])" "list_all at_home (old[length kept := r\<lparr>n_desc := d\<rparr>])"
    using 2(3,4) set_update_subset_insert [of old "length kept" "r\<lparr>n_desc := d\<rparr>"] by (auto simp: list_all_iff)
  from 2(1) [OF r(1) refl refl r(2) this] show ?case using h by simp
qed simp

lemma add_all_wf:
  assumes "node_wf m" "list_all at_home rs"
  shows "node_wf (foldl (\<lambda>m r. addReplica r m) m rs) \<and>
    mset (node_ranges (foldl (\<lambda>m r. addReplica r m) m rs)) = mset (node_ranges m) + mset (map n_rng rs)"
  using assms
proof (induction rs arbitrary: m)
  case (Cons r rs)
  then show ?case using Cons.IH [of "addReplica r m"] addReplica_wf [of r m] addReplica_ranges [of r m] by simp
qed simp

lemma Recover_wf:
  assumes "node_wf m" "Recover m = Some m'"
  shows "node_wf m'" "mset (node_ranges m') = mset (map d_ID (readDescriptors m))"
proof -
  obtain kept m1 where k: "keep_replicas (readDescriptors m) [] (nd_replicas m) m = Some (kept, m1)"
    using assms(2) by (auto simp: Recover_def split: bind_splits)
  define m2 where "m2 = (foldl (\<lambda>m r. addReplica r m) (m1\<lparr>nd_replicas := []\<rparr>) kept)\<lparr>nd_down := False\<rparr>"
  obtain xs where x: "read_all_recovered (nd_replicas m2) m2 = Some xs"
    using assms(2) k by (auto simp: Recover_def m2_def Let_def split: bind_splits)
  obtain ns m3 where r: "restart_all xs m2 = Some (ns, m3)" "m' = m3\<lparr>nd_replicas := ns\<rparr>"
    using assms(2) k x by (auto simp: Recover_def m2_def split: bind_splits)
  have h: "list_all at_home kept" "map n_rng kept = map d_ID (readDescriptors m)" "nd_db m1 = nd_db m"
    using keep_replicas_home [OF k] assms(1) by (simp_all add: node_wf_def)
  have "node_wf (m1\<lparr>nd_replicas := []\<rparr>)" using h(3) assms(1) by (simp add: node_wf_def)
  from add_all_wf [OF this h(1)] have wf2: "node_wf m2" "mset (node_ranges m2) = mset (map d_ID (readDescriptors m))"
    unfolding h(2) by (simp_all add: m2_def node_wf_def)
  then have "grows m2 m3 \<and> map n_rng ns = node_ranges m2 \<and> list_all at_home ns"
    using restart_all_keeps [OF r(1)] read_all_keeps [OF x] by (auto simp: node_wf_def)
  then show "node_wf m'" "mset (node_ranges m') = mset (map d_ID (readDescriptors m))"
    using wf2 by (auto simp: grows_def node_wf_def r(2))
qed

text \<open>
  A descriptor is written once, at the birth of its range and under the key of that range.  Where every
  descriptor in the engine stands under its own key, reading them back gives no range twice.
\<close>

definition own_keyed :: "DB \<Rightarrow> bool" where
  "own_keyed db \<longleftrightarrow> (\<forall>e \<in> set (content db). \<forall>d. isDescKey (fst e) \<and> decodeDesc (snd e) = Some d \<longrightarrow> fst e = keyDescOf (d_ID d))"

lemma map_filter_keyed:
  assumes "distinct (map fst es)" "\<And>e d. e \<in> set es \<Longrightarrow> f e = Some d \<Longrightarrow> fst e = g (h d)"
  shows "distinct (map h (List.map_filter f es))"
  using assms
proof (induction es)
  case (Cons e es)
  have "h d \<notin> h ` set (List.map_filter f es)" if d: "f e = Some d" for d
  proof
    assume "h d \<in> h ` set (List.map_filter f es)"
    then obtain x y where x: "x \<in> set es" "f x = Some y" "h y = h d" by (auto simp: map_filter_def)
    then have "fst x = fst e" using Cons.prems(2) [of x y] Cons.prems(2) [of e d] d by simp
    then show False using Cons.prems(1) x(1) by (metis distinct.simps(2) image_eqI list.simps(9) set_map)
  qed
  then show ?case using Cons by (auto simp: map_filter_simps split: option.splits)
qed (simp add: map_filter_simps)

lemma engine_sorted: "engine_wf t \<Longrightarrow> keys_sorted (content (tk_db t))"
  using model_keyspace.ok_batch [of "[]"] by (auto simp: engine_wf_def ver_of_def dest!: db_rel_visible)

lemma readDescriptors_distinct:
  assumes "engine_wf (nd_db m)" "own_keyed (node_db m)"
  shows "distinct (map d_ID (readDescriptors m))"
proof -
  let ?f = "\<lambda>e. if isDescKey (fst e) then decodeDesc (snd e) else None"
  let ?es = "iter_rest (First (fst (NewIter (node_db m) (Some [0x72, 0x2F]) (Some [0x72, 0x30]))))"
  have es: "?es = filter (\<lambda>e. InRange (fst e) (Some [0x72, 0x2F]) (Some [0x72, 0x30])) (content (node_db m))"
    using First_rest [OF engine_sorted [OF assms(1)]] by (simp add: NewIter_def)
  then have "distinct (map fst ?es)"
    using keys_sorted_distinct [OF keys_sorted_filter [OF engine_sorted [OF assms(1)]]] by simp
  moreover have "fst e = keyDescOf (d_ID d)" if "e \<in> set ?es" "?f e = Some d" for e d
    using assms(2) that unfolding es own_keyed_def by (auto split: if_splits)
  ultimately have "distinct (map d_ID (List.map_filter ?f ?es))" by (rule map_filter_keyed)
  then show ?thesis by (auto simp: readDescriptors_def Let_def FirstRangeDescriptor_def list_ex_iff)
qed

section \<open>Every event and every order\<close>

text \<open>What a restart reads back: the engine as a crash leaves it, or left it.\<close>

definition left_down :: "Node \<Rightarrow> Node" where
  "left_down m = (if nd_down m then m else crash m)"

lemma restart_wf:
  assumes "restart m = Some m'" "node_wf m"
  shows "node_wf m'" "mset (node_ranges m') = mset (map d_ID (readDescriptors (left_down m)))"
    "own_keyed (node_db (left_down m)) \<longrightarrow> distinct (node_ranges m')"
proof -
  let ?m = "(left_down m)\<lparr>nd_epoch := eg_Advance (nd_epoch (left_down m))\<rparr>"
  have wf: "node_wf ?m" using assms(2) crash_grows [of m] by (simp add: left_down_def grows_def node_wf_def)
  have rd: "readDescriptors ?m = readDescriptors (left_down m)" by (simp add: readDescriptors_def)
  have "Recover ?m = Some m'" using assms(1) by (simp add: restart_def left_down_def Let_def)
  note r = Recover_wf [OF wf this, unfolded rd]
  show "node_wf m'" "mset (node_ranges m') = mset (map d_ID (readDescriptors (left_down m)))" by (rule r)+
  show "own_keyed (node_db (left_down m)) \<longrightarrow> distinct (node_ranges m')"
    using readDescriptors_distinct [of "left_down m"] mset_eq_imp_distinct_iff [OF r(2)] wf by (simp add: node_wf_def)
qed

lemma drainAll_grows: "drainAll at m = Some m' \<Longrightarrow> grows m m'"
  by (auto simp: drainAll_def intro: drain_from_grows split: if_splits)

lemma handle_kind_grows:
  assumes "handle_kind ev at m = Some x" "ev \<noteq> KindRestart"
  shows "grows m (case x of Inl m1 \<Rightarrow> m1 | Inr m1 \<Rightarrow> m1)"
proof (cases ev)
  case KindTick
  then show ?thesis
    using assms(1) tick_all_keeps homes
    by (auto simp: handle_kind_def intro!: replicas_grow split: if_splits)
next
  case (KindDeliver buf)
  then show ?thesis using assms(1) deliver_grows by (auto simp: handle_kind_def split: if_splits)
next
  case (KindDurable epoch sq)
  have g: "grows m (m\<lparr>nd_epoch := g\<rparr>)" for g by (simp add: grows_same)
  have "grows m m'" if "node_durable sq at (m\<lparr>nd_epoch := g\<rparr>) = Some m'" for g m'
    using grows_trans [OF g node_durable_grows [OF that]] .
  then show ?thesis using assms(1) KindDurable g
    by (auto simp: handle_kind_def split: if_splits prod.splits bool.splits)
next
  case (KindClient req)
  then show ?thesis using assms(1) node_onClient_grows by (auto simp: handle_kind_def split: if_splits)
qed (use assms crash_grows in \<open>auto simp: handle_kind_def\<close>)

lemma Handle_restart: "Handle KindRestart at m = Some m' \<longleftrightarrow> restart m = Some m'"
  by (cases "restart m") (simp_all add: Handle_def handle_kind_def)

lemma Handle_grows:
  assumes "Handle ev at m = Some m'" "ev \<noteq> KindRestart"
  shows "grows m m'"
proof -
  obtain x where x: "handle_kind ev at m = Some x" using assms(1) by (auto simp: Handle_def split: bind_splits)
  show ?thesis
    using assms(1) x handle_kind_grows [OF x assms(2)] drainAll_grows grows_trans
    by (cases x) (auto simp: Handle_def)
qed

lemma proposeConf_keeps: "proposeConf ch n c = Some (ok, n') \<Longrightarrow> n_rng n' = n_rng n \<and> n_mvcc n' = n_mvcc n"
  by (auto simp: proposeConf_def Let_def split: bind_splits option.splits)

lemma RequestTransfer_keeps: "RequestTransfer to n c = Some (ok, n') \<Longrightarrow> n_rng n' = n_rng n \<and> n_mvcc n' = n_mvcc n"
  by (auto simp: RequestTransfer_def split: if_splits bind_splits)

lemma RequestConfChange_keeps: "RequestConfChange to n c = Some n' \<Longrightarrow> n_rng n' = n_rng n \<and> n_mvcc n' = n_mvcc n"
  by (auto simp: RequestConfChange_def Let_def split: if_splits dest!: proposeConf_keeps)

lemma RequestMove_keeps: "RequestMove from to b n c = Some (ok, n') \<Longrightarrow> n_rng n' = n_rng n \<and> n_mvcc n' = n_mvcc n"
  by (auto simp: RequestMove_def Let_def split: if_splits option.splits dest!: proposeConf_keeps RequestTransfer_keeps)

lemma put_back_grows:
  "n \<in> set (nd_replicas m) \<Longrightarrow> n_rng n' = n_rng n \<and> n_mvcc n' = n_mvcc n \<Longrightarrow> grows m (put_replica n' m)"
  using put_replica_grows [of n m n' m] by (simp add: steady_def)

lemma orders_grow:
  "node_RequestTransfer to m = Some (ok, m') \<Longrightarrow> grows m m'" "node_RequestConfChange to m = Some m' \<Longrightarrow> grows m m'"
  "node_RequestMove i from to b m = Some (ok, m') \<Longrightarrow> grows m m'"
  "node_Now m = (t, m') \<Longrightarrow> grows m m'" "NowAbove lb m = (t, m') \<Longrightarrow> grows m m'"
proof -
  show "node_RequestTransfer to m = Some (ok, m') \<Longrightarrow> grows m m'"
    by (auto simp: node_RequestTransfer_def split: option.splits intro!: put_back_grows dest!: leaderReplica_member RequestTransfer_keeps)
  show "node_RequestConfChange to m = Some m' \<Longrightarrow> grows m m'"
    by (auto simp: node_RequestConfChange_def split: option.splits intro!: put_back_grows dest!: leaderReplica_member RequestConfChange_keeps)
  show "node_RequestMove i from to b m = Some (ok, m') \<Longrightarrow> grows m m'"
    by (auto simp: node_RequestMove_def split: option.splits intro!: put_back_grows dest!: replicaOf_member RequestMove_keeps)
  have now: "grows m (put_replica n2 m2)" if "n \<in> set (nd_replicas m)" "steady (n, m) (n1, m1)" "hlc_Now n1 m1 = (t, n2, m2)" for n n1 m1 n2 m2 t
    using put_replica_grows [OF steady_trans [OF that(2) quiet_steady [OF hlc_Now_quiet [OF that(3)]]] that(1)] .
  show "node_Now m = (t, m') \<Longrightarrow> grows m m'"
    using now [OF _ steady_refl] by (auto simp: node_Now_def split: if_splits list.splits prod.splits)
  show "grows m m'" if a: "NowAbove lb m = (t, m')"
  proof (cases "nd_down m \<or> nd_replicas m = []")
    case True
    then show ?thesis using a by (auto simp: NowAbove_def split: list.splits)
  next
    case False
    then obtain n ns where n: "nd_replicas m = n # ns" by (cases "nd_replicas m") auto
    obtain n1 m1 where u: "(if IsSet lb then hlc_Update lb n m else (n, m)) = (n1, m1)" by (meson surj_pair)
    obtain t1 n2 m2 where h: "hlc_Now n1 m1 = (t1, n2, m2)" by (rule prod_cases3)
    have "steady (n, m) (n1, m1)" using u quiet_steady [OF hlc_Update_quiet] by (auto split: if_splits)
    moreover have "m' = put_replica n2 m2" using a False n u h by (simp add: NowAbove_def)
    ultimately show ?thesis using now [of n, OF _ _ h] n by simp
  qed
qed

text \<open>The runs of a machine over a fresh engine: events at any instants and orders from the outside.\<close>

inductive machine_moves :: "Node \<Rightarrow> Node \<Rightarrow> bool" where
  event: "Handle ev at m = Some m' \<Longrightarrow> machine_moves m m'"
| transfer: "node_RequestTransfer to m = Some (ok, m') \<Longrightarrow> machine_moves m m'"
| conf_change: "node_RequestConfChange to m = Some m' \<Longrightarrow> machine_moves m m'"
| move: "node_RequestMove i from to b m = Some (ok, m') \<Longrightarrow> machine_moves m m'"
| now: "node_Now m = (t, m') \<Longrightarrow> machine_moves m m'"
| now_above: "NowAbove lb m = (t, m') \<Longrightarrow> machine_moves m m'"

inductive machine_run :: "NodeConfig \<Rightarrow> Node \<Rightarrow> bool" for c where
  start: "node_New c Engine.New = Inr m \<Longrightarrow> machine_run c m"
| move: "machine_run c m \<Longrightarrow> machine_moves m m' \<Longrightarrow> machine_run c m'"

lemma moves_grow: "machine_moves m m' \<Longrightarrow> grows m m' \<or> restart m = Some m'"
proof (induction rule: machine_moves.induct)
  case (event ev at m m')
  then show ?case using Handle_grows [OF event] Handle_restart [of at m m'] by (cases "ev = KindRestart") simp_all
qed (simp_all add: orders_grow)

lemma node_New_wf:
  assumes "node_New c Engine.New = Inr m"
  shows "node_wf m"
proof -
  obtain mm where mm: "newMachine c = Inr mm" using assms by (auto simp: node_New_def split: sum.splits)
  define m0 where "m0 = mm\<lparr>nd_db := \<lparr>tk_db = Engine.New, tk_visible = 0\<rparr>\<rparr>"
  obtain r m1 where r: "newReplicaFor FirstRangeDescriptor m0 = (Inr r, m1)"
    using assms by (auto simp: node_New_def mm m0_def Let_def split: sum.splits prod.splits if_splits)
  have n: "nd_db m = nd_db m1" "nd_replicas m = [r]"
    using assms r by (auto simp: node_New_def mm m0_def Let_def split: if_splits)
  have "engine_wf \<lparr>tk_db = Engine.New, tk_visible = 0\<rparr>" using db_rel_New by (intro engine_wfI) simp_all
  then show ?thesis
    using n newReplicaFor_facts(3) [OF r] newReplicaFor_home [OF r] by (simp add: node_wf_def m0_def)
qed

lemma machine_run_wf: "machine_run c m \<Longrightarrow> node_wf m"
proof (induction rule: machine_run.induct)
  case (move m m')
  then show ?case using moves_grow [OF move(2)] restart_wf(1) by (auto simp: grows_def)
qed (rule node_New_wf)

lemma homes_apart:
  assumes "at_home r" "at_home q" "owns (n_mvcc r) k" "owns (n_mvcc q) k"
  shows "n_rng r = n_rng q"
  using assms owns_in_namespace [of "n_mvcc r" k] owns_in_namespace [of "n_mvcc q" k] rangePrefix_unique [of "n_rng r" k "n_rng q"]
  by (auto simp: at_home_def)

text \<open>
  C6: A machine stays well-formed through every event, order, crash and restart, with no condition on
  what arrives: its engine is the outcome of the batches applied to it, its replicas stand in
  ascending order of their ranges, and each replica's store lives in the namespace of its own range,
  so a record belongs to replicas of one range only.  A machine that hosts no range twice goes on doing
  so through every move that is not a restart.  A restart hosts precisely the ranges whose descriptors
  it reads back from the engine the crash left, each as often as it is read, and no range twice where
  every descriptor stands under the key of its own range.
\<close>

theorem machine_stays_well_formed:
  assumes "machine_run c m"
  shows "node_wf m \<and>
    (\<forall>r q k. r \<in> set (nd_replicas m) \<and> q \<in> set (nd_replicas m) \<and> owns (n_mvcc r) k \<and> owns (n_mvcc q) k \<longrightarrow> n_rng r = n_rng q) \<and>
    (\<forall>m'. machine_moves m m' \<and> distinct (node_ranges m) \<longrightarrow> distinct (node_ranges m') \<or> restart m = Some m') \<and>
    (\<forall>m'. restart m = Some m' \<longrightarrow> mset (node_ranges m') = mset (map d_ID (readDescriptors (left_down m))) \<and>
       (own_keyed (node_db (left_down m)) \<longrightarrow> distinct (node_ranges m')))"
proof -
  have wf: "node_wf m" by (rule machine_run_wf [OF assms])
  have "n_rng r = n_rng q" if "r \<in> set (nd_replicas m)" "q \<in> set (nd_replicas m)" "owns (n_mvcc r) k" "owns (n_mvcc q) k" for r q k
    using wf that by (intro homes_apart) (auto simp: node_wf_def list_all_iff)
  moreover have "distinct (node_ranges m') \<or> restart m = Some m'" if "machine_moves m m'" "distinct (node_ranges m)" for m'
    using moves_grow [OF that(1)] wf that(2) by (auto simp: grows_def)
  ultimately show ?thesis using wf restart_wf(2,3) [OF _ wf] by blast
qed

lemma demo_started: "isl (node_New demo_config Engine.New) = False" "Handle KindCrash 3 demo_machine = Some (crash demo_machine)"
  "map_option (\<lambda>m. node_ranges m) (restart (crash demo_machine)) = Some [1]" "content (node_db (left_down (crash demo_machine))) = []"
  by (code_simp, simp add: Handle_def handle_kind_def, code_simp, code_simp)

theorem machine_stays_well_formed_witness:
  "\<exists>m. restart (crash demo_machine) = Some m \<and> distinct (node_ranges m) \<and> node_wf (crash demo_machine) \<and>
     mset (node_ranges m) = mset (map d_ID (readDescriptors (left_down (crash demo_machine))))"
proof -
  obtain m where m: "node_New demo_config Engine.New = Inr m" using demo_started(1) by (cases "node_New demo_config Engine.New") auto
  then have "machine_run demo_config demo_machine" unfolding demo_machine_def by (simp add: machine_run.start)
  then have run: "machine_run demo_config (crash demo_machine)"
    using machine_moves.event [OF demo_started(2)] by (rule machine_run.move)
  obtain m' where m': "restart (crash demo_machine) = Some m'" using demo_started(3) by auto
  have "own_keyed (node_db (left_down (crash demo_machine)))" by (simp add: own_keyed_def demo_started(4))
  then show ?thesis using machine_stays_well_formed [OF run] m' by blast
qed

end
