(* ===== verification/Driver_Cut.thy ===== *)
theory Driver_Cut
  imports Driver_Split
begin

text \<open>
  Where a split cuts a range.  The keys of a range come in the order of the engine, which puts a
  shorter key before a longer one, and the cut is the middle one of that list; the halves compare
  keys byte by byte.
\<close>

section \<open>The keys of a range in engine order\<close>

definition engine_before :: "bytes \<Rightarrow> bytes \<Rightarrow> bool" where
  "engine_before x y \<longleftrightarrow> length x < length y \<or> length x = length y \<and> x < y"

lemma EncodeKey_before:
  assumes "EncodeKey ns k t < EncodeKey ns k' t'" "length k < 2 ^ 32" "length k' < 2 ^ 32"
  shows "k = k' \<or> engine_before k k'"
proof -
  have u: "unat (of_nat n :: u32) = n" if "n < 2 ^ 32" for n using that by (simp add: unat_of_nat take_bit_nat_eq_self)
  have len: "(of_nat (length k) :: u32) < of_nat (length k') \<longleftrightarrow> length k < length k'"
    "(of_nat (length k) :: u32) = of_nat (length k') \<longleftrightarrow> length k = length k'"
    using u [OF assms(2)] u [OF assms(3)] by (simp_all add: word_less_nat_alt) metis
  show ?thesis
    using assms(1) len
    by (auto simp: EncodeKey_metaKey metaKey_def appendU32_def appendInvertedTS_def list_append_less_same_length
        be_bytes_less_iff be_bytes_inject engine_before_def)
qed

lemma versions_loop_keys:
  assumes "keys_sorted es" "\<forall>e \<in> set es. stamped ns dataPrefix (fst e)"
  shows "sorted_wrt (\<lambda>v w. v_Key v = v_Key w \<or> engine_before (v_Key v) (v_Key w)) (versions_loop ns es)"
    "\<And>v. v \<in> set (versions_loop ns es) \<Longrightarrow> (EncodeKey ns (v_Key v) (v_At v), v_Value v) \<in> set es \<and> length (v_Key v) < 2 ^ 32"
proof -
  show mem: "(EncodeKey ns (v_Key v) (v_At v), v_Value v) \<in> set es \<and> length (v_Key v) < 2 ^ 32"
    if "v \<in> set (versions_loop ns es)" for v es
    using that by (induction es) (auto simp: DecodeKey_iff split: option.splits)
  show "sorted_wrt (\<lambda>v w. v_Key v = v_Key w \<or> engine_before (v_Key v) (v_Key w)) (versions_loop ns es)"
    using assms
  proof (induction es)
    case (Cons e es)
    have "EncodeKey ns (v_Key v) (v_At v) < EncodeKey ns (v_Key w) (v_At w)" if "DecodeKey ns (fst e) = Some (v_Key v, v_At v)" "w \<in> set (versions_loop ns es)" for v w
      using mem [OF that(2)] that(1) Cons.prems(1) by (force simp: DecodeKey_iff keys_sorted_Cons)
    then show ?case
      using Cons mem EncodeKey_before by (fastforce simp: keys_sorted_Cons DecodeKey_iff split: option.splits)
  qed simp
qed

lemma before_order: "engine_before x y \<Longrightarrow> engine_before y z \<Longrightarrow> engine_before x z" "\<not> engine_before x x"
  "engine_before x y \<or> x = y \<or> engine_before y x"
  by (auto simp: engine_before_def)

lemma keys_loop_sorted:
  assumes "sorted_wrt engine_before acc" "sorted_wrt (\<lambda>x y. x = y \<or> engine_before x y) (acc @ map v_Key vs)"
  shows "sorted_wrt engine_before (keys_loop acc vs) \<and> set (keys_loop acc vs) = set acc \<union> v_Key ` set vs"
  using assms
proof (induction vs arbitrary: acc)
  case (Cons v vs)
  show ?case
  proof (cases "acc = [] \<or> last acc \<noteq> v_Key v")
    case True
    have "engine_before k (v_Key v)" if k: "k \<in> set acc" for k
    proof -
      have "k = last acc \<or> engine_before k (last acc)"
        using k Cons.prems(1) by (cases acc rule: rev_cases) (auto simp: sorted_wrt_append)
      moreover have "engine_before (last acc) (v_Key v)"
        using k True Cons.prems(2) by (auto simp: sorted_wrt_append) (metis last_in_set empty_iff list.set(1))
      ultimately show ?thesis using before_order(1) by blast
    qed
    then have "sorted_wrt engine_before (acc @ [v_Key v])" using Cons.prems(1) by (simp add: sorted_wrt_append)
    from Cons.IH [OF this] Cons.prems(2) True show ?thesis by (auto simp: last_conv_nth)
  next
    case False
    then have "v_Key v \<in> set acc" using last_in_set by metis
    moreover have "sorted_wrt (\<lambda>x y. x = y \<or> engine_before x y) (acc @ map v_Key vs)"
      using Cons.prems(2) by (simp add: sorted_wrt_append)
    ultimately show ?thesis using Cons.IH [OF Cons.prems(1)] False by (auto simp: last_conv_nth)
  qed
qed simp

lemma Versions_scan:
  assumes "keys_sorted (content db)"
  shows "Versions db s = versions_loop (st_ns s) (filter (\<lambda>e. prefix (st_ns s @ [dataPrefix]) (fst e)) (owned_part s (content db)))"
proof -
  have "owns s k" if "prefix (st_ns s @ [dataPrefix]) k" for k using that unfolding owns_prefix by blast
  from filter_owned [OF this] show ?thesis by (simp add: Versions_def prefix_iter_rest(1) [OF assms])
qed

lemma Keys_sorted:
  assumes "store_ok (st_ns s) (content db)"
  shows "sorted_wrt engine_before (Keys db s)" "set (Keys db s) = v_Key ` set (Versions db s)"
proof -
  let ?es = "filter (\<lambda>e. prefix (st_ns s @ [dataPrefix]) (fst e)) (owned_part s (content db))"
  have srt: "keys_sorted (content db)" using assms by (simp add: store_ok_def)
  have es: "keys_sorted ?es" "\<forall>e \<in> set ?es. stamped (st_ns s) dataPrefix (fst e)"
    using assms by (auto simp: store_ok_def rec_ok_def owned_part_def intro!: keys_sorted_filter)
  have "sorted_wrt (\<lambda>x y. x = y \<or> engine_before x y) ([] @ map v_Key (Versions db s))"
    using versions_loop_keys(1) [OF es] by (simp add: Versions_scan [OF srt] sorted_wrt_map)
  from keys_loop_sorted [OF _ this]
  show "sorted_wrt engine_before (Keys db s)" "set (Keys db s) = v_Key ` set (Versions db s)" by (simp_all add: Keys_def)
qed

lemma nth_before:
  assumes "sorted_wrt engine_before ks" "a \<in> set ks"
  shows "card {k \<in> set ks. engine_before k a} < length ks \<and> ks ! card {k \<in> set ks. engine_before k a} = a"
proof -
  obtain xs ys where ks: "ks = xs @ a # ys" using split_list [OF assms(2)] by blast
  then have srt: "\<forall>x \<in> set xs. engine_before x a" "\<forall>y \<in> set ys. engine_before a y" "sorted_wrt engine_before xs"
    using assms(1) by (auto simp: sorted_wrt_append)
  have "\<not> engine_before y a" if "y \<in> set ys" for y using srt(2) that before_order(1) [of a y a] before_order(2) by blast
  then have "{k \<in> set ks. engine_before k a} = set xs" using srt(1) before_order(2) unfolding ks by auto
  moreover have "distinct xs" using srt(3) before_order(2) by (induction xs) auto
  ultimately show ?thesis using ks by (simp add: distinct_card)
qed

section \<open>The cut\<close>

text \<open>
  A least key that half of the keys are shorter than stands in the middle of the engine's order.
\<close>

lemma cut_at_least:
  assumes "store_ok (st_ns s) (content db)" "a \<in> set (Keys db s)" "\<forall>k \<in> set (Keys db s). a \<le> k"
    "card {k \<in> set (Keys db s). length k < length a} = length (Keys db s) div 2" "2 \<le> length (Keys db s)"
  shows "splitKeyFor (Keys db s) = Some a"
proof -
  have "{k \<in> set (Keys db s). engine_before k a} = {k \<in> set (Keys db s). length k < length a}"
    using assms(3) by (auto simp: engine_before_def)
  then have "Keys db s ! (length (Keys db s) div 2) = a"
    using nth_before [OF Keys_sorted(1) [OF assms(1)] assms(2)] assms(4) by simp
  then show ?thesis using assms(5) by (simp add: splitKeyFor_def)
qed

lemma versions_moved:
  assumes "\<forall>e \<in> set es. owns s (fst e)"
  shows "versions_loop ns (filter (\<lambda>e. prefix (ns @ [dataPrefix]) (fst e)) (map (reNamespace (st_ns s) ns) es)) =
    versions_loop (st_ns s) (filter (\<lambda>e. prefix (st_ns s @ [dataPrefix]) (fst e)) es)"
  using assms
proof (induction es)
  case (Cons e es)
  have "owns s (fst e)" using Cons.prems by simp
  then obtain kind x where x: "fst e = st_ns s @ kind # x" by (rule owned_form)
  then show ?case
    using Cons DecodeKey_moved [of ns "kind # x" "st_ns s"] by (auto simp: reNamespace_form [OF x] x split: option.split)
qed simp

lemma partition_covers:
  "partition_records spec s rs = Some p \<Longrightarrow> e \<in> set rs \<Longrightarrow> UserKeyOf s (fst e) = Some k \<Longrightarrow> kept_by s (sp_Left spec) e \<or> kept_by s (sp_Right spec) e"
  by (induction rs arbitrary: p) (auto simp: kept_by_def split: option.splits if_splits)

lemma data_record_key:
  assumes "store_ok (st_ns s) (content db)" "e \<in> set (owned_part s (content db))" "prefix (st_ns s @ [dataPrefix]) (fst e)"
  obtains k where "UserKeyOf s (fst e) = Some k" "k \<in> set (Keys db s)"
proof -
  have "stamped (st_ns s) dataPrefix (fst e)" using assms by (auto simp: store_ok_def rec_ok_def owned_part_def)
  then obtain k t where k: "fst e = EncodeKey (st_ns s) k t" "length k < 2 ^ 32" unfolding stamped_def EncodeKey_metaKey by blast
  have "v \<in> set (versions_loop ns es)" if "x \<in> set es" "DecodeKey ns (fst x) = Some (v_Key v, v_At v)" "v_Value v = snd x" for v ns x es
    using that by (induction es) (auto split: option.splits)
  from this [of e _ "st_ns s" "\<lparr>v_Key = k, v_At = t, v_Value = snd e\<rparr>"]
  have "\<lparr>v_Key = k, v_At = t, v_Value = snd e\<rparr> \<in> set (Versions db s)"
    using assms k by (simp add: Versions_scan store_ok_def DecodeKey_iff)
  then have "k \<in> set (Keys db s)" unfolding Keys_sorted(2) [OF assms(1)] by force
  then show ?thesis using that UserKeyOf_keys(2) [OF k(2), of s t] by (simp add: k(1))
qed

text \<open>
  C31: The middle of the keys in engine order need not be their median.  When exactly
  half of the keys of a range, rounded down, are shorter than its least key, the range is cut at that key: the left half of the applied split
  holds no key and the right half holds every key of the range again.
\<close>

theorem split_can_strand_keys:
  assumes "apply_ok n [] m" "store_ok (st_ns (n_mvcc n)) (content (node_db m))"
    "a \<in> set (Keys (node_db m) (n_mvcc n))" "\<forall>k \<in> set (Keys (node_db m) (n_mvcc n)). a \<le> k"
    "card {k \<in> set (Keys (node_db m) (n_mvcc n)). length k < length a} = length (Keys (node_db m) (n_mvcc n)) div 2"
    "2 \<le> length (Keys (node_db m) (n_mvcc n))"
    "replicaOf i m = None" "applySplit (split_spec (n_desc n) a i) idx at n m = Some (n', m')"
  shows "splitKeyFor (Keys (node_db m) (n_mvcc n)) = Some a \<and> Keys (node_db m') (n_mvcc n') = [] \<and>
    (\<exists>r. replicaOf i m' = Some r \<and> Keys (node_db m') (n_mvcc r) = Keys (node_db m) (n_mvcc n))"
proof -
  let ?s = "n_mvcc n" and ?spec = "split_spec (n_desc n) a i" and ?data = "\<lambda>ns (e :: entry). prefix (ns @ [dataPrefix]) (fst e)"
  have srt: "keys_sorted (content (node_db m))" using assms(1) by (simp add: apply_ok_def)
  have "a \<noteq> []" using assms(5,6) by auto
  then have spec: "halves_meet ?spec" "split_matches ?spec (n_desc n)" "d_ID (sp_Right ?spec) = i" "d_End (sp_Left ?spec) = Some a"
    by (auto simp: halves_meet_def split_matches_def split_spec_def clone_bound_def desc_Clone_def end_bytes_def split: option.splits)
  obtain p where p: "partition_records ?spec ?s (machine_versions n m) = Some p"
    using assms(8) spec(2) by (auto simp: applySplit_def split: bind_splits)
  obtain r where r: "replicaOf i m' = Some r" "st_ns (n_mvcc n') = st_ns ?s" "st_ns (n_mvcc r) = rangePrefix i"
    "keys_sorted (content (node_db m'))" "machine_versions n' m' = filter (kept_by ?s (sp_Left ?spec)) (machine_versions n m)"
    "machine_versions r m' = map (reNamespace (st_ns ?s) (rangePrefix i)) (filter (kept_by ?s (sp_Right ?spec)) (machine_versions n m))"
    using applySplit_halves [OF assms(1) spec(1,2) _ assms(8)] spec(3) assms(7) by metis
  have sides: "\<not> kept_by ?s (sp_Left ?spec) e" "kept_by ?s (sp_Right ?spec) e"
    if e: "e \<in> set (machine_versions n m)" "?data (st_ns ?s) e" for e
  proof -
    obtain k where k: "UserKeyOf ?s (fst e) = Some k" "k \<in> set (Keys (node_db m) ?s)"
      by (rule data_record_key [OF assms(2) e(1) [unfolded machine_versions_owned [OF srt]] e(2)])
    then show "\<not> kept_by ?s (sp_Left ?spec) e" using assms(4) spec(4) by (auto simp: kept_by_def desc_Contains_def not_less split: if_splits)
    then show "kept_by ?s (sp_Right ?spec) e" using partition_covers [OF p e(1) k(1)] by blast
  qed
  have ver: "Versions (node_db m') (n_mvcc x) = versions_loop (st_ns (n_mvcc x)) (filter (?data (st_ns (n_mvcc x))) (machine_versions x m'))" for x
    by (simp add: Versions_scan r(4) machine_versions_owned)
  have "filter (?data (st_ns ?s)) (machine_versions n' m') = []"
    using sides(1) by (auto simp: r(5) filter_empty_conv)
  then have "Versions (node_db m') (n_mvcc n') = []" using ver [of n'] r(2) by simp
  moreover have "Versions (node_db m') (n_mvcc r) = Versions (node_db m) ?s"
  proof -
    have "\<forall>e \<in> set (filter (kept_by ?s (sp_Right ?spec)) (machine_versions n m)). owns ?s (fst e)"
      by (simp add: machine_versions_owned [OF srt] owned_part_def)
    moreover have "filter (?data (st_ns ?s)) (filter (kept_by ?s (sp_Right ?spec)) (machine_versions n m)) =
        filter (?data (st_ns ?s)) (machine_versions n m)"
      using sides(2) by (auto simp: filter_filter intro!: filter_cong)
    ultimately show ?thesis
      using versions_moved [of _ ?s "rangePrefix i"] ver [of r] r(3,6) by (simp add: Versions_scan srt machine_versions_owned)
  qed
  ultimately show ?thesis using cut_at_least [OF assms(2-6)] r(1) by (simp add: Keys_def)
qed

text \<open>A range that holds the keys b and aa.\<close>

definition demo_pair :: Batch where
  "demo_pair = Set (Set NewBatch (EncodeKey (rangePrefix 1) [0x61, 0x61] (Timestamp 1 0)) [1]) (EncodeKey (rangePrefix 1) [0x62] (Timestamp 2 0)) [2]"

definition demo_holder :: Node where
  "demo_holder = snd (replica_apply demo_pair True demo_machine)"

lemma demo_holder_ok: "apply_ok demo_replica [] demo_holder" "replicaOf 2 demo_holder = None"
proof -
  obtain sq where "with_db demo_machine demo_holder" "\<not> closed (node_db demo_holder)" "keys_sorted (content (node_db demo_holder))"
    unfolding demo_holder_def by (rule replica_apply_content [OF demo_state(1), of demo_pair True]) (simp_all add: demo_state(2))
  note w = this with_db_simps [OF this(1)]
  then show "apply_ok demo_replica [] demo_holder" using demo_ok by (simp add: apply_ok_def)
  have "2 \<notin> set (map n_rng (nd_replicas demo_holder))" using w demo_state(5) by simp
  then show "replicaOf 2 demo_holder = None" by (auto simp: replicaOf_def find_None_iff)
qed

lemma demo_holder_keys:
  "Keys (node_db demo_holder) (n_mvcc demo_replica) = [[0x62], [0x61, 0x61]]"
  "content (node_db demo_holder) = [(EncodeKey (rangePrefix 1) [0x62] (Timestamp 2 0), [2]), (EncodeKey (rangePrefix 1) [0x61, 0x61] (Timestamp 1 0), [1])]"
  "applySplit (split_spec (n_desc demo_replica) [0x61, 0x61] 2) 0 7 demo_replica demo_holder \<noteq> None"
  by code_simp+

theorem split_can_strand_keys_witness:
  "\<exists>n' m' r. applySplit (split_spec (n_desc demo_replica) [0x61, 0x61] 2) 0 7 demo_replica demo_holder = Some (n', m') \<and>
     Keys (node_db m') (n_mvcc n') = [] \<and> replicaOf 2 m' = Some r \<and> Keys (node_db m') (n_mvcc r) = [[0x62], [0x61, 0x61]]"
proof -
  obtain n' m' where s: "applySplit (split_spec (n_desc demo_replica) [0x61, 0x61] 2) 0 7 demo_replica demo_holder = Some (n', m')"
    using demo_holder_keys(3) by auto
  have ns: "st_ns (n_mvcc demo_replica) = rangePrefix 1" by (simp add: demo_state)
  have "keys_sorted (content (node_db demo_holder))" using demo_holder_ok(1) by (simp add: apply_ok_def)
  then have ok: "store_ok (st_ns (n_mvcc demo_replica)) (content (node_db demo_holder))"
    unfolding ns demo_holder_keys(2) by (simp add: store_ok_def rec_ok_written ts_ok_def)
  have "{k \<in> set (Keys (node_db demo_holder) (n_mvcc demo_replica)). length k < length [0x61, 0x61 :: byte]} = {[0x62]}"
    unfolding demo_holder_keys(1) by auto
  then show ?thesis
    using split_can_strand_keys [OF demo_holder_ok(1) ok _ _ _ _ demo_holder_ok(2) s] s by (simp add: demo_holder_keys(1))
qed

end
