(* ===== verification/Oracles.thy ===== *)
theory Oracles
  imports Ledger "HOL-Library.AList"
begin

text \<open>
  The oracles of \<^verbatim>\<open>raftcheck/oracles.go\<close> over the run ledger: each reads what the drivers witnessed
  and answers the first violation it meets, or none.  A violation carries the facts its text names.
  The harness's own model of the state machine enters as an argument, as it does in the source.
\<close>

section \<open>Violations\<close>

datatype violation =
    TwoLeaders nat ordinal instant ordinal instant
  | LogsDiffer ordinal ordinal nat nat nat
  | LeaderLacks Entry ordinal nat
  | AppliedDifferently ordinal ordinal nat
  | UnaskedPreVoteResp ordinal nat NodeID
  | SpentPreVote ordinal nat nat
  | TermNotDurable ordinal nat nat
  | VoteNotDurable ordinal
  | AckNotDurable ordinal nat nat
  | RebuiltDifferently ordinal nat
  | RestartedNowhere ordinal nat
  | AppliedOverGap ordinal nat nat
  | BornOfRefusedSplit nat u64
  | NeverBorn nat u64
  | BornWithoutExtent nat u64
  | BornElsewhere nat u64
  | BornOfNothing u64
  | RemovedOnly u64 NodeID NodeID nat
  | RemovedFirst u64 NodeID NodeID nat nat
  | SnapshotDiffers ordinal bool nat u64 u64
  | ConfUndecodable ordinal nat
  | ConfJoint ordinal nat
  | ConfWide ordinal nat nat

fun first_some :: "('a \<Rightarrow> 'b option) \<Rightarrow> 'a list \<Rightarrow> 'b option" where
  "first_some f [] = None"
| "first_some f (x # xs) = (case f x of Some v \<Rightarrow> Some v | None \<Rightarrow> first_some f xs)"

text \<open>A loop over a state that returns early with a violation.\<close>

fun loop_some :: "('a \<Rightarrow> 's \<Rightarrow> 'v option \<times> 's) \<Rightarrow> 'a list \<Rightarrow> 's \<Rightarrow> 'v option \<times> 's" where
  "loop_some f [] s = (None, s)"
| "loop_some f (x # xs) s = (case f x s of (Some v, s') \<Rightarrow> (Some v, s') | (None, s') \<Rightarrow> loop_some f xs s')"

record base =
  b_seenRev :: nat
  b_primed :: bool

definition stale :: "Ledger \<Rightarrow> base \<Rightarrow> bool \<times> base" where
  "stale l b =
     (if b_primed b \<and> b_seenRev b = lg_rev l then (False, b) else (True, \<lparr>b_seenRev = lg_rev l, b_primed = True\<rparr>))"

definition eachRange :: "(u64 \<Rightarrow> rangeLedger \<Rightarrow> 's \<Rightarrow> violation option \<times> 's) \<Rightarrow> Ledger \<Rightarrow> 's \<Rightarrow> (u64 \<times> violation) option \<times> 's" where
  "eachRange f l s =
     loop_some (\<lambda>rl s. case f (rl_id rl) rl s of (v, s') \<Rightarrow> (map_option (\<lambda>x. (rl_id rl, x)) v, s')) (lg_ranges l) s"

text \<open>The \<^verbatim>\<open>OnStep\<close> of the oracles that walk every range.\<close>

definition OnStep :: "(u64 \<Rightarrow> rangeLedger \<Rightarrow> 's \<Rightarrow> violation option \<times> 's) \<Rightarrow> Ledger \<Rightarrow> base \<times> 's \<Rightarrow>
    (u64 \<times> violation) option \<times> base \<times> 's" where
  "OnStep f l st =
     (case st of (b, s) \<Rightarrow>
       (case stale l b of
          (False, b') \<Rightarrow> (None, b', s)
        | (True, b') \<Rightarrow> (case eachRange f l s of (v, s') \<Rightarrow> (v, b', s'))))"

text \<open>
  A run with an oracle: the drivers record facts in batches, one per step of the run, and the oracle
  looks after each; the first violation ends the run.
\<close>

definition base_new :: base where
  "base_new = \<lparr>b_seenRev = 0, b_primed = False\<rparr>"

fun watch :: "(Ledger \<Rightarrow> 'o \<Rightarrow> 'v option \<times> 'o) \<Rightarrow> ledger_event list list \<Rightarrow> Ledger \<Rightarrow> 'o \<Rightarrow> ('v option \<times> Ledger) option" where
  "watch f [] l oracle = Some (None, l)"
| "watch f (evs # batches) l oracle = do {
     l' \<leftarrow> record_events evs l;
     (case f l' oracle of (Some v, _) \<Rightarrow> Some (Some v, l') | (None, oracle') \<Rightarrow> watch f batches l' oracle') }"

section \<open>Election safety, log matching, leader completeness\<close>

fun led_pairs :: "leaderRecord list \<Rightarrow> violation option" where
  "led_pairs [] = None"
| "led_pairs (a # rs) =
     (case first_some (\<lambda>b. if ld_term a = ld_term b \<and> ld_node a \<noteq> ld_node b
                           then Some (TwoLeaders (ld_term a) (ld_node a) (ld_at a) (ld_node b) (ld_at b)) else None) rs of
        Some v \<Rightarrow> Some v
      | None \<Rightarrow> led_pairs rs)"

definition ElectionSafety_check :: "rangeLedger \<Rightarrow> violation option" where
  "ElectionSafety_check l = led_pairs (rl_ledIn l)"

definition LogMatching_compare :: "ordinal \<Rightarrow> ordinal \<Rightarrow> nat \<Rightarrow> nat \<Rightarrow> Entry list \<Rightarrow> Entry list \<Rightarrow> violation option" where
  "LogMatching_compare a b snapA snapB la lb =
     (let hi = (if lastIndexOf lb < lastIndexOf la then lastIndexOf lb else lastIndexOf la);
          lo = (if snapB > snapA then snapB else snapA);
          agree = (\<lambda>i. case (last_at i la, last_at i lb) of (Some x, Some y) \<Rightarrow> e_Term x = e_Term y | _ \<Rightarrow> False)
      in (case find agree (rev [Suc lo..<Suc hi]) of
            None \<Rightarrow> None
          | Some i \<Rightarrow>
              first_some (\<lambda>k. case (last_at k la, last_at k lb) of
                  (Some x, Some y) \<Rightarrow>
                    if e_Term x \<noteq> e_Term y \<or> e_Data x \<noteq> e_Data y then Some (LogsDiffer a b i k (e_Term x)) else None
                | _ \<Rightarrow> None) (rev [Suc lo..<i])))"

text \<open>The per-node slices of a range's ledger have one element per node.\<close>

definition LogMatching_check :: "rangeLedger \<Rightarrow> violation option" where
  "LogMatching_check l =
     (let logs = rl_durableLog l
      in first_some (\<lambda>a. first_some (\<lambda>b. LogMatching_compare a b (sm_Index (rl_durableSnap l ! a)) (sm_Index (rl_durableSnap l ! b))
             (logs ! a) (logs ! b)) [Suc a..<length logs]) [0..<length logs])"

definition hasEntry :: "Entry list \<Rightarrow> Entry \<Rightarrow> bool" where
  "hasEntry log e = list_ex (\<lambda>x. e_Index x = e_Index e \<and> e_Term x = e_Term e \<and> e_Data x = e_Data e) log"

definition LeaderCompleteness_check :: "rangeLedger \<Rightarrow> violation option" where
  "LeaderCompleteness_check l =
     first_some (\<lambda>c. first_some (\<lambda>ld.
         if ld_term ld \<le> e_Term (cr_entry c) then None
         else if ld_at ld < cr_at c then None
         else if \<not> hasEntry (ld_log ld) (cr_entry c) \<and> sm_Index (ld_snap ld) < e_Index (cr_entry c)
         then Some (LeaderLacks (cr_entry c) (ld_node ld) (ld_term ld)) else None) (rl_ledIn l)) (rl_committed l)"

section \<open>State machine safety\<close>

record smsState =
  sms_first :: "nat \<rightharpoonup> ordinal \<times> Entry"
  sms_cursor :: "nat list"

definition sms_new :: "nat \<Rightarrow> smsState" where
  "sms_new n = \<lparr>sms_first = Map.empty, sms_cursor = replicate n 0\<rparr>"

definition same_command :: "Entry \<Rightarrow> Entry \<Rightarrow> bool" where
  "same_command x y \<longleftrightarrow> e_Term x = e_Term y \<and> e_Data x = e_Data y"

definition sms_entry :: "ordinal \<Rightarrow> Entry \<Rightarrow> smsState \<Rightarrow> violation option \<times> smsState" where
  "sms_entry node e st =
     (let next = st\<lparr>sms_cursor := (sms_cursor st)[node := sms_cursor st ! node + 1]\<rparr>
      in (case sms_first st (e_Index e) of
            None \<Rightarrow> (None, next\<lparr>sms_first := (sms_first st)(e_Index e \<mapsto> (node, e))\<rparr>)
          | Some (n0, e0) \<Rightarrow>
              if n0 = node then (None, next)
              else if \<not> same_command e0 e then (Some (AppliedDifferently n0 node (e_Index e)), st)
              else (None, next)))"

definition StateMachineSafety_check :: "rangeLedger \<Rightarrow> smsState \<Rightarrow> violation option \<times> smsState" where
  "StateMachineSafety_check l st =
     loop_some (\<lambda>node st. loop_some (sms_entry node) (drop (sms_cursor st ! node) (rl_applied l ! node)) st) [0..<rl_nodes l] st"

text \<open>The state of each range is made when the range is first seen.\<close>

definition per_range :: "(nat \<Rightarrow> 's) \<Rightarrow> (rangeLedger \<Rightarrow> 's \<Rightarrow> violation option \<times> 's) \<Rightarrow>
    u64 \<Rightarrow> rangeLedger \<Rightarrow> (u64 \<rightharpoonup> 's) \<Rightarrow> violation option \<times> (u64 \<rightharpoonup> 's)" where
  "per_range new f i l per =
     (case f l (case per i of Some st \<Rightarrow> st | None \<Rightarrow> new (rl_nodes l)) of (v, st) \<Rightarrow> (v, per(i \<mapsto> st)))"

section \<open>Persist before reply\<close>

record pbrState =
  pbr_cursor :: nat
  pbr_preVotes :: "(NodeID \<times> NodeID \<times> nat) list"

definition pbr_new :: pbrState where
  "pbr_new = \<lparr>pbr_cursor = 0, pbr_preVotes = []\<rparr>"

definition pbr_verdict :: "sentRecord \<Rightarrow> (NodeID \<times> NodeID \<times> nat) list \<Rightarrow> violation option" where
  "pbr_verdict s asked =
     (let m = se_msg s
      in if m_Type m = MsgPreVoteResp then
           (if (m_To m, m_From m, m_Term m) \<notin> set asked then Some (UnaskedPreVoteResp (se_node s) (m_Term m) (m_To m)) else None)
         else if m_Type m = MsgPreVote then
           (if m_Term m \<le> se_durableTerm s then Some (SpentPreVote (se_node s) (m_Term m) (se_durableTerm s)) else None)
         else if m_Term m > se_durableTerm s then Some (TermNotDurable (se_node s) (m_Term m) (se_durableTerm s))
         else if m_Type m = MsgVoteResp \<and> m_Granted m \<and> se_durableVote s = 0 then Some (VoteNotDurable (se_node s))
         else if m_Type m = MsgAppResp \<and> m_Success m \<and> m_MatchIndex m > se_durableLast s
         then Some (AckNotDurable (se_node s) (m_MatchIndex m) (se_durableLast s))
         else None)"

definition pbr_sent :: "sentRecord \<Rightarrow> pbrState \<Rightarrow> violation option \<times> pbrState" where
  "pbr_sent s st =
     (let m = se_msg s;
          asked = (if m_Type m = MsgPreVote then List.insert (m_From m, m_To m, m_Term m) (pbr_preVotes st) else pbr_preVotes st)
      in (case pbr_verdict s asked of
            Some v \<Rightarrow> (Some v, st\<lparr>pbr_preVotes := asked\<rparr>)
          | None \<Rightarrow> (None, \<lparr>pbr_cursor = pbr_cursor st + 1, pbr_preVotes = asked\<rparr>)))"

definition PersistBeforeReply_check :: "rangeLedger \<Rightarrow> pbrState \<Rightarrow> violation option \<times> pbrState" where
  "PersistBeforeReply_check l st = loop_some pbr_sent (drop (pbr_cursor st) (rl_sent l)) st"

section \<open>Apply continuity\<close>

record acState =
  ac_seen :: "(nat \<rightharpoonup> Entry) list"
  ac_prev :: "nat list"
  ac_started :: "bool list"
  ac_cursor :: "nat list"

definition ac_new :: "nat \<Rightarrow> acState" where
  "ac_new n = \<lparr>ac_seen = replicate n Map.empty, ac_prev = replicate n 0, ac_started = replicate n False, ac_cursor = replicate n 0\<rparr>"

definition restartsAtRecoverable :: "rangeLedger \<Rightarrow> ordinal \<Rightarrow> nat \<Rightarrow> bool" where
  "restartsAtRecoverable l node i \<longleftrightarrow> i = 1 \<or> list_ex (\<lambda>s. sr_node s = node \<and> Suc (sn_Index (sr_rec s)) = i) (rl_snaps l)"

definition jumpedByInstall :: "rangeLedger \<Rightarrow> ordinal \<Rightarrow> nat \<Rightarrow> nat \<Rightarrow> bool" where
  "jumpedByInstall l node prev next \<longleftrightarrow>
     list_ex (\<lambda>s. sr_node s = node \<and> \<not> sn_Taken (sr_rec s) \<and> sn_Index (sr_rec s) \<ge> prev \<and> Suc (sn_Index (sr_rec s)) = next)
       (rl_snaps l)"

definition ac_gap :: "rangeLedger \<Rightarrow> ordinal \<Rightarrow> bool \<Rightarrow> nat \<Rightarrow> nat \<Rightarrow> violation option" where
  "ac_gap l node started prev i =
     (if \<not> started \<or> i = prev + 1 then None
      else if i \<le> prev then (if restartsAtRecoverable l node i then None else Some (RestartedNowhere node i))
      else if jumpedByInstall l node prev i then None
      else Some (AppliedOverGap node i prev))"

definition ac_entry :: "rangeLedger \<Rightarrow> ordinal \<Rightarrow> Entry \<Rightarrow> (nat \<rightharpoonup> Entry) \<times> nat \<times> bool \<times> nat \<Rightarrow>
    violation option \<times> (nat \<rightharpoonup> Entry) \<times> nat \<times> bool \<times> nat" where
  "ac_entry l node e loc =
     (case loc of (seen, prev, started, cursor) \<Rightarrow>
        if (case seen (e_Index e) of Some old \<Rightarrow> \<not> same_command old e | None \<Rightarrow> False)
        then (Some (RebuiltDifferently node (e_Index e)), loc)
        else (case ac_gap l node started prev (e_Index e) of
                Some v \<Rightarrow> (Some v, seen(e_Index e \<mapsto> e), prev, started, cursor)
              | None \<Rightarrow> (None, seen(e_Index e \<mapsto> e), e_Index e, True, cursor + 1)))"

definition ac_node :: "rangeLedger \<Rightarrow> ordinal \<Rightarrow> acState \<Rightarrow> violation option \<times> acState" where
  "ac_node l node st =
     (case loop_some (ac_entry l node) (drop (ac_cursor st ! node) (rl_applied l ! node))
             (ac_seen st ! node, ac_prev st ! node, ac_started st ! node, ac_cursor st ! node) of
        (v, seen, prev, started, cursor) \<Rightarrow>
          (v, st\<lparr>ac_seen := (ac_seen st)[node := seen], ac_cursor := (ac_cursor st)[node := cursor],
                 ac_prev := (if v = None then (ac_prev st)[node := prev] else ac_prev st),
                 ac_started := (if v = None then (ac_started st)[node := started] else ac_started st)\<rparr>))"

definition ApplyContinuity_check :: "rangeLedger \<Rightarrow> acState \<Rightarrow> violation option \<times> acState" where
  "ApplyContinuity_check l st = loop_some (ac_node l) [0..<rl_nodes l] st"

section \<open>Splits\<close>

record SplitStep =
  ss_Index :: nat
  ss_Applied :: bool
  ss_Child :: u64
  ss_ChildStart :: bytes
  ss_ChildEnd :: bytes
  ss_ChildEpoch :: u64

definition firstRangeID :: u64 where "firstRangeID = 1"

definition split_verdict :: "(bytes \<Rightarrow> (bytes \<times> bytes \<times> u64) option) \<Rightarrow> Ledger \<Rightarrow> SplitStep \<Rightarrow> violation option" where
  "split_verdict extent l st =
     (let born = (case rangeByID l (ss_Child st) of Some c \<Rightarrow> if rl_base c \<noteq> [] then Some (rl_base c) else None | None \<Rightarrow> None)
      in if \<not> ss_Applied st then (if born \<noteq> None then Some (BornOfRefusedSplit (ss_Index st) (ss_Child st)) else None)
         else (case born of
                 None \<Rightarrow> Some (NeverBorn (ss_Index st) (ss_Child st))
               | Some state \<Rightarrow>
                   (case extent state of
                      None \<Rightarrow> Some (BornWithoutExtent (ss_Index st) (ss_Child st))
                    | Some (start, stop, epoch) \<Rightarrow>
                        if start \<noteq> ss_ChildStart st \<or> stop \<noteq> ss_ChildEnd st \<or> epoch \<noteq> ss_ChildEpoch st
                        then Some (BornElsewhere (ss_Index st) (ss_Child st)) else None)))"

definition everyRangeWasBorn :: "(bytes \<Rightarrow> Entry list \<Rightarrow> SplitStep list) \<Rightarrow> Ledger \<Rightarrow> violation option" where
  "everyRangeWasBorn splits l =
     (let created = map ss_Child (filter ss_Applied (concat (map (\<lambda>rl. splits (rl_base rl) (Committed rl)) (lg_ranges l))))
      in first_some (\<lambda>rl. if rl_id rl = firstRangeID \<or> rl_base rl = [] \<or> rl_id rl \<in> set created then None
                          else Some (BornOfNothing (rl_id rl))) (lg_ranges l))"

definition SplitPartition_OnStep :: "(bytes \<Rightarrow> Entry list \<Rightarrow> SplitStep list) \<Rightarrow> (bytes \<Rightarrow> (bytes \<times> bytes \<times> u64) option) \<Rightarrow>
    Ledger \<Rightarrow> base \<Rightarrow> violation option \<times> base" where
  "SplitPartition_OnStep splits extent l b =
     (case stale l b of
        (False, b') \<Rightarrow> (None, b')
      | (True, b') \<Rightarrow>
          (case everyRangeWasBorn splits l of
             Some v \<Rightarrow> (Some v, b')
           | None \<Rightarrow> (first_some (\<lambda>rl. first_some (split_verdict extent l) (splits (rl_base rl) (Committed rl))) (lg_ranges l), b')))"

section \<open>Moves\<close>

definition move_verdict :: "Ledger \<Rightarrow> nat \<Rightarrow> nat list \<Rightarrow> violation option \<times> nat list" where
  "move_verdict l i unattributable =
     (let m = lg_moves l ! i
      in (case rangeByID l (mv_Range m) of
            None \<Rightarrow> (None, unattributable)
          | Some rl \<Rightarrow>
              let until = moveEnds l i
              in (case firstConfChange rl (mv_At m) until ConfChangeRemoveNode (mv_From m) of
                    None \<Rightarrow> (None, unattributable)
                  | Some removed \<Rightarrow>
                      if churnTouched l (sint (mv_From m)) (mv_At m) until then (None, List.insert i unattributable)
                      else (case firstConfChange rl (mv_At m) until ConfChangeAddVoter (mv_To m) of
                              None \<Rightarrow> (Some (RemovedOnly (mv_Range m) (mv_From m) (mv_To m) removed), unattributable)
                            | Some added \<Rightarrow>
                                (if added > removed then Some (RemovedFirst (mv_Range m) (mv_From m) (mv_To m) removed added)
                                 else None, unattributable)))))"

definition RebalanceSafety_OnStep :: "Ledger \<Rightarrow> base \<times> nat list \<Rightarrow> violation option \<times> base \<times> nat list" where
  "RebalanceSafety_OnStep l st =
     (case st of (b, unattributable) \<Rightarrow>
       (case stale l b of
          (False, b') \<Rightarrow> (None, b', unattributable)
        | (True, b') \<Rightarrow> (case loop_some (move_verdict l) [0..<length (lg_moves l)] unattributable of (v, u) \<Rightarrow> (v, b', u))))"

definition Unattributable :: "base \<times> nat list \<Rightarrow> nat" where
  "Unattributable st = length (snd st)"

section \<open>Snapshot equivalence\<close>

text \<open>
  The harness's cursor is a state of its own, made from a range's birth payload.  The memo of digests
  is keyed by range and index, the set of verified snapshots by range, node, index and digest.  The
  sort of the snapshots by index is an argument, since it may order equal indices either way.
\<close>

type_synonym snapKey = "u64 \<times> ordinal \<times> nat \<times> u64"

record 'c seState =
  se_cursors :: "u64 \<rightharpoonup> 'c"
  se_digests :: "u64 \<times> nat \<rightharpoonup> u64"
  se_done :: "snapKey list"

definition snap_verdict :: "(bytes \<Rightarrow> 'c) \<Rightarrow> ('c \<Rightarrow> Entry list \<Rightarrow> u64 \<times> 'c) \<Rightarrow> u64 \<Rightarrow> rangeLedger \<Rightarrow> snapRecord \<Rightarrow> 'c seState \<Rightarrow>
    violation option \<times> 'c seState" where
  "snap_verdict state digestThrough rng l s st =
     (let i = sn_Index (sr_rec s); k = (rng, sr_node s, i, sn_Digest (sr_rec s))
      in if k \<in> set (se_done st) then (None, st)
         else (case committedPrefix l i of
                 None \<Rightarrow> (None, st)
               | Some pre \<Rightarrow>
                   (case (case se_digests st (rng, i) of
                            Some got \<Rightarrow> (got, st)
                          | None \<Rightarrow>
                              (case digestThrough (case se_cursors st rng of Some c \<Rightarrow> c | None \<Rightarrow> state (rl_base l)) pre of
                                 (got, c) \<Rightarrow> (got, st\<lparr>se_cursors := (se_cursors st)(rng \<mapsto> c),
                                                      se_digests := (se_digests st)((rng, i) \<mapsto> got)\<rparr>))) of
                      (got, st1) \<Rightarrow>
                        (if got \<noteq> sn_Digest (sr_rec s)
                         then Some (SnapshotDiffers (sr_node s) (sn_Taken (sr_rec s)) i (sn_Digest (sr_rec s)) got) else None,
                         st1\<lparr>se_done := k # se_done st1\<rparr>))))"

definition SnapshotEquivalence_check :: "(snapRecord list \<Rightarrow> snapRecord list) \<Rightarrow> (bytes \<Rightarrow> 'c) \<Rightarrow> ('c \<Rightarrow> Entry list \<Rightarrow> u64 \<times> 'c) \<Rightarrow>
    u64 \<Rightarrow> rangeLedger \<Rightarrow> 'c seState \<Rightarrow> violation option \<times> 'c seState" where
  "SnapshotEquivalence_check sortSnaps state digestThrough rng l st =
     loop_some (snap_verdict state digestThrough rng l) (sortSnaps (rl_snaps l)) st"

section \<open>One server at a time\<close>

definition conf_verdict :: "ordinal \<Rightarrow> Entry \<Rightarrow> violation option" where
  "conf_verdict node e =
     (if e_Type e \<noteq> EntryConfChange then None
      else (case DecodeConfChange (e_Data e) of
              None \<Rightarrow> Some (ConfUndecodable node (e_Index e))
            | Some cc \<Rightarrow>
                if cc_Transition cc \<noteq> ConfChangeSimple then Some (ConfJoint node (e_Index e))
                else if length (cc_Changes cc) \<noteq> 1 then Some (ConfWide node (e_Index e) (length (cc_Changes cc)))
                else None))"

definition SingleServerChange_check :: "rangeLedger \<Rightarrow> violation option" where
  "SingleServerChange_check l =
     first_some (\<lambda>node. first_some (first_some (conf_verdict node)) [rl_applied l ! node, rl_durableLog l ! node]) [0..<rl_nodes l]"

end
