(* ===== verification/Txn_Oracles.thy ===== *)
theory Txn_Oracles
  imports Oracles
begin

text \<open>
  The oracles over reads and transactions, the second half of \<^verbatim>\<open>raftcheck/oracles.go\<close>.  What the
  harness supplies (the expectations it replays from the committed logs, the states it recovers, the
  commands it decodes) is an argument.  The maps the source keys by a rendered key and timestamp are
  keyed by the same strings here; a timestamp is rendered in decimal as \<^verbatim>\<open>hlc.Timestamp.String\<close> does.
\<close>

section \<open>Rendered keys\<close>

fun digits :: "nat \<Rightarrow> bytes" where
  "digits n = (if n < 10 then [48 + of_nat n] else digits (n div 10) @ [48 + of_nat (n mod 10)])"

declare digits.simps [simp del]

definition decimal :: "int \<Rightarrow> bytes" where
  "decimal i = (if i < 0 then 45 # digits (nat (- i)) else digits (nat i))"

definition Timestamp_String :: "timestamp \<Rightarrow> bytes" where
  "Timestamp_String t = decimal (sint (Wall t)) @ [46] @ decimal (int (unat (Logical t)))"

definition txnDecisionKey :: "bytes \<Rightarrow> timestamp \<Rightarrow> bytes" where
  "txnDecisionKey primary startTS = primary @ [64] @ Timestamp_String startTS"

definition span_key :: "timestamp \<Rightarrow> timestamp \<Rightarrow> bytes" where
  "span_key startTS commitTS = Timestamp_String startTS @ [45, 62] @ Timestamp_String commitTS"

section \<open>Records and verdicts\<close>

record ReadExpectation =
  re_Index :: nat
  re_Key :: bytes
  re_At :: timestamp
  re_Value :: bytes
  re_Found :: bool
  re_Refused :: bool

record CommitFact =
  cf_Key :: bytes
  cf_StartTS :: timestamp
  cf_CommitTS :: timestamp
  cf_Rollback :: bool

record RecoveredLock =
  lk_Key :: bytes
  lk_Primary :: bytes
  lk_StartTS :: timestamp
  lk_Deadline :: timestamp

record RecoveredVersion =
  rv_Key :: bytes
  rv_At :: timestamp

record RecoveredState =
  rs_Range :: u64
  rs_Start :: bytes
  rs_End :: bytes
  rs_GCMark :: timestamp
  rs_Locks :: "RecoveredLock list"
  rs_Writes :: "CommitFact list"
  rs_Decided :: "CommitFact list"
  rs_Versions :: "RecoveredVersion list"
  rs_Clock :: timestamp

record ResolveFact =
  rf_Primary :: bytes
  rf_StartTS :: timestamp
  rf_Deadline :: timestamp
  rf_ExpireAt :: timestamp

record ProposedRollback =
  pr_Primary :: bytes
  pr_StartTS :: timestamp

datatype txn_violation =
    RefusedForNothing ReadRecord
  | AnsweredCollected ReadRecord
  | ReadDiffers ReadRecord ReadExpectation
  | CommittedUndecided LedgerTxn CommitFact
  | CommittedRolledBack LedgerTxn CommitFact
  | CommittedApart LedgerTxn CommitFact CommitFact
  | ClockBelowVersion u64 RecoveredVersion timestamp
  | ClockBelowCommit u64 CommitFact timestamp
  | CommittedAndLocked CommitFact
  | PrimaryUncovered u64 RecoveredLock
  | CommitUnauthorised u64 CommitFact
  | RolledBackVersion u64 RecoveredVersion
  | OrphanVersion u64 RecoveredVersion
  | VersionsBelowMark u64 bytes nat timestamp
  | PartialAudit AuditRecord
  | TotalMoved AuditRecord
  | LockAboveRead TxnReadRecord
  | LockWithoutPrimary TxnReadRecord
  | SnapshotMoved TxnReadRecord TxnReadRecord
  | CeilingAbovePlan TxnReadRecord timestamp
  | RestartBelowRead TxnReadRecord
  | RestartAboveCeiling TxnReadRecord timestamp
  | RestartNotAbove TxnReadRecord
  | RollbackFromNowhere u64 CommitFact
  | UnexpiredResolved u64 CommitFact nat ResolveFact
  | AnsweredEarly ReadRecord
  | AnsweredUnowned ReadRecord
  | AnsweredNotLog ReadRecord bytes bool
  | StampBelowWrite ReadRecord WriteRecord

section \<open>Reads at a timestamp\<close>

definition mvcc_verdict :: "(u64 \<rightharpoonup> (nat \<rightharpoonup> ReadExpectation)) \<Rightarrow> ReadRecord \<Rightarrow> txn_violation option" where
  "mvcc_verdict want got =
     (if rr_OffLog got then None
      else (case Option.bind (want (rr_Range got)) (\<lambda>m. m (rr_Index got)) of
              None \<Rightarrow> None
            | Some e \<Rightarrow>
                if rr_Refused got \<and> \<not> re_Refused e then Some (RefusedForNothing got)
                else if \<not> rr_Refused got \<and> re_Refused e then Some (AnsweredCollected got)
                else if rr_Refused got then None
                else if rr_Found got \<noteq> re_Found e \<or> rr_Value got \<noteq> re_Value e then Some (ReadDiffers got e)
                else None))"

definition read_table :: "(bytes \<Rightarrow> Entry list \<Rightarrow> ReadExpectation list) \<Rightarrow> rangeLedger \<Rightarrow> nat \<rightharpoonup> ReadExpectation" where
  "read_table reads rl = foldl (\<lambda>m e. m(re_Index e \<mapsto> e)) Map.empty (reads (rl_base rl) (Committed rl))"

definition MVCCReadCorrectness_OnStep :: "(bytes \<Rightarrow> Entry list \<Rightarrow> ReadExpectation list) \<Rightarrow> Ledger \<Rightarrow> base \<Rightarrow> txn_violation option \<times> base" where
  "MVCCReadCorrectness_OnStep reads l b =
     (case stale l b of
        (False, b') \<Rightarrow> (None, b')
      | (True, b') \<Rightarrow>
          (let want = foldl (\<lambda>m rl. m(rl_id rl \<mapsto> read_table reads rl)) Map.empty (lg_ranges l)
           in (first_some (mvcc_verdict want) (lg_reads l), b')))"

section \<open>Transaction atomicity\<close>

definition keys_verdict :: "(bytes \<Rightarrow> CommitFact list) \<Rightarrow> LedgerTxn \<Rightarrow> (CommitFact \<Rightarrow> txn_violation option) \<Rightarrow> txn_violation option" where
  "keys_verdict byKey t bad =
     first_some (\<lambda>k. first_some (\<lambda>c. if cf_StartTS c = lt_StartTS t \<and> \<not> cf_Rollback c then bad c else None) (byKey k)) (lt_Keys t)"

definition txn_verdict :: "(bytes \<Rightarrow> CommitFact list) \<Rightarrow> (bytes \<rightharpoonup> CommitFact) \<Rightarrow> LedgerTxn \<Rightarrow> txn_violation option" where
  "txn_verdict byKey decided t =
     (case decided (txnDecisionKey (lt_Primary t) (lt_StartTS t)) of
        None \<Rightarrow> keys_verdict byKey t (\<lambda>c. Some (CommittedUndecided t c))
      | Some d \<Rightarrow>
          if cf_Rollback d then keys_verdict byKey t (\<lambda>c. Some (CommittedRolledBack t c))
          else keys_verdict byKey t (\<lambda>c. if cf_CommitTS c \<noteq> cf_CommitTS d then Some (CommittedApart t d c) else None))"

definition TransactionAtomicity_OnStep :: "(bytes \<Rightarrow> Entry list \<Rightarrow> CommitFact list \<times> (bytes \<rightharpoonup> CommitFact)) \<Rightarrow>
    Ledger \<Rightarrow> base \<Rightarrow> txn_violation option \<times> base" where
  "TransactionAtomicity_OnStep facts l b =
     (case stale l b of
        (False, b') \<Rightarrow> (None, b')
      | (True, b') \<Rightarrow>
          (let found = map (\<lambda>rl. facts (rl_base rl) (Committed rl)) (lg_ranges l);
               byKey = (\<lambda>k. filter (\<lambda>c. cf_Key c = k) (concat (map fst found)));
               decided = foldl (++) Map.empty (map snd found)
           in (first_some (txn_verdict byKey decided) (lg_txns l), b')))"

section \<open>Percolator invariants over the recovered state\<close>

definition clock_verdict :: "RecoveredState \<Rightarrow> txn_violation option" where
  "clock_verdict st =
     (if \<not> IsSet (rs_Clock st) then None
      else (case first_some (\<lambda>v. if Less (rs_Clock st) (rv_At v) then Some (ClockBelowVersion (rs_Range st) v (rs_Clock st)) else None)
                   (rs_Versions st) of
              Some v \<Rightarrow> Some v
            | None \<Rightarrow> first_some (\<lambda>w. if Less (rs_Clock st) (cf_CommitTS w) then Some (ClockBelowCommit (rs_Range st) w (rs_Clock st)) else None)
                   (rs_Writes st)))"

definition coversKey :: "RecoveredState list \<Rightarrow> bytes \<Rightarrow> bool" where
  "coversKey states key = list_ex (\<lambda>st. rs_Start st \<le> key \<and> (rs_End st = [] \<or> key < rs_End st)) states"

definition decisions :: "RecoveredState list \<Rightarrow> (bytes \<times> CommitFact) list" where
  "decisions states = foldl (\<lambda>m d. AList.update (txnDecisionKey (cf_Key d) (cf_StartTS d)) d m) [] (concat (map rs_Decided states))"

definition committedAt :: "RecoveredState list \<Rightarrow> bytes list" where
  "committedAt states =
     map (\<lambda>d. span_key (cf_StartTS d) (cf_CommitTS d)) (filter (\<lambda>d. \<not> cf_Rollback d) (map snd (decisions states)))"

definition locked_verdict :: "RecoveredState \<Rightarrow> txn_violation option" where
  "locked_verdict st =
     (let locked = foldl (\<lambda>m l. m(lk_Key l \<mapsto> lk_StartTS l)) Map.empty (rs_Locks st)
      in first_some (\<lambda>w. if \<not> cf_Rollback w \<and> locked (cf_Key w) = Some (cf_StartTS w) then Some (CommittedAndLocked w) else None)
           (rs_Writes st))"

definition orphan_verdict :: "RecoveredState \<Rightarrow> txn_violation option" where
  "orphan_verdict st =
     (let accounted = map (\<lambda>w. txnDecisionKey (cf_Key w) (cf_StartTS w)) (rs_Writes st) @
                      map (\<lambda>l. txnDecisionKey (lk_Key l) (lk_StartTS l)) (rs_Locks st);
          transactional = map cf_Key (rs_Writes st) @ map lk_Key (rs_Locks st)
      in first_some (\<lambda>v. if rv_Key v \<notin> set transactional \<or> txnDecisionKey (rv_Key v) (rv_At v) \<in> set accounted then None
                         else Some (OrphanVersion (rs_Range st) v)) (rs_Versions st))"

definition below_verdict :: "RecoveredState \<Rightarrow> RecoveredVersion \<Rightarrow> (bytes \<Rightarrow> nat) \<Rightarrow> txn_violation option \<times> (bytes \<Rightarrow> nat)" where
  "below_verdict st v below =
     (if LessEq (rv_At v) (rs_GCMark st)
      then (let below' = below(rv_Key v := below (rv_Key v) + 1)
            in (if below' (rv_Key v) > 1 then Some (VersionsBelowMark (rs_Range st) (rv_Key v) (below' (rv_Key v)) (rs_GCMark st)) else None,
                below'))
      else (None, below))"

definition state_verdict :: "RecoveredState list \<Rightarrow> RecoveredState \<Rightarrow> txn_violation option" where
  "state_verdict states st =
     first_some (\<lambda>v. v)
       [locked_verdict st,
        first_some (\<lambda>l. if \<not> coversKey states (lk_Primary l) then Some (PrimaryUncovered (rs_Range st) l) else None) (rs_Locks st),
        first_some (\<lambda>w. if \<not> cf_Rollback w \<and> span_key (cf_StartTS w) (cf_CommitTS w) \<notin> set (committedAt states)
                        then Some (CommitUnauthorised (rs_Range st) w) else None) (rs_Writes st),
        (let rolledBack = map (\<lambda>w. txnDecisionKey (cf_Key w) (cf_StartTS w)) (filter cf_Rollback (rs_Writes st))
         in first_some (\<lambda>v. if txnDecisionKey (rv_Key v) (rv_At v) \<in> set rolledBack then Some (RolledBackVersion (rs_Range st) v) else None)
              (rs_Versions st)),
        orphan_verdict st,
        fst (loop_some (below_verdict st) (rs_Versions st) (\<lambda>_. 0))]"

definition PercolatorInvariants_Check :: "RecoveredState list \<Rightarrow> txn_violation option" where
  "PercolatorInvariants_Check states =
     (case first_some clock_verdict states of
        Some v \<Rightarrow> Some v
      | None \<Rightarrow> first_some (state_verdict states) states)"

section \<open>Audits, snapshots and the uncertainty interval\<close>

definition BankConservation_Check :: "int \<Rightarrow> Ledger \<Rightarrow> txn_violation option" where
  "BankConservation_Check accounts l =
     first_some (\<lambda>a. if au_Accounts a \<noteq> accounts then Some (PartialAudit a)
                     else if au_Total a \<noteq> 0 then Some (TotalMoved a) else None) (lg_audits l)"

definition si_verdict :: "TxnReadRecord \<Rightarrow> (bytes \<rightharpoonup> TxnReadRecord) \<times> nat \<Rightarrow> txn_violation option \<times> (bytes \<rightharpoonup> TxnReadRecord) \<times> nat" where
  "si_verdict r st =
     (case st of (seen, compared) \<Rightarrow>
        if tr_Locked r
        then (if Less (tr_At r) (tr_LockStartTS r) then Some (LockAboveRead r)
              else if tr_LockPrimary r = [] then Some (LockWithoutPrimary r) else None, seen, compared)
        else if tr_Uncertain r \<or> tr_Refused r then (None, seen, compared)
        else (let k = txnDecisionKey (tr_Key r) (tr_At r)
              in (case seen k of
                    None \<Rightarrow> (None, seen(k \<mapsto> r), compared)
                  | Some prev \<Rightarrow>
                      (if tr_Found prev = tr_Found r \<and> tr_Value prev = tr_Value r then None else Some (SnapshotMoved prev r),
                       seen, compared + 1))))"

definition SnapshotIsolation_Check :: "Ledger \<Rightarrow> nat \<Rightarrow> txn_violation option \<times> nat" where
  "SnapshotIsolation_Check l compared =
     (case loop_some si_verdict (lg_txnReads l) (Map.empty, compared) of (v, _, compared') \<Rightarrow> (v, compared'))"

definition envelope_verdict :: "duration \<Rightarrow> TxnReadRecord \<Rightarrow> txn_violation option" where
  "envelope_verdict maxOffset r =
     (let top = Timestamp (Wall_Add (Wall (tr_At r)) maxOffset) 0
      in if IsSet (tr_Ceiling r) \<and> Less top (tr_Ceiling r) then Some (CeilingAbovePlan r top)
         else if \<not> tr_Uncertain r then None
         else (let top = (if IsSet (tr_Ceiling r) then tr_Ceiling r else top)
               in if \<not> Less (tr_At r) (tr_CommitTS r) then Some (RestartBelowRead r)
                  else if Less top (tr_CommitTS r) then Some (RestartAboveCeiling r top)
                  else if \<not> Less (tr_CommitTS r) (tr_RestartAt r) then Some (RestartNotAbove r)
                  else None))"

definition UncertaintyEnvelope_Check :: "duration \<Rightarrow> Ledger \<Rightarrow> txn_violation option" where
  "UncertaintyEnvelope_Check maxOffset l = first_some (envelope_verdict maxOffset) (lg_txnReads l)"

section \<open>Resolution authority\<close>

definition worst_try :: "ResolveFact list \<Rightarrow> ResolveFact" where
  "worst_try tries = foldl (\<lambda>worst r. if Less (rf_ExpireAt worst) (rf_ExpireAt r) then r else worst) (hd tries) (tl tries)"

definition authority_verdict :: "ResolveFact list \<Rightarrow> ProposedRollback list \<Rightarrow> u64 \<Rightarrow> CommitFact \<Rightarrow> nat \<Rightarrow> txn_violation option \<times> nat" where
  "authority_verdict resolves proposals rng d declarations =
     (let k = txnDecisionKey (cf_Key d) (cf_StartTS d);
          tries = filter (\<lambda>r. txnDecisionKey (rf_Primary r) (rf_StartTS r) = k) resolves
      in if \<not> cf_Rollback d then (None, declarations)
         else if k \<in> set (map (\<lambda>p. txnDecisionKey (pr_Primary p) (pr_StartTS p)) proposals) then (None, declarations)
         else if list_ex (\<lambda>r. Less (rf_Deadline r) (rf_ExpireAt r)) tries then (None, declarations + 1)
         else if tries = [] then (Some (RollbackFromNowhere rng d), declarations)
         else (Some (UnexpiredResolved rng d (length tries) (worst_try tries)), declarations + 1))"

definition ResolutionAuthority_Check :: "(Entry list \<Rightarrow> ResolveFact list \<times> ProposedRollback list) \<Rightarrow> RecoveredState list \<Rightarrow>
    Ledger \<Rightarrow> nat \<Rightarrow> txn_violation option \<times> nat" where
  "ResolutionAuthority_Check cmds recovered l declarations =
     (let found = map (\<lambda>rl. cmds (Committed rl)) (lg_ranges l);
          resolves = concat (map fst found); proposals = concat (map snd found)
      in loop_some (\<lambda>st. loop_some (authority_verdict resolves proposals (rs_Range st)) (rs_Decided st)) recovered declarations)"

section \<open>Reads off the log\<close>

definition agreement_verdict :: "(u64 \<Rightarrow> nat \<Rightarrow> bytes \<Rightarrow> timestamp \<Rightarrow> bytes \<times> bool \<times> bool \<times> bool) \<Rightarrow> ReadRecord \<Rightarrow> nat \<Rightarrow>
    txn_violation option \<times> nat" where
  "agreement_verdict valueAt r compared =
     (if \<not> rr_OffLog r \<or> rr_Refused r then (None, compared)
      else if rr_AppliedAt r < rr_Index r then (Some (AnsweredEarly r), compared)
      else (case valueAt (rr_Range r) (rr_AppliedAt r) (rr_Key r) zeroTS of (want, found, owned, ok) \<Rightarrow>
              if \<not> ok then (None, compared)
              else (if \<not> owned then Some (AnsweredUnowned r)
                    else if found \<noteq> rr_Found r \<or> found \<and> want \<noteq> rr_Value r then Some (AnsweredNotLog r want found)
                    else None, compared + 1)))"

text \<open>Without a harness to replay the log (a nil function) the check returns at the first read it would judge.\<close>

definition ReadIndexAgreement_Check :: "(u64 \<Rightarrow> nat \<Rightarrow> bytes \<Rightarrow> timestamp \<Rightarrow> bytes \<times> bool \<times> bool \<times> bool) option \<Rightarrow> Ledger \<Rightarrow> nat \<Rightarrow>
    txn_violation option \<times> nat" where
  "ReadIndexAgreement_Check valueAt l compared =
     (case valueAt of None \<Rightarrow> (None, compared) | Some f \<Rightarrow> loop_some (agreement_verdict f) (lg_reads l) compared)"

definition arrival_verdict :: "ReadRecord \<Rightarrow> WriteRecord \<Rightarrow> nat \<Rightarrow> txn_violation option \<times> nat" where
  "arrival_verdict r w compared =
     (if wr_Range w \<noteq> rr_Range r \<or> wr_AckedAt w \<ge> rr_IssuedAt r then (None, compared)
      else (if wr_Index w > rr_Index r then Some (StampBelowWrite r w) else None, compared + 1))"

definition ReadIndexAtArrival_Check :: "Ledger \<Rightarrow> nat \<Rightarrow> txn_violation option \<times> nat" where
  "ReadIndexAtArrival_Check l compared =
     loop_some (\<lambda>r. if \<not> rr_OffLog r \<or> rr_Refused r \<or> rr_IssuedAt r = 0 then (\<lambda>c. (None, c))
                    else loop_some (arrival_verdict r) (lg_writes l)) (lg_reads l) compared"

end
