(* ===== verification/Oracle_Laws.thy ===== *)
theory Oracle_Laws
  imports Oracles "HOL-Library.Sublist" "HOL-Library.Multiset"
begin

text \<open>
  What the silence of an oracle says: each one is exact for the property it stands for (log matching
  for a weaker one than it documents), or, where it works incrementally, says the property of
  everything recorded so far.
\<close>

section \<open>Loops\<close>

lemma first_some_None: "first_some f xs = None \<longleftrightarrow> (\<forall>x \<in> set xs. f x = None)"
  by (induction xs) (auto split: option.splits)

lemma or_else_None: "(case x of None \<Rightarrow> y | Some v \<Rightarrow> Some v) = None \<longleftrightarrow> x = None \<and> y = None"
  by (cases x) auto

lemma first_some_cong: "(\<And>x. x \<in> set xs \<Longrightarrow> f x = g x) \<Longrightarrow> first_some f xs = first_some g xs"
  by (induction xs) (auto split: option.splits)

lemma find_down:
  "find P (rev [a..<b]) = Some i \<longleftrightarrow> a \<le> i \<and> i < b \<and> P i \<and> (\<forall>j. i < j \<and> j < b \<longrightarrow> \<not> P j)"
proof (induction b)
  case (Suc b)
  show ?case
  proof (cases "a \<le> b")
    case True
    have "find P (rev [a..<Suc b]) = (if P b then Some b else find P (rev [a..<b]))" using True by simp
    then show ?thesis using Suc True by (auto simp: less_Suc_eq)
  qed auto
qed simp

lemma find_down_None: "find P (rev [a..<b]) = None \<longleftrightarrow> (\<forall>i. a \<le> i \<and> i < b \<longrightarrow> \<not> P i)"
  by (auto simp: find_None_iff)

section \<open>Elections, logs and leaders\<close>

lemma led_pairs_None:
  "led_pairs rs = None \<longleftrightarrow> (\<forall>a \<in> set rs. \<forall>b \<in> set rs. ld_term a = ld_term b \<longrightarrow> ld_node a = ld_node b)"
proof (induction rs)
  case (Cons a rs)
  have "led_pairs (a # rs) = None \<longleftrightarrow> (\<forall>b \<in> set rs. ld_term a = ld_term b \<longrightarrow> ld_node a = ld_node b) \<and> led_pairs rs = None"
    unfolding led_pairs.simps or_else_None first_some_None by auto
  then show ?case unfolding Cons.IH list.set by (metis insertE insertI1 insertI2)
qed simp

definition agree_at :: "nat \<Rightarrow> Entry list \<Rightarrow> Entry list \<Rightarrow> bool" where
  "agree_at i la lb \<longleftrightarrow> (\<exists>x y. last_at i la = Some x \<and> last_at i lb = Some y \<and> e_Term x = e_Term y)"

definition logs_match :: "nat \<Rightarrow> Entry list \<Rightarrow> Entry list \<Rightarrow> bool" where
  "logs_match lo la lb \<longleftrightarrow> (\<forall>i k x y. lo < k \<and> k < i \<and> i \<le> min (lastIndexOf la) (lastIndexOf lb) \<and> agree_at i la lb \<and>
     last_at k la = Some x \<and> last_at k lb = Some y \<longrightarrow> same_command x y)"

lemma compare_None:
  "LogMatching_compare a b sa sb la lb = None \<longleftrightarrow> logs_match (max sa sb) la lb"
proof -
  let ?lo = "max sa sb" and ?hi = "min (lastIndexOf la) (lastIndexOf lb)"
  let ?agree = "\<lambda>i. agree_at i la lb"
  let ?bad = "\<lambda>i k. case (last_at k la, last_at k lb) of
      (Some x, Some y) \<Rightarrow> if e_Term x \<noteq> e_Term y \<or> e_Data x \<noteq> e_Data y then Some (LogsDiffer a b i k (e_Term x)) else None
    | _ \<Rightarrow> None"
  have ag: "(\<lambda>i. case (last_at i la, last_at i lb) of (Some x, Some y) \<Rightarrow> e_Term x = e_Term y | _ \<Rightarrow> False) = ?agree"
    by (auto simp: agree_at_def fun_eq_iff split: option.splits)
  have e: "LogMatching_compare a b sa sb la lb =
      (case find ?agree (rev [Suc ?lo..<Suc ?hi]) of None \<Rightarrow> None | Some i \<Rightarrow> first_some (?bad i) (rev [Suc ?lo..<i]))"
  proof -
    have m: "(if lastIndexOf lb < lastIndexOf la then lastIndexOf lb else lastIndexOf la) = ?hi" "(if sb > sa then sb else sa) = ?lo"
      by auto
    show ?thesis unfolding LogMatching_compare_def Let_def m ag ..
  qed
  have bad: "?bad i k = None \<longleftrightarrow> (\<forall>x y. last_at k la = Some x \<and> last_at k lb = Some y \<longrightarrow> same_command x y)" for i k
    by (auto simp: same_command_def split: option.splits)
  show ?thesis
  proof (cases "find ?agree (rev [Suc ?lo..<Suc ?hi])")
    case None
    then have no: "\<not> ?agree i" if "Suc ?lo \<le> i" "i < Suc ?hi" for i
      using that find_down_None [of ?agree "Suc ?lo" "Suc ?hi"] by blast
    have "logs_match ?lo la lb" unfolding logs_match_def using no by (metis Suc_leI less_Suc_eq_le less_trans)
    then show ?thesis using None e by simp
  next
    case (Some i)
    then have i: "Suc ?lo \<le> i" "i < Suc ?hi" "?agree i" "\<And>j. i < j \<Longrightarrow> j < Suc ?hi \<Longrightarrow> \<not> ?agree j"
      unfolding find_down by blast+
    have "LogMatching_compare a b sa sb la lb = None \<longleftrightarrow> (\<forall>k. ?lo < k \<and> k < i \<longrightarrow> ?bad i k = None)"
      unfolding e Some option.case first_some_None by (simp only: set_rev set_upt atLeastLessThan_iff Suc_le_eq Ball_def)
    also have "\<dots> \<longleftrightarrow> logs_match ?lo la lb"
    proof
      assume a: "\<forall>k. ?lo < k \<and> k < i \<longrightarrow> ?bad i k = None"
      show "logs_match ?lo la lb"
        unfolding logs_match_def
      proof (intro allI impI)
        fix j k x y
        assume b: "?lo < k \<and> k < j \<and> j \<le> ?hi \<and> ?agree j \<and> last_at k la = Some x \<and> last_at k lb = Some y"
        then have "j \<le> i" using i(4) [of j] by (meson le_imp_less_Suc not_le_imp_less)
        then show "same_command x y" using a b bad by (meson less_le_trans)
      qed
    next
      assume "logs_match ?lo la lb"
      then show "\<forall>k. ?lo < k \<and> k < i \<longrightarrow> ?bad i k = None"
        unfolding bad logs_match_def using i(2,3) less_Suc_eq_le by blast
    qed
    finally show ?thesis .
  qed
qed

lemma LogMatching_None:
  "LogMatching_check l = None \<longleftrightarrow> (\<forall>a b. a < b \<and> b < length (rl_durableLog l) \<longrightarrow>
     logs_match (max (sm_Index (rl_durableSnap l ! a)) (sm_Index (rl_durableSnap l ! b))) (rl_durableLog l ! a) (rl_durableLog l ! b))"
  by (auto simp: LogMatching_check_def Let_def first_some_None compare_None)

lemma LeaderCompleteness_None:
  "LeaderCompleteness_check l = None \<longleftrightarrow>
     (\<forall>c \<in> set (rl_committed l). \<forall>ld \<in> set (rl_ledIn l). e_Term (cr_entry c) < ld_term ld \<and> cr_at c \<le> ld_at ld \<longrightarrow>
        hasEntry (ld_log ld) (cr_entry c) \<or> e_Index (cr_entry c) \<le> sm_Index (ld_snap ld))"
  unfolding LeaderCompleteness_check_def first_some_None by (intro ball_cong refl) (auto simp: not_le not_less)

lemma conf_verdict_None:
  "conf_verdict node e = None \<longleftrightarrow> (e_Type e = EntryConfChange \<longrightarrow>
     (\<exists>ch. DecodeConfChange (e_Data e) = Some \<lparr>cc_Changes = [ch], cc_Transition = ConfChangeSimple\<rparr>))"
proof -
  have "cc_Transition cc = ConfChangeSimple \<and> length (cc_Changes cc) = 1 \<longleftrightarrow> (\<exists>ch. cc = \<lparr>cc_Changes = [ch], cc_Transition = ConfChangeSimple\<rparr>)"
    for cc :: ConfChangeV2 by (cases cc) (auto simp: length_Suc_conv)
  then show ?thesis by (auto simp: conf_verdict_def split: option.splits)
qed

section \<open>How the ledger of a range grows\<close>

definition rl_shaped :: "rangeLedger \<Rightarrow> bool" where
  "rl_shaped l \<longleftrightarrow> length (rl_durableLog l) = rl_nodes l \<and> length (rl_durableSnap l) = rl_nodes l \<and> length (rl_applied l) = rl_nodes l"

definition rl_grows :: "rangeLedger \<Rightarrow> rangeLedger \<Rightarrow> bool" where
  "rl_grows l l' \<longleftrightarrow> rl_id l' = rl_id l \<and> rl_nodes l' = rl_nodes l \<and> (rl_shaped l \<longrightarrow> rl_shaped l') \<and> prefix (rl_sent l) (rl_sent l') \<and>
     set (rl_snaps l) \<subseteq> set (rl_snaps l') \<and>
     (\<forall>n < length (rl_applied l). n < length (rl_applied l') \<and> prefix (rl_applied l ! n) (rl_applied l' ! n))"

lemma rl_grows_refl [simp]: "rl_grows l l"
  by (simp add: rl_grows_def)

lemma rl_grows_trans: "rl_grows a b \<Longrightarrow> rl_grows b c \<Longrightarrow> rl_grows a c"
  unfolding rl_grows_def by (metis prefix_order.trans subset_trans)

lemma slice_set_props:
  "slice_set xs i v = Some ys \<Longrightarrow> ys = xs[i := v] \<and> i < length xs"
  by (auto simp: slice_set_def split: if_splits)

lemma note_commit_keeps:
  "rl_applied (foldl (note_commit node at) l es) = rl_applied l \<and> rl_sent (foldl (note_commit node at) l es) = rl_sent l \<and>
   rl_snaps (foldl (note_commit node at) l es) = rl_snaps l \<and> rl_nodes (foldl (note_commit node at) l es) = rl_nodes l \<and>
   rl_id (foldl (note_commit node at) l es) = rl_id l \<and>
   rl_durableLog (foldl (note_commit node at) l es) = rl_durableLog l \<and> rl_durableSnap (foldl (note_commit node at) l es) = rl_durableSnap l"
  by (induction es arbitrary: l) (auto simp: note_commit_def)

lemma recording_grows:
  "rl_RecordDurable node st at l = Some l' \<Longrightarrow> rl_grows l l'" "rl_RecordSent node m at l = Some l' \<Longrightarrow> rl_grows l l'"
  "rl_grows l (rl_RecordReceived node m at l)" "rl_RecordApplied node es at l = Some l' \<Longrightarrow> rl_grows l l'"
  "rl_grows l (rl_RecordSnapshot node r at l)" "rl_grows l (rl_RecordRangeBase data conf l)"
proof -
  show "rl_RecordDurable node st at l = Some l' \<Longrightarrow> rl_grows l l'"
    by (auto simp: rl_RecordDurable_def rl_grows_def rl_shaped_def split: bind_splits dest!: slice_set_props)
  show "rl_RecordSent node m at l = Some l' \<Longrightarrow> rl_grows l l'"
    by (auto simp: rl_RecordSent_def noteLeader_def rl_grows_def rl_shaped_def Let_def split: bind_splits if_splits)
  show "rl_RecordApplied node es at l = Some l' \<Longrightarrow> rl_grows l l'"
    by (auto simp: rl_RecordApplied_def rl_grows_def rl_shaped_def note_commit_keeps slice_get_def nth_list_update
        split: bind_splits if_splits dest!: slice_set_props)
qed (auto simp: rl_RecordReceived_def rl_RecordSnapshot_def rl_RecordRangeBase_def rl_grows_def rl_shaped_def)

section \<open>How the ledger of a run grows\<close>

definition ledger_wf :: "Ledger \<Rightarrow> bool" where
  "ledger_wf l \<longleftrightarrow> distinct (map rl_id (lg_ranges l)) \<and> (\<forall>r \<in> set (lg_ranges l). rl_shaped r \<and> rl_nodes r = lg_nodes l)"

definition ledger_grows :: "Ledger \<Rightarrow> Ledger \<Rightarrow> bool" where
  "ledger_grows l l' \<longleftrightarrow> lg_rev l \<le> lg_rev l' \<and> (lg_rev l' = lg_rev l \<longrightarrow> lg_ranges l' = lg_ranges l) \<and>
     (\<forall>r \<in> set (lg_ranges l). \<exists>r' \<in> set (lg_ranges l'). rl_grows r r')"

lemma ledger_grows_refl [simp]: "ledger_grows l l"
  unfolding ledger_grows_def using rl_grows_refl by blast

lemma ledger_grows_trans: "ledger_grows a b \<Longrightarrow> ledger_grows b c \<Longrightarrow> ledger_grows a c"
proof -
  assume g: "ledger_grows a b" "ledger_grows b c"
  then have "\<forall>r \<in> set (lg_ranges a). \<exists>r' \<in> set (lg_ranges c). rl_grows r r'"
    unfolding ledger_grows_def by (meson rl_grows_trans)
  then show ?thesis using g unfolding ledger_grows_def by force
qed

lemma ledger_sink_mset: "i < length xs \<Longrightarrow> mset (sink k i xs) = mset xs"
proof (induction k i xs rule: sink.induct)
  case (2 k i xs)
  then show ?case by (simp add: mset_swap)
qed simp

lemma forRange_grows:
  assumes "ledger_wf l" "forRange i l = (r, l1)"
  shows "ledger_wf l1 \<and> r \<in> set (lg_ranges l1) \<and> rl_id r = i \<and> set (lg_ranges l) \<subseteq> set (lg_ranges l1) \<and> lg_rev l1 = lg_rev l \<and>
    lg_nodes l1 = lg_nodes l"
proof (cases "rangeByID l i")
  case None
  let ?r = "new_range i (lg_nodes l)"
  have l1: "r = ?r" "l1 = l\<lparr>lg_ranges := sink rl_id (length (lg_ranges l)) (lg_ranges l @ [?r])\<rparr>"
    using assms(2) None by (auto simp: forRange_def Let_def)
  have m: "mset (lg_ranges l1) = add_mset ?r (mset (lg_ranges l))" by (simp add: l1 ledger_sink_mset)
  then have "mset (map rl_id (lg_ranges l1)) = add_mset i (mset (map rl_id (lg_ranges l)))"
    by (simp add: new_range_def)
  moreover have "i \<notin> rl_id ` set (lg_ranges l)" using None by (auto simp: rangeByID_def find_None_iff)
  ultimately have "distinct (map rl_id (lg_ranges l1))"
    using assms(1) by (metis distinct.simps(2) ledger_wf_def list.set_map mset.simps(2) mset_eq_imp_distinct_iff)
  moreover have "set (lg_ranges l1) = insert ?r (set (lg_ranges l))" using m by (metis set_mset_add_mset_insert set_mset_mset)
  ultimately show ?thesis using assms(1) by (auto simp: ledger_wf_def l1 new_range_def rl_shaped_def)
next
  case (Some r0)
  then have "r = r0" "l1 = l" using assms(2) by (auto simp: forRange_def)
  moreover have "r0 \<in> set (lg_ranges l)" "rl_id r0 = i" using Some by (auto simp: rangeByID_def find_Some_iff)
  ultimately show ?thesis using assms(1) by simp
qed

lemma on_range_grows:
  assumes "ledger_wf l" "on_range i f l = Some l'" "\<And>r r'. f r = Some r' \<Longrightarrow> rl_grows r r'"
  shows "ledger_wf l' \<and> ledger_grows l l'"
proof -
  obtain r l1 r' where l1: "forRange i (l\<lparr>lg_rev := lg_rev l + 1\<rparr>) = (r, l1)" "f r = Some r'" "l' = put_range r' l1"
    using assms(2) by (auto simp: on_range_def split: prod.splits)
  have "ledger_wf (l\<lparr>lg_rev := lg_rev l + 1\<rparr>)" using assms(1) by (simp add: ledger_wf_def)
  from forRange_grows [OF this l1(1)]
  have f: "ledger_wf l1" "r \<in> set (lg_ranges l1)" "set (lg_ranges l) \<subseteq> set (lg_ranges l1)" "lg_rev l1 = Suc (lg_rev l)" by auto
  have g: "rl_grows r r'" by (rule assms(3) [OF l1(2)])
  then have id: "rl_id r' = rl_id r" "rl_nodes r' = rl_nodes r" "rl_shaped r \<Longrightarrow> rl_shaped r'" by (simp_all add: rl_grows_def)
  have only: "x = r" if "x \<in> set (lg_ranges l1)" "rl_id x = rl_id r" for x
    using f(1,2) that by (metis (no_types) distinct_map inj_on_def ledger_wf_def)
  have "map rl_id (lg_ranges l') = map rl_id (lg_ranges l1)" by (auto simp: l1(3) put_range_def id(1))
  then have "distinct (map rl_id (lg_ranges l'))" using f(1) by (simp add: ledger_wf_def)
  moreover have "\<forall>x \<in> set (lg_ranges l'). rl_shaped x \<and> rl_nodes x = lg_nodes l'"
    using f(1,2) id by (auto simp: ledger_wf_def l1(3) put_range_def)
  ultimately have "ledger_wf l'" by (simp add: ledger_wf_def)
  moreover have "\<exists>y \<in> set (lg_ranges l'). rl_grows x y" if "x \<in> set (lg_ranges l)" for x
  proof -
    let ?y = "if rl_id x = rl_id r' then r' else x"
    have x: "x \<in> set (lg_ranges l1)" using that f(3) by blast
    then have "?y \<in> set (lg_ranges l')" by (auto simp: l1(3) put_range_def)
    moreover have "rl_grows x ?y" using only [OF x] g id(1) by auto
    ultimately show ?thesis by blast
  qed
  ultimately show ?thesis using f(4) by (simp add: ledger_grows_def l1(3) put_range_def)
qed

lemma record_event_grows:
  assumes "ledger_wf l" "record_event ev l = Some l'"
  shows "ledger_wf l' \<and> ledger_grows l l'"
proof -
  have same: "ledger_wf l' \<and> ledger_grows l l'"
    if "lg_ranges l' = lg_ranges l" "lg_nodes l' = lg_nodes l" "lg_rev l \<le> lg_rev l'"
    using that assms(1) unfolding ledger_wf_def ledger_grows_def by (auto intro: bexI [where P = "rl_grows r" and x = r for r, OF rl_grows_refl])
  show ?thesis
  proof (cases ev)
    case (RecordDurable i node st at)
    then have "on_range i (rl_RecordDurable node st at) l = Some l'" using assms(2) by simp
    from on_range_grows [OF assms(1) this recording_grows(1)] show ?thesis .
  next
    case (RecordSent i node m at)
    then have "on_range i (rl_RecordSent node m at) l = Some l'" using assms(2) by simp
    from on_range_grows [OF assms(1) this recording_grows(2)] show ?thesis .
  next
    case (RecordReceived i node m at)
    then have "on_range i (\<lambda>r. Some (rl_RecordReceived node m at r)) l = Some l'" using assms(2) by simp
    from on_range_grows [OF assms(1) this] show ?thesis using recording_grows(3) by auto
  next
    case (RecordApplied i node es at)
    then have "on_range i (rl_RecordApplied node es at) l = Some l'" using assms(2) by simp
    from on_range_grows [OF assms(1) this recording_grows(4)] show ?thesis .
  next
    case (RecordSnapshot i node r at)
    then have "on_range i (\<lambda>x. Some (rl_RecordSnapshot node r at x)) l = Some l'" using assms(2) by simp
    from on_range_grows [OF assms(1) this] show ?thesis using recording_grows(5) by auto
  next
    case (RecordRangeBase i data conf)
    then have "on_range i (\<lambda>r. Some (rl_RecordRangeBase data conf r)) l = Some l'" using assms(2) by simp
    from on_range_grows [OF assms(1) this] show ?thesis using recording_grows(6) by auto
  qed (use assms(2) same in auto)
qed

lemma record_events_grows:
  "ledger_wf l \<Longrightarrow> record_events evs l = Some l' \<Longrightarrow> ledger_wf l' \<and> ledger_grows l l'"
proof (induction evs arbitrary: l)
  case (Cons ev evs)
  then show ?case using record_event_grows [OF Cons.prems(1)] ledger_grows_trans by (fastforce split: bind_splits)
qed simp

section \<open>Oracles with a memory\<close>

text \<open>
  An incremental oracle keeps what it needs of the part of the ledger it has read.  If it stays silent
  along a growing ledger, its property holds of all of it.
\<close>

locale incremental_oracle =
  fixes check :: "rangeLedger \<Rightarrow> 's \<Rightarrow> violation option \<times> 's"
    and new :: "nat \<Rightarrow> 's"
    and remembers :: "rangeLedger \<Rightarrow> 's \<Rightarrow> bool"
    and property :: "rangeLedger \<Rightarrow> bool"
  assumes remembers_new: "remembers l (new (rl_nodes l))"
    and remembers_grows: "remembers l st \<Longrightarrow> rl_shaped l \<Longrightarrow> rl_grows l l' \<Longrightarrow> remembers l' st"
    and silent: "remembers l st \<Longrightarrow> rl_shaped l \<Longrightarrow> check l st = (None, st') \<Longrightarrow> remembers l st' \<and> property l"
begin

text \<open>One pass over the ranges, each with the state made when it was first seen.\<close>

lemma silent_pass:
  assumes "distinct (map rl_id rs)" "\<forall>r \<in> set rs. rl_shaped r \<and> (\<forall>st. per (rl_id r) = Some st \<longrightarrow> remembers r st)"
    "loop_some (\<lambda>rl s. case per_range new check (rl_id rl) rl s of (v, s') \<Rightarrow> (map_option (\<lambda>x. (rl_id rl, x)) v, s')) rs per = (None, per')"
  shows "(\<forall>r \<in> set rs. property r \<and> (\<exists>st. per' (rl_id r) = Some st \<and> remembers r st)) \<and> (\<forall>i. i \<notin> rl_id ` set rs \<longrightarrow> per' i = per i)"
  using assms
proof (induction rs arbitrary: per)
  case (Cons r rs)
  let ?st = "case per (rl_id r) of Some st \<Rightarrow> st | None \<Rightarrow> new (rl_nodes r)"
  have r: "remembers r ?st" "rl_shaped r" using Cons.prems(2) remembers_new by (auto split: option.splits)
  obtain st1 where c: "check r ?st = (None, st1)" using Cons.prems(3)
    by (auto simp: per_range_def split: prod.splits option.splits)
  from silent [OF r c] have st1: "remembers r st1" "property r" by auto
  have rest: "loop_some (\<lambda>rl s. case per_range new check (rl_id rl) rl s of (v, s') \<Rightarrow> (map_option (\<lambda>x. (rl_id rl, x)) v, s')) rs
      (per(rl_id r \<mapsto> st1)) = (None, per')" using Cons.prems(3) c by (simp add: per_range_def)
  have fresh: "rl_id r \<notin> rl_id ` set rs" using Cons.prems(1) by simp
  have "\<forall>x \<in> set rs. rl_shaped x \<and> (\<forall>st. (per(rl_id r \<mapsto> st1)) (rl_id x) = Some st \<longrightarrow> remembers x st)"
    using Cons.prems(2) fresh by (metis fun_upd_other image_eqI list.set_intros(2))
  from Cons.IH [OF _ this rest] Cons.prems(1)
  have "(\<forall>x \<in> set rs. property x \<and> (\<exists>st. per' (rl_id x) = Some st \<and> remembers x st))"
    "(\<forall>i. i \<notin> rl_id ` set rs \<longrightarrow> per' i = (per(rl_id r \<mapsto> st1)) i)" by auto
  then show ?case using st1 fresh by auto
qed simp

definition watching :: "Ledger \<Rightarrow> base \<times> (u64 \<rightharpoonup> 's) \<Rightarrow> bool" where
  "watching l o' \<longleftrightarrow> (case o' of (b, per) \<Rightarrow>
     (\<forall>i st. per i = Some st \<longrightarrow> (\<exists>r \<in> set (lg_ranges l). rl_id r = i \<and> remembers r st)) \<and>
     (b_primed b \<longrightarrow> b_seenRev b \<le> lg_rev l \<and> (b_seenRev b = lg_rev l \<longrightarrow> (\<forall>r \<in> set (lg_ranges l). property r))))"

lemma watching_grows:
  assumes "watching l (b, per)" "ledger_wf l" "ledger_grows l l'"
  shows "watching l' (b, per)"
proof -
  have "\<exists>r' \<in> set (lg_ranges l'). rl_id r' = i \<and> remembers r' st" if p: "per i = Some st" for i st
  proof -
    obtain r where r: "r \<in> set (lg_ranges l)" "rl_id r = i" "remembers r st" using p assms(1) by (auto simp: watching_def)
    then obtain r' where r': "r' \<in> set (lg_ranges l')" "rl_grows r r'" using assms(3) by (auto simp: ledger_grows_def)
    then show ?thesis using remembers_grows [OF r(3) _ r'(2)] assms(2) r by (auto simp: ledger_wf_def rl_grows_def)
  qed
  then show ?thesis using assms(1,3) unfolding watching_def ledger_grows_def by force
qed

lemma silent_step:
  assumes "watching l (b, per)" "ledger_wf l" "OnStep (per_range new check) l (b, per) = (None, b', per')"
  shows "watching l (b', per') \<and> (\<forall>r \<in> set (lg_ranges l). property r)"
proof (cases "b_primed b \<and> b_seenRev b = lg_rev l")
  case True
  then show ?thesis using assms(1,3) by (auto simp: OnStep_def stale_def watching_def)
next
  case False
  then have b': "b' = \<lparr>b_seenRev = lg_rev l, b_primed = True\<rparr>"
    and pass: "eachRange (per_range new check) l per = (None, per')" using assms(3) by (auto simp: OnStep_def stale_def split: prod.splits)
  have d: "distinct (map rl_id (lg_ranges l))" using assms(2) by (simp add: ledger_wf_def)
  have "\<forall>r \<in> set (lg_ranges l). rl_shaped r \<and> (\<forall>st. per (rl_id r) = Some st \<longrightarrow> remembers r st)"
  proof (intro ballI conjI allI impI)
    fix r st assume r: "r \<in> set (lg_ranges l)" "per (rl_id r) = Some st"
    then obtain x where "x \<in> set (lg_ranges l)" "rl_id x = rl_id r" "remembers x st"
      using assms(1) unfolding watching_def prod.case by blast
    moreover from this have "x = r" using d r(1) by (metis distinct_map inj_on_def)
    ultimately show "remembers r st" by simp
  qed (use assms(2) in \<open>simp add: ledger_wf_def\<close>)
  from silent_pass [OF d this pass [unfolded eachRange_def]]
  have p: "\<And>r. r \<in> set (lg_ranges l) \<Longrightarrow> property r \<and> (\<exists>st. per' (rl_id r) = Some st \<and> remembers r st)"
    "\<And>i. i \<notin> rl_id ` set (lg_ranges l) \<Longrightarrow> per' i = per i" by auto
  have "\<exists>r \<in> set (lg_ranges l). rl_id r = i \<and> remembers r st" if "per' i = Some st" for i st
  proof (cases "i \<in> rl_id ` set (lg_ranges l)")
    case True
    then show ?thesis using p(1) that by fastforce
  next
    case False
    then have "per i = Some st" using p(2) that by simp
    then show ?thesis using assms(1) unfolding watching_def prod.case by blast
  qed
  then show ?thesis using p(1) by (simp add: watching_def b')
qed

lemma silent_watch:
  assumes "watching l (b, per)" "ledger_wf l" "watch (OnStep (per_range new check)) batches l (b, per) = Some (None, l')"
    "batches \<noteq> [] \<or> (\<forall>r \<in> set (lg_ranges l). property r)"
  shows "\<forall>r \<in> set (lg_ranges l'). property r"
  using assms
proof (induction batches arbitrary: l b per)
  case (Cons evs batches)
  obtain l1 where l1: "record_events evs l = Some l1" using Cons.prems(3) by (auto split: bind_splits)
  from record_events_grows [OF Cons.prems(2) l1] have g: "ledger_wf l1" "ledger_grows l l1" by auto
  obtain b1 per1 where o: "OnStep (per_range new check) l1 (b, per) = (None, b1, per1)"
    using Cons.prems(3) l1 by (auto split: prod.splits option.splits)
  from silent_step [OF watching_grows [OF Cons.prems(1,2) g(2)] g(1) o]
  have s: "watching l1 (b1, per1)" "\<forall>r \<in> set (lg_ranges l1). property r" by auto
  have "watch (OnStep (per_range new check)) batches l1 (b1, per1) = Some (None, l')" using Cons.prems(3) l1 o by simp
  from Cons.IH [OF s(1) g(1) this] s(2) show ?case by blast
qed simp

lemma silent_from_start:
  assumes "watch (OnStep (per_range new check)) batches (NewLedger k) (base_new, Map.empty) = Some (None, l')"
  shows "\<forall>r \<in> set (lg_ranges l'). property r"
proof (rule silent_watch [OF _ _ assms])
  show "watching (NewLedger k) (base_new, Map.empty)" by (simp add: watching_def base_new_def)
qed (simp_all add: NewLedger_def ledger_wf_def)

end

text \<open>A loop that resumes at a cursor and reads to the end.\<close>

lemma loop_resumes:
  assumes "\<And>st st1. I st \<Longrightarrow> cur st < length xs \<Longrightarrow> f (xs ! cur st) st = (None, st1) \<Longrightarrow> I st1 \<and> cur st1 = Suc (cur st)"
    and "I st" "cur st \<le> length xs" "loop_some f (drop (cur st) xs) st = (None, st')"
  shows "I st' \<and> cur st' = length xs"
  using assms(2-4)
proof (induction "length xs - cur st" arbitrary: st)
  case 0
  then show ?case by simp
next
  case (Suc k)
  then have lt: "cur st < length xs" by simp
  then have d: "drop (cur st) xs = xs ! cur st # drop (Suc (cur st)) xs" by (simp add: Cons_nth_drop_Suc)
  obtain st1 where s1: "f (xs ! cur st) st = (None, st1)" "loop_some f (drop (Suc (cur st)) xs) st1 = (None, st')"
    using Suc.prems(3) unfolding d by (auto split: prod.splits option.splits)
  from assms(1) [OF Suc.prems(1) lt s1(1)] show ?case
    using Suc.hyps s1(2) lt by (intro Suc.hyps(1)) auto
qed

subsection \<open>Persist before reply\<close>

definition pre_votes :: "sentRecord list \<Rightarrow> (NodeID \<times> NodeID \<times> nat) set" where
  "pre_votes ss = (\<lambda>s. (m_From (se_msg s), m_To (se_msg s), m_Term (se_msg s))) ` {s \<in> set ss. m_Type (se_msg s) = MsgPreVote}"

definition persisted_first :: "sentRecord \<Rightarrow> (NodeID \<times> NodeID \<times> nat) set \<Rightarrow> bool" where
  "persisted_first s asked \<longleftrightarrow>
     (let m = se_msg s
      in if m_Type m = MsgPreVoteResp then (m_To m, m_From m, m_Term m) \<in> asked
         else if m_Type m = MsgPreVote then se_durableTerm s < m_Term m
         else m_Term m \<le> se_durableTerm s \<and> (m_Type m = MsgVoteResp \<and> m_Granted m \<longrightarrow> se_durableVote s \<noteq> 0) \<and>
              (m_Type m = MsgAppResp \<and> m_Success m \<longrightarrow> m_MatchIndex m \<le> se_durableLast s))"

definition replies_persisted :: "sentRecord list \<Rightarrow> bool" where
  "replies_persisted ss \<longleftrightarrow> (\<forall>i < length ss. persisted_first (ss ! i) (pre_votes (take i ss)))"

definition pbr_remembers :: "rangeLedger \<Rightarrow> pbrState \<Rightarrow> bool" where
  "pbr_remembers l st \<longleftrightarrow> pbr_cursor st \<le> length (rl_sent l) \<and>
     set (pbr_preVotes st) = pre_votes (take (pbr_cursor st) (rl_sent l)) \<and> replies_persisted (take (pbr_cursor st) (rl_sent l))"

lemma pbr_verdict_None: "pbr_verdict s asked = None \<longleftrightarrow> persisted_first s (set asked)"
  by (auto simp: pbr_verdict_def persisted_first_def Let_def)

lemma replies_persisted_snoc:
  "replies_persisted (ss @ [s]) \<longleftrightarrow> replies_persisted ss \<and> persisted_first s (pre_votes ss)"
  by (auto simp: replies_persisted_def nth_append less_Suc_eq)

lemma pre_votes_snoc:
  "pre_votes (ss @ [s]) = (if m_Type (se_msg s) = MsgPreVote then insert (m_From (se_msg s), m_To (se_msg s), m_Term (se_msg s)) (pre_votes ss)
     else pre_votes ss)"
  by (auto simp: pre_votes_def)

lemma pbr_sent_step:
  assumes "pbr_remembers l st" "pbr_cursor st < length (rl_sent l)" "pbr_sent (rl_sent l ! pbr_cursor st) st = (None, st1)"
  shows "pbr_remembers l st1 \<and> pbr_cursor st1 = Suc (pbr_cursor st)"
proof -
  let ?s = "rl_sent l ! pbr_cursor st" and ?ss = "take (pbr_cursor st) (rl_sent l)"
  define asked where "asked = (if m_Type (se_msg ?s) = MsgPreVote
     then List.insert (m_From (se_msg ?s), m_To (se_msg ?s), m_Term (se_msg ?s)) (pbr_preVotes st) else pbr_preVotes st)"
  have st1: "pbr_verdict ?s asked = None" "st1 = \<lparr>pbr_cursor = pbr_cursor st + 1, pbr_preVotes = asked\<rparr>"
    using assms(3) unfolding pbr_sent_def Let_def asked_def by (auto split: option.splits)
  have "persisted_first ?s (set asked) \<longleftrightarrow> persisted_first ?s (set (pbr_preVotes st))"
    by (simp add: persisted_first_def asked_def Let_def)
  moreover have "set asked = pre_votes (?ss @ [?s])" using assms(1) by (simp add: asked_def pre_votes_snoc pbr_remembers_def)
  ultimately show ?thesis
    using st1 assms(1,2) by (simp add: pbr_remembers_def take_Suc_conv_app_nth replies_persisted_snoc pbr_verdict_None)
qed

interpretation pbr: incremental_oracle PersistBeforeReply_check "\<lambda>_. pbr_new" pbr_remembers "\<lambda>l. replies_persisted (rl_sent l)"
proof
  show "pbr_remembers l pbr_new" for l
    by (simp add: pbr_remembers_def pbr_new_def pre_votes_def replies_persisted_def)
  show "pbr_remembers l' st" if "pbr_remembers l st" "rl_shaped l" "rl_grows l l'" for l l' st
    using that by (auto simp: pbr_remembers_def rl_grows_def prefix_def)
  show "pbr_remembers l st' \<and> replies_persisted (rl_sent l)"
    if "pbr_remembers l st" "rl_shaped l" "PersistBeforeReply_check l st = (None, st')" for l st st'
  proof -
    have "pbr_remembers l st' \<and> pbr_cursor st' = length (rl_sent l)"
      by (rule loop_resumes [of "pbr_remembers l" pbr_cursor "rl_sent l" pbr_sent st st'], rule pbr_sent_step, assumption+)
        (use that in \<open>simp_all add: PersistBeforeReply_check_def pbr_remembers_def\<close>)
    then show ?thesis by (auto simp: pbr_remembers_def)
  qed
qed

subsection \<open>State machine safety\<close>

abbreviation read_of :: "rangeLedger \<Rightarrow> nat list \<Rightarrow> ordinal \<Rightarrow> Entry list" where
  "read_of l cursor n \<equiv> take (cursor ! n) (rl_applied l ! n)"

definition first_holds :: "(nat \<rightharpoonup> ordinal \<times> Entry) \<Rightarrow> ordinal \<Rightarrow> Entry list \<Rightarrow> bool" where
  "first_holds first n es \<longleftrightarrow> (\<forall>e \<in> set es. \<exists>n0 e0. first (e_Index e) = Some (n0, e0) \<and> (n0 = n \<or> same_command e0 e))"

definition first_from :: "nat \<Rightarrow> (ordinal \<Rightarrow> Entry list) \<Rightarrow> (nat \<rightharpoonup> ordinal \<times> Entry) \<Rightarrow> bool" where
  "first_from k streams first \<longleftrightarrow> (\<forall>i n e. first i = Some (n, e) \<longrightarrow> n < k \<and> e_Index e = i \<and> e \<in> set (streams n))"

definition sms_remembers :: "rangeLedger \<Rightarrow> smsState \<Rightarrow> bool" where
  "sms_remembers l st \<longleftrightarrow> length (sms_cursor st) = rl_nodes l \<and>
     (\<forall>n < rl_nodes l. sms_cursor st ! n \<le> length (rl_applied l ! n) \<and>
        first_holds (sms_first st) n (read_of l (sms_cursor st) n)) \<and>
     first_from (rl_nodes l) (read_of l (sms_cursor st)) (sms_first st)"

definition one_first :: "rangeLedger \<Rightarrow> bool" where
  "one_first l \<longleftrightarrow> (\<exists>first. first_from (rl_nodes l) (\<lambda>n. rl_applied l ! n) first \<and>
     (\<forall>n < rl_nodes l. first_holds first n (rl_applied l ! n)))"

lemma first_holds_upd: "first_holds f n es \<Longrightarrow> f i = None \<Longrightarrow> first_holds (f(i \<mapsto> v)) n es"
  unfolding first_holds_def by (metis (no_types) fun_upd_other option.distinct(1))

lemma first_from_mono:
  "first_from k g f \<Longrightarrow> (\<And>n. set (g n) \<subseteq> set (h n)) \<Longrightarrow> first_from k h f"
  unfolding first_from_def by blast

lemma first_from_upd:
  "first_from k g f \<Longrightarrow> n < k \<Longrightarrow> e \<in> set (g n) \<Longrightarrow> first_from k g (f(e_Index e \<mapsto> (n, e)))"
  unfolding first_from_def by (metis (no_types) Pair_inject fun_upd_def option.inject)

lemma sms_entry_step:
  assumes "sms_remembers l st" "rl_shaped l" "node < rl_nodes l" "sms_cursor st ! node < length (rl_applied l ! node)"
    "sms_entry node (rl_applied l ! node ! (sms_cursor st ! node)) st = (None, st1)"
  shows "sms_remembers l st1 \<and> sms_cursor st1 = (sms_cursor st)[node := Suc (sms_cursor st ! node)]"
proof -
  let ?e = "rl_applied l ! node ! (sms_cursor st ! node)" and ?c = "sms_cursor st"
  let ?c1 = "?c[node := Suc (?c ! node)]"
  have len: "length ?c = rl_nodes l" "length (rl_applied l) = rl_nodes l" using assms(1,2) by (simp_all add: sms_remembers_def rl_shaped_def)
  have reads: "read_of l ?c1 n = (if n = node then read_of l ?c n @ [?e] else read_of l ?c n)" for n
    using assms(3,4) len by (cases "n < rl_nodes l") (auto simp: take_Suc_conv_app_nth nth_list_update)
  have grew: "set (read_of l ?c n) \<subseteq> set (read_of l ?c1 n)" for n unfolding reads by auto
  show ?thesis
  proof (cases "sms_first st (e_Index ?e)")
    case None
    have st1: "st1 = st\<lparr>sms_cursor := ?c1, sms_first := (sms_first st)(e_Index ?e \<mapsto> (node, ?e))\<rparr>"
      using assms(5) None by (simp add: sms_entry_def)
    have "first_from (rl_nodes l) (read_of l ?c1) ((sms_first st)(e_Index ?e \<mapsto> (node, ?e)))"
    proof (rule first_from_upd)
      show "first_from (rl_nodes l) (read_of l ?c1) (sms_first st)"
        using assms(1,2) grew by (auto simp: sms_remembers_def intro: first_from_mono)
      show "?e \<in> set (read_of l ?c1 node)" unfolding reads by simp
    qed (rule assms(3))
    moreover have "first_holds ((sms_first st)(e_Index ?e \<mapsto> (node, ?e))) n (read_of l ?c1 n)" if "n < rl_nodes l" for n
    proof -
      have "first_holds (sms_first st) n (read_of l ?c n)" using assms(1) that len(2) by (simp add: sms_remembers_def)
      from first_holds_upd [where i = "e_Index ?e" and v = "(node, ?e)", OF this None]
      show ?thesis unfolding reads by (auto simp: first_holds_def)
    qed
    ultimately show ?thesis using assms(1,3,4) len by (auto simp: sms_remembers_def st1 nth_list_update)
  next
    case (Some p)
    obtain n0 e0 where p: "p = (n0, e0)" by (meson surj_pair)
    have st1: "st1 = st\<lparr>sms_cursor := ?c1\<rparr>" "n0 = node \<or> same_command e0 ?e"
      using assms(5) Some p by (auto simp: sms_entry_def Let_def split: if_splits)
    have "first_from (rl_nodes l) (read_of l ?c1) (sms_first st)"
      using assms(1,2) grew unfolding sms_remembers_def first_from_def by blast
    moreover have "first_holds (sms_first st) n (read_of l ?c1 n)" if "n < rl_nodes l" for n
    proof -
      have "first_holds (sms_first st) n (read_of l ?c n)" using assms(1) that len(2) by (simp add: sms_remembers_def)
      then show ?thesis using st1(2) Some p unfolding reads by (auto simp: first_holds_def)
    qed
    ultimately show ?thesis using assms(1,3,4) len by (auto simp: sms_remembers_def st1(1) nth_list_update)
  qed
qed

lemma sms_node_silent:
  assumes "sms_remembers l st" "rl_shaped l" "node < rl_nodes l"
    "loop_some (sms_entry node) (drop (sms_cursor st ! node) (rl_applied l ! node)) st = (None, st1)"
  shows "sms_remembers l st1 \<and> sms_cursor st1 = (sms_cursor st)[node := length (rl_applied l ! node)]"
proof -
  let ?I = "\<lambda>s. sms_remembers l s \<and> (\<exists>k. sms_cursor s = (sms_cursor st)[node := k])"
  have len: "node < length (sms_cursor st)" using assms(1,3) by (simp add: sms_remembers_def)
  have "?I st1 \<and> sms_cursor st1 ! node = length (rl_applied l ! node)"
  proof (rule loop_resumes [of ?I "\<lambda>s. sms_cursor s ! node" "rl_applied l ! node" "sms_entry node" st st1])
    fix s s1
    assume a: "?I s" "sms_cursor s ! node < length (rl_applied l ! node)"
      "sms_entry node (rl_applied l ! node ! (sms_cursor s ! node)) s = (None, s1)"
    from sms_entry_step [OF conjunct1 [OF a(1)] assms(2,3) a(2,3)] a(1)
    have "sms_remembers l s1" "sms_cursor s1 = (sms_cursor s)[node := Suc (sms_cursor s ! node)]" by auto
    then show "?I s1 \<and> sms_cursor s1 ! node = Suc (sms_cursor s ! node)"
      using a(1) len by (metis length_list_update list_update_overwrite nth_list_update_eq)
  next
    show "?I st" using assms(1) list_update_id [of "sms_cursor st" node] by (intro conjI exI [of _ "sms_cursor st ! node"]) auto
    show "sms_cursor st ! node \<le> length (rl_applied l ! node)" using assms(1-3) by (simp add: sms_remembers_def rl_shaped_def)
  qed (rule assms(4))
  then show ?thesis using len by auto
qed

lemma read_of_grows:
  assumes "rl_grows l l'" "rl_shaped l" "n < rl_nodes l" "c ! n \<le> length (rl_applied l ! n)"
  shows "read_of l' c n = read_of l c n \<and> c ! n \<le> length (rl_applied l' ! n)"
  using assms by (fastforce simp: rl_grows_def rl_shaped_def prefix_def)

lemma loop_upto:
  assumes "\<And>i s s1. i < n \<Longrightarrow> I i s \<Longrightarrow> f i s = (None, s1) \<Longrightarrow> I (Suc i) s1"
    and "I 0 s" "loop_some f [0..<n] s = (None, s')"
  shows "I n s'"
proof -
  have "I n s'" if "i \<le> n" "I i s" "loop_some f [i..<n] s = (None, s')" for i s
    using that
  proof (induction "n - i" arbitrary: i s)
    case (Suc k)
    then have "[i..<n] = i # [Suc i..<n]" by (simp add: upt_conv_Cons)
    then obtain s1 where "f i s = (None, s1)" "loop_some f [Suc i..<n] s1 = (None, s')"
      using Suc.prems(3) by (auto split: prod.splits option.splits)
    then show ?case using Suc assms(1) [of i s s1] by (intro Suc.hyps(1) [of "Suc i"]) auto
  qed simp
  then show ?thesis using assms(2,3) by blast
qed

interpretation sms: incremental_oracle StateMachineSafety_check sms_new sms_remembers one_first
proof
  show "sms_remembers l (sms_new (rl_nodes l))" for l
    by (simp add: sms_remembers_def sms_new_def first_holds_def first_from_def)
  show "sms_remembers l' st" if "sms_remembers l st" "rl_shaped l" "rl_grows l l'" for l l' st
  proof -
    have k: "rl_nodes l' = rl_nodes l" using that(3) by (simp add: rl_grows_def)
    have r: "read_of l' (sms_cursor st) n = read_of l (sms_cursor st) n" "sms_cursor st ! n \<le> length (rl_applied l' ! n)"
      if "n < rl_nodes l" for n using read_of_grows [OF \<open>rl_grows l l'\<close> \<open>rl_shaped l\<close> that] \<open>sms_remembers l st\<close> that
      by (auto simp: sms_remembers_def)
    then have "first_from (rl_nodes l) (read_of l' (sms_cursor st)) (sms_first st)"
      using that(1) unfolding sms_remembers_def first_from_def by metis
    then show ?thesis using that(1) r by (simp add: sms_remembers_def k)
  qed
  show "sms_remembers l st' \<and> one_first l"
    if "sms_remembers l st" "rl_shaped l" "StateMachineSafety_check l st = (None, st')" for l st st'
  proof -
    let ?I = "\<lambda>k st. sms_remembers l st \<and> (\<forall>n < k. sms_cursor st ! n = length (rl_applied l ! n))"
    have "?I (rl_nodes l) st'"
    proof (rule loop_upto [where I = ?I and s = st])
      fix i s s1
      assume i: "i < rl_nodes l" "?I i s" "loop_some (sms_entry i) (drop (sms_cursor s ! i) (rl_applied l ! i)) s = (None, s1)"
      with sms_node_silent [OF _ that(2) i(1,3)]
      have s1: "sms_remembers l s1" "sms_cursor s1 = (sms_cursor s)[i := length (rl_applied l ! i)]" by auto
      then show "?I (Suc i) s1" using i(1,2) by (auto simp: less_Suc_eq nth_list_update sms_remembers_def)
    qed (use that in \<open>simp_all add: StateMachineSafety_check_def\<close>)
    then have r: "sms_remembers l st'" "\<And>n. n < rl_nodes l \<Longrightarrow> read_of l (sms_cursor st') n = rl_applied l ! n" by auto
    then have "first_from (rl_nodes l) (\<lambda>n. rl_applied l ! n) (sms_first st')"
      unfolding sms_remembers_def first_from_def by metis
    then have "one_first l" using r unfolding one_first_def sms_remembers_def by metis
    then show ?thesis using r(1) by simp
  qed
qed

subsection \<open>Apply continuity\<close>

definition follows_on :: "rangeLedger \<Rightarrow> ordinal \<Rightarrow> nat \<Rightarrow> nat \<Rightarrow> bool" where
  "follows_on l n prev i \<longleftrightarrow> i = Suc prev \<or> i \<le> prev \<and> restartsAtRecoverable l n i \<or> prev < i \<and> jumpedByInstall l n prev i"

definition rebuilt_same :: "Entry list \<Rightarrow> bool" where
  "rebuilt_same es \<longleftrightarrow> (\<forall>a \<in> set es. \<forall>b \<in> set es. e_Index a = e_Index b \<longrightarrow> same_command a b)"

definition unbroken :: "rangeLedger \<Rightarrow> ordinal \<Rightarrow> Entry list \<Rightarrow> bool" where
  "unbroken l n es \<longleftrightarrow> successively (follows_on l n) (map e_Index es)"

definition continuous :: "rangeLedger \<Rightarrow> bool" where
  "continuous l \<longleftrightarrow> (\<forall>n < rl_nodes l. rebuilt_same (rl_applied l ! n) \<and> unbroken l n (rl_applied l ! n))"

definition ac_local :: "rangeLedger \<Rightarrow> ordinal \<Rightarrow> (nat \<rightharpoonup> Entry) \<times> nat \<times> bool \<times> nat \<Rightarrow> bool" where
  "ac_local l n loc \<longleftrightarrow>
     (case loc of (seen, prev, started, cursor) \<Rightarrow>
        let es = take cursor (rl_applied l ! n)
        in cursor \<le> length (rl_applied l ! n) \<and> rebuilt_same es \<and> unbroken l n es \<and> dom seen = e_Index ` set es \<and>
           (\<forall>i e. seen i = Some e \<longrightarrow> e \<in> set es \<and> e_Index e = i) \<and> (started \<longleftrightarrow> es \<noteq> []) \<and> (es \<noteq> [] \<longrightarrow> prev = e_Index (last es)))"

abbreviation ac_part :: "acState \<Rightarrow> ordinal \<Rightarrow> (nat \<rightharpoonup> Entry) \<times> nat \<times> bool \<times> nat" where
  "ac_part st n \<equiv> (ac_seen st ! n, ac_prev st ! n, ac_started st ! n, ac_cursor st ! n)"

definition ac_remembers :: "rangeLedger \<Rightarrow> acState \<Rightarrow> bool" where
  "ac_remembers l st \<longleftrightarrow> length (ac_seen st) = rl_nodes l \<and> length (ac_prev st) = rl_nodes l \<and> length (ac_started st) = rl_nodes l \<and>
     length (ac_cursor st) = rl_nodes l \<and> (\<forall>n < rl_nodes l. ac_local l n (ac_part st n))"

lemma ac_gap_None: "ac_gap l n started prev i = None \<longleftrightarrow> (started \<longrightarrow> follows_on l n prev i)"
  by (auto simp: ac_gap_def follows_on_def)

lemma follows_on_grows:
  "follows_on l n prev i \<Longrightarrow> rl_grows l l' \<Longrightarrow> follows_on l' n prev i"
  by (auto simp: follows_on_def restartsAtRecoverable_def jumpedByInstall_def rl_grows_def list_ex_iff)

lemma same_command_equiv:
  "same_command a a" "same_command a b \<Longrightarrow> same_command b a" "same_command a b \<Longrightarrow> same_command b c \<Longrightarrow> same_command a c"
  by (simp_all add: same_command_def)

lemma rebuilt_same_snoc:
  "rebuilt_same (es @ [e]) \<longleftrightarrow> rebuilt_same es \<and> (\<forall>a \<in> set es. e_Index a = e_Index e \<longrightarrow> same_command a e)"
  by (auto simp: rebuilt_same_def same_command_def)

lemma unbroken_snoc:
  "unbroken l n (es @ [e]) \<longleftrightarrow> unbroken l n es \<and> (es \<noteq> [] \<longrightarrow> follows_on l n (e_Index (last es)) (e_Index e))"
  by (cases "es = []") (auto simp: unbroken_def successively_append_iff last_map)

lemma ac_entry_step:
  assumes "ac_local l n loc" "snd (snd (snd loc)) < length (rl_applied l ! n)"
    "ac_entry l n (rl_applied l ! n ! snd (snd (snd loc))) loc = (None, loc1)"
  shows "ac_local l n loc1 \<and> snd (snd (snd loc1)) = Suc (snd (snd (snd loc)))"
proof -
  obtain seen prev started cursor where loc: "loc = (seen, prev, started, cursor)" by (metis surj_pair)
  define e where "e = rl_applied l ! n ! cursor"
  define es where "es = take cursor (rl_applied l ! n)"
  have old: "rebuilt_same es" "unbroken l n es" "dom seen = e_Index ` set es" "\<And>i e. seen i = Some e \<Longrightarrow> e \<in> set es \<and> e_Index e = i"
    "started \<longleftrightarrow> es \<noteq> []" "es \<noteq> [] \<longrightarrow> prev = e_Index (last es)"
    using assms(1) unfolding ac_local_def loc es_def Let_def by auto
  have new: "take (Suc cursor) (rl_applied l ! n) = es @ [e]"
    using assms(2) by (simp add: loc es_def e_def take_Suc_conv_app_nth)
  have ok: "\<And>x. seen (e_Index e) = Some x \<Longrightarrow> same_command x e" "ac_gap l n started prev (e_Index e) = None"
    "loc1 = (seen(e_Index e \<mapsto> e), e_Index e, True, Suc cursor)"
    using assms(3) unfolding ac_entry_def loc by (auto simp: e_def [symmetric] split: if_splits option.splits)
  have "same_command a e" if "a \<in> set es" "e_Index a = e_Index e" for a
  proof -
    have "e_Index e \<in> dom seen" unfolding old(3) that(2) [symmetric] using that(1) by (rule imageI)
    then obtain x where x: "seen (e_Index e) = Some x" by blast
    from old(4) [OF x] have "same_command a x" using old(1) that unfolding rebuilt_same_def by simp
    then show ?thesis using ok(1) [OF x] by (rule same_command_equiv(3))
  qed
  then have "rebuilt_same (es @ [e])" "unbroken l n (es @ [e])"
    using old ok(2) by (auto simp: rebuilt_same_snoc unbroken_snoc ac_gap_None)
  then show ?thesis using old(3,4) assms(2) by (auto simp: ac_local_def ok(3) loc Let_def new)
qed

lemma ac_node_silent:
  assumes "ac_remembers l st" "node < rl_nodes l" "ac_node l node st = (None, st1)"
  shows "ac_remembers l st1 \<and> ac_cursor st1 = (ac_cursor st)[node := length (rl_applied l ! node)]"
proof -
  have len: "node < length (ac_seen st)" "node < length (ac_prev st)" "node < length (ac_started st)" "node < length (ac_cursor st)"
    using assms(1,2) by (auto simp: ac_remembers_def)
  obtain seen prev started cursor where loc:
    "loop_some (ac_entry l node) (drop (ac_cursor st ! node) (rl_applied l ! node)) (ac_part st node) = (None, seen, prev, started, cursor)"
    and st1: "st1 = st\<lparr>ac_seen := (ac_seen st)[node := seen], ac_cursor := (ac_cursor st)[node := cursor],
       ac_prev := (ac_prev st)[node := prev], ac_started := (ac_started st)[node := started]\<rparr>"
    using assms(3) unfolding ac_node_def by (auto split: prod.splits)
  have part: "ac_local l node (ac_part st node)" using assms(1,2) by (simp add: ac_remembers_def)
  have "ac_local l node (seen, prev, started, cursor) \<and> snd (snd (snd (seen, prev, started, cursor))) = length (rl_applied l ! node)"
  proof (rule loop_resumes [of "ac_local l node" "\<lambda>loc. snd (snd (snd loc))" "rl_applied l ! node" "ac_entry l node" "ac_part st node"],
      rule ac_entry_step, assumption+)
    show "ac_local l node (ac_part st node)" by (rule part)
    show "snd (snd (snd (ac_part st node))) \<le> length (rl_applied l ! node)" using part by (simp add: ac_local_def Let_def)
    show "loop_some (ac_entry l node) (drop (snd (snd (snd (ac_part st node)))) (rl_applied l ! node)) (ac_part st node) =
      (None, seen, prev, started, cursor)" using loc by simp
  qed
  then show ?thesis using assms(1) len by (auto simp: ac_remembers_def st1 nth_list_update)
qed

lemma ac_local_grows:
  assumes "ac_local l n (seen, prev, started, cursor)" "rl_grows l l'" "rl_shaped l" "n < rl_nodes l"
  shows "ac_local l' n (seen, prev, started, cursor)"
proof -
  have "cursor \<le> length (rl_applied l ! n)" using assms(1) by (simp add: ac_local_def Let_def)
  then have t: "take cursor (rl_applied l' ! n) = take cursor (rl_applied l ! n)" "cursor \<le> length (rl_applied l' ! n)"
    using assms(2-4) by (fastforce simp: rl_grows_def rl_shaped_def prefix_def)+
  have "unbroken l' n es" if "unbroken l n es" for es
    using that follows_on_grows [OF _ assms(2)] unfolding unbroken_def by (auto intro: successively_mono)
  then show ?thesis using assms(1) t by (auto simp: ac_local_def Let_def)
qed

interpretation ac: incremental_oracle ApplyContinuity_check ac_new ac_remembers continuous
proof
  show "ac_remembers l (ac_new (rl_nodes l))" for l
    by (simp add: ac_remembers_def ac_new_def ac_local_def rebuilt_same_def unbroken_def)
  show "ac_remembers l' st" if "ac_remembers l st" "rl_shaped l" "rl_grows l l'" for l l' st
    using that ac_local_grows [OF _ that(3,2)] by (auto simp: ac_remembers_def rl_grows_def)
  show "ac_remembers l st' \<and> continuous l"
    if "ac_remembers l st" "rl_shaped l" "ApplyContinuity_check l st = (None, st')" for l st st'
  proof -
    let ?I = "\<lambda>k st. ac_remembers l st \<and> (\<forall>n < k. ac_cursor st ! n = length (rl_applied l ! n))"
    have "?I (rl_nodes l) st'"
    proof (rule loop_upto [where I = ?I and s = st])
      fix i s s1
      assume i: "i < rl_nodes l" "?I i s" "ac_node l i s = (None, s1)"
      with ac_node_silent [OF _ i(1,3)]
      have s1: "ac_remembers l s1" "ac_cursor s1 = (ac_cursor s)[i := length (rl_applied l ! i)]" by auto
      then show "?I (Suc i) s1" using i(1,2) by (auto simp: less_Suc_eq nth_list_update ac_remembers_def)
    qed (use that in \<open>simp_all add: ApplyContinuity_check_def\<close>)
    then show ?thesis unfolding ac_remembers_def continuous_def by (auto simp: ac_local_def Let_def)
  qed
qed

text \<open>
  Neither oracle sees a node that applies an index a second time differently on its own; together they
  leave no two applications of an index that disagree.
\<close>

lemma oracles_agree:
  assumes "one_first l" "continuous l" "n < rl_nodes l" "n' < rl_nodes l" "e \<in> set (rl_applied l ! n)" "e' \<in> set (rl_applied l ! n')"
    "e_Index e = e_Index e'"
  shows "same_command e e'"
proof -
  obtain first where first: "first_from (rl_nodes l) (\<lambda>n. rl_applied l ! n) first" "\<forall>n < rl_nodes l. first_holds first n (rl_applied l ! n)"
    using assms(1) by (auto simp: one_first_def)
  obtain n0 e0 where e0: "first (e_Index e) = Some (n0, e0)" using first(2) assms(3,5) unfolding first_holds_def by metis
  then have e0': "n0 < rl_nodes l" "e_Index e0 = e_Index e" "e0 \<in> set (rl_applied l ! n0)"
    using first(1) unfolding first_from_def by auto
  have own: "same_command e0 x" if "x \<in> set (rl_applied l ! k)" "k < rl_nodes l" "e_Index x = e_Index e" for x k
  proof (cases "n0 = k")
    case True
    then show ?thesis using assms(2) that e0' unfolding continuous_def rebuilt_same_def by metis
  next
    case False
    then show ?thesis using first(2) that e0 unfolding first_holds_def by (metis option.inject prod.inject)
  qed
  have "same_command e0 e" by (rule own [OF assms(5,3)]) simp
  moreover have "same_command e0 e'" by (rule own [OF assms(6,4)]) (use assms(7) in simp)
  ultimately show ?thesis by (metis same_command_equiv(2,3))
qed

section \<open>What silence says\<close>

definition one_leader_per_term :: "rangeLedger \<Rightarrow> bool" where
  "one_leader_per_term l \<longleftrightarrow> (\<forall>a \<in> set (rl_ledIn l). \<forall>b \<in> set (rl_ledIn l). ld_term a = ld_term b \<longrightarrow> ld_node a = ld_node b)"

definition durable_logs_match :: "rangeLedger \<Rightarrow> bool" where
  "durable_logs_match l \<longleftrightarrow> (\<forall>a b. a < b \<and> b < length (rl_durableLog l) \<longrightarrow>
     logs_match (max (sm_Index (rl_durableSnap l ! a)) (sm_Index (rl_durableSnap l ! b))) (rl_durableLog l ! a) (rl_durableLog l ! b))"

definition leaders_complete :: "rangeLedger \<Rightarrow> bool" where
  "leaders_complete l \<longleftrightarrow>
     (\<forall>c \<in> set (rl_committed l). \<forall>ld \<in> set (rl_ledIn l). e_Term (cr_entry c) < ld_term ld \<and> cr_at c \<le> ld_at ld \<longrightarrow>
        hasEntry (ld_log ld) (cr_entry c) \<or> e_Index (cr_entry c) \<le> sm_Index (ld_snap ld))"

definition one_server_changes :: "rangeLedger \<Rightarrow> bool" where
  "one_server_changes l \<longleftrightarrow> (\<forall>n < rl_nodes l. \<forall>e \<in> set (rl_applied l ! n) \<union> set (rl_durableLog l ! n). e_Type e = EntryConfChange \<longrightarrow>
     (\<exists>ch. DecodeConfChange (e_Data e) = Some \<lparr>cc_Changes = [ch], cc_Transition = ConfChangeSimple\<rparr>))"

text \<open>Leader completeness and single-server change are their loops, read as quantifiers.\<close>

lemma leader_and_change_oracles:
  "LeaderCompleteness_check l = None \<longleftrightarrow> leaders_complete l" "SingleServerChange_check l = None \<longleftrightarrow> one_server_changes l"
  unfolding SingleServerChange_check_def one_server_changes_def first_some_None conf_verdict_None LeaderCompleteness_None leaders_complete_def
  by auto

text \<open>
  Log matching as its comment states it: two logs that hold an entry of one index and term are
  identical in every entry they both hold up through that index.  The oracle compares below the
  highest such index only, so it leaves open that the entries at that index carry different data.
\<close>

definition log_matching :: "rangeLedger \<Rightarrow> bool" where
  "log_matching l \<longleftrightarrow> (\<forall>a b i k x y. a < b \<and> b < length (rl_durableLog l) \<and>
     max (sm_Index (rl_durableSnap l ! a)) (sm_Index (rl_durableSnap l ! b)) < k \<and> k \<le> i \<and>
     i \<le> min (lastIndexOf (rl_durableLog l ! a)) (lastIndexOf (rl_durableLog l ! b)) \<and>
     agree_at i (rl_durableLog l ! a) (rl_durableLog l ! b) \<and>
     last_at k (rl_durableLog l ! a) = Some x \<and> last_at k (rl_durableLog l ! b) = Some y \<longrightarrow> same_command x y)"

definition one_command_per_slot :: "rangeLedger \<Rightarrow> bool" where
  "one_command_per_slot l \<longleftrightarrow> (\<forall>a b i x y. a < b \<and> b < length (rl_durableLog l) \<and>
     max (sm_Index (rl_durableSnap l ! a)) (sm_Index (rl_durableSnap l ! b)) < i \<and>
     i \<le> min (lastIndexOf (rl_durableLog l ! a)) (lastIndexOf (rl_durableLog l ! b)) \<and>
     last_at i (rl_durableLog l ! a) = Some x \<and> last_at i (rl_durableLog l ! b) = Some y \<and> e_Term x = e_Term y \<longrightarrow> e_Data x = e_Data y)"

lemma log_matching_parts: "log_matching l \<longleftrightarrow> durable_logs_match l \<and> one_command_per_slot l"
proof (intro iffI conjI)
  assume d: "log_matching l"
  show "durable_logs_match l"
    using d unfolding log_matching_def durable_logs_match_def logs_match_def by (meson less_imp_le)
  show "one_command_per_slot l"
    using d unfolding log_matching_def one_command_per_slot_def agree_at_def same_command_def by blast
next
  assume m: "durable_logs_match l \<and> one_command_per_slot l"
  show "log_matching l"
    unfolding log_matching_def
  proof (intro allI impI, elim conjE)
    fix a b i k x y
    assume h: "a < b" "b < length (rl_durableLog l)"
      "max (sm_Index (rl_durableSnap l ! a)) (sm_Index (rl_durableSnap l ! b)) < k" "k \<le> i"
      "i \<le> min (lastIndexOf (rl_durableLog l ! a)) (lastIndexOf (rl_durableLog l ! b))"
      "agree_at i (rl_durableLog l ! a) (rl_durableLog l ! b)"
      "last_at k (rl_durableLog l ! a) = Some x" "last_at k (rl_durableLog l ! b) = Some y"
    show "same_command x y"
    proof (cases "k = i")
      case True
      then have "e_Term x = e_Term y" using h(6-8) by (simp add: agree_at_def)
      then show ?thesis using m h True unfolding one_command_per_slot_def same_command_def by blast
    next
      case False
      then have "k < i" using h(4) by simp
      then show ?thesis using m h unfolding durable_logs_match_def logs_match_def by blast
    qed
  qed
qed

definition blind_ledger :: rangeLedger where
  "blind_ledger = (new_range 1 2)\<lparr>rl_durableLog :=
     [[\<lparr>e_Type = EntryNormal, e_Term = 1, e_Index = 1, e_ID = \<lparr>pid_Node = 1, pid_Seq = 1\<rparr>, e_Data = [1]\<rparr>],
      [\<lparr>e_Type = EntryNormal, e_Term = 1, e_Index = 1, e_ID = \<lparr>pid_Node = 1, pid_Seq = 1\<rparr>, e_Data = [2]\<rparr>]]\<rparr>"

text \<open>C20: What election safety and log matching see.  Election safety is silent precisely when no term of a
  range has two leaders.  Log matching, the property of its comment, holds precisely when the oracle is
  silent and, besides, entries of two durable logs with one index and one term carry the same data.
  The oracle does not give the second half: there are logs it is silent about that violate the property.\<close>

theorem log_oracles_exact:
  "(ElectionSafety_check l = None \<longleftrightarrow> one_leader_per_term l) \<and>
   (log_matching l \<longleftrightarrow> LogMatching_check l = None \<and> one_command_per_slot l) \<and>
   (\<exists>l'. LogMatching_check l' = None \<and> \<not> log_matching l')"
proof (intro conjI)
  show "ElectionSafety_check l = None \<longleftrightarrow> one_leader_per_term l"
    by (simp only: ElectionSafety_check_def led_pairs_None one_leader_per_term_def)
  have match: "LogMatching_check l = None \<longleftrightarrow> durable_logs_match l" for l
    by (simp only: LogMatching_None durable_logs_match_def)
  show "log_matching l \<longleftrightarrow> LogMatching_check l = None \<and> one_command_per_slot l"
    unfolding match by (rule log_matching_parts)
  have "LogMatching_check blind_ledger = None" by code_simp
  moreover have "\<not> one_command_per_slot blind_ledger"
    unfolding one_command_per_slot_def not_all
    by (rule exI [of _ 0], rule exI [of _ 1], rule exI [of _ 1]) (simp add: zeroMeta_def blind_ledger_def new_range_def last_at_def lastIndexOf_def)
  ultimately show "\<exists>l'. LogMatching_check l' = None \<and> \<not> log_matching l'" unfolding log_matching_parts by blast
qed

text \<open>C8: State machine safety and apply continuity together leave no divergence.  When both stay silent
  after every step of a run, any two applications of one index of a range, on one node or on two, the
  first time or again after a restart, are the same command; and every node's applications follow on
  from one another, from a point it could recover to, or from a snapshot it installed.\<close>

theorem silent_oracles_agree:
  assumes "watch (OnStep (per_range sms_new StateMachineSafety_check)) batches (NewLedger k) (base_new, Map.empty) = Some (None, l)"
    "watch (OnStep (per_range ac_new ApplyContinuity_check)) batches (NewLedger k) (base_new, Map.empty) = Some (None, l)"
    "r \<in> set (lg_ranges l)" "n < rl_nodes r" "n' < rl_nodes r" "e \<in> set (rl_applied r ! n)" "e' \<in> set (rl_applied r ! n')"
    "e_Index e = e_Index e'"
  shows "same_command e e' \<and> unbroken r n (rl_applied r ! n)"
proof -
  have "one_first r" using sms.silent_from_start [OF assms(1)] assms(3) by blast
  moreover have c: "continuous r" using ac.silent_from_start [OF assms(2)] assms(3) by blast
  ultimately show ?thesis using oracles_agree [OF _ _ assms(4-8)] assms(4) by (auto simp: continuous_def)
qed

definition demo_entry :: Entry where
  "demo_entry = \<lparr>e_Type = EntryNormal, e_Term = 1, e_Index = 1, e_ID = \<lparr>pid_Node = 1, pid_Seq = 1\<rparr>, e_Data = [112]\<rparr>"

definition demo_again :: Entry where
  "demo_again = demo_entry\<lparr>e_ID := \<lparr>pid_Node = 2, pid_Seq = 9\<rparr>\<rparr>"

definition demo_facts :: "ledger_event list list" where
  "demo_facts = [[RecordDurable 1 1 \<lparr>ds_HardState = \<lparr>hs_Term = 1, hs_Vote = 1\<rparr>, ds_Snapshot = zeroMeta, ds_Log = [demo_entry]\<rparr> 3,
      RecordSent 1 1 (new_msg MsgAppResp 2 1 1\<lparr>m_Success := True, m_MatchIndex := 1\<rparr>) 4],
    [RecordApplied 1 0 [demo_entry] 5], [RecordApplied 1 1 [demo_again] 6]]"

definition demo_ledger :: Ledger where
  "demo_ledger = the (record_events (concat demo_facts) (NewLedger 2))"

lemma demo_silent:
  "watch (OnStep (per_range sms_new StateMachineSafety_check)) demo_facts (NewLedger 2) (base_new, Map.empty) = Some (None, demo_ledger)"
  "watch (OnStep (per_range ac_new ApplyContinuity_check)) demo_facts (NewLedger 2) (base_new, Map.empty) = Some (None, demo_ledger)"
  "watch (OnStep (per_range (\<lambda>_. pbr_new) PersistBeforeReply_check)) demo_facts (NewLedger 2) (base_new, Map.empty) = Some (None, demo_ledger)"
  by code_simp+

lemma demo_streams:
  "lg_ranges demo_ledger \<noteq> []" "rl_nodes (hd (lg_ranges demo_ledger)) = 2"
  "rl_applied (hd (lg_ranges demo_ledger)) = [[demo_entry], [demo_again]]" "e_Index demo_again = e_Index demo_entry"
  "map (m_MatchIndex \<circ> se_msg) (rl_sent (hd (lg_ranges demo_ledger))) = [1]"
  by code_simp+

theorem silent_oracles_agree_witness:
  "same_command demo_again demo_entry \<and> unbroken (hd (lg_ranges demo_ledger)) 1 [demo_again]"
  using silent_oracles_agree [OF demo_silent(1,2) hd_in_set [OF demo_streams(1)], of 1 0 demo_again demo_entry] demo_streams by simp

text \<open>C17: The oracle of persist-before-reply sees every reply.  When it stays silent after every step of a
  run, every message recorded as sent, pre-votes and their responses apart, carries a term the sender
  had durable; every granted vote was sent with some vote durable, which the oracle does not compare
  with the candidate; every acknowledged index was in the durable log; every pre-vote asks about a
  term above the durable one; and every pre-vote response answers a request sent before it.\<close>

theorem silent_means_persisted:
  assumes "watch (OnStep (per_range (\<lambda>_. pbr_new) PersistBeforeReply_check)) batches (NewLedger k) (base_new, Map.empty) = Some (None, l)"
    "r \<in> set (lg_ranges l)"
  shows "replies_persisted (rl_sent r)"
  using pbr.silent_from_start [OF assms(1)] assms(2) by blast

theorem silent_means_persisted_witness:
  "replies_persisted (rl_sent (hd (lg_ranges demo_ledger))) \<and> map (m_MatchIndex \<circ> se_msg) (rl_sent (hd (lg_ranges demo_ledger))) = [1]"
  using silent_means_persisted [OF demo_silent(3) hd_in_set [OF demo_streams(1)]] demo_streams(5) by simp

end
