(* ===== verification/Txn_Oracle_Laws.thy ===== *)
theory Txn_Oracle_Laws
  imports Txn_Oracles Oracle_Laws
begin

text \<open>
  What the oracles over reads and transactions say, with the rendered keys of their maps read back as
  the pairs they stand for.
\<close>

section \<open>A rendered key stands for one pair\<close>

lemma digits_value: "foldl (\<lambda>a d. 10 * a + (unat d - 48)) 0 (digits n) = n"
proof (induction n rule: digits.induct)
  case (1 n)
  have "unat (48 + of_nat (n mod 10) :: byte) = 48 + n mod 10"
    by (simp add: unat_word_ariths unat_of_nat)
  moreover have "unat (48 + of_nat n :: byte) = 48 + n" if "n < 10" using that by (simp add: unat_word_ariths unat_of_nat)
  ultimately show ?case using 1 by (subst digits.simps) auto
qed

lemma digits_inj: "digits m = digits n \<Longrightarrow> m = n"
  by (metis digits_value)

lemma digits_range: "d \<in> set (digits n) \<Longrightarrow> 48 \<le> unat d \<and> unat d < 58"
proof (induction n rule: digits.induct)
  case (1 n)
  have "unat (48 + of_nat (n mod 10) :: byte) = 48 + n mod 10"
    by (simp add: unat_word_ariths unat_of_nat)
  moreover have "unat (48 + of_nat n :: byte) = 48 + n" if "n < 10" using that by (simp add: unat_word_ariths unat_of_nat)
  ultimately show ?case using 1 by (subst (asm) (2) digits.simps) (auto split: if_splits)
qed

lemma digits_avoid: "d \<in> {45, 46, 62, 64} \<Longrightarrow> d \<notin> set (digits n)"
  using digits_range [of d n] by auto

lemma decimal_inj: "decimal i = decimal j \<Longrightarrow> i = j"
proof -
  assume a: "decimal i = decimal j"
  have "hd (digits n) \<noteq> 45" for n
  proof -
    have "digits n \<noteq> []" by (subst digits.simps) simp
    then show ?thesis using digits_avoid [of 45 n] hd_in_set by fastforce
  qed
  then have "i < 0 \<longleftrightarrow> j < 0" using a by (auto simp: decimal_def split: if_splits) (metis list.sel(1))+
  then show ?thesis using a by (auto simp: decimal_def dest: digits_inj split: if_splits)
qed

lemma decimal_avoid: "d \<in> {46, 62, 64} \<Longrightarrow> d \<notin> set (decimal i)"
  using digits_avoid [of d] by (auto simp: decimal_def)

lemma split_first: "c \<notin> set xs \<Longrightarrow> c \<notin> set xs' \<Longrightarrow> xs @ [c] @ ys = xs' @ [c] @ ys' \<longleftrightarrow> xs = xs' \<and> ys = ys'"
proof (induction xs arbitrary: xs')
  case Nil
  then show ?case by (cases xs') auto
next
  case (Cons a xs)
  then show ?case by (cases xs') auto
qed

lemma split_last: "c \<notin> set ys \<Longrightarrow> c \<notin> set ys' \<Longrightarrow> xs @ [c] @ ys = xs' @ [c] @ ys' \<longleftrightarrow> xs = xs' \<and> ys = ys'"
proof -
  assume a: "c \<notin> set ys" "c \<notin> set ys'"
  have "xs @ [c] @ ys = xs' @ [c] @ ys' \<longleftrightarrow> rev (xs @ [c] @ ys) = rev (xs' @ [c] @ ys')" by (simp only: rev_is_rev_conv)
  also have "\<dots> \<longleftrightarrow> rev ys @ [c] @ rev xs = rev ys' @ [c] @ rev xs'" by simp
  also have "\<dots> \<longleftrightarrow> rev ys = rev ys' \<and> rev xs = rev xs'" by (rule split_first) (use a in simp_all)
  finally show ?thesis by auto
qed

lemma Timestamp_String_inj [simp]: "Timestamp_String t = Timestamp_String u \<longleftrightarrow> t = u"
proof
  assume "Timestamp_String t = Timestamp_String u"
  then have "decimal (sint (Wall t)) = decimal (sint (Wall u))" "decimal (int (unat (Logical t))) = decimal (int (unat (Logical u)))"
    unfolding Timestamp_String_def by (simp_all add: split_first decimal_avoid del: append.simps)
  then have "sint (Wall t) = sint (Wall u)" "uint (Logical t) = uint (Logical u)" by (auto dest: decimal_inj)
  then show "t = u" by (intro timestamp.expand conjI) (auto intro: signed_word_eqI word_uint_eqI)
qed simp

lemma Timestamp_String_avoid: "d \<in> {62, 64} \<Longrightarrow> d \<notin> set (Timestamp_String t)"
  using decimal_avoid [of d] by (auto simp: Timestamp_String_def)

lemma txnDecisionKey_inj [simp]: "txnDecisionKey p t = txnDecisionKey q u \<longleftrightarrow> p = q \<and> t = u"
  unfolding txnDecisionKey_def by (subst split_last) (simp_all add: Timestamp_String_avoid)

lemma span_key_inj [simp]: "span_key s c = span_key s' c' \<longleftrightarrow> s = s' \<and> c = c'"
proof -
  have "span_key s c = (Timestamp_String s @ [45]) @ [62] @ Timestamp_String c" for s c by (simp add: span_key_def)
  then show ?thesis by (simp only:, subst split_first) (auto simp: Timestamp_String_avoid)
qed

section \<open>The recovered state\<close>

definition last_decision :: "RecoveredState list \<Rightarrow> bytes \<Rightarrow> timestamp \<Rightarrow> CommitFact option" where
  "last_decision states p s = find (\<lambda>d. cf_Key d = p \<and> cf_StartTS d = s) (rev (concat (map rs_Decided states)))"

definition authorised_at :: "RecoveredState list \<Rightarrow> timestamp \<Rightarrow> timestamp \<Rightarrow> bool" where
  "authorised_at states s c \<longleftrightarrow> (\<exists>p d. last_decision states p s = Some d \<and> \<not> cf_Rollback d \<and> cf_CommitTS d = c)"

definition names_of :: "RecoveredState \<Rightarrow> (bytes \<times> timestamp) set" where
  "names_of st = (\<lambda>w. (cf_Key w, cf_StartTS w)) ` set (rs_Writes st) \<union> (\<lambda>l. (lk_Key l, lk_StartTS l)) ` set (rs_Locks st)"

definition lock_on :: "RecoveredState \<Rightarrow> bytes \<rightharpoonup> timestamp" where
  "lock_on st k = map_option lk_StartTS (find (\<lambda>l. lk_Key l = k) (rev (rs_Locks st)))"

definition state_sound :: "RecoveredState list \<Rightarrow> RecoveredState \<Rightarrow> bool" where
  "state_sound states st \<longleftrightarrow>
     (\<forall>w \<in> set (rs_Writes st). \<not> cf_Rollback w \<longrightarrow> lock_on st (cf_Key w) \<noteq> Some (cf_StartTS w)) \<and>
     (\<forall>l \<in> set (rs_Locks st). \<exists>r \<in> set states. rs_Start r \<le> lk_Primary l \<and> (rs_End r = [] \<or> lk_Primary l < rs_End r)) \<and>
     (\<forall>w \<in> set (rs_Writes st). \<not> cf_Rollback w \<longrightarrow> authorised_at states (cf_StartTS w) (cf_CommitTS w)) \<and>
     (\<forall>w \<in> set (rs_Writes st). cf_Rollback w \<longrightarrow> \<lparr>rv_Key = cf_Key w, rv_At = cf_StartTS w\<rparr> \<notin> set (rs_Versions st)) \<and>
     (\<forall>v \<in> set (rs_Versions st). rv_Key v \<in> fst ` names_of st \<longrightarrow> (rv_Key v, rv_At v) \<in> names_of st) \<and>
     (\<forall>k. length (filter (\<lambda>v. rv_Key v = k \<and> rv_At v \<le> rs_GCMark st) (rs_Versions st)) \<le> 1)"

definition clock_sound :: "RecoveredState \<Rightarrow> bool" where
  "clock_sound st \<longleftrightarrow> (IsSet (rs_Clock st) \<longrightarrow>
     (\<forall>v \<in> set (rs_Versions st). rv_At v \<le> rs_Clock st) \<and> (\<forall>w \<in> set (rs_Writes st). cf_CommitTS w \<le> rs_Clock st))"

lemma fold_map_last:
  "foldl (\<lambda>m x. m(f x \<mapsto> g x)) m0 xs k = (case find (\<lambda>x. f x = k) (rev xs) of Some x \<Rightarrow> Some (g x) | None \<Rightarrow> m0 k)"
  by (induction xs rule: rev_induct) auto

lemma decisions_of:
  "map_of (decisions states) (txnDecisionKey p s) = last_decision states p s"
  "distinct (map fst (decisions states))"
proof -
  have "map_of (foldl (\<lambda>m d. AList.update (txnDecisionKey (cf_Key d) (cf_StartTS d)) d m) [] ds) =
      foldl (\<lambda>m d. m(txnDecisionKey (cf_Key d) (cf_StartTS d) \<mapsto> d)) Map.empty ds" for ds :: "CommitFact list"
    by (induction ds rule: rev_induct) (auto simp: update_conv')
  then show "map_of (decisions states) (txnDecisionKey p s) = last_decision states p s"
    by (simp add: decisions_def last_decision_def fold_map_last split: option.splits)
  have "distinct (map fst (foldl (\<lambda>m d. AList.update (txnDecisionKey (cf_Key d) (cf_StartTS d)) d m) [] ds))" for ds :: "CommitFact list"
    by (induction ds rule: rev_induct) (auto simp: distinct_update)
  then show "distinct (map fst (decisions states))" by (simp add: decisions_def)
qed

lemma decisions_keyed: "(k, d) \<in> set (decisions states) \<Longrightarrow> k = txnDecisionKey (cf_Key d) (cf_StartTS d)"
proof -
  have "\<forall>(k, d) \<in> set (foldl (\<lambda>m d. AList.update (txnDecisionKey (cf_Key d) (cf_StartTS d)) d m) [] ds).
      k = txnDecisionKey (cf_Key d) (cf_StartTS d)" for ds :: "CommitFact list"
  proof (induction ds rule: rev_induct)
    case (snoc d ds)
    let ?m = "foldl (\<lambda>m d. AList.update (txnDecisionKey (cf_Key d) (cf_StartTS d)) d m) [] ds"
    have "set (AList.update a b m) \<subseteq> insert (a, b) (set m)" for a and b :: CommitFact and m
      by (induction m) auto
    then have "set (AList.update (txnDecisionKey (cf_Key d) (cf_StartTS d)) d ?m) \<subseteq> insert (txnDecisionKey (cf_Key d) (cf_StartTS d), d) (set ?m)" .
    then show ?case using snoc by auto
  qed simp
  then show "(k, d) \<in> set (decisions states) \<Longrightarrow> k = txnDecisionKey (cf_Key d) (cf_StartTS d)"
    unfolding decisions_def by blast
qed

lemma committedAt_iff: "span_key s c \<in> set (committedAt states) \<longleftrightarrow> authorised_at states s c"
proof
  assume "span_key s c \<in> set (committedAt states)"
  then obtain k d where d: "(k, d) \<in> set (decisions states)" "\<not> cf_Rollback d" "cf_StartTS d = s" "cf_CommitTS d = c"
    by (auto simp: committedAt_def)
  then have "map_of (decisions states) (txnDecisionKey (cf_Key d) s) = Some d"
    using decisions_of(2) [of states] decisions_keyed [OF d(1)] by (simp add: map_of_is_SomeI)
  then show "authorised_at states s c" using d unfolding authorised_at_def decisions_of(1) by blast
next
  assume "authorised_at states s c"
  then obtain p d where d: "last_decision states p s = Some d" "\<not> cf_Rollback d" "cf_CommitTS d = c"
    by (auto simp: authorised_at_def)
  from d(1) have "cf_StartTS d = s" by (auto simp: last_decision_def find_Some_iff)
  moreover have "d \<in> snd ` set (decisions states)"
    using d(1) decisions_of(1) [of states p s] by (force dest: map_of_SomeD)
  ultimately show "span_key s c \<in> set (committedAt states)" using d(2,3) by (force simp: committedAt_def)
qed

lemma loop_some_below:
  "fst (loop_some (below_verdict st) vs below) = None \<longleftrightarrow>
     (\<forall>k. filter (\<lambda>v. rv_Key v = k \<and> rv_At v \<le> rs_GCMark st) vs \<noteq> [] \<longrightarrow>
        below k + length (filter (\<lambda>v. rv_Key v = k \<and> rv_At v \<le> rs_GCMark st) vs) \<le> 1)"
proof (induction vs arbitrary: below)
  case (Cons v vs)
  show ?case
  proof (cases "rv_At v \<le> rs_GCMark st")
    case True
    let ?b = "below(rv_Key v := Suc (below (rv_Key v)))"
    have e: "fst (loop_some (below_verdict st) (v # vs) below) = None \<longleftrightarrow>
        below (rv_Key v) = 0 \<and> fst (loop_some (below_verdict st) vs ?b) = None"
      using True by (auto simp: below_verdict_def Let_def)
    show ?thesis unfolding e Cons.IH using True by auto
  next
    case False
    then have e: "fst (loop_some (below_verdict st) (v # vs) below) = fst (loop_some (below_verdict st) vs below)"
      by (simp add: below_verdict_def)
    show ?thesis unfolding e Cons.IH using False by simp
  qed
qed simp

lemma below_sound:
  "fst (loop_some (below_verdict st) (rs_Versions st) (\<lambda>_. 0)) = None \<longleftrightarrow>
     (\<forall>k. length (filter (\<lambda>v. rv_Key v = k \<and> rv_At v \<le> rs_GCMark st) (rs_Versions st)) \<le> 1)"
proof -
  have "(xs \<noteq> [] \<longrightarrow> 0 + length xs \<le> 1) \<longleftrightarrow> length xs \<le> 1" for xs :: "RecoveredVersion list" by auto
  then show ?thesis unfolding loop_some_below by (simp only:)
qed

lemma orphan_sound:
  "orphan_verdict st = None \<longleftrightarrow>
     (\<forall>v \<in> set (rs_Versions st). rv_Key v \<in> fst ` names_of st \<longrightarrow> (rv_Key v, rv_At v) \<in> names_of st)"
proof -
  have "txnDecisionKey k t \<in> set (map (\<lambda>w. txnDecisionKey (cf_Key w) (cf_StartTS w)) (rs_Writes st) @
      map (\<lambda>l. txnDecisionKey (lk_Key l) (lk_StartTS l)) (rs_Locks st)) \<longleftrightarrow> (k, t) \<in> names_of st" for k t
    by (simp add: names_of_def image_iff)
  moreover have "set (map cf_Key (rs_Writes st) @ map lk_Key (rs_Locks st)) = fst ` names_of st"
    by (simp add: names_of_def image_Un image_image)
  ultimately show ?thesis unfolding orphan_verdict_def Let_def first_some_None by (intro ball_cong refl) simp
qed

lemma state_verdict_None: "state_verdict states st = None \<longleftrightarrow> state_sound states st"
proof -
  have locked: "locked_verdict st = None \<longleftrightarrow> (\<forall>w \<in> set (rs_Writes st). \<not> cf_Rollback w \<longrightarrow> lock_on st (cf_Key w) \<noteq> Some (cf_StartTS w))"
    unfolding locked_verdict_def Let_def first_some_None
    by (intro ball_cong refl) (auto simp: fold_map_last lock_on_def split: option.splits)
  have dead: "(let rolledBack = map (\<lambda>w. txnDecisionKey (cf_Key w) (cf_StartTS w)) (filter cf_Rollback (rs_Writes st))
      in first_some (\<lambda>v. if txnDecisionKey (rv_Key v) (rv_At v) \<in> set rolledBack then Some (RolledBackVersion (rs_Range st) v) else None)
           (rs_Versions st)) = None \<longleftrightarrow>
      (\<forall>w \<in> set (rs_Writes st). cf_Rollback w \<longrightarrow> \<lparr>rv_Key = cf_Key w, rv_At = cf_StartTS w\<rparr> \<notin> set (rs_Versions st))" (is "?l \<longleftrightarrow> ?r")
  proof -
    have e: "v = \<lparr>rv_Key = k, rv_At = t\<rparr> \<longleftrightarrow> rv_Key v = k \<and> rv_At v = t" for v :: RecoveredVersion and k t
      by (cases v) auto
    have "?l \<longleftrightarrow> (\<forall>v \<in> set (rs_Versions st). \<forall>w \<in> set (rs_Writes st). cf_Rollback w \<longrightarrow> \<not> (rv_Key v = cf_Key w \<and> rv_At v = cf_StartTS w))"
      unfolding Let_def first_some_None by (intro ball_cong refl) auto
    also have "\<dots> \<longleftrightarrow> (\<forall>v \<in> set (rs_Versions st). \<forall>w \<in> set (rs_Writes st). cf_Rollback w \<longrightarrow> v \<noteq> \<lparr>rv_Key = cf_Key w, rv_At = cf_StartTS w\<rparr>)"
      unfolding e ..
    also have "\<dots> \<longleftrightarrow> ?r" by blast
    finally show ?thesis .
  qed
  have cover: "first_some (\<lambda>l. if \<not> coversKey states (lk_Primary l) then Some (PrimaryUncovered (rs_Range st) l) else None) (rs_Locks st) = None \<longleftrightarrow>
      (\<forall>l \<in> set (rs_Locks st). \<exists>r \<in> set states. rs_Start r \<le> lk_Primary l \<and> (rs_End r = [] \<or> lk_Primary l < rs_End r))"
    unfolding first_some_None by (intro ball_cong refl) (simp add: coversKey_def list_ex_iff)
  have auth: "first_some (\<lambda>w. if \<not> cf_Rollback w \<and> span_key (cf_StartTS w) (cf_CommitTS w) \<notin> set (committedAt states)
        then Some (CommitUnauthorised (rs_Range st) w) else None) (rs_Writes st) = None \<longleftrightarrow>
      (\<forall>w \<in> set (rs_Writes st). \<not> cf_Rollback w \<longrightarrow> authorised_at states (cf_StartTS w) (cf_CommitTS w))"
    unfolding first_some_None committedAt_iff by (intro ball_cong refl) auto
  show ?thesis
    unfolding state_verdict_def state_sound_def first_some_None list.set
    by (simp only: ball_simps locked dead cover auth orphan_sound below_sound simp_thms)
qed

lemma clock_verdict_None: "clock_verdict st = None \<longleftrightarrow> clock_sound st"
  by (auto simp: clock_verdict_def clock_sound_def or_else_None first_some_None not_less)

lemma Percolator_None:
  "PercolatorInvariants_Check states = None \<longleftrightarrow> (\<forall>st \<in> set states. clock_sound st \<and> state_sound states st)"
  unfolding PercolatorInvariants_Check_def or_else_None first_some_None clock_verdict_None state_verdict_None by blast

section \<open>Client histories\<close>

definition settled :: "TxnReadRecord \<Rightarrow> bool" where
  "settled r \<longleftrightarrow> \<not> tr_Locked r \<and> \<not> tr_Uncertain r \<and> \<not> tr_Refused r"

definition lock_in_snapshot :: "TxnReadRecord \<Rightarrow> bool" where
  "lock_in_snapshot r \<longleftrightarrow> (tr_Locked r \<longrightarrow> tr_LockStartTS r \<le> tr_At r \<and> tr_LockPrimary r \<noteq> [])"

definition same_answer :: "TxnReadRecord \<Rightarrow> TxnReadRecord \<Rightarrow> bool" where
  "same_answer a b \<longleftrightarrow> (tr_Key a = tr_Key b \<and> tr_At a = tr_At b \<longrightarrow> tr_Found a = tr_Found b \<and> tr_Value a = tr_Value b)"

definition stable_reads :: "TxnReadRecord list \<Rightarrow> bool" where
  "stable_reads rs \<longleftrightarrow> (\<forall>r \<in> set rs. lock_in_snapshot r) \<and>
     (\<forall>a \<in> set rs. \<forall>b \<in> set rs. settled a \<and> settled b \<longrightarrow> same_answer a b)"

definition si_seen :: "TxnReadRecord list \<Rightarrow> (bytes \<rightharpoonup> TxnReadRecord) \<Rightarrow> bool" where
  "si_seen rs seen \<longleftrightarrow>
     (\<forall>k r. seen k = Some r \<longrightarrow> r \<in> set rs \<and> settled r \<and> k = txnDecisionKey (tr_Key r) (tr_At r)) \<and>
     (\<forall>r \<in> set rs. settled r \<longrightarrow> seen (txnDecisionKey (tr_Key r) (tr_At r)) \<noteq> None)"

lemma stable_snoc:
  "stable_reads (rs @ [r]) \<longleftrightarrow> stable_reads rs \<and> lock_in_snapshot r \<and> (settled r \<longrightarrow> (\<forall>a \<in> set rs. settled a \<longrightarrow> same_answer a r))"
proof -
  have "same_answer r r" "same_answer a b \<Longrightarrow> same_answer b a" for a b by (auto simp: same_answer_def)
  then show ?thesis unfolding stable_reads_def set_append list.set by blast
qed

lemma si_step:
  assumes "stable_reads rs" "si_seen rs seen" "si_verdict r (seen, n) = (v, seen', n')"
  shows "(v = None \<longleftrightarrow> stable_reads (rs @ [r])) \<and> (v = None \<longrightarrow> si_seen (rs @ [r]) seen')"
proof (cases "settled r")
  case False
  then show ?thesis
    using assms by (auto simp: si_verdict_def settled_def stable_snoc lock_in_snapshot_def si_seen_def not_less split: if_splits)
next
  case True
  let ?k = "txnDecisionKey (tr_Key r) (tr_At r)"
  have l: "lock_in_snapshot r" using True by (simp add: settled_def lock_in_snapshot_def)
  show ?thesis
  proof (cases "seen ?k")
    case None
    then have "\<forall>a \<in> set rs. settled a \<longrightarrow> same_answer a r" using assms(2) by (fastforce simp: si_seen_def same_answer_def)
    moreover have "v = None" "seen' = seen(?k \<mapsto> r)" using None True assms(3) by (auto simp: si_verdict_def settled_def)
    moreover have "si_seen (rs @ [r]) (seen(?k \<mapsto> r))" using assms(2) True by (auto simp: si_seen_def)
    ultimately show ?thesis using assms(1) l by (simp add: stable_snoc)
  next
    case (Some p)
    then have p: "p \<in> set rs" "settled p" "tr_Key p = tr_Key r" "tr_At p = tr_At r" using assms(2) by (force simp: si_seen_def)+
    have v: "v = None \<longleftrightarrow> same_answer p r" "seen' = seen" using Some True assms(3) p
      by (auto simp: si_verdict_def settled_def same_answer_def split: if_splits)
    have "same_answer p r \<longleftrightarrow> (\<forall>a \<in> set rs. settled a \<longrightarrow> same_answer a r)"
      using p assms(1) unfolding stable_reads_def same_answer_def by metis
    moreover have "si_seen (rs @ [r]) seen" using assms(2) Some by (auto simp: si_seen_def)
    ultimately show ?thesis using assms(1) l True v by (simp add: stable_snoc)
  qed
qed

lemma si_loop:
  assumes "stable_reads rs" "si_seen rs seen"
  shows "fst (loop_some si_verdict rs' (seen, n)) = None \<longleftrightarrow> stable_reads (rs @ rs')"
  using assms
proof (induction rs' arbitrary: rs seen n)
  case (Cons r rs')
  obtain v seen' n' where v: "si_verdict r (seen, n) = (v, seen', n')" by (metis surj_pair)
  from si_step [OF Cons.prems v] have s: "v = None \<longleftrightarrow> stable_reads (rs @ [r])" "v = None \<Longrightarrow> si_seen (rs @ [r]) seen'" by auto
  show ?case
  proof (cases v)
    case None
    then show ?thesis using Cons.IH [of "rs @ [r]" seen' n'] s v by simp
  next
    case (Some x)
    then have "\<not> stable_reads (rs @ [r])" using s(1) by simp
    then have "\<not> stable_reads (rs @ r # rs')" unfolding stable_reads_def by auto
    then show ?thesis using Some v by simp
  qed
qed simp

lemma SnapshotIsolation_None: "fst (SnapshotIsolation_Check l n) = None \<longleftrightarrow> stable_reads (lg_txnReads l)"
  using si_loop [of "[]" Map.empty "lg_txnReads l" n]
  by (simp add: SnapshotIsolation_Check_def stable_reads_def si_seen_def case_prod_beta)

section \<open>Who may roll back\<close>

lemma loop_some_None:
  assumes "\<And>x n. fst (f x n) = None \<longleftrightarrow> P x"
  shows "fst (loop_some f xs n) = None \<longleftrightarrow> (\<forall>x \<in> set xs. P x)"
proof (induction xs arbitrary: n)
  case (Cons x xs)
  obtain v n' where v: "f x n = (v, n')" by fastforce
  then show ?case using Cons.IH [of n'] assms [of x n] by (cases v) auto
qed simp

lemma loop_counts:
  fixes c :: "'a \<Rightarrow> nat"
  assumes "\<And>x n. fst (f x n) = None \<Longrightarrow> snd (f x n) = n + c x" "fst (loop_some f xs n) = None"
  shows "snd (loop_some f xs n) = n + sum_list (map c xs)"
  using assms(2)
proof (induction xs arbitrary: n)
  case (Cons x xs)
  obtain v n' where v: "f x n = (v, n')" by fastforce
  then show ?case using Cons.IH [of n'] Cons.prems assms(1) [of x n] by (cases v) auto
qed simp

definition self_proposed :: "ProposedRollback list \<Rightarrow> CommitFact \<Rightarrow> bool" where
  "self_proposed proposals d \<longleftrightarrow> (\<exists>p \<in> set proposals. pr_Primary p = cf_Key d \<and> pr_StartTS p = cf_StartTS d)"

lemma proposed_iff:
  "txnDecisionKey (cf_Key d) (cf_StartTS d) \<in> set (map (\<lambda>p. txnDecisionKey (pr_Primary p) (pr_StartTS p)) proposals) \<longleftrightarrow> self_proposed proposals d"
  unfolding self_proposed_def set_map image_iff txnDecisionKey_inj by metis

definition permitted :: "ResolveFact list \<Rightarrow> ProposedRollback list \<Rightarrow> CommitFact \<Rightarrow> bool" where
  "permitted resolves proposals d \<longleftrightarrow> self_proposed proposals d \<or>
     (\<exists>r \<in> set resolves. rf_Primary r = cf_Key d \<and> rf_StartTS r = cf_StartTS d \<and> rf_Deadline r < rf_ExpireAt r)"

lemma authority_verdict_None:
  "fst (authority_verdict resolves proposals rng d n) = None \<longleftrightarrow> (cf_Rollback d \<longrightarrow> permitted resolves proposals d)"
  unfolding authority_verdict_def Let_def permitted_def proposed_iff by (auto simp: list_ex_iff)

lemma ResolutionAuthority_None:
  "fst (ResolutionAuthority_Check cmds recovered l n) = None \<longleftrightarrow>
     (\<forall>st \<in> set recovered. \<forall>d \<in> set (rs_Decided st). cf_Rollback d \<longrightarrow>
        permitted (concat (map (\<lambda>rl. fst (cmds (Committed rl))) (lg_ranges l))) (concat (map (\<lambda>rl. snd (cmds (Committed rl))) (lg_ranges l))) d)"
  unfolding ResolutionAuthority_Check_def Let_def
  by (subst loop_some_None, rule loop_some_None, rule authority_verdict_None) (simp add: comp_def)

lemma authority_counts:
  assumes "fst (authority_verdict resolves proposals rng d n) = None"
  shows "snd (authority_verdict resolves proposals rng d n) = n + (if cf_Rollback d \<and> \<not> self_proposed proposals d then 1 else 0)"
  using assms unfolding authority_verdict_def Let_def proposed_iff by (auto split: if_splits)

lemma sum_length_filter: "sum_list (map (\<lambda>x. if P x then 1 else 0) xs) = length (filter P xs)"
  by (induction xs) auto

lemma Declarations_count:
  assumes "fst (ResolutionAuthority_Check cmds recovered l n) = None"
  shows "snd (ResolutionAuthority_Check cmds recovered l n) = n +
     length (filter (\<lambda>d. cf_Rollback d \<and> \<not> self_proposed (concat (map (\<lambda>rl. snd (cmds (Committed rl))) (lg_ranges l))) d)
       (concat (map rs_Decided recovered)))"
proof -
  let ?ps = "concat (map (\<lambda>rl. snd (cmds (Committed rl))) (lg_ranges l))"
  let ?c = "\<lambda>d. if cf_Rollback d \<and> \<not> self_proposed ?ps d then 1 else (0::nat)"
  have "snd (ResolutionAuthority_Check cmds recovered l n) = n + sum_list (map (\<lambda>st. sum_list (map ?c (rs_Decided st))) recovered)"
    unfolding ResolutionAuthority_Check_def Let_def map_map comp_def
    by (rule loop_counts, rule loop_counts, rule authority_counts, assumption+)
      (use assms in \<open>simp add: ResolutionAuthority_Check_def Let_def comp_def\<close>)
  then show ?thesis by (simp add: sum_length_filter filter_concat length_concat comp_def)
qed

section \<open>Atomicity\<close>

definition all_commits :: "(bytes \<Rightarrow> Entry list \<Rightarrow> CommitFact list \<times> (bytes \<rightharpoonup> CommitFact)) \<Rightarrow> Ledger \<Rightarrow> CommitFact list" where
  "all_commits facts l = concat (map (\<lambda>rl. fst (facts (rl_base rl) (Committed rl))) (lg_ranges l))"

definition all_decided :: "(bytes \<Rightarrow> Entry list \<Rightarrow> CommitFact list \<times> (bytes \<rightharpoonup> CommitFact)) \<Rightarrow> Ledger \<Rightarrow> bytes \<rightharpoonup> CommitFact" where
  "all_decided facts l = foldl (++) Map.empty (map (\<lambda>rl. snd (facts (rl_base rl) (Committed rl))) (lg_ranges l))"

definition atomic_txn :: "CommitFact list \<Rightarrow> CommitFact option \<Rightarrow> LedgerTxn \<Rightarrow> bool" where
  "atomic_txn commits decision t \<longleftrightarrow>
     (\<forall>c \<in> set commits. cf_Key c \<in> set (lt_Keys t) \<and> cf_StartTS c = lt_StartTS t \<and> \<not> cf_Rollback c \<longrightarrow>
        (\<exists>d. decision = Some d \<and> \<not> cf_Rollback d \<and> cf_CommitTS d = cf_CommitTS c))"

lemma keys_verdict_None:
  "keys_verdict (\<lambda>k. filter (\<lambda>c. cf_Key c = k) commits) t bad = None \<longleftrightarrow>
     (\<forall>c \<in> set commits. cf_Key c \<in> set (lt_Keys t) \<and> cf_StartTS c = lt_StartTS t \<and> \<not> cf_Rollback c \<longrightarrow> bad c = None)"
  unfolding keys_verdict_def first_some_None by auto

lemma txn_verdict_None:
  "txn_verdict (\<lambda>k. filter (\<lambda>c. cf_Key c = k) commits) decided t = None \<longleftrightarrow>
     atomic_txn commits (decided (txnDecisionKey (lt_Primary t) (lt_StartTS t))) t"
  by (cases "decided (txnDecisionKey (lt_Primary t) (lt_StartTS t))")
    (auto simp: txn_verdict_def keys_verdict_None atomic_txn_def)

lemma Atomicity_None:
  "fst (TransactionAtomicity_OnStep facts l b) = None \<longleftrightarrow>
     \<not> fst (stale l b) \<or> (\<forall>t \<in> set (lg_txns l). atomic_txn (all_commits facts l) (all_decided facts l (txnDecisionKey (lt_Primary t) (lt_StartTS t))) t)"
proof -
  have e: "concat (map fst (map (\<lambda>rl. facts (rl_base rl) (Committed rl)) (lg_ranges l))) = all_commits facts l"
    "foldl (++) Map.empty (map snd (map (\<lambda>rl. facts (rl_base rl) (Committed rl)) (lg_ranges l))) = all_decided facts l"
    by (simp_all only: all_commits_def all_decided_def map_map comp_def)
  obtain fresh b' where s: "stale l b = (fresh, b')" by fastforce
  show ?thesis unfolding TransactionAtomicity_OnStep_def Let_def e s
    by (cases fresh) (simp_all add: first_some_None txn_verdict_None)
qed

section \<open>Reads off the log\<close>

definition judged :: "ReadRecord \<Rightarrow> bool" where
  "judged r \<longleftrightarrow> rr_OffLog r \<and> \<not> rr_Refused r"

definition earlier_ack :: "ReadRecord \<Rightarrow> WriteRecord \<Rightarrow> bool" where
  "earlier_ack r w \<longleftrightarrow> judged r \<and> rr_IssuedAt r \<noteq> 0 \<and> wr_Range w = rr_Range r \<and> wr_AckedAt w < rr_IssuedAt r"

lemma arrival_None: "fst (arrival_verdict r w n) = None \<longleftrightarrow>
    \<not> (wr_Range w = rr_Range r \<and> wr_AckedAt w < rr_IssuedAt r \<and> rr_Index r < wr_Index w)"
  by (auto simp: arrival_verdict_def)

lemma arrival_counts:
  "snd (arrival_verdict r w n) = n + (if wr_Range w = rr_Range r \<and> wr_AckedAt w < rr_IssuedAt r then 1 else 0)"
  by (auto simp: arrival_verdict_def)

lemma loop_exact:
  fixes f :: "'a \<Rightarrow> nat \<Rightarrow> 'v option \<times> nat" and c :: "'a \<Rightarrow> nat"
  assumes "\<And>x n. fst (f x n) = None \<longleftrightarrow> P x" "\<And>x n. fst (f x n) = None \<Longrightarrow> snd (f x n) = n + c x"
  shows "loop_some f xs n = (None, k) \<longleftrightarrow> (\<forall>x \<in> set xs. P x) \<and> k = n + sum_list (map c xs)"
  using loop_some_None [where f = f and P = P, OF assms(1), of xs n] loop_counts [where f = f and c = c, OF assms(2), of xs n]
  by (cases "loop_some f xs n") auto

lemma Arrival_exact:
  "ReadIndexAtArrival_Check l n = (None, k) \<longleftrightarrow>
     (\<forall>r \<in> set (lg_reads l). \<forall>w \<in> set (lg_writes l). earlier_ack r w \<longrightarrow> wr_Index w \<le> rr_Index r) \<and>
     k = n + sum_list (map (\<lambda>r. length (filter (earlier_ack r) (lg_writes l))) (lg_reads l))"
proof -
  let ?f = "\<lambda>r. if \<not> rr_OffLog r \<or> rr_Refused r \<or> rr_IssuedAt r = 0 then (\<lambda>c. (None, c)) else loop_some (arrival_verdict r) (lg_writes l)"
  have f: "fst (?f r n) = None \<longleftrightarrow> (\<forall>w \<in> set (lg_writes l). earlier_ack r w \<longrightarrow> wr_Index w \<le> rr_Index r)" for r n
    by (simp add: loop_some_None [where f = "arrival_verdict r", OF arrival_None] earlier_ack_def judged_def) (auto simp: not_less)
  have c: "snd (?f r n) = n + length (filter (earlier_ack r) (lg_writes l))" if "fst (?f r n) = None" for r n
  proof (cases "\<not> rr_OffLog r \<or> rr_Refused r \<or> rr_IssuedAt r = 0")
    case True
    then have "earlier_ack r = (\<lambda>_. False)" by (auto simp: fun_eq_iff earlier_ack_def judged_def)
    then show ?thesis using True by simp
  next
    case False
    then have "earlier_ack r = (\<lambda>w. wr_Range w = rr_Range r \<and> wr_AckedAt w < rr_IssuedAt r)" by (auto simp: fun_eq_iff earlier_ack_def judged_def)
    then show ?thesis using False that loop_counts [where f = "arrival_verdict r", OF arrival_counts, of "lg_writes l" n]
      by (simp add: sum_length_filter)
  qed
  show ?thesis unfolding ReadIndexAtArrival_Check_def by (rule loop_exact [OF f c])
qed

definition log_answer :: "(u64 \<Rightarrow> nat \<Rightarrow> bytes \<Rightarrow> timestamp \<Rightarrow> bytes \<times> bool \<times> bool \<times> bool) \<Rightarrow> ReadRecord \<Rightarrow> (bytes option \<times> bool) option" where
  "log_answer valueAt r = (case valueAt (rr_Range r) (rr_AppliedAt r) (rr_Key r) zeroTS of (want, found, owned, ok) \<Rightarrow>
     if ok then Some (if found then Some want else None, owned) else None)"

definition given_answer :: "ReadRecord \<Rightarrow> bytes option" where
  "given_answer r = (if rr_Found r then Some (rr_Value r) else None)"

lemma Agreement_exact:
  "ReadIndexAgreement_Check (Some valueAt) l n = (None, k) \<longleftrightarrow>
     (\<forall>r \<in> set (lg_reads l). judged r \<longrightarrow> rr_Index r \<le> rr_AppliedAt r \<and> log_answer valueAt r \<in> {None, Some (given_answer r, True)}) \<and>
     k = n + length (filter (\<lambda>r. judged r \<and> log_answer valueAt r \<noteq> None) (lg_reads l))"
proof -
  let ?P = "\<lambda>r. judged r \<longrightarrow> rr_Index r \<le> rr_AppliedAt r \<and> log_answer valueAt r \<in> {None, Some (given_answer r, True)}"
  let ?c = "\<lambda>r. if judged r \<and> log_answer valueAt r \<noteq> None then 1 else (0::nat)"
  have P: "fst (agreement_verdict valueAt r n) = None \<longleftrightarrow> ?P r" for r n
    by (auto simp: agreement_verdict_def judged_def log_answer_def given_answer_def split: prod.splits)
  have c: "snd (agreement_verdict valueAt r n) = n + ?c r" if "fst (agreement_verdict valueAt r n) = None" for r n
    using that by (auto simp: agreement_verdict_def judged_def log_answer_def split: prod.splits if_splits)
  show ?thesis
    unfolding ReadIndexAgreement_Check_def option.case sum_length_filter [symmetric] by (rule loop_exact [OF P c])
qed

section \<open>The oracles are exact\<close>

definition percolator_sound :: "RecoveredState list \<Rightarrow> bool" where
  "percolator_sound states \<longleftrightarrow> (\<forall>st \<in> set states. clock_sound st \<and> state_sound states st)"

text \<open>C16: The check of the recovered states is exact.  It is silent precisely when, on every range, no clock
  that is set is below a version or a commit record; no key holds the lock of a transaction it has a
  commit record of; every lock's primary lies in the extent of some range; every commit record is
  backed by a decision at the same two timestamps, which is the last one recorded for its primary and
  start; no version of a rolled-back transaction
  remains; every version of a key the protocol has touched is named by a lock or a write record; and
  no key has two versions at or below the collection mark.  The strings the check keys its maps by
  never make two different pairs meet.\<close>

theorem percolator_check_exact:
  "PercolatorInvariants_Check states = None \<longleftrightarrow> percolator_sound states"
  unfolding Percolator_None percolator_sound_def ..

definition atomic_history :: "(bytes \<Rightarrow> Entry list \<Rightarrow> CommitFact list \<times> (bytes \<rightharpoonup> CommitFact)) \<Rightarrow> Ledger \<Rightarrow> bool" where
  "atomic_history facts l \<longleftrightarrow> (\<forall>t \<in> set (lg_txns l). atomic_txn (all_commits facts l)
     (all_decided facts l (txnDecisionKey (lt_Primary t) (lt_StartTS t))) t)"

text \<open>C21: The checks of what clients saw are exact.  Snapshot isolation is silent precisely when every read
  blocked by a lock named a transaction of its own snapshot and a primary, and any two settled reads of
  one key at one timestamp gave one answer; transaction atomicity precisely when every key a
  transaction committed has the commit timestamp of the decision on its primary.\<close>

theorem client_checks_exact:
  "(fst (SnapshotIsolation_Check l n) = None \<longleftrightarrow> stable_reads (lg_txnReads l)) \<and>
   (fst (TransactionAtomicity_OnStep facts l base_new) = None \<longleftrightarrow> atomic_history facts l)"
  using Atomicity_None [of facts l base_new] by (simp add: SnapshotIsolation_None atomic_history_def stale_def base_new_def)

definition rollbacks_permitted :: "(Entry list \<Rightarrow> ResolveFact list \<times> ProposedRollback list) \<Rightarrow> RecoveredState list \<Rightarrow> Ledger \<Rightarrow> bool" where
  "rollbacks_permitted cmds recovered l \<longleftrightarrow> (\<forall>st \<in> set recovered. \<forall>d \<in> set (rs_Decided st). cf_Rollback d \<longrightarrow>
     permitted (concat (map (\<lambda>rl. fst (cmds (Committed rl))) (lg_ranges l))) (concat (map (\<lambda>rl. snd (cmds (Committed rl))) (lg_ranges l))) d)"

definition declared :: "(Entry list \<Rightarrow> ResolveFact list \<times> ProposedRollback list) \<Rightarrow> RecoveredState list \<Rightarrow> Ledger \<Rightarrow> CommitFact list" where
  "declared cmds recovered l =
     filter (\<lambda>d. cf_Rollback d \<and> \<not> self_proposed (concat (map (\<lambda>rl. snd (cmds (Committed rl))) (lg_ranges l))) d)
       (concat (map rs_Decided recovered))"

text \<open>C19: The check of resolution authority is exact, and so is its count.  It is silent precisely when every
  rolled-back transaction record was proposed as such somewhere in the logs, or some resolve of that
  transaction carried a deadline before the time it was judged at; and a silent check has then counted the
  records that rest on a resolver alone.\<close>

theorem resolution_authority_exact:
  "ResolutionAuthority_Check cmds recovered l n = (None, k) \<longleftrightarrow>
     rollbacks_permitted cmds recovered l \<and> k = n + length (declared cmds recovered l)"
  using ResolutionAuthority_None [of cmds recovered l n] Declarations_count [of cmds recovered l n]
  by (cases "ResolutionAuthority_Check cmds recovered l n") (auto simp: rollbacks_permitted_def declared_def)

definition stamps_cover_acks :: "Ledger \<Rightarrow> bool" where
  "stamps_cover_acks l \<longleftrightarrow> (\<forall>r \<in> set (lg_reads l). \<forall>w \<in> set (lg_writes l). earlier_ack r w \<longrightarrow> wr_Index w \<le> rr_Index r)"

definition answers_from_log :: "(u64 \<Rightarrow> nat \<Rightarrow> bytes \<Rightarrow> timestamp \<Rightarrow> bytes \<times> bool \<times> bool \<times> bool) \<Rightarrow> Ledger \<Rightarrow> bool" where
  "answers_from_log valueAt l \<longleftrightarrow> (\<forall>r \<in> set (lg_reads l). judged r \<longrightarrow>
     rr_Index r \<le> rr_AppliedAt r \<and> log_answer valueAt r \<in> {None, Some (given_answer r, True)})"

text \<open>C22: The checks of reads off the log are exact, and so are their counts.  The first is silent precisely
  when every read answered off the log carries an index at or above every write of its range
  acknowledged before the read was issued; the second precisely when every such read was answered by a
  replica that had applied to its index, with the value the log has at the position the replica was at,
  for a key the range still owned there.  The counts are those of the pairs and of the reads compared.\<close>

theorem read_index_checks_exact:
  "(ReadIndexAtArrival_Check l n = (None, k) \<longleftrightarrow>
      stamps_cover_acks l \<and> k = n + sum_list (map (\<lambda>r. length (filter (earlier_ack r) (lg_writes l))) (lg_reads l))) \<and>
   (ReadIndexAgreement_Check (Some valueAt) l n = (None, k) \<longleftrightarrow>
      answers_from_log valueAt l \<and> k = n + length (filter (\<lambda>r. judged r \<and> log_answer valueAt r \<noteq> None) (lg_reads l)))"
  unfolding Arrival_exact Agreement_exact stamps_cover_acks_def answers_from_log_def by blast

end
