(* ===== verification/Oracle_Driver.thy ===== *)
theory Oracle_Driver
  imports Txn_Oracle_Laws Driver_Log
begin

text \<open>
  The oracles and the driver together.  The harness's cursor over a replay, \<^verbatim>\<open>replayCursor\<close> of
  \<^verbatim>\<open>sim/hunt/raftscenario.go\<close>, is the state the snapshot oracle keeps per range.
\<close>

section \<open>The cursor of the snapshot oracle\<close>

record replayCursor =
  rc_base :: bytes
  rc_r :: Replay

definition stateDigest :: "bytes \<Rightarrow> replayCursor option" where
  "stateDigest base = (case NewReplay base of None \<Rightarrow> None | Some r \<Rightarrow> Some \<lparr>rc_base = base, rc_r = r\<rparr>)"

definition DigestThrough :: "replayCursor \<Rightarrow> Entry list \<Rightarrow> (u64 \<times> replayCursor) option" where
  "DigestThrough c pre =
     (let back = length pre < rp_next (rc_r c)
      in do {
        r \<leftarrow> if back then NewReplay (rc_base c) else Some (rc_r c);
        r1 \<leftarrow> replay_Apply r pre;
        r2 \<leftarrow> flush r1;
        s \<leftarrow> replay_State r1;
        (case s of (desc, mark, recs) \<Rightarrow>
           Some (StateDigest desc mark recs, if back then c else c\<lparr>rc_r := r2\<rparr>)) })"

definition reference_digest :: "bytes \<Rightarrow> Entry list \<Rightarrow> u64" where
  "reference_digest base pre = (case ReplayMachine base pre of Some (desc, mark, recs) \<Rightarrow> StateDigest desc mark recs)"

text \<open>A cursor has consumed some prefix of the log it is asked about.\<close>

definition cursor_at :: "bytes \<Rightarrow> Entry list \<Rightarrow> replayCursor \<Rightarrow> bool" where
  "cursor_at base seen c \<longleftrightarrow> rc_base c = base \<and> replay_ok (rc_r c) \<and> rp_next (rc_r c) = length seen \<and>
     (\<exists>r0. NewReplay base = Some r0 \<and> sm_of (rc_r c) = foldl sm_step (sm_of r0) seen)"

lemma cursor_new: "stateDigest base = Some c \<Longrightarrow> cursor_at base [] c"
  using NewReplay_ok by (auto simp: stateDigest_def cursor_at_def split: option.splits)

lemma DigestThrough_exact:
  assumes "cursor_at base seen c" "prefix seen pre \<or> prefix pre seen"
  obtains c' seen' where "DigestThrough c pre = Some (reference_digest base pre, c')" "cursor_at base seen' c'"
    "seen' = (if length pre < length seen then seen else pre)"
proof -
  obtain r0 where r0: "NewReplay base = Some r0" "sm_of (rc_r c) = foldl sm_step (sm_of r0) seen"
    and c: "rc_base c = base" "replay_ok (rc_r c)" "rp_next (rc_r c) = length seen"
    using assms(1) by (auto simp: cursor_at_def)
  note new = NewReplay_ok [OF r0(1)]
  define r where "r = (if length pre < length seen then r0 else rc_r c)"
  have r: "replay_ok r" "foldl sm_step (sm_of r) (drop (rp_next r) pre) = foldl sm_step (sm_of r0) pre"
    "max (rp_next r) (length pre) = length pre"
    using assms(2) c new r0(2) by (auto simp: r_def prefix_def)
  obtain q where q: "replay_Apply r pre = Some q" "replay_ok q" "sm_of q = foldl sm_step (sm_of r0) pre" "rp_next q = length pre"
    using replay_Apply_refines [OF r(1), of pre] unfolding r(2,3) by blast
  obtain q' where q': "flush q = Some q'" "replay_ok q'" "sm_of q' = sm_of q" "rp_next q' = rp_next q"
    using noop_flush [OF q(2)] by blast
  have s: "replay_State q = ReplayMachine base pre"
    unfolding replay_State_sm [OF q(2)] ReplayMachine_sm [OF r0(1)] q(3) Let_def ..
  obtain desc mark recs where m: "ReplayMachine base pre = Some (desc, mark, recs)"
    unfolding ReplayMachine_sm [OF r0(1)] Let_def by blast
  have "DigestThrough c pre = Some (reference_digest base pre, if length pre < length seen then c else c\<lparr>rc_r := q'\<rparr>)"
    using q(1) r0(1) c q'(1) s m by (auto simp: DigestThrough_def Let_def r_def reference_digest_def split: if_splits)
  moreover have "cursor_at base pre (c\<lparr>rc_r := q'\<rparr>)" using q' q c(1) r0(1) by (simp add: cursor_at_def)
  ultimately show ?thesis using assms(1) that by (cases "length pre < length seen") auto
qed

section \<open>The snapshot oracle is exact\<close>

lemma those_map: "those (map f xs) = Some ys \<longleftrightarrow> map f xs = map Some ys"
  by (induction xs arbitrary: ys) (auto split: option.splits simp: Cons_eq_map_conv)

lemma last_at_below: "i \<le> k \<Longrightarrow> last_at i (filter (\<lambda>e. e_Index e \<le> k) es) = last_at i es"
proof (induction es rule: rev_induct)
  case (snoc e es)
  then show ?case by (auto simp: last_at_def)
qed (simp add: last_at_def)

lemma committedPrefix_iff:
  "committedPrefix l k = Some pre \<longleftrightarrow> map (\<lambda>i. last_at i (Committed l)) [1..<Suc k] = map Some pre"
proof -
  have e: "map (\<lambda>i. last_at i (filter (\<lambda>e. e_Index e \<le> k) (Committed l))) [1..<Suc k] = map (\<lambda>i. last_at i (Committed l)) [1..<Suc k]"
    by (rule map_cong) (auto simp: last_at_below)
  show ?thesis
  proof (cases "k = 0")
    case False
    then show ?thesis unfolding committedPrefix_def e by (simp only: if_False those_map)
  qed (auto simp: committedPrefix_def)
qed

lemma committedPrefix_chain:
  assumes "committedPrefix l i = Some p" "committedPrefix l j = Some q"
  shows "prefix p q \<or> prefix q p"
proof -
  have le: "prefix p q" if "committedPrefix l i = Some p" "committedPrefix l j = Some q" "i \<le> j" for i j p q
  proof -
    have "[1..<Suc i] = take i [1..<Suc j]" using that(3) by (simp add: take_upt del: upt_Suc)
    then have "map Some p = take i (map Some q)"
      using that(1,2) unfolding committedPrefix_iff by (simp only: take_map flip: that(1,2) [unfolded committedPrefix_iff])
    then have "map Some p = map Some (take i q)" by (simp add: take_map)
    then show ?thesis by (simp add: take_is_prefix)
  qed
  show ?thesis using le [OF assms] le [OF assms(2,1)] by (cases "i \<le> j") auto
qed

definition honest :: "rangeLedger \<Rightarrow> nat \<Rightarrow> u64 \<Rightarrow> bool" where
  "honest l i d \<longleftrightarrow> (\<exists>pre. committedPrefix l i = Some pre \<and> d = reference_digest (rl_base l) pre)"

definition se_remembers :: "rangeLedger \<Rightarrow> u64 \<Rightarrow> replayCursor seState \<Rightarrow> bool" where
  "se_remembers l rng st \<longleftrightarrow>
     (\<forall>c. se_cursors st rng = Some c \<longrightarrow> (\<exists>j seen. committedPrefix l j = Some seen \<and> cursor_at (rl_base l) seen c)) \<and>
     (\<forall>i d. se_digests st (rng, i) = Some d \<longrightarrow> honest l i d) \<and> (\<forall>n i d. (rng, n, i, d) \<in> set (se_done st) \<longrightarrow> honest l i d)"

abbreviation hunt_verdict :: "u64 \<Rightarrow> rangeLedger \<Rightarrow> snapRecord \<Rightarrow> replayCursor seState \<Rightarrow> violation option \<times> replayCursor seState" where
  "hunt_verdict \<equiv> snap_verdict (\<lambda>b. the (stateDigest b)) (\<lambda>c p. the (DigestThrough c p))"

lemma hunt_digest:
  assumes "se_remembers l rng st" "NewReplay (rl_base l) = Some r0" "committedPrefix l i = Some pre"
  obtains c where "the (DigestThrough (case se_cursors st rng of Some c \<Rightarrow> c | None \<Rightarrow> the (stateDigest (rl_base l))) pre) =
      (reference_digest (rl_base l) pre, c)"
    "\<exists>j seen. committedPrefix l j = Some seen \<and> cursor_at (rl_base l) seen c"
proof -
  obtain c0 where c0: "stateDigest (rl_base l) = Some c0" using assms(2) by (simp add: stateDigest_def)
  define c where "c = (case se_cursors st rng of Some c \<Rightarrow> c | None \<Rightarrow> the (stateDigest (rl_base l)))"
  have "\<exists>j seen. committedPrefix l j = Some seen \<and> cursor_at (rl_base l) seen c"
  proof (cases "se_cursors st rng")
    case None
    have "committedPrefix l 0 = Some []" by (simp add: committedPrefix_def)
    then show ?thesis using cursor_new [OF c0] None c0 by (auto simp: c_def)
  next
    case (Some x)
    then show ?thesis using assms(1) by (simp add: se_remembers_def c_def)
  qed
  then obtain j seen where c: "committedPrefix l j = Some seen" "cursor_at (rl_base l) seen c" by blast
  have "prefix seen pre \<or> prefix pre seen" using committedPrefix_chain [OF c(1) assms(3)] .
  from DigestThrough_exact [OF c(2) this] obtain c' seen' where
    "DigestThrough c pre = Some (reference_digest (rl_base l) pre, c')" "cursor_at (rl_base l) seen' c'"
    "seen' = (if length pre < length seen then seen else pre)" .
  then show ?thesis using that [of c'] c(1) assms(3) by (cases "length pre < length seen") (auto simp: c_def)
qed

lemma hunt_step:
  assumes "se_remembers l rng st" "NewReplay (rl_base l) = Some r0" "hunt_verdict rng l s st = (v, st')"
  shows "(v = None \<longleftrightarrow> (\<forall>pre. committedPrefix l (sn_Index (sr_rec s)) = Some pre \<longrightarrow> honest l (sn_Index (sr_rec s)) (sn_Digest (sr_rec s)))) \<and>
    (v = None \<longrightarrow> se_remembers l rng st')"
proof -
  let ?i = "sn_Index (sr_rec s)" and ?d = "sn_Digest (sr_rec s)"
  let ?k = "(rng, sr_node s, ?i, ?d)"
  have hon: "honest l ?i ?d \<longleftrightarrow> ?d = reference_digest (rl_base l) pre" if "committedPrefix l ?i = Some pre" for pre
    using that by (simp add: honest_def)
  consider (again) "?k \<in> set (se_done st)" | (skip) "?k \<notin> set (se_done st)" "committedPrefix l ?i = None"
    | (memo) pre d where "?k \<notin> set (se_done st)" "committedPrefix l ?i = Some pre" "se_digests st (rng, ?i) = Some d"
    | (run) pre where "?k \<notin> set (se_done st)" "committedPrefix l ?i = Some pre" "se_digests st (rng, ?i) = None" by fastforce
  then show ?thesis
  proof cases
    case again
    then show ?thesis using assms(1,3) by (auto simp: snap_verdict_def Let_def se_remembers_def)
  next
    case skip
    then show ?thesis using assms(1,3) by (auto simp: snap_verdict_def Let_def)
  next
    case memo
    have "honest l ?i d" using assms(1) memo(3) unfolding se_remembers_def by blast
    then have "d = reference_digest (rl_base l) pre" using memo(2) by (simp add: honest_def)
    then show ?thesis using assms(1,3) memo hon [OF memo(2)] by (auto simp: snap_verdict_def Let_def se_remembers_def)
  next
    case run
    obtain c where c: "the (DigestThrough (case se_cursors st rng of Some c \<Rightarrow> c | None \<Rightarrow> the (stateDigest (rl_base l))) pre) =
        (reference_digest (rl_base l) pre, c)" "\<exists>j seen. committedPrefix l j = Some seen \<and> cursor_at (rl_base l) seen c"
      by (rule hunt_digest [OF assms(1,2) run(2)])
    let ?g = "reference_digest (rl_base l) pre"
    have st': "st' = st\<lparr>se_cursors := (se_cursors st)(rng \<mapsto> c), se_digests := (se_digests st)((rng, ?i) \<mapsto> ?g), se_done := ?k # se_done st\<rparr>"
      "v = None \<longleftrightarrow> ?g = ?d" using assms(3) run c(1) by (auto simp: snap_verdict_def Let_def split: if_splits)
    have "honest l ?i ?g" using run(2) by (simp add: honest_def)
    then have "se_remembers l rng st'" if "?g = ?d"
      using assms(1) c(2) that unfolding se_remembers_def st'(1) by (simp split: if_splits)
    then show ?thesis using st'(2) hon [OF run(2)] run(2) by auto
  qed
qed

definition snapshots_honest :: "rangeLedger \<Rightarrow> snapRecord list \<Rightarrow> bool" where
  "snapshots_honest l ss \<longleftrightarrow> (\<forall>s \<in> set ss. \<forall>pre. committedPrefix l (sn_Index (sr_rec s)) = Some pre \<longrightarrow>
     sn_Digest (sr_rec s) = reference_digest (rl_base l) pre)"

lemma hunt_loop:
  assumes "se_remembers l rng st" "NewReplay (rl_base l) = Some r0"
  shows "fst (loop_some (hunt_verdict rng l) ss st) = None \<longleftrightarrow> snapshots_honest l ss"
  using assms(1)
proof (induction ss arbitrary: st)
  case (Cons s ss)
  obtain v st' where v: "hunt_verdict rng l s st = (v, st')" by fastforce
  from hunt_step [OF Cons.prems assms(2) v]
  have h: "v = None \<longleftrightarrow> (\<forall>pre. committedPrefix l (sn_Index (sr_rec s)) = Some pre \<longrightarrow> sn_Digest (sr_rec s) = reference_digest (rl_base l) pre)"
    "v = None \<Longrightarrow> se_remembers l rng st'" by (auto simp: honest_def)
  show ?case
  proof (cases v)
    case None
    then show ?thesis using h v Cons.IH [of st'] by (simp add: snapshots_honest_def)
  next
    case (Some x)
    then show ?thesis using h(1) v by (auto simp: snapshots_honest_def)
  qed
qed (simp add: snapshots_honest_def)

definition se_new :: "replayCursor seState" where
  "se_new = \<lparr>se_cursors = Map.empty, se_digests = Map.empty, se_done = []\<rparr>"

lemma se_remembers_new: "se_remembers l rng se_new"
  by (simp add: se_remembers_def se_new_def)

text \<open>The digest a replica records is the one the replay of its entries has.\<close>

lemma replica_digest:
  assumes "apply_ok n [] m" "d_ID (n_desc n) = n_rng n" "splits_meet es"
    "decodeMachine base = Some (n_desc n, gcMark (n_mvcc n), machine_versions n m)"
    "apply_entries at es (n, NewBatch, m) = Some (n', mb, m')" "flushApply mb m' = Some (mb', m'')"
  shows "StateDigest (n_desc n') (gcMark (n_mvcc n')) (machine_versions n' m'') = reference_digest base es"
proof -
  obtain r where r: "NewReplay base = Some r" "sm_of r = view_of n [] m"
    using replica_base [OF assms(1,2,4)] by blast
  note v = apply_and_flush [OF assms(1,3,5,6)]
  have "machine_versions n' m'' = Records (mem (sm_es (view_of n' [] m''))) (bare (view_of n' [] m''))"
    using same_view_reads(6) [OF same_view_of [OF v(1)]] by (simp add: machine_versions_def)
  then have "ReplayMachine base es = Some (n_desc n', gcMark (n_mvcc n'), machine_versions n' m'')"
    unfolding ReplayMachine_sm [OF r(1)] r(2) v(2) [symmetric] Let_def by (simp add: view_of_def)
  then show ?thesis by (simp add: reference_digest_def)
qed

definition taken_by_replica :: "bytes \<Rightarrow> Entry list \<Rightarrow> u64 \<Rightarrow> bool" where
  "taken_by_replica base es d \<longleftrightarrow> (\<exists>n m at n' mb m' mb' m''. apply_ok n [] m \<and> d_ID (n_desc n) = n_rng n \<and> splits_meet es \<and>
     decodeMachine base = Some (n_desc n, gcMark (n_mvcc n), machine_versions n m) \<and>
     apply_entries at es (n, NewBatch, m) = Some (n', mb, m') \<and> flushApply mb m' = Some (mb', m'') \<and>
     d = StateDigest (n_desc n') (gcMark (n_mvcc n')) (machine_versions n' m''))"

definition hunt_check :: "(snapRecord list \<Rightarrow> snapRecord list) \<Rightarrow> u64 \<Rightarrow> rangeLedger \<Rightarrow> replayCursor seState \<Rightarrow> violation option \<times> replayCursor seState" where
  "hunt_check sortSnaps = SnapshotEquivalence_check sortSnaps (\<lambda>b. the (stateDigest b)) (\<lambda>c p. the (DigestThrough c p))"

text \<open>C10: The snapshot oracle, with the harness's cursor and memo, is exact, and accepts the replicas' own
  snapshots.  For a range with a birth state it is silent precisely when every recorded snapshot whose
  committed prefix was witnessed has the digest of a replay of that prefix from the start, in whatever
  order the snapshots come and however often the cursor restarts; and a digest a replica computes after
  starting from the birth state and applying that prefix is one it accepts.\<close>

theorem snapshot_oracle_exact:
  assumes "NewReplay (rl_base l) = Some r0" "set (sortSnaps (rl_snaps l)) = set (rl_snaps l)"
  shows "(fst (hunt_check sortSnaps rng l se_new) = None \<longleftrightarrow> snapshots_honest l (rl_snaps l)) \<and>
    ((\<forall>s \<in> set (rl_snaps l). \<forall>pre. committedPrefix l (sn_Index (sr_rec s)) = Some pre \<longrightarrow>
        taken_by_replica (rl_base l) pre (sn_Digest (sr_rec s))) \<longrightarrow>
     fst (hunt_check sortSnaps rng l se_new) = None)"
proof -
  have e: "fst (hunt_check sortSnaps rng l se_new) = None \<longleftrightarrow> snapshots_honest l (rl_snaps l)"
    unfolding hunt_check_def SnapshotEquivalence_check_def hunt_loop [OF se_remembers_new assms(1)]
    by (simp add: snapshots_honest_def assms(2))
  have "d = reference_digest base es" if "taken_by_replica base es d" for base es d
    using that replica_digest unfolding taken_by_replica_def by metis
  then show ?thesis unfolding e by (auto simp: snapshots_honest_def)
qed

definition demo_range :: "u64 \<Rightarrow> rangeLedger" where
  "demo_range d = (new_range 1 3)\<lparr>rl_base := birth, rl_committed := [\<lparr>cr_entry = demo_put, cr_node = 0, cr_at = 5\<rparr>],
     rl_snaps := [\<lparr>sr_node = 0, sr_rec = \<lparr>sn_Index = 1, sn_Term = 1, sn_Digest = d, sn_Taken = True\<rparr>, sr_at = 6\<rparr>]\<rparr>"

theorem snapshot_oracle_exact_witness:
  "\<exists>d. taken_by_replica birth [demo_put] d \<and> committedPrefix (demo_range d) 1 = Some [demo_put] \<and>
     fst (hunt_check (\<lambda>ss. ss) 1 (demo_range d) se_new) = None"
proof -
  have base: "decodeMachine birth = Some (n_desc demo_replica, gcMark (n_mvcc demo_replica), machine_versions demo_replica demo_machine)"
    unfolding demo_state(6,7) demo_versions by (rule birth_decodes)
  have own: "d_ID (n_desc demo_replica) = n_rng demo_replica"
    by (simp add: demo_state FirstRangeDescriptor_def FirstRange_def)
  have sp: "splits_meet [demo_put]" using demo_put_plain by (simp add: splits_meet_def)
  obtain n1 b1 m1 q where a: "apply_entries 0 [demo_put] (demo_replica, NewBatch, demo_machine) = Some (n1, b1, m1)"
    "flushApply b1 m1 = Some ([], q)" using demo_put_run [OF demo_ok, of "[demo_put]" 0] by auto
  define d where "d = StateDigest (n_desc n1) (gcMark (n_mvcc n1)) (machine_versions n1 q)"
  have t: "taken_by_replica birth [demo_put] d" unfolding taken_by_replica_def d_def using demo_ok own sp base a by blast
  obtain r0 where r0: "NewReplay birth = Some r0" using replica_base [OF demo_ok own base] by blast
  have p: "committedPrefix (demo_range d) 1 = Some [demo_put]"
    by (simp add: committedPrefix_def demo_range_def Committed_def last_at_def demo_put_def)
  from snapshot_oracle_exact [of "demo_range d" r0 "\<lambda>ss. ss" 1] show ?thesis
    using r0 t p by (auto simp: demo_range_def)
qed

section \<open>Reads of the driver\<close>

lemma getTxn_loop_uncertain: "getTxn_loop ns key readTS ceiling es = Inl c \<Longrightarrow> readTS < c \<and> c \<le> ceiling"
  by (induction es) (auto split: option.splits if_splits)

lemma GetTxn_outcome:
  "fst (GetTxn db key readTS ceiling s) = Inl (UncertaintyError k t c) \<Longrightarrow> readTS < c \<and> c \<le> ceiling"
  "fst (GetTxn db key readTS ceiling s) = Inl (LockedError k l) \<Longrightarrow> l_StartTS l \<le> readTS"
  by (auto simp: GetTxn_def Let_def split: if_splits option.splits sum.splits dest: getTxn_loop_uncertain)

text \<open>C18: A transactional read recorded by the driver passes the oracle of the uncertainty interval and names no
  lock from above its snapshot.  Whatever the store holds, the fact recorded is the read the command
  asked for; when the command names no ceiling, or one inside the interval the plan allows, and the
  commit it met is not at the end of time, the oracle has no objection to it.\<close>

theorem driver_reads_stay_in_envelope:
  assumes "readTxn c e at n m = (res, n', m')" "nc_Ledger (nd_cfg m)" 
    "IsSet (x_MaxTS c) \<longrightarrow> x_MaxTS c \<le> UncertaintyCeiling (x_ReadTS c) (nc_MaxOffset (nd_cfg m))"
    "sint (Wall (tx_CommitTS res)) < 2 ^ 63 - 1"
  shows "\<exists>r. m' = emit (Witnessed (RecordTxnRead r)) m \<and> tr_Key r = x_Key c \<and> tr_At r = x_ReadTS c \<and>
    envelope_verdict (nc_MaxOffset (nd_cfg m)) r = None \<and> (tr_Locked r \<longrightarrow> tr_LockStartTS r \<le> tr_At r)"
proof -
  define top where "top = UncertaintyCeiling (x_ReadTS c) (nc_MaxOffset (nd_cfg m))"
  define ceiling where "ceiling = (if IsSet (x_MaxTS c) then x_MaxTS c else UncertaintyCeiling (x_ReadTS c) (nc_MaxOffset (nd_cfg m)))"
  obtain g s where g: "GetTxn (node_db m) (x_Key c) (x_ReadTS c) ceiling (n_mvcc n) = (g, s)" by fastforce
  have top: "ceiling \<le> top" "Timestamp (Wall_Add (Wall (x_ReadTS c)) (nc_MaxOffset (nd_cfg m))) 0 = top"
    using assms(3) by (auto simp: ceiling_def top_def UncertaintyCeiling_def)
  note run = assms(1) [unfolded readTxn_def, folded ceiling_def, unfolded Let_def g prod.case]
  have res: "res = txn_result ceiling g" using run by simp
  define r where "r = \<lparr>tr_Range = n_rng n, tr_Node = nc_Ordinal (nd_cfg m), tr_Index = e_Index e,
    tr_Key = x_Key c, tr_At = x_ReadTS c, tr_StartTS = x_StartTS c, tr_Value = tx_Value res, tr_Found = tx_Found res,
    tr_Locked = tx_Locked res, tr_LockPrimary = tx_LockPrimary res, tr_LockStartTS = tx_LockStartTS res,
    tr_Uncertain = tx_Uncertain res, tr_CommitTS = tx_CommitTS res, tr_RestartAt = tx_RestartAt res, tr_Ceiling = ceiling,
    tr_Refused = tx_Refused res, tr_When = at\<rparr>"
  have m': "m' = emit (Witnessed (RecordTxnRead r)) m"
    using run assms(2) by (auto simp: witness_def r_def res)
  have unc: "x_ReadTS c < tx_CommitTS res \<and> tx_CommitTS res \<le> ceiling \<and> tx_CommitTS res < tx_RestartAt res" if u: "tx_Uncertain res"
  proof -
    obtain k t x where x: "g = Inl (UncertaintyError k t x)"
      using u unfolding res by (auto simp: txn_result_def noResult_def Let_def split: sum.splits option.splits kv_error.splits)
    then have v: "tx_CommitTS res = x" "tx_RestartAt res = RestartAt x" by (simp_all add: res txn_result_def Let_def)
    have "x_ReadTS c < x" "x \<le> ceiling" using GetTxn_outcome(1) [of "node_db m" "x_Key c" "x_ReadTS c" ceiling "n_mvcc n" k t x] g x by auto
    moreover have "x < RestartAt x" unfolding RestartAt_def using assms(4) v(1) by (intro Next_greater) simp
    ultimately show ?thesis using v by simp
  qed
  have lock: "tx_LockStartTS res \<le> x_ReadTS c" if u: "tx_Locked res"
  proof -
    obtain k l where x: "g = Inl (LockedError k l)"
      using u unfolding res by (auto simp: txn_result_def noResult_def Let_def split: sum.splits option.splits kv_error.splits)
    then have "tx_LockStartTS res = l_StartTS l" by (simp add: res txn_result_def Let_def)
    then show ?thesis using GetTxn_outcome(2) [of "node_db m" "x_Key c" "x_ReadTS c" ceiling "n_mvcc n" k l] g x by simp
  qed
  have "envelope_verdict (nc_MaxOffset (nd_cfg m)) r = None"
    using unc top(1) by (auto simp: envelope_verdict_def Let_def r_def top(2) not_less)
  then show ?thesis using m' lock by (auto simp: r_def)
qed

definition demo_get :: TxnCommand where
  "demo_get = \<lparr>x_Op = OpTxnGet, x_Key = [7], x_Value = [], x_Primary = [], x_StartTS = Timestamp 60 0, x_CommitTS = zeroTS,
     x_Deadline = zeroTS, x_Status = TxnPending, x_ReadTS = Timestamp 60 0, x_Origin = 0, x_ExpireAt = zeroTS, x_MaxTS = Timestamp 120 0\<rparr>"

definition demo_bank :: Node where
  "demo_bank = demo_machine\<lparr>nd_db := (nd_db demo_machine)\<lparr>tk_db := bank_db\<rparr>\<rparr>"

lemma demo_bank_config: "nc_Ledger (nd_cfg demo_bank)" "nc_MaxOffset (nd_cfg demo_bank) = 100"
  by code_simp+

theorem driver_reads_stay_in_envelope_witness:
  "\<exists>r. snd (snd (readTxn demo_get demo_put 5 (demo_replica\<lparr>n_mvcc := NewStore [1]\<rparr>) demo_bank)) = emit (Witnessed (RecordTxnRead r)) demo_bank \<and>
     envelope_verdict 100 r = None \<and> tx_CommitTS (fst (readTxn demo_get demo_put 5 (demo_replica\<lparr>n_mvcc := NewStore [1]\<rparr>) demo_bank)) = Timestamp 100 0"
proof -
  let ?n = "demo_replica\<lparr>n_mvcc := NewStore [1]\<rparr>"
  obtain res n' m' where run: "readTxn demo_get demo_put 5 ?n demo_bank = (res, n', m')" by (metis surj_pair)
  have "fst (GetTxn (node_db demo_bank) (x_Key demo_get) (x_ReadTS demo_get) (x_MaxTS demo_get) (n_mvcc ?n)) =
      Inl (UncertaintyError [7] (Timestamp 60 0) (Timestamp 100 0))"
    using bank_uncertain by (simp add: demo_bank_def demo_get_def)
  moreover have "IsSet (x_MaxTS demo_get)" by (simp add: demo_get_def IsSet_def Wall_IsSet_def)
  ultimately have c: "tx_CommitTS res = Timestamp 100 0"
    using run by (auto simp: readTxn_def txn_result_def Let_def split: prod.splits)
  have "x_MaxTS demo_get \<le> UncertaintyCeiling (x_ReadTS demo_get) 100" by code_simp
  then show ?thesis
    using driver_reads_stay_in_envelope [OF run demo_bank_config(1)] c run unfolding demo_bank_config(2) by auto
qed

end
