(* ===== verification/Spec2Isabelle.thy ===== *)
theory Spec2Isabelle
  imports Raft_Machine Txn_Snapshot Driver_Inv Driver_Cut Oracle_Driver
begin

text \<open>
  Verification of Rift, a replicated, range-partitioned, transactional key-value database in Go
  (sources under \<^verbatim>\<open>src/\<close>).

  \<^bold>\<open>The program.\<close>  A node runs one Raft group per key range (\<^verbatim>\<open>raft/raft.go\<close>).  Raft hands its driver
  work to persist and messages to send through \<^verbatim>\<open>Ready\<close>; the driver writes to a storage engine
  (interface and reference model under \<^verbatim>\<open>engine/\<close>), reports what became durable, and applies
  committed entries to the range's state machine (\<^verbatim>\<open>store/\<close>).  The state machine is a
  multi-version store with Percolator-style transactions (\<^verbatim>\<open>kv/\<close>), stamped by a hybrid logical
  clock (\<^verbatim>\<open>hlc/\<close>).  A machine (\<^verbatim>\<open>store/machine.go\<close>) hosts its replicas (\<^verbatim>\<open>store/node.go\<close>) over one engine,
  splits ranges, and recovers them after a crash.  What the drivers witness goes into a run ledger
  (\<^verbatim>\<open>raftcheck/ledger.go\<close>), and oracles (\<^verbatim>\<open>raftcheck/oracles.go\<close>) judge it.  Everything that travels or is stored goes through the codecs of
  \<^verbatim>\<open>store/codec.go\<close>, \<^verbatim>\<open>store/range.go\<close>, \<^verbatim>\<open>store/txncmd.go\<close> and \<^verbatim>\<open>kv/encoding.go\<close>.

  \<^bold>\<open>The theories.\<close>

  \<^item> \<open>Rift_Prelude\<close>: bytes, big-endian integers, byte-string order, binary search, option monad.
    \<open>Wire\<close>: integers and length-prefixed strings, and the contract \<open>wire_format\<close> that every
    format of the system is an interpretation of.

  \<^item> \<open>Hlc\<close> (\<^verbatim>\<open>hlc/hlc.go\<close>, readings of \<^verbatim>\<open>clock/clock.go\<close>): timestamps and the clock at machine
    width, with wrap-around in the model; the physical clock's readings are arguments.  A clock's
    timestamps strictly increase while the counters it holds and receives are far enough from the
    topmost slot for the number of calls, clocks of different nodes never mint the same one, an update
    beyond the envelope is refused, and the exact condition under which the tagged successor wraps.

  \<^item> \<open>Engine\<close> (\<^verbatim>\<open>engine/batch.go\<close>, \<^verbatim>\<open>engine/model/model.go\<close>, \<^verbatim>\<open>engine/model/iter.go\<close>): the reference
    engine with pending and durable versions, crash, snapshots and iterators.  It refines a log of
    batches, and an iterator scan is exactly the filtered content.

  \<^item> \<open>Raft_Conf\<close>, \<open>Raft_State\<close>, \<open>Raft_Ops\<close> (\<^verbatim>\<open>raft/raft.go\<close>): membership and its codecs; the node
    record with its log, durability marks and gated messages; every handler and entry point
    (\<open>Step\<close>, \<open>Tick\<close>, \<open>Propose\<close>, \<open>ready\<close>, the acknowledgements, \<open>Restore\<close> and so on).  A Go panic is
    \<open>None\<close>.  Terms, indexes and marks are natural numbers; node ids and codec fields are words.
    \<open>Raft_Steps\<close> and \<open>Raft_Inv\<close> decompose every operation into the primitive changes \<open>micro\<close> and
    prove the node invariant once per primitive, and that a count of votes or acknowledgements that
    reaches \<open>quorum\<close> is a majority of the configuration (\<open>counted_quorum\<close>).  \<open>Raft_Node\<close>,
    \<open>Raft_Safety\<close>: consequences for every live node: the log has no gap, marks never panic, appends
    are well formed, and a term, a vote within a term and the committed prefix never go back.  A live
    node takes any message except an append whose entries are not consecutive after the index it
    extends (\<open>msg_wf\<close>); no live node sends such an append.

  \<^item> \<open>Raft_Disk\<close>, \<open>Raft_Machine\<close>: a node together with a disk that completes its writes later and
    loses what it has not completed at a crash; the log and snapshot a recovery finds are arbitrary.
    Whatever a released message says of the sender's term or vote is on the disk, so a restarted
    node has not forgotten it, and its vote grants within a term all go to one candidate.

  \<^item> \<open>Mvcc_Keys\<close>, \<open>Mvcc\<close> (\<^verbatim>\<open>kv/encoding.go\<close>, \<^verbatim>\<open>kv/store.go\<close>): engine keys that sort a key's versions
    newest first; versioned reads, collection, and snapshots of the state machine.  The engine is an
    argument of the operations that read it, and writes are staged into a batch.  Reads return the
    newest version at or before their timestamp, collection removes the versions below a newer one
    strictly below the mark and changes no versioned read above it, and ingesting records replaces exactly the state machine's keys.

  \<^item> \<open>Txn\<close> (\<^verbatim>\<open>kv/txn.go\<close>, \<^verbatim>\<open>kv/read.go\<close>, \<^verbatim>\<open>kv/resolve.go\<close>): prewrite, commit, rollback, transaction
    records, read marks, snapshot reads and lock resolution.  The read is characterised on every
    branch by \<open>snapshot_answer\<close>, restarts converge, and collection by start timestamp is shown to
    orphan a commit that a read above the mark still needs.

  \<^item> \<open>Store_Codec\<close> (\<^verbatim>\<open>store/codec.go\<close>, \<^verbatim>\<open>store/range.go\<close>, \<^verbatim>\<open>store/txncmd.go\<close>): formats of messages,
    entries, hard state, snapshots, commands, descriptors and the whole state machine, with round
    trips, and the disjointness of the engine keys of a range.

  \<^item> \<open>Replay\<close> (\<^verbatim>\<open>store/replay.go\<close>): the apply path of a range's log.  \<open>sm_step\<close> is the abstract state
    machine, in which every command takes effect at its position; the replay, with its engine,
    batch and flushes, refines it.

  \<^item> \<open>Txn_Log\<close>, \<open>Txn_Snapshot\<close>: what every log promises.  A decision is final; a lock is released only
    by its owner; after a read no earlier-started prewrite lands; and a snapshot, once read, is read
    the same at every later position.  The last is under \<open>follows\<close>, which states what
    coordinators owe: a commit is of a transaction that holds the lock or repeats a recorded one, a
    rollback is of a transaction that has not committed the key.

  \<^item> \<open>Frames\<close> (\<^verbatim>\<open>sim/codec.go\<close>, \<^verbatim>\<open>net/frame.go\<close>, \<^verbatim>\<open>net/clientwire.go\<close>): envelopes, frames on a stream and
    client requests.  The decoders accept exactly what the encoders write, and a frame between the two
    size limits is written and then refused.

  \<^item> \<open>Driver_State\<close>, \<open>Driver_Apply\<close>, \<open>Driver_Node\<close> (\<^verbatim>\<open>store/node.go\<close>, \<^verbatim>\<open>store/machine.go\<close>, \<^verbatim>\<open>store/txnapply.go\<close>,
    \<^verbatim>\<open>store/engine.go\<close>, \<^verbatim>\<open>sim/epoch.go\<close>): the driver as functions on a replica and its machine.  What leaves the
    machine (messages, timers, client answers, ledger facts) is a list of effects in the order it is
    produced; a panic is \<open>None\<close>.  Readings of the physical clock and of the election jitter are
    parameters, the answer of the k-th call; the timestamp source is the default one; engine
    iterators do not fail; instants are unbounded integers.

  \<^item> \<open>Driver_Refine\<close>, \<open>Driver_Log\<close>: the apply path refines the abstract state machine of \<open>Replay\<close> through
    \<open>view_of\<close>, whatever the batching, so a replica's state after a run of entries is the replay's,
    and a snapshot plus the tail is the whole log.  \<open>Driver_Split\<close>: a split gives every record to one
    half and changes no versioned read.  \<open>Driver_Cut\<close>: the order in which the keys are scanned is
    length first, and a range in which half of the keys are shorter than the least one is split into
    an empty half and one that holds every key.  \<open>Driver_Inv\<close>: \<open>machine_run\<close> starts a machine and moves it by any events,
    crashes and restarts (\<open>machine_moves\<close>), with no condition on them.  Every machine on it is
    well-formed, hosts no range twice as long as no restart reads a range back twice, and a restart
    hosts the descriptors it finds in the engine.

  \<^item> \<open>Ledger\<close> (\<^verbatim>\<open>raftcheck/ledger.go\<close>): the witnessed facts per range and per run, every recording method and
    the questions asked of them.

  \<^item> \<open>Oracles\<close>, \<open>Txn_Oracles\<close> (\<^verbatim>\<open>raftcheck/oracles.go\<close>): every oracle, with the memory it keeps between
    steps, the skip when the ledger has not changed, and the loop over ranges.  The functions the harness
    supplies are arguments.  \<open>watch\<close> is a run with an oracle that looks after every batch of facts.

  \<^item> \<open>Oracle_Laws\<close>, \<open>Txn_Oracle_Laws\<close>: what silence says.  The locale \<open>incremental_oracle\<close> states what an
    oracle with a memory owes (it starts by remembering nothing, growth of the ledger keeps what it
    remembers, silence extends it) and proves once that an oracle silent after every step has judged
    everything recorded; persist-before-reply, state machine safety and apply continuity are its
    interpretations.  Persist-before-reply asks only that some vote is durable
    when a vote is granted, not which.  The oracles without a memory, and those over the final state,
    are exact for the property they stand for, log matching apart: its oracle leaves out the command at
    the highest common index, and the theorem states what is missing; the strings they key their maps by are shown to stand for one pair.

  \<^item> \<open>Oracle_Driver\<close> (the cursor of \<^verbatim>\<open>sim/hunt/raftscenario.go\<close>): the snapshot oracle with its cursor and memo is
    exact, and accepts the digests replicas compute; the reads the driver records pass the oracle
    of the uncertainty interval.

  \<^bold>\<open>Fuel and termination.\<close>  No definition takes fuel: loops over lists are structural, \<open>iter_rest\<close>
    terminates because the position grows, and the sequential search and commit loops recurse on
    the number of remaining indexes.

  \<^bold>\<open>Hypotheses.\<close>  \<open>store_ok\<close> and \<open>sm_wf\<close> ask that stored timestamps have nonnegative wall readings and
  that records decode; the operations keep it (\<open>sm_wf_step\<close>).  Lengths are bounded by the formats'
  length prefixes where a format needs it.

  The theorems on the apply path ask of the split entries in a log that the two halves they carry
  meet (\<open>splits_meet\<close>), as every proposed split does.

  \<^bold>\<open>Not modelled.\<close>  The C++ engine and its bindings (another language, behind the engine interface the
  reference model implements); sockets, goroutines and process wiring (\<^verbatim>\<open>net/tcp\<close>, \<^verbatim>\<open>node\<close>, \<^verbatim>\<open>cmd\<close>, \<^verbatim>\<open>chaos\<close>,
  \<^verbatim>\<open>soak\<close>); the simulator's scheduler, whose choices are the sequences of events the theorems
  quantify over; the hunt scenarios apart from the cursor above; benches and tools; and the wording
  of messages and violations.  \<^verbatim>\<open>router\<close> and \<^verbatim>\<open>balancer\<close> hold no code.
\<close>

end
